(* ===== verification/Prelude.thy ===== *)
theory Prelude
  imports Main "HOL-Library.Sublist"
begin

text \<open>
  Shared vocabulary of the development: bytes, results, the collections of facts the
  component theories extend, the two generic interfaces (a machine that keeps an
  invariant, a code with a decoder), and lemmas on lists that several components use.
\<close>

type_synonym bytes = "char list"

type_synonym ('e, 'a) result = "'e + 'a"

named_theorems consume_lems \<open>facts that bound what a read leaves in a stream\<close>

named_theorems wf_lems \<open>preservation of a component's well-formedness\<close>

named_theorems frame_lems \<open>fields that an operation leaves alone\<close>

subsection \<open>Results\<close>

fun and_then :: "('e, 'a) result \<Rightarrow> ('a \<Rightarrow> ('e, 'b) result) \<Rightarrow> ('e, 'b) result" where
  "and_then (Inl e) f = Inl e"
| "and_then (Inr a) f = f a"

fun map_err :: "('e \<Rightarrow> 'f) \<Rightarrow> ('e, 'a) result \<Rightarrow> ('f, 'a) result" where
  "map_err f (Inl e) = Inl (f e)"
| "map_err f (Inr a) = Inr a"

fun ok :: "('e, 'a) result \<Rightarrow> 'a option" where
  "ok (Inl e) = None"
| "ok (Inr a) = Some a"

definition ok_or :: "'e \<Rightarrow> 'a option \<Rightarrow> ('e, 'a) result" where
  "ok_or e x = (case x of None \<Rightarrow> Inl e | Some a \<Rightarrow> Inr a)"

text \<open>\<open>iter().map(f).collect::<Result<Vec<_>, _>>()\<close>: the first error wins.\<close>

fun collect_results :: "('e, 'a) result list \<Rightarrow> ('e, 'a list) result" where
  "collect_results [] = Inr []"
| "collect_results (Inl e # rs) = Inl e"
| "collect_results (Inr a # rs) = map_sum id (\<lambda>as. a # as) (collect_results rs)"

lemma and_then_eq_Inr: "and_then r f = Inr b \<longleftrightarrow> (\<exists>a. r = Inr a \<and> f a = Inr b)"
  by (cases r) auto

lemma and_then_eq_Inl: "and_then r f = Inl e \<longleftrightarrow> r = Inl e \<or> (\<exists>a. r = Inr a \<and> f a = Inl e)"
  by (cases r) auto

lemma collect_results_Inr: "collect_results rs = Inr as \<longleftrightarrow> rs = map Inr as"
proof (induction rs arbitrary: as rule: collect_results.induct)
  case (3 a rs)
  show ?case
  proof (cases "collect_results rs")
    case (Inl e)
    with 3 show ?thesis by (cases as) auto
  next
    case (Inr bs)
    from 3 [of bs] Inr have "rs = map Inr bs" by blast
    with Inr show ?thesis by (cases as) (auto simp: inj_map_eq_map inj_def)
  qed
qed auto

subsection \<open>Calls that may fail and change a state\<close>

text \<open>
  Fallible methods on a mutable object: from a state to a result and the state it leaves.
  \<open>?\<close> is \<open>sbind\<close>: the first error ends the call, in the state it happened in.
\<close>

type_synonym ('s, 'e, 'a) call = "'s \<Rightarrow> ('e, 'a) result \<times> 's"

definition sret :: "'a \<Rightarrow> ('s, 'e, 'a) call" where
  "sret a s = (Inr a, s)"

definition sfail :: "'e \<Rightarrow> ('s, 'e, 'a) call" where
  "sfail e s = (Inl e, s)"

definition sbind :: "('s, 'e, 'a) call \<Rightarrow> ('a \<Rightarrow> ('s, 'e, 'b) call) \<Rightarrow> ('s, 'e, 'b) call" where
  "sbind m f s = (case m s of (Inl e, s') \<Rightarrow> (Inl e, s') | (Inr a, s') \<Rightarrow> f a s')"

definition sthen :: "('s, 'e, 'a) call \<Rightarrow> ('s, 'e, 'b) call \<Rightarrow> ('s, 'e, 'b) call" where
  "sthen m k = sbind m (\<lambda>_. k)"

definition modify :: "('s \<Rightarrow> 's) \<Rightarrow> ('s, 'e, unit) call" where
  "modify f s = (Inr (), f s)"

lemmas sess_defs = sret_def sfail_def sbind_def sthen_def modify_def

fun scall_each :: "('a \<Rightarrow> ('s, 'e, 'b) call) \<Rightarrow> 'a list \<Rightarrow> ('s, 'e, 'b list) call" where
  "scall_each f [] = sret []"
| "scall_each f (x # xs) = sbind (f x) (\<lambda>y. sbind (scall_each f xs) (\<lambda>ys. sret (y # ys)))"

subsection \<open>Lists\<close>

lemma sorted_wrt_filter_le:
  "sorted_wrt (<) (xs :: 'a :: linorder list) \<Longrightarrow> sorted_wrt (<) (filter P xs)"
  by (simp add: sorted_wrt_filter)

lemma filter_eq_take_while_sorted:
  fixes xs :: "'a list" and f :: "'a \<Rightarrow> int"
  assumes "sorted_wrt (\<lambda>x y. f x > f y) xs"
  shows "filter (\<lambda>x. f x < b) xs = dropWhile (\<lambda>x. b \<le> f x) xs"
  using assms
proof (induction xs)
  case (Cons x xs)
  show ?case
  proof (cases "f x < b")
    case True
    with Cons.prems have "\<forall>y \<in> set xs. f y < b" by fastforce
    with True show ?thesis by (simp add: filter_id_conv)
  next
    case False
    with Cons show ?thesis by simp
  qed
qed simp

lemma sorted_wrt_subseq: "subseq xs ys \<Longrightarrow> sorted_wrt R ys \<Longrightarrow> sorted_wrt R xs"
  by (induction rule: list_emb.induct) (auto elim!: list_emb_set)

lemma subseq_set: "subseq xs ys \<Longrightarrow> set xs \<subseteq> set ys"
  by (induction rule: list_emb.induct) auto

lemma subseq_distinct: "subseq xs ys \<Longrightarrow> distinct ys \<Longrightarrow> distinct xs"
  by (induction rule: list_emb.induct) (auto dest: subseq_set)

lemma find_distinct: "distinct (map f xs) \<Longrightarrow> x \<in> set xs \<Longrightarrow> find (\<lambda>y. f y = f x) xs = Some x"
  by (induction xs) (auto simp: image_iff)

lemma map_fst_zip_prefix: "length xs \<le> length ys \<Longrightarrow> map fst (zip xs ys) = xs"
  by (induction xs arbitrary: ys) (auto simp: Suc_le_length_iff)

lemma concat_map_singleton [simp]: "concat (map (\<lambda>x. [x]) xs) = xs"
  by (induction xs) auto

subsection \<open>A machine that keeps an invariant\<close>

text \<open>
  Several components are loops that handle one event after another. The interface fixes
  the handler and a predicate every handled event keeps; its clients get the invariant for
  whole runs.
\<close>

locale kept_invariant =
  fixes step :: "'s \<Rightarrow> 'e \<Rightarrow> 's"
    and inv :: "'s \<Rightarrow> bool"
  assumes step_keeps: "inv s \<Longrightarrow> inv (step s e)"
begin

lemma run_keeps: "inv s \<Longrightarrow> inv (foldl step s es)"
  by (induction es arbitrary: s) (auto intro: step_keeps)

lemma run_keeps_every_prefix: "inv s \<Longrightarrow> inv (foldl step s (take n es))"
  by (rule run_keeps)

end

subsection \<open>A code and its decoder\<close>

locale code_table =
  fixes encode :: "'a \<Rightarrow> 'c"
    and decode :: "'c \<Rightarrow> 'a option"
  assumes decode_encode: "decode (encode a) = Some a"
begin

lemma encode_inj: "encode a = encode b \<longleftrightarrow> a = b"
  by (metis decode_encode option.inject)

lemma decode_Some_unique: "decode c = Some a \<Longrightarrow> decode c = Some b \<Longrightarrow> a = b"
  by simp

end

end
