(* ===== verification/Rust_Str.thy ===== *)
theory Rust_Str
  imports Prelude
begin

text \<open>
  The parts of Rust's standard library for strings and integers that the program uses.
  A \<open>String\<close>, a \<open>&str\<close> and a \<open>Vec<u8>\<close> are all lists of bytes (\<open>bytes\<close>), a string
  holding the UTF-8 encoding of its characters, so that \<open>len\<close> and slicing count bytes as
  the program does. A character is the list of bytes that encodes it (\<open>chars\<close>).
\<close>

abbreviation byte :: "char \<Rightarrow> nat" where
  "byte c \<equiv> of_char c"

abbreviation LF :: char where "LF \<equiv> CHR 0x0A"

abbreviation CR :: char where "CR \<equiv> CHR 0x0D"

subsection \<open>UTF-8\<close>

definition cont_byte :: "char \<Rightarrow> bool" where
  "cont_byte c \<longleftrightarrow> 128 \<le> byte c \<and> byte c \<le> 191"

text \<open>Which second byte may follow a lead byte, by the lead byte.\<close>

definition second_ok :: "char \<Rightarrow> char \<Rightarrow> bool" where
  "second_ok b c =
     (if byte b = 224 then 160 \<le> byte c \<and> byte c \<le> 191
      else if byte b = 237 then 128 \<le> byte c \<and> byte c \<le> 159
      else if byte b = 240 then 144 \<le> byte c \<and> byte c \<le> 191
      else if byte b = 244 then 128 \<le> byte c \<and> byte c \<le> 143
      else cont_byte c)"

text \<open>
  The next piece of a byte string: whether it is a whole character, and its length. A piece
  that is not is the longest prefix a character could have started with, as \<open>Utf8Chunks\<close>
  cuts it.
\<close>

definition utf8_step :: "char \<Rightarrow> bytes \<Rightarrow> bool \<times> nat" where
  "utf8_step b rest =
     (if byte b < 128 then (True, 1)
      else if 194 \<le> byte b \<and> byte b \<le> 223 then
        (case rest of c1 # _ \<Rightarrow> if cont_byte c1 then (True, 2) else (False, 1) | [] \<Rightarrow> (False, 1))
      else if 224 \<le> byte b \<and> byte b \<le> 239 then
        (case rest of
           c1 # r1 \<Rightarrow>
             if second_ok b c1 then
               (case r1 of c2 # _ \<Rightarrow> if cont_byte c2 then (True, 3) else (False, 2) | [] \<Rightarrow> (False, 2))
             else (False, 1)
         | [] \<Rightarrow> (False, 1))
      else if 240 \<le> byte b \<and> byte b \<le> 244 then
        (case rest of
           c1 # r1 \<Rightarrow>
             if second_ok b c1 then
               (case r1 of
                  c2 # r2 \<Rightarrow>
                    if cont_byte c2 then
                      (case r2 of c3 # _ \<Rightarrow> if cont_byte c3 then (True, 4) else (False, 3)
                       | [] \<Rightarrow> (False, 3))
                    else (False, 2)
                | [] \<Rightarrow> (False, 2))
             else (False, 1)
         | [] \<Rightarrow> (False, 1))
      else (False, 1))"

fun utf8_chunks :: "bytes \<Rightarrow> (bool \<times> bytes) list" where
  "utf8_chunks [] = []"
| "utf8_chunks (b # rest) =
     (fst (utf8_step b rest), take (snd (utf8_step b rest)) (b # rest))
       # utf8_chunks (drop (snd (utf8_step b rest) - 1) rest)"

definition utf8_valid :: "bytes \<Rightarrow> bool" where
  "utf8_valid s \<longleftrightarrow> (\<forall>p \<in> set (utf8_chunks s). fst p)"

definition chars :: "bytes \<Rightarrow> bytes list" where
  "chars s = map snd (utf8_chunks s)"

definition replacement :: bytes where
  "replacement = [CHR 0xEF, CHR 0xBF, CHR 0xBD]"

definition from_utf8_lossy :: "bytes \<Rightarrow> bytes" where
  "from_utf8_lossy s = concat (map (\<lambda>(valid, c). if valid then c else replacement) (utf8_chunks s))"

lemma utf8_step_pos: "1 \<le> snd (utf8_step b rest)"
  by (auto simp: utf8_step_def split: list.splits)

lemma concat_utf8_chunks: "concat (map snd (utf8_chunks s)) = s"
proof (induction s rule: utf8_chunks.induct)
  case (2 b rest)
  obtain n where n: "snd (utf8_step b rest) = Suc n"
    using utf8_step_pos [of b rest] by (cases "snd (utf8_step b rest)") auto
  show ?case using 2 by (simp add: n)
qed simp

lemma concat_chars [simp]: "concat (chars s) = s"
  by (simp add: chars_def concat_utf8_chunks)

lemma from_utf8_lossy_valid: "utf8_valid s \<Longrightarrow> from_utf8_lossy s = s"
proof -
  assume "utf8_valid s"
  then have "map (\<lambda>(valid, c). if valid then c else replacement) (utf8_chunks s) = map snd (utf8_chunks s)"
    by (intro map_cong) (auto simp: utf8_valid_def)
  then show ?thesis by (simp only: from_utf8_lossy_def concat_utf8_chunks)
qed

definition is_ascii :: "bytes \<Rightarrow> bool" where
  "is_ascii s \<longleftrightarrow> (\<forall>c \<in> set s. byte c < 128)"

lemma utf8_chunks_ascii: "is_ascii s \<Longrightarrow> utf8_chunks s = map (\<lambda>c. (True, [c])) s"
  by (induction s) (auto simp: is_ascii_def utf8_step_def)

lemma chars_ascii: "is_ascii s \<Longrightarrow> chars s = map (\<lambda>c. [c]) s"
  by (simp add: chars_def utf8_chunks_ascii comp_def)

lemma utf8_valid_ascii: "is_ascii s \<Longrightarrow> utf8_valid s"
  by (auto simp: utf8_valid_def utf8_chunks_ascii)

text \<open>A character of more than one byte has no ASCII byte.\<close>

lemma trail_bytes: "cont_byte c \<Longrightarrow> 128 \<le> byte c" "second_ok b c \<Longrightarrow> 128 \<le> byte c"
  by (auto simp: cont_byte_def second_ok_def split: if_splits)

lemma utf8_step_high:
  "c \<in> set (take (snd (utf8_step b rest)) (b # rest)) \<Longrightarrow> snd (utf8_step b rest) \<noteq> 1 \<Longrightarrow> 128 \<le> byte c"
  by (cases "byte b < 128"; cases rest; cases "tl rest"; cases "tl (tl rest)")
    (auto simp: utf8_step_def take_Cons' split: if_splits dest: trail_bytes)

lemma utf8_chunks_high: "p \<in> set (utf8_chunks s) \<Longrightarrow> length (snd p) \<noteq> 1 \<Longrightarrow> c \<in> set (snd p) \<Longrightarrow> 128 \<le> byte c"
proof (induction s rule: utf8_chunks.induct)
  case (2 b rest)
  show ?case
  proof (cases "p \<in> set (utf8_chunks (drop (snd (utf8_step b rest) - 1) rest))")
    case False
    then have "snd p = take (snd (utf8_step b rest)) (b # rest)" using 2(2) by auto
    then show ?thesis using 2(3,4) utf8_step_high [of c b rest] by (cases "snd (utf8_step b rest) = 1") auto
  qed (use 2 in blast)
qed simp

lemma chars_high: "ch \<in> set (chars s) \<Longrightarrow> length ch \<noteq> 1 \<Longrightarrow> c \<in> set ch \<Longrightarrow> 128 \<le> byte c"
  using utf8_chunks_high by (fastforce simp: chars_def)

subsection \<open>ASCII case\<close>

definition ascii_upper :: "char \<Rightarrow> char" where
  "ascii_upper c = (if 97 \<le> byte c \<and> byte c \<le> 122 then char_of (byte c - 32) else c)"

definition ascii_lower :: "char \<Rightarrow> char" where
  "ascii_lower c = (if 65 \<le> byte c \<and> byte c \<le> 90 then char_of (byte c + 32) else c)"

definition to_ascii_uppercase :: "bytes \<Rightarrow> bytes" where
  "to_ascii_uppercase s = map ascii_upper s"

definition to_ascii_lowercase :: "bytes \<Rightarrow> bytes" where
  "to_ascii_lowercase s = map ascii_lower s"

definition eq_ignore_ascii_case :: "bytes \<Rightarrow> bytes \<Rightarrow> bool" where
  "eq_ignore_ascii_case a b \<longleftrightarrow> to_ascii_lowercase a = to_ascii_lowercase b"

definition is_ascii_digit :: "char \<Rightarrow> bool" where
  "is_ascii_digit c \<longleftrightarrow> 48 \<le> byte c \<and> byte c \<le> 57"

definition is_ascii_alphanumeric :: "char \<Rightarrow> bool" where
  "is_ascii_alphanumeric c \<longleftrightarrow>
     is_ascii_digit c \<or> 65 \<le> byte c \<and> byte c \<le> 90 \<or> 97 \<le> byte c \<and> byte c \<le> 122"

lemma ascii_lower_idem [simp]: "ascii_lower (ascii_lower c) = ascii_lower c"
  by (auto simp: ascii_lower_def)

lemma to_ascii_lowercase_idem [simp]:
  "to_ascii_lowercase (to_ascii_lowercase s) = to_ascii_lowercase s"
  by (simp add: to_ascii_lowercase_def)

lemma length_to_ascii_lowercase [simp]: "length (to_ascii_lowercase s) = length s"
  by (simp add: to_ascii_lowercase_def)

subsection \<open>White space\<close>

text \<open>The characters with the Unicode property White\_Space, encoded.\<close>

definition white_space :: "bytes list" where
  "white_space =
     [[CHR 0x09], [CHR 0x0A], [CHR 0x0B], [CHR 0x0C], [CHR 0x0D], [CHR 0x20],
      [CHR 0xC2, CHR 0x85], [CHR 0xC2, CHR 0xA0], [CHR 0xE1, CHR 0x9A, CHR 0x80],
      [CHR 0xE2, CHR 0x80, CHR 0x80], [CHR 0xE2, CHR 0x80, CHR 0x81],
      [CHR 0xE2, CHR 0x80, CHR 0x82], [CHR 0xE2, CHR 0x80, CHR 0x83],
      [CHR 0xE2, CHR 0x80, CHR 0x84], [CHR 0xE2, CHR 0x80, CHR 0x85],
      [CHR 0xE2, CHR 0x80, CHR 0x86], [CHR 0xE2, CHR 0x80, CHR 0x87],
      [CHR 0xE2, CHR 0x80, CHR 0x88], [CHR 0xE2, CHR 0x80, CHR 0x89],
      [CHR 0xE2, CHR 0x80, CHR 0x8A], [CHR 0xE2, CHR 0x80, CHR 0xA8],
      [CHR 0xE2, CHR 0x80, CHR 0xA9], [CHR 0xE2, CHR 0x80, CHR 0xAF],
      [CHR 0xE2, CHR 0x81, CHR 0x9F], [CHR 0xE3, CHR 0x80, CHR 0x80]]"

definition is_whitespace :: "bytes \<Rightarrow> bool" where
  "is_whitespace c \<longleftrightarrow> List.member white_space c"

definition trim :: "bytes \<Rightarrow> bytes" where
  "trim s = concat (rev (dropWhile is_whitespace (rev (dropWhile is_whitespace (chars s)))))"

definition is_ascii_whitespace :: "char \<Rightarrow> bool" where
  "is_ascii_whitespace c \<longleftrightarrow> byte c \<in> {9, 10, 12, 13, 32}"

text \<open>\<open>char::is_control\<close>: the general category Cc.\<close>

definition is_control :: "bytes \<Rightarrow> bool" where
  "is_control c =
     (case c of
        [b] \<Rightarrow> byte b < 32 \<or> byte b = 127
      | [b0, b1] \<Rightarrow> byte b0 = 194 \<and> byte b1 < 160
      | _ \<Rightarrow> False)"

subsection \<open>Splitting and searching\<close>

definition starts_with :: "bytes \<Rightarrow> bytes \<Rightarrow> bool" where
  "starts_with s p \<longleftrightarrow> take (length p) s = p"

definition ends_with :: "bytes \<Rightarrow> bytes \<Rightarrow> bool" where
  "ends_with s p \<longleftrightarrow> length p \<le> length s \<and> drop (length s - length p) s = p"

definition strip_suffix :: "bytes \<Rightarrow> bytes \<Rightarrow> bytes option" where
  "strip_suffix s p = (if ends_with s p then Some (take (length s - length p) s) else None)"

definition strip_prefix :: "bytes \<Rightarrow> bytes \<Rightarrow> bytes option" where
  "strip_prefix s p = (if starts_with s p then Some (drop (length p) s) else None)"

definition find_char :: "char \<Rightarrow> bytes \<Rightarrow> nat option" where
  "find_char c s = (if c \<in> set s then Some (length (takeWhile (\<lambda>x. x \<noteq> c) s)) else None)"

definition rfind_char :: "char \<Rightarrow> bytes \<Rightarrow> nat option" where
  "rfind_char c s = map_option (\<lambda>n. length s - Suc n) (find_char c (rev s))"

definition split_once :: "char \<Rightarrow> bytes \<Rightarrow> (bytes \<times> bytes) option" where
  "split_once c s = map_option (\<lambda>n. (take n s, drop (Suc n) s)) (find_char c s)"

definition rsplit_once :: "char \<Rightarrow> bytes \<Rightarrow> (bytes \<times> bytes) option" where
  "rsplit_once c s = map_option (\<lambda>n. (take n s, drop (Suc n) s)) (rfind_char c s)"

text \<open>\<open>str::split\<close> by a predicate on bytes: one piece more than there are separators.\<close>

fun split_by :: "(char \<Rightarrow> bool) \<Rightarrow> bytes \<Rightarrow> bytes list" where
  "split_by p [] = [[]]"
| "split_by p (c # s) =
     (if p c then [] # split_by p s
      else (case split_by p s of [] \<Rightarrow> [[c]] | w # ws \<Rightarrow> (c # w) # ws))"

definition split_ascii_whitespace :: "bytes \<Rightarrow> bytes list" where
  "split_ascii_whitespace s = filter (\<lambda>w. w \<noteq> []) (split_by is_ascii_whitespace s)"

text \<open>\<open>str::split_whitespace\<close>, by Unicode white space.\<close>

fun split_ws_chars :: "bytes list \<Rightarrow> bytes list" where
  "split_ws_chars [] = [[]]"
| "split_ws_chars (c # cs) =
     (if is_whitespace c then [] # split_ws_chars cs
      else (case split_ws_chars cs of [] \<Rightarrow> [c] | w # ws \<Rightarrow> (c @ w) # ws))"

definition split_whitespace :: "bytes \<Rightarrow> bytes list" where
  "split_whitespace s = filter (\<lambda>w. w \<noteq> []) (split_ws_chars (chars s))"

text \<open>\<open>splitn\<close>: at most \<open>n\<close> pieces, the last one holding the rest.\<close>

fun splitn :: "nat \<Rightarrow> char \<Rightarrow> bytes \<Rightarrow> bytes list" where
  "splitn 0 c s = []"
| "splitn (Suc 0) c s = [s]"
| "splitn (Suc (Suc n)) c s =
     (case split_once c s of None \<Rightarrow> [s] | Some (a, b) \<Rightarrow> a # splitn (Suc n) c b)"

fun join :: "bytes \<Rightarrow> bytes list \<Rightarrow> bytes" where
  "join sep [] = []"
| "join sep [w] = w"
| "join sep (w # ws) = w @ sep @ join sep ws"

lemma split_by_nonempty [simp]: "split_by p s \<noteq> []"
  by (induction s) (auto split: list.splits)

lemma find_char_Some:
  assumes "find_char c s = Some n"
  shows "n < length s \<and> s ! n = c \<and> c \<notin> set (take n s)"
proof -
  from assms have "c \<in> set s" and n: "n = length (takeWhile (\<lambda>x. x \<noteq> c) s)"
    by (auto simp: find_char_def split: if_splits)
  then obtain a b where s: "s = a @ c # b" and a: "c \<notin> set a"
    by (meson split_list_first)
  from a have "takeWhile (\<lambda>x. x \<noteq> c) (a @ c # b) = a"
    by (induction a) auto
  with s n have "n = length a" by simp
  with s a show ?thesis by simp
qed

lemma split_once_Some: "split_once c s = Some (a, b) \<Longrightarrow> s = a @ c # b \<and> c \<notin> set a"
  using find_char_Some [of c s]
  by (auto simp: split_once_def id_take_nth_drop)

lemma split_once_None: "split_once c s = None \<longleftrightarrow> c \<notin> set s"
  by (auto simp: split_once_def find_char_def)

lemma strip_suffix_Some: "strip_suffix s p = Some t \<longleftrightarrow> s = t @ p"
proof
  assume "strip_suffix s p = Some t"
  then have "t = take (length s - length p) s" "drop (length s - length p) s = p"
    by (auto simp: strip_suffix_def ends_with_def split: if_splits)
  then show "s = t @ p" by (metis append_take_drop_id)
qed (simp add: strip_suffix_def ends_with_def)

lemma ends_with_iff: "ends_with s p \<longleftrightarrow> (\<exists>t. s = t @ p)"
  by (metis not_None_eq strip_suffix_Some strip_suffix_def)

lemma strip_suffix_None: "strip_suffix s p = None \<longleftrightarrow> (\<forall>t. s \<noteq> t @ p)"
  by (metis not_None_eq strip_suffix_Some)

lemma strip_prefix_Some: "strip_prefix s p = Some t \<longleftrightarrow> s = p @ t"
  by (auto simp: strip_prefix_def starts_with_def split: if_splits) (metis append_take_drop_id)

subsection \<open>Parsing integers\<close>

datatype int_error_kind = Empty | InvalidDigit | PosOverflow | NegOverflow

definition to_digit :: "char \<Rightarrow> nat option" where
  "to_digit c = (if is_ascii_digit c then Some (byte c - 48) else None)"

text \<open>
  The checked loop of \<open>from_str_radix\<close>: the multiplication is checked before the digit is
  added, but a character that is not a digit is reported ahead of either overflow.
\<close>

fun parse_digits :: "nat \<Rightarrow> nat \<Rightarrow> bytes \<Rightarrow> (int_error_kind, nat) result" where
  "parse_digits mx acc [] = Inr acc"
| "parse_digits mx acc (c # cs) =
     (case to_digit c of
        None \<Rightarrow> Inl InvalidDigit
      | Some d \<Rightarrow>
          if mx < acc * 10 then Inl PosOverflow
          else if mx < acc * 10 + d then Inl PosOverflow
          else parse_digits mx (acc * 10 + d) cs)"

definition parse_unsigned :: "nat \<Rightarrow> bytes \<Rightarrow> (int_error_kind, nat) result" where
  "parse_unsigned mx s =
     (if s = [] then Inl Empty
      else if s = ''+'' \<or> s = ''-'' then Inl InvalidDigit
      else if hd s = CHR ''+'' then parse_digits mx 0 (tl s)
      else parse_digits mx 0 s)"

definition u64_max :: nat where "u64_max = 2 ^ 64 - 1"

definition u16_max :: nat where "u16_max = 2 ^ 16 - 1"

definition i64_max :: int where "i64_max = 2 ^ 63 - 1"

definition i64_min :: int where "i64_min = - (2 ^ 63)"

abbreviation parse_u64 :: "bytes \<Rightarrow> (int_error_kind, nat) result" where
  "parse_u64 \<equiv> parse_unsigned u64_max"

abbreviation parse_u16 :: "bytes \<Rightarrow> (int_error_kind, nat) result" where
  "parse_u16 \<equiv> parse_unsigned u16_max"

text \<open>A signed integer of the given width.\<close>

definition parse_signed :: "nat \<Rightarrow> bytes \<Rightarrow> (int_error_kind, int) result" where
  "parse_signed w s =
     (if s = [] then Inl Empty
      else if s = ''+'' \<or> s = ''-'' then Inl InvalidDigit
      else if hd s = CHR ''-'' then
        (case parse_digits (2 ^ (w - 1)) 0 (tl s) of
           Inl PosOverflow \<Rightarrow> Inl NegOverflow
         | Inl e \<Rightarrow> Inl e
         | Inr n \<Rightarrow> Inr (- int n))
      else map_sum id int (parse_digits (2 ^ (w - 1) - 1) 0 (if hd s = CHR ''+'' then tl s else s)))"

abbreviation parse_i64 :: "bytes \<Rightarrow> (int_error_kind, int) result" where
  "parse_i64 \<equiv> parse_signed 64"

abbreviation parse_i32 :: "bytes \<Rightarrow> (int_error_kind, int) result" where
  "parse_i32 \<equiv> parse_signed 32"

definition saturating_mul :: "int \<Rightarrow> int \<Rightarrow> int" where
  "saturating_mul a b = max i64_min (min i64_max (a * b))"

definition saturating_sub :: "int \<Rightarrow> int \<Rightarrow> int" where
  "saturating_sub a b = max i64_min (min i64_max (a - b))"

text \<open>\<open>{}\<close> of an integer.\<close>

fun show_nat :: "nat \<Rightarrow> bytes" where
  "show_nat n = (if n < 10 then [char_of (48 + n)] else show_nat (n div 10) @ [char_of (48 + n mod 10)])"

declare show_nat.simps [simp del]

definition show_int :: "int \<Rightarrow> bytes" where
  "show_int i = (if i < 0 then CHR ''-'' # show_nat (nat (- i)) else show_nat (nat i))"

lemma parse_digits_bound: "parse_digits mx acc cs = Inr n \<Longrightarrow> acc \<le> mx \<Longrightarrow> n \<le> mx"
  by (induction mx acc cs rule: parse_digits.induct) (auto split: option.splits if_splits)

lemma parse_unsigned_bound: "parse_unsigned mx s = Inr n \<Longrightarrow> n \<le> mx"
  by (auto simp: parse_unsigned_def dest: parse_digits_bound split: if_splits)

lemma to_digit_show [simp]: "d < 10 \<Longrightarrow> to_digit (char_of (48 + d)) = Some d"
  by (simp add: to_digit_def is_ascii_digit_def)

lemma parse_digits_append:
  "parse_digits mx acc (xs @ ys) = and_then (parse_digits mx acc xs) (\<lambda>a. parse_digits mx a ys)"
  by (induction mx acc xs rule: parse_digits.induct) (auto split: option.splits)

lemma parse_digits_show_nat: "n \<le> mx \<Longrightarrow> parse_digits mx 0 (show_nat n) = Inr n"
proof (induction n rule: show_nat.induct)
  case (1 n)
  show ?case
  proof (cases "n < 10")
    case True
    then show ?thesis using 1 by (simp add: show_nat.simps [of n])
  next
    case False
    then have "parse_digits mx 0 (show_nat (n div 10)) = Inr (n div 10)" using 1 by simp
    moreover have "n div 10 * 10 + n mod 10 = n" by simp
    ultimately show ?thesis using False 1
      by (simp add: show_nat.simps [of n] parse_digits_append)
  qed
qed

lemma show_nat_digits: "c \<in> set (show_nat n) \<Longrightarrow> is_ascii_digit c"
  by (induction n rule: show_nat.induct)
    (subst (asm) (2) show_nat.simps, auto simp: is_ascii_digit_def split: if_splits)

lemma show_nat_nonempty [simp]: "show_nat n \<noteq> []"
  by (subst show_nat.simps) simp

lemma parse_unsigned_show_nat: "n \<le> mx \<Longrightarrow> parse_unsigned mx (show_nat n) = Inr n"
proof -
  assume n: "n \<le> mx"
  have "is_ascii_digit (hd (show_nat n))" by (rule show_nat_digits [of _ n]) simp
  then have h: "hd (show_nat n) \<noteq> CHR ''+''" "hd (show_nat n) \<noteq> CHR ''-''"
    by (auto simp: is_ascii_digit_def)
  then have "show_nat n \<noteq> ''+''" "show_nat n \<noteq> ''-''"
    by (metis list.sel(1))+
  then show ?thesis using h n by (simp add: parse_unsigned_def parse_digits_show_nat)
qed

end
