(* ===== verification/Rust_Net.thy ===== *)
theory Rust_Net
  imports Rust_Str
begin

text \<open>
  The parts of \<open>std::net\<close> and of the \<open>http\<close> types that the program decides with: reading an IP
  address, its classes, and header maps. A reader takes a prefix of its input or fails and
  takes nothing, as \<open>read_atomically\<close> does.
\<close>

unbundle bit_operations_syntax

datatype ip_addr = V4 nat nat nat nat | V6 "nat list"

subsection \<open>Reading an address\<close>

definition hex_digit :: "nat \<Rightarrow> char \<Rightarrow> nat option" where
  "hex_digit radix c =
     (let v = (if is_ascii_digit c then Some (byte c - 48)
               else if 97 \<le> byte c \<and> byte c \<le> 102 then Some (byte c - 87)
               else if 65 \<le> byte c \<and> byte c \<le> 70 then Some (byte c - 55) else None)
      in case v of None \<Rightarrow> None | Some d \<Rightarrow> if d < radix then Some d else None)"

fun digits_prefix :: "nat \<Rightarrow> bytes \<Rightarrow> nat list \<times> bytes" where
  "digits_prefix radix [] = ([], [])"
| "digits_prefix radix (c # s) =
     (case hex_digit radix c of
        None \<Rightarrow> ([], c # s)
      | Some d \<Rightarrow> (case digits_prefix radix s of (ds, rest) \<Rightarrow> (d # ds, rest)))"

text \<open>\<open>read_number\<close>: at most so many digits, for a number of so many bits.\<close>

definition read_number :: "nat \<Rightarrow> nat \<Rightarrow> bool \<Rightarrow> nat \<Rightarrow> bytes \<Rightarrow> (nat \<times> bytes) option" where
  "read_number radix max_digits allow_zero_prefix bits s =
     (case digits_prefix radix s of
        (ds, rest) \<Rightarrow>
          let n = foldl (\<lambda>a d. a * radix + d) 0 ds in
          if max_digits < length ds \<or> ds = [] then None
          else if \<not> allow_zero_prefix \<and> hd ds = 0 \<and> 1 < length ds then None
          else if n < 2 ^ bits then Some (n, rest) else None)"

definition read_given_char :: "char \<Rightarrow> bytes \<Rightarrow> bytes option" where
  "read_given_char c s = (case s of [] \<Rightarrow> None | x # rest \<Rightarrow> if x = c then Some rest else None)"

definition read_separator :: "char \<Rightarrow> nat \<Rightarrow> (bytes \<Rightarrow> ('a \<times> bytes) option) \<Rightarrow> bytes \<Rightarrow> ('a \<times> bytes) option" where
  "read_separator sep i inner s =
     (if 0 < i then Option.bind (read_given_char sep s) inner else inner s)"

fun read_octets :: "nat \<Rightarrow> nat \<Rightarrow> bytes \<Rightarrow> (nat list \<times> bytes) option" where
  "read_octets i 0 s = Some ([], s)"
| "read_octets i (Suc n) s =
     (case read_separator (CHR ''.'') i (read_number 10 3 False 8) s of
        None \<Rightarrow> None
      | Some (a, rest) \<Rightarrow> map_option (\<lambda>(as, rest'). (a # as, rest')) (read_octets (Suc i) n rest))"

definition read_ipv4_addr :: "bytes \<Rightarrow> (nat list \<times> bytes) option" where
  "read_ipv4_addr s = read_octets 0 4 s"

text \<open>
  \<open>read_groups\<close> of the IPv6 reader: groups of sixteen bits, possibly ended by an IPv4 address
  while two are left; the flag says whether it was.
\<close>

fun read_groups :: "nat \<Rightarrow> nat \<Rightarrow> bytes \<Rightarrow> nat list \<times> bool \<times> bytes" where
  "read_groups i 0 s = ([], False, s)"
| "read_groups i (Suc left) s =
     (case (if 0 < left then read_separator (CHR '':'') i read_ipv4_addr s else None) of
        Some (quad, rest) \<Rightarrow>
          ([quad ! 0 * 256 + quad ! 1, quad ! 2 * 256 + quad ! 3], True, rest)
      | None \<Rightarrow>
          (case read_separator (CHR '':'') i (read_number 16 4 True 16) s of
             None \<Rightarrow> ([], False, s)
           | Some (grp, rest) \<Rightarrow>
               (case read_groups (Suc i) left rest of (gs, v4, rest') \<Rightarrow> (grp # gs, v4, rest'))))"

definition read_ipv6_addr :: "bytes \<Rightarrow> (nat list \<times> bytes) option" where
  "read_ipv6_addr s =
     (case read_groups 0 8 s of
        (head, head_ipv4, rest) \<Rightarrow>
          if length head = 8 then Some (head, rest)
          else if head_ipv4 then None
          else Option.bind (Option.bind (read_given_char (CHR '':'') rest) (read_given_char (CHR '':'')))
            (\<lambda>rest1. case read_groups 0 (8 - (length head + 1)) rest1 of
               (tail, _, rest2) \<Rightarrow>
                 Some (head @ replicate (8 - (length head + length tail)) 0 @ tail, rest2)))"

text \<open>\<open>IpAddr::from_str\<close>: IPv4 first, then IPv6, and nothing may be left over.\<close>

definition parse_ip_addr :: "bytes \<Rightarrow> ip_addr option" where
  "parse_ip_addr s =
     (case read_ipv4_addr s of
        Some (quad, rest) \<Rightarrow>
          if rest = [] then Some (V4 (quad ! 0) (quad ! 1) (quad ! 2) (quad ! 3)) else None
      | None \<Rightarrow>
          (case read_ipv6_addr s of
             Some (segs, rest) \<Rightarrow> if rest = [] then Some (V6 segs) else None
           | None \<Rightarrow> None))"

subsection \<open>Classes of addresses\<close>

definition v4_is_private :: "nat \<Rightarrow> nat \<Rightarrow> bool" where
  "v4_is_private a b \<longleftrightarrow> a = 10 \<or> a = 172 \<and> 16 \<le> b \<and> b \<le> 31 \<or> a = 192 \<and> b = 168"

definition v4_is_loopback :: "nat \<Rightarrow> bool" where
  "v4_is_loopback a \<longleftrightarrow> a = 127"

definition v4_is_link_local :: "nat \<Rightarrow> nat \<Rightarrow> bool" where
  "v4_is_link_local a b \<longleftrightarrow> a = 169 \<and> b = 254"

definition to_ipv4_mapped :: "nat list \<Rightarrow> (nat \<times> nat \<times> nat \<times> nat) option" where
  "to_ipv4_mapped segs =
     (if take 6 segs = [0, 0, 0, 0, 0, 65535] \<and> length segs = 8
      then Some (segs ! 6 div 256, segs ! 6 mod 256, segs ! 7 div 256, segs ! 7 mod 256) else None)"

definition is_loopback :: "ip_addr \<Rightarrow> bool" where
  "is_loopback ip =
     (case ip of V4 a b c d \<Rightarrow> v4_is_loopback a | V6 segs \<Rightarrow> segs = [0, 0, 0, 0, 0, 0, 0, 1])"

subsection \<open>Header maps\<close>

text \<open>Names are lower case; \<open>get\<close> is the first value of a name.\<close>

type_synonym header_map = "(bytes \<times> bytes) list"

definition header_get :: "header_map \<Rightarrow> bytes \<Rightarrow> bytes option" where
  "header_get hs name = map_of hs name"

definition contains_key :: "header_map \<Rightarrow> bytes \<Rightarrow> bool" where
  "contains_key hs name \<longleftrightarrow> header_get hs name \<noteq> None"

text \<open>\<open>HeaderValue::to_str\<close>: visible ASCII and tabs only.\<close>

definition visible_ascii :: "char \<Rightarrow> bool" where
  "visible_ascii c \<longleftrightarrow> 32 \<le> byte c \<and> byte c < 127 \<or> byte c = 9"

definition to_str :: "bytes \<Rightarrow> bytes option" where
  "to_str v = (if list_all visible_ascii v then Some v else None)"

lemma visible_is_ascii: "list_all visible_ascii s \<Longrightarrow> is_ascii s"
  by (auto simp: is_ascii_def list_all_iff visible_ascii_def)

lemma parse_ip_addr_first:
  assumes "hex_digit 16 c = None" "c \<noteq> CHR '':''"
  shows "parse_ip_addr (c # s) = None"
proof -
  have "hex_digit 10 c = None" using assms(1) by (auto simp: hex_digit_def Let_def split: if_splits)
  then have "read_number 10 3 False 8 (c # s) = None" by (simp add: read_number_def)
  then have v4: "read_ipv4_addr (c # s) = None"
    by (simp add: read_ipv4_addr_def read_separator_def numeral_eq_Suc)
  have "read_number 16 4 True 16 (c # s) = None" using assms(1) by (simp add: read_number_def)
  then have "read_groups 0 8 (c # s) = ([], False, c # s)"
    using v4 read_groups.simps(2) [of 0 7 "c # s"] by (simp add: read_separator_def eval_nat_numeral)
  then show ?thesis using v4 assms(2) by (simp add: parse_ip_addr_def read_ipv6_addr_def read_given_char_def)
qed

end
