(* ===== verification/Smtp_Message.thy ===== *)
theory Smtp_Message
  imports Rust_Str
begin

text \<open>
  What the SMTP side hands to storage (\<open>rustmail-smtp/src/message.rs\<close>): the captured
  message and the one-shot acknowledgement that travels back. A one-shot channel is the
  state of its single slot.
\<close>

record received_message =
  rm_sender :: bytes
  rm_recipients :: "bytes list"
  rm_raw :: bytes

datatype delivery_outcome = Stored | Rejected

text \<open>
  The slot of \<open>tokio::sync::oneshot\<close>: waiting for an answer, answered, its sender dropped
  without an answer, or its receiver dropped (the session stopped waiting).
\<close>

datatype oneshot = Waiting | Answered delivery_outcome | SenderDropped | ReceiverDropped

record delivery =
  message :: received_message
  ack :: oneshot

definition delivery_new :: "received_message \<Rightarrow> delivery" where
  "delivery_new m = \<lparr>message = m, ack = Waiting\<rparr>"

definition into_parts :: "delivery \<Rightarrow> received_message \<times> oneshot" where
  "into_parts d = (message d, ack d)"

definition is_abandoned :: "oneshot \<Rightarrow> bool" where
  "is_abandoned a \<longleftrightarrow> a = ReceiverDropped"

text \<open>Sending consumes the handle; a dropped receiver ignores the answer.\<close>

definition answer :: "delivery_outcome \<Rightarrow> oneshot \<Rightarrow> oneshot" where
  "answer v a = (if a = Waiting then Answered v else a)"

definition ack_stored :: "oneshot \<Rightarrow> oneshot" where
  "ack_stored a = answer Stored a"

definition ack_rejected :: "oneshot \<Rightarrow> oneshot" where
  "ack_rejected a = answer Rejected a"

text \<open>Dropping the handle unanswered.\<close>

definition ack_dropped :: "oneshot \<Rightarrow> oneshot" where
  "ack_dropped a = (if a = Waiting then SenderDropped else a)"

lemmas ack_defs = ack_stored_def ack_rejected_def ack_dropped_def answer_def is_abandoned_def

lemma ack_stored_Answered: "ack_stored a = Answered Rejected \<longleftrightarrow> a = Answered Rejected"
  by (auto simp: ack_defs)

lemma answers_differ: "ack_stored Waiting \<noteq> ack_rejected Waiting"
  by (simp add: ack_defs)

end
