(* ===== verification/Smtp_Session.thy ===== *)
theory Smtp_Session
  imports Smtp_Message
begin

text \<open>
  One SMTP session (\<open>rustmail-smtp/src/session.rs\<close>). The session record holds the fields
  of the struct and, in the record it extends, the world around it: what \<open>accept\<close> of the
  TLS library returns, which writes fail, what the delivery channel answers, and the
  journal of everything the session did. Input arrives as a list of transport reads of any
  length, so every property holds for every way TCP may split the bytes.
\<close>

subsection \<open>The transport\<close>

datatype io_kind = UnexpectedEof | OtherIo

datatype session_error =
    Io io_kind
  | MessageTooLarge
  | LineTooLong
  | TlsUpgrade bytes
  | Timeout
  | StreamClosed

text \<open>
  One read of the underlying stream. \<open>Data []\<close> is the end of the stream, and so is the end
  of the list. \<open>Stall\<close> is a peer that stays silent until the deadline armed around the
  read passes; every deadline of the session ends it with the same error.
\<close>

datatype fill = Data bytes | ReadError | Stall

record conn =
  buffer :: bytes
  incoming :: "fill list"

datatype smtp_stream = Plain conn | Tls conn

fun conn_of :: "smtp_stream \<Rightarrow> conn" where
  "conn_of (Plain c) = c"
| "conn_of (Tls c) = c"

fun with_conn :: "conn \<Rightarrow> smtp_stream \<Rightarrow> smtp_stream" where
  "with_conn c (Plain _) = Plain c"
| "with_conn c (Tls _) = Tls c"

text \<open>\<open>BufReader::fill_buf\<close> and \<open>consume\<close>.\<close>

definition fill_buf :: "conn \<Rightarrow> (session_error, bytes) result \<times> conn" where
  "fill_buf c =
     (if buffer c \<noteq> [] then (Inr (buffer c), c)
      else case incoming c of
        [] \<Rightarrow> (Inr [], c)
      | Data [] # _ \<Rightarrow> (Inr [], c)
      | Data bs # r \<Rightarrow> (Inr bs, c\<lparr>buffer := bs, incoming := r\<rparr>)
      | ReadError # r \<Rightarrow> (Inl (Io OtherIo), c)
      | Stall # r \<Rightarrow> (Inl Timeout, c))"

definition consume :: "nat \<Rightarrow> conn \<Rightarrow> conn" where
  "consume n c = c\<lparr>buffer := drop n (buffer c)\<rparr>"

fun fill_size :: "fill \<Rightarrow> nat" where
  "fill_size (Data bs) = Suc (length bs)"
| "fill_size _ = 1"

definition conn_size :: "conn \<Rightarrow> nat" where
  "conn_size c = length (buffer c) + sum_list (map fill_size (incoming c))"

lemma fill_buf_size [consume_lems]: "fill_buf c = (r, c') \<Longrightarrow> conn_size c' \<le> conn_size c"
  by (auto simp: fill_buf_def conn_size_def split: if_splits list.splits fill.splits)

lemma fill_buf_buffer: "fill_buf c = (Inr bs, c') \<Longrightarrow> buffer c' = bs"
  by (auto simp: fill_buf_def split: if_splits list.splits fill.splits)

lemma consume_size: "0 < n \<Longrightarrow> buffer c \<noteq> [] \<Longrightarrow> conn_size (consume n c) < conn_size c"
  by (cases "buffer c") (auto simp: consume_def conn_size_def)

subsection \<open>Reading one line\<close>

definition position :: "char \<Rightarrow> bytes \<Rightarrow> nat option" where
  "position b bs = find_char b bs"

definition taken :: "bytes \<Rightarrow> nat" where
  "taken available = (case position LF available of None \<Rightarrow> length available | Some p \<Rightarrow> p + 1)"

lemma taken_pos: "bs \<noteq> [] \<Longrightarrow> 0 < taken bs"
  by (auto simp: taken_def split: option.splits)

lemma consume_fill_size:
  "fill_buf c = (Inr available, c') \<Longrightarrow> available \<noteq> [] \<Longrightarrow>
   conn_size (consume (taken available) c') < conn_size c"
  using consume_size [of "taken available" c'] fill_buf_buffer [of c available c']
    fill_buf_size [of c "Inr available" c'] taken_pos [of available] by simp

text \<open>
  The loop of \<open>read_line_untimed\<close>. It returns what was collected in \<open>buf\<close> besides the
  result, because \<open>receive_data\<close> looks at it after an error too.
\<close>

function read_line_conn ::
  "bytes \<Rightarrow> nat \<Rightarrow> conn \<Rightarrow> (session_error, nat) result \<times> bytes \<times> conn" where
  "read_line_conn buf max_len c =
     (case fill_buf c of
        (Inl e, c') \<Rightarrow> (Inl e, buf, c')
      | (Inr available, c') \<Rightarrow>
          if available = [] then (Inr (length buf), buf, c')
          else
            let buf' = buf @ take (taken available) available;
                c'' = consume (taken available) c'
            in if max_len < length buf' then (Inl LineTooLong, buf', c'')
               else if position LF available \<noteq> None then (Inr (length buf'), buf', c'')
               else read_line_conn buf' max_len c'')"
  by pat_completeness auto

termination
  by (relation "measure (\<lambda>(buf, max_len, c). conn_size c)") (auto simp: consume_fill_size)

declare read_line_conn.simps [simp del]

subsection \<open>The session and its world\<close>

text \<open>What came of handing a message over: see \<open>deliver\<close>.\<close>

datatype verdict = ChannelClosed | Verdict delivery_outcome | AckDropped | AckTimedOut

datatype entry = Wrote bytes | Handed received_message verdict

record world =
  handshakes :: "(session_error, fill list) result list"
  write_faults :: "session_error option list"
  verdicts :: "verdict list"
  journal :: "entry list"

record session = world +
  stream :: "smtp_stream option"
  max_message_size :: nat
  tls :: bool
  greeted :: bool
  mail_from :: "bytes option"
  rcpt_to :: "bytes list"

type_synonym 'a sess = "session \<Rightarrow> (session_error, 'a) result \<times> session"

definition crlf :: "bytes \<Rightarrow> bytes" where
  "crlf s = s @ [CR, LF]"

definition OK :: bytes where "OK = crlf ''250 OK''"
definition LOCAL_ERROR :: bytes where
  "LOCAL_ERROR = crlf ''451 Requested action aborted: local error in processing''"
definition DATA_START :: bytes where
  "DATA_START = crlf ''354 Start mail input; end with <CRLF>.<CRLF>''"
definition QUIT_RESPONSE :: bytes where "QUIT_RESPONSE = crlf ''221 Bye''"
definition RSET_OK :: bytes where "RSET_OK = crlf ''250 Reset OK''"
definition UNKNOWN_CMD :: bytes where "UNKNOWN_CMD = crlf ''500 Unknown command''"
definition BAD_SEQUENCE :: bytes where "BAD_SEQUENCE = crlf ''503 Bad sequence of commands''"
definition STARTTLS_READY :: bytes where "STARTTLS_READY = crlf ''220 Ready to start TLS''"
definition SIZE_EXCEEDED :: bytes where
  "SIZE_EXCEEDED = crlf ''552 5.3.4 Message size exceeds fixed maximum message size''"
definition SIZE_MALFORMED :: bytes where
  "SIZE_MALFORMED = crlf ''501 5.5.4 Malformed SIZE parameter''"
definition SIZE_PARAM :: bytes where "SIZE_PARAM = ''SIZE=''"
definition MAX_LINE_LENGTH :: nat where "MAX_LINE_LENGTH = 4096"
definition MAX_LOGGED_VERB_CHARS :: nat where "MAX_LOGGED_VERB_CHARS = 8"
definition DATA_TERMINATOR :: bytes where "DATA_TERMINATOR = crlf ''.''"
definition MAX_RECIPIENTS :: nat where "MAX_RECIPIENTS = 100"
definition MAX_COMMANDS_PER_TRANSACTION :: nat where "MAX_COMMANDS_PER_TRANSACTION = 1000"

text \<open>
  \<open>write\<close>: the next entry of \<open>write_faults\<close> says whether the peer takes the bytes; once the
  list is used up every write succeeds.
\<close>

definition write_reply :: "bytes \<Rightarrow> unit sess" where
  "write_reply response s =
     (case stream s of
        None \<Rightarrow> (Inl StreamClosed, s)
      | Some _ \<Rightarrow>
          (case write_faults s of
             Some e # r \<Rightarrow> (Inl e, s\<lparr>write_faults := r\<rparr>)
           | None # r \<Rightarrow>
               (Inr (), s\<lparr>write_faults := r, journal := journal s @ [Wrote response]\<rparr>)
           | [] \<Rightarrow> (Inr (), s\<lparr>journal := journal s @ [Wrote response]\<rparr>)))"

definition read_line_untimed :: "bytes \<Rightarrow> nat \<Rightarrow> session \<Rightarrow> (session_error, nat) result \<times> bytes \<times> session" where
  "read_line_untimed buf max_len s =
     (case stream s of
        None \<Rightarrow> (Inl StreamClosed, buf, s)
      | Some st \<Rightarrow>
          (case read_line_conn buf max_len (conn_of st) of
             (r, buf', c) \<Rightarrow> (r, buf', s\<lparr>stream := Some (with_conn c st)\<rparr>)))"

definition read_bounded_line_raw :: "bytes sess" where
  "read_bounded_line_raw s =
     (case read_line_untimed [] MAX_LINE_LENGTH s of
        (Inl e, _, s') \<Rightarrow> (Inl e, s')
      | (Inr n, raw, s') \<Rightarrow> (Inr (take n raw), s'))"

text \<open>The line read, as a string; the empty string is the end of the stream.\<close>

definition read_bounded_line :: "bytes sess" where
  "read_bounded_line = sbind read_bounded_line_raw (\<lambda>raw. sret (from_utf8_lossy raw))"

subsection \<open>Helpers\<close>

definition redact_auth :: "bytes \<Rightarrow> bytes" where
  "redact_auth cmd =
     (if 11 < length cmd \<and> eq_ignore_ascii_case (take 10 cmd) ''AUTH PLAIN''
      then ''AUTH PLAIN [REDACTED]'' else cmd)"

definition size_value :: "bytes \<Rightarrow> bytes option" where
  "size_value param =
     (if length SIZE_PARAM \<le> length param \<and> eq_ignore_ascii_case (take (length SIZE_PARAM) param) SIZE_PARAM
      then Some (drop (length SIZE_PARAM) param) else None)"

definition declared_size_refusal :: "bytes \<Rightarrow> nat \<Rightarrow> bytes option" where
  "declared_size_refusal line mx =
     (case List.map_filter size_value (drop 1 (split_ascii_whitespace line)) of
        [] \<Rightarrow> None
      | value # _ \<Rightarrow>
          (case parse_u64 value of
             Inr n \<Rightarrow> if n \<le> mx then None else Some SIZE_EXCEEDED
           | Inl PosOverflow \<Rightarrow> Some SIZE_EXCEEDED
           | Inl _ \<Rightarrow> Some SIZE_MALFORMED))"

definition is_data_terminator :: "bytes \<Rightarrow> bool" where
  "is_data_terminator line \<longleftrightarrow>
     (case strip_suffix line [CR, LF] of
        Some t \<Rightarrow> t
      | None \<Rightarrow> (case strip_suffix line [LF] of Some t \<Rightarrow> t | None \<Rightarrow> line)) = ''.''"

definition command_verb :: "bytes \<Rightarrow> bytes" where
  "command_verb line =
     (case split_ascii_whitespace line of
        [] \<Rightarrow> []
      | verb # _ \<Rightarrow> concat (take MAX_LOGGED_VERB_CHARS (chars verb)))"

definition extract_address :: "bytes \<Rightarrow> bytes" where
  "extract_address line =
     (case (find_char CHR ''<'' line, find_char CHR ''>'' line) of
        (Some start, Some end') \<Rightarrow>
          if start < end' then take (end' - (start + 1)) (drop (start + 1) line)
          else trim (case split_once CHR '':'' line of Some (_, r) \<Rightarrow> r | None \<Rightarrow> [])
      | _ \<Rightarrow> trim (case split_once CHR '':'' line of Some (_, r) \<Rightarrow> r | None \<Rightarrow> []))"

definition tls_active :: "session \<Rightarrow> bool" where
  "tls_active s \<longleftrightarrow> (case stream s of Some (Tls _) \<Rightarrow> True | _ \<Rightarrow> False)"

definition ehlo_response :: "session \<Rightarrow> bytes" where
  "ehlo_response s =
     crlf ''250-rustmail'' @ crlf (''250-SIZE '' @ show_nat (max_message_size s)) @
     crlf ''250-8BITMIME'' @ crlf ''250-PIPELINING'' @
     (if tls s \<and> \<not> tls_active s then crlf ''250-STARTTLS'' else []) @
     crlf ''250-AUTH PLAIN LOGIN'' @ crlf ''250 HELP''"

definition reset_transaction :: "session \<Rightarrow> session" where
  "reset_transaction s = s\<lparr>mail_from := None, rcpt_to := []\<rparr>"

definition reset_after_starttls :: "session \<Rightarrow> session" where
  "reset_after_starttls s = reset_transaction (s\<lparr>greeted := False\<rparr>)"

subsection \<open>The DATA phase\<close>

text \<open>
  The loop of \<open>drain_data\<close> on the connection. \<open>line_head\<close> holds at most the first bytes of
  the current line, as many as the terminating line has.
\<close>

function drain_conn :: "bool \<Rightarrow> bytes \<Rightarrow> conn \<Rightarrow> (session_error, unit) result \<times> conn" where
  "drain_conn mid_line line_head c =
     (case fill_buf c of
        (Inl e, c') \<Rightarrow> (Inl e, c')
      | (Inr available, c') \<Rightarrow>
          if available = [] then (Inl (Io UnexpectedEof), c')
          else
            let head_room = length DATA_TERMINATOR - length line_head;
                line_head' = line_head @ take (min (taken available) head_room) available;
                c'' = consume (taken available) c'
            in if position LF available \<noteq> None
               then if \<not> mid_line \<and> is_data_terminator line_head' then (Inr (), c'')
                    else drain_conn False [] c''
               else drain_conn mid_line line_head' c'')"
  by pat_completeness auto

termination
  by (relation "measure (\<lambda>(mid_line, line_head, c). conn_size c)") (auto simp: consume_fill_size)

declare drain_conn.simps [simp del]

definition drain_data :: "bool \<Rightarrow> conn \<Rightarrow> (session_error, unit) result \<times> conn" where
  "drain_data mid_line c = drain_conn mid_line [] c"

text \<open>Draining after a refusal: the refusal is reported unless the drain itself fails.\<close>

definition refuse_too_large :: "bool \<Rightarrow> conn \<Rightarrow> (session_error, bytes option) result \<times> conn" where
  "refuse_too_large mid_line c =
     (case drain_data mid_line c of
        (Inl e, c') \<Rightarrow> (Inl e, c')
      | (Inr _, c') \<Rightarrow> (Inl MessageTooLarge, c'))"

definition unstuff :: "bytes \<Rightarrow> bytes" where
  "unstuff line = (if starts_with line ''..'' then drop 1 line else line)"

lemma read_line_conn_size:
  "read_line_conn buf m c = (r, buf', c') \<Longrightarrow>
     conn_size c' \<le> conn_size c \<and> (buf' \<noteq> buf \<longrightarrow> conn_size c' < conn_size c)"
proof (induction buf m c arbitrary: r buf' c' rule: read_line_conn.induct)
  case (1 buf m c)
  obtain f c1 where f: "fill_buf c = (f, c1)" by fastforce
  show ?case
  proof (cases f)
    case (Inl e)
    then show ?thesis using 1 f fill_buf_size [OF f] by (simp add: read_line_conn.simps [of buf])
  next
    case (Inr av)
    show ?thesis
    proof (cases "av = []")
      case True
      then show ?thesis
        using 1 f Inr fill_buf_size [OF f] by (auto simp: read_line_conn.simps [of buf])
    next
      case False
      then have "conn_size (consume (taken av) c1) < conn_size c"
        using f Inr consume_fill_size by blast
      then show ?thesis using 1 f Inr False
        by (fastforce simp: read_line_conn.simps [of buf] Let_def split: if_splits)
    qed
  qed
qed

lemma read_line_conn_length: "read_line_conn buf m c = (Inr n, buf', c') \<Longrightarrow> n = length buf'"
  by (induction buf m c rule: read_line_conn.induct)
    (subst (asm) (2) read_line_conn.simps,
     auto simp: Let_def split: prod.splits sum.splits if_splits)

lemma read_line_conn_less:
  "read_line_conn [] m c = (Inr n, line_buf, c') \<Longrightarrow> 0 < n \<Longrightarrow> conn_size c' < conn_size c"
  using read_line_conn_length read_line_conn_size by fastforce

text \<open>The loop of \<open>receive_data\<close>: the message, or nothing when the peer is gone.\<close>

function receive_data_conn :: "nat \<Rightarrow> bytes \<Rightarrow> conn \<Rightarrow> (session_error, bytes option) result \<times> conn" where
  "receive_data_conn mx data c =
     (let budget = (mx - length data) + length DATA_TERMINATOR in
      case read_line_conn [] budget c of
        (Inl LineTooLong, line_buf, c') \<Rightarrow> refuse_too_large (\<not> ends_with line_buf [LF]) c'
      | (Inl e, line_buf, c') \<Rightarrow> (Inl e, c')
      | (Inr bytes_read, line_buf, c') \<Rightarrow>
          if bytes_read = 0 then (Inr None, c')
          else if is_data_terminator line_buf then (Inr (Some data), c')
          else if mx < length data + length line_buf then refuse_too_large False c'
          else receive_data_conn mx (data @ unstuff line_buf) c')"
  by pat_completeness auto

termination
  by (relation "measure (\<lambda>(mx, data, c). conn_size c)")
    (auto intro: read_line_conn_less [OF sym])

declare receive_data_conn.simps [simp del]

definition receive_data :: "received_message option sess" where
  "receive_data s =
     (case stream s of
        None \<Rightarrow> (Inl StreamClosed, s)
      | Some st \<Rightarrow>
          (case receive_data_conn (max_message_size s) [] (conn_of st) of
             (r, c) \<Rightarrow>
               (map_sum id (map_option (\<lambda>data.
                  \<lparr>rm_sender = (case mail_from s of None \<Rightarrow> [] | Some f \<Rightarrow> f),
                   rm_recipients = rcpt_to s, rm_raw = data\<rparr>)) r,
                s\<lparr>stream := Some (with_conn c st)\<rparr>)))"

text \<open>
  \<open>deliver\<close>: the world's next verdict says what became of the message; when it says nothing
  more, nobody answers and the wait times out.
\<close>

definition deliver :: "received_message \<Rightarrow> unit sess" where
  "deliver m s =
     (let (v, vs) = (case verdicts s of [] \<Rightarrow> (AckTimedOut, []) | v # vs \<Rightarrow> (v, vs));
          s' = s\<lparr>verdicts := vs, journal := journal s @ [Handed m v]\<rparr>
      in case v of
           ChannelClosed \<Rightarrow> write_reply LOCAL_ERROR s'
         | Verdict Stored \<Rightarrow> write_reply OK s'
         | Verdict Rejected \<Rightarrow> write_reply LOCAL_ERROR s'
         | AckDropped \<Rightarrow> write_reply LOCAL_ERROR s'
         | AckTimedOut \<Rightarrow> write_reply LOCAL_ERROR s')"

subsection \<open>STARTTLS and AUTH\<close>

text \<open>
  The handshake is the TLS library's: the world says what \<open>accept\<close> returns, and which
  decrypted reads follow. It consumes the plain stream, so on failure the session is left
  without one.
\<close>

definition upgrade_to_tls :: "unit sess" where
  "upgrade_to_tls s =
     (case stream s of
        None \<Rightarrow> (Inl StreamClosed, s)
      | Some st \<Rightarrow>
          if buffer (conn_of st) \<noteq> [] then
            (Inl (TlsUpgrade ''buffered plaintext remained before STARTTLS handshake''), s)
          else if \<not> tls s then (Inl (TlsUpgrade ''TLS not configured''), s)
          else
            (case st of
               Tls _ \<Rightarrow> (Inl (TlsUpgrade ''connection is already using TLS''), s\<lparr>stream := None\<rparr>)
             | Plain _ \<Rightarrow>
                 (case handshakes s of
                    [] \<Rightarrow> (Inl Timeout, s\<lparr>stream := None\<rparr>)
                  | Inl e # hs \<Rightarrow> (Inl e, s\<lparr>stream := None, handshakes := hs\<rparr>)
                  | Inr fills # hs \<Rightarrow>
                      (Inr (), reset_after_starttls
                         (s\<lparr>stream := Some (Tls \<lparr>buffer = [], incoming = fills\<rparr>), handshakes := hs\<rparr>)))))"

definition AUTH_OK :: bytes where
  "AUTH_OK = crlf ''235 2.7.0 Authentication successful''"

definition handle_auth_plain :: "bytes \<Rightarrow> unit sess" where
  "handle_auth_plain line =
     (let parts = splitn 3 (CHR '' '') line in
      if length parts = 3 \<and> parts ! 2 \<noteq> [] then write_reply AUTH_OK
      else sthen (write_reply (crlf ''334''))
           (sthen read_bounded_line (write_reply AUTH_OK)))"

definition handle_auth_login :: "unit sess" where
  "handle_auth_login =
     sthen (write_reply (crlf ''334 VXNlcm5hbWU6''))
     (sthen read_bounded_line
     (sthen (write_reply (crlf ''334 UGFzc3dvcmQ6''))
     (sthen read_bounded_line (write_reply AUTH_OK))))"

subsection \<open>The command loop\<close>

text \<open>What a command leaves the loop with: the command count to go on with, or the end.\<close>

datatype flow = Continue nat | Return

definition reply :: "bytes \<Rightarrow> nat \<Rightarrow> flow sess" where
  "reply response count = sthen (write_reply response) (sret (Continue count))"

definition cmd_ehlo :: "nat \<Rightarrow> flow sess" where
  "cmd_ehlo count s =
     (let s' = reset_transaction (s\<lparr>greeted := True\<rparr>) in reply (ehlo_response s') count s')"

definition cmd_starttls :: "nat \<Rightarrow> flow sess" where
  "cmd_starttls count s =
     (if \<not> tls s then reply (crlf ''454 TLS not available due to temporary reason'') count s
      else if tls_active s then reply BAD_SEQUENCE count s
      else sthen (write_reply STARTTLS_READY) (sthen upgrade_to_tls (sret (Continue count))) s)"

definition cmd_mail :: "bytes \<Rightarrow> nat \<Rightarrow> flow sess" where
  "cmd_mail trimmed count s =
     (if \<not> greeted s then reply BAD_SEQUENCE count s
      else case declared_size_refusal trimmed (max_message_size s) of
        Some refusal \<Rightarrow> reply refusal count s
      | None \<Rightarrow> reply OK count (s\<lparr>mail_from := Some (extract_address trimmed), rcpt_to := []\<rparr>))"

definition cmd_rcpt :: "bytes \<Rightarrow> nat \<Rightarrow> flow sess" where
  "cmd_rcpt trimmed count s =
     (if mail_from s = None then reply BAD_SEQUENCE count s
      else if MAX_RECIPIENTS \<le> length (rcpt_to s) then reply (crlf ''452 Too many recipients'') count s
      else reply OK count (s\<lparr>rcpt_to := rcpt_to s @ [extract_address trimmed]\<rparr>))"

definition data_received :: "received_message option \<Rightarrow> flow sess" where
  "data_received msg =
     sthen (case msg of None \<Rightarrow> sret () | Some m \<Rightarrow> deliver m)
     (sthen (modify reset_transaction) (sret (Continue 0)))"

definition cmd_data :: "nat \<Rightarrow> flow sess" where
  "cmd_data count s =
     (if mail_from s = None \<or> rcpt_to s = [] then reply BAD_SEQUENCE count s
      else sthen (write_reply DATA_START)
        (\<lambda>s. case receive_data s of
               (Inr msg, s') \<Rightarrow> data_received msg s'
             | (Inl MessageTooLarge, s') \<Rightarrow> reply (crlf ''552 Message exceeds maximum size'') count s'
             | (Inl e, s') \<Rightarrow> (Inl e, s')) s)"

definition cmd_quit :: "flow sess" where
  "cmd_quit = sthen (write_reply QUIT_RESPONSE) (sret Return)"

definition cmd_rset :: "nat \<Rightarrow> flow sess" where
  "cmd_rset count = sthen (modify reset_transaction) (reply RSET_OK count)"

definition command :: "bytes \<Rightarrow> nat \<Rightarrow> flow sess" where
  "command line count =
     (let trimmed = trim line; upper = to_ascii_uppercase trimmed in
      if starts_with upper ''EHLO'' \<or> starts_with upper ''HELO'' then cmd_ehlo count
      else if upper = ''STARTTLS'' then cmd_starttls count
      else if starts_with upper ''MAIL FROM:'' then cmd_mail trimmed count
      else if starts_with upper ''RCPT TO:'' then cmd_rcpt trimmed count
      else if upper = ''DATA'' then cmd_data count
      else if upper = ''QUIT'' then cmd_quit
      else if upper = ''RSET'' then cmd_rset count
      else if starts_with upper ''AUTH PLAIN'' then
        sthen (handle_auth_plain trimmed) (sret (Continue count))
      else if starts_with upper ''AUTH LOGIN'' then sthen handle_auth_login (sret (Continue count))
      else if starts_with upper ''AUTH'' then
        reply (crlf ''504 Unrecognized authentication type'') count
      else if upper = ''NOOP'' then reply OK count
      else reply UNKNOWN_CMD count)"

text \<open>One turn of the loop of \<open>handle\<close>.\<close>

definition turn :: "nat \<Rightarrow> flow sess" where
  "turn count =
     sbind read_bounded_line (\<lambda>line.
       if line = [] then sret Return
       else if MAX_COMMANDS_PER_TRANSACTION < count + 1 then
         sthen (write_reply (crlf ''421 Too many commands'')) (sret Return)
       else command line (count + 1))"

text \<open>
  The loop ends because every turn but the last reads at least one byte of the current
  stream, and a new stream uses up a handshake.
\<close>

fun handshake_size :: "(session_error, fill list) result \<Rightarrow> nat" where
  "handshake_size (Inl _) = 1"
| "handshake_size (Inr fills) = Suc (sum_list (map fill_size fills))"

definition session_size :: "session \<Rightarrow> nat" where
  "session_size s =
     (case stream s of None \<Rightarrow> 0 | Some st \<Rightarrow> conn_size (conn_of st)) +
     sum_list (map handshake_size (handshakes s))"

definition shrinks :: "'a sess \<Rightarrow> bool" where
  "shrinks m \<longleftrightarrow> (\<forall>s. session_size (snd (m s)) \<le> session_size s)"

lemma conn_of_with_conn [simp]: "conn_of (with_conn c st) = c"
  by (cases st) auto

lemma shrinksD: "shrinks m \<Longrightarrow> session_size (snd (m s)) \<le> session_size s"
  by (simp add: shrinks_def)

lemma shrinks_ret [consume_lems]: "shrinks (sret a)"
  by (simp add: shrinks_def sret_def)

lemma shrinks_bind [consume_lems]: "shrinks m \<Longrightarrow> (\<And>a. shrinks (f a)) \<Longrightarrow> shrinks (sbind m f)"
  unfolding shrinks_def
proof (intro allI)
  fix s
  assume m: "\<forall>s. session_size (snd (m s)) \<le> session_size s"
    and f: "\<And>a. \<forall>s. session_size (snd (f a s)) \<le> session_size s"
  obtain r s' where r: "m s = (r, s')" by fastforce
  then have "session_size s' \<le> session_size s" using m by (metis snd_conv)
  then show "session_size (snd (sbind m f s)) \<le> session_size s"
    using f r by (cases r) (auto simp: sbind_def intro: order_trans)
qed

lemma shrinks_then [consume_lems]: "shrinks m \<Longrightarrow> shrinks k \<Longrightarrow> shrinks (sthen m k)"
  by (simp add: sthen_def shrinks_bind)

lemma shrinks_write [consume_lems]: "shrinks (write_reply r)"
  by (auto simp: shrinks_def write_reply_def session_size_def split: option.splits list.splits)

lemma session_size_reset [simp]:
  "session_size (reset_transaction s) = session_size s"
  "session_size (s\<lparr>greeted := b\<rparr>) = session_size s"
  "session_size (s\<lparr>mail_from := f\<rparr>) = session_size s"
  "session_size (s\<lparr>rcpt_to := rs\<rparr>) = session_size s"
  "session_size (s\<lparr>journal := j\<rparr>) = session_size s"
  "session_size (s\<lparr>verdicts := vs\<rparr>) = session_size s"
  by (simp_all add: session_size_def reset_transaction_def)

lemma session_size_stream:
  "stream s = Some st \<Longrightarrow> conn_size c \<le> conn_size (conn_of st) \<Longrightarrow>
     session_size (s\<lparr>stream := Some (with_conn c st)\<rparr>) \<le> session_size s"
  by (simp add: session_size_def)

lemma shrinks_read_line [consume_lems]: "shrinks read_bounded_line"
proof -
  have "shrinks read_bounded_line_raw"
    unfolding shrinks_def read_bounded_line_raw_def read_line_untimed_def
    using read_line_conn_size session_size_stream
    by (fastforce split: option.splits prod.splits sum.splits)
  then show ?thesis unfolding read_bounded_line_def by (intro consume_lems)
qed

lemma drain_conn_size: "drain_conn mid_line h c = (r, c') \<Longrightarrow> conn_size c' \<le> conn_size c"
proof (induction mid_line h c arbitrary: r c' rule: drain_conn.induct)
  case (1 mid_line h c)
  obtain f c1 where f: "fill_buf c = (f, c1)" by fastforce
  note size1 = fill_buf_size [OF f] and unf = drain_conn.simps [of mid_line h c]
  show ?case
  proof (cases "\<exists>av. f = Inr av \<and> av \<noteq> []")
    case True
    then obtain av where av: "f = Inr av" "av \<noteq> []" by blast
    then have "conn_size (consume (taken av) c1) < conn_size c" using f consume_fill_size by blast
    then show ?thesis using 1 f av
      by (fastforce simp: unf Let_def split: if_splits)
  next
    case False
    then show ?thesis using 1 f size1 by (cases f) (auto simp: unf)
  qed
qed

lemma refuse_too_large_size: "refuse_too_large b c = (r, c') \<Longrightarrow> conn_size c' \<le> conn_size c"
  by (auto simp: refuse_too_large_def drain_data_def split: prod.splits sum.splits dest: drain_conn_size)

lemma receive_data_conn_size: "receive_data_conn mx data c = (r, c') \<Longrightarrow> conn_size c' \<le> conn_size c"
proof (induction mx data c arbitrary: r c' rule: receive_data_conn.induct)
  case (1 mx data c)
  obtain f line_buf c1 where f: "read_line_conn [] (mx - length data + length DATA_TERMINATOR) c = (f, line_buf, c1)"
    using prod_cases3 by blast
  have c1: "conn_size c1 \<le> conn_size c" using read_line_conn_size [OF f] by simp
  note unf = receive_data_conn.simps [of mx data c]
  show ?case
  proof (cases f)
    case (Inl e)
    then show ?thesis using 1 f c1
      by (cases e) (auto simp: unf Let_def dest!: refuse_too_large_size)
  next
    case (Inr n)
    then show ?thesis using 1 f c1
      by (fastforce simp: unf Let_def split: if_splits dest!: refuse_too_large_size)
  qed
qed

lemma shrinks_receive_data: "receive_data s = (r, s') \<Longrightarrow> session_size s' \<le> session_size s"
  using receive_data_conn_size session_size_stream
  by (fastforce simp: receive_data_def split: option.splits prod.splits)

lemma shrinks_deliver [consume_lems]: "shrinks (deliver m)"
  unfolding shrinks_def deliver_def Let_def
  by (auto split: prod.splits list.splits verdict.splits delivery_outcome.splits
      intro!: order_trans [OF shrinksD [OF shrinks_write]])

lemma shrinks_upgrade [consume_lems]: "shrinks upgrade_to_tls"
  by (auto simp: shrinks_def upgrade_to_tls_def session_size_def reset_after_starttls_def
      reset_transaction_def conn_size_def split: option.splits smtp_stream.splits list.splits sum.splits)

lemma shrinks_reset [consume_lems]: "shrinks (modify reset_transaction)"
  by (simp add: shrinks_def modify_def)

lemma shrinks_at: "shrinks m \<Longrightarrow> session_size s' \<le> n \<Longrightarrow> session_size (snd (m s')) \<le> n"
  using order_trans shrinksD by blast

lemma shrinks_reply [consume_lems]: "shrinks (reply r count)"
  unfolding reply_def by (intro consume_lems)

lemma shrinks_data_received [consume_lems]: "shrinks (data_received msg)"
  unfolding data_received_def by (intro consume_lems) (cases msg; simp add: consume_lems)

lemma shrinks_cmd_data [consume_lems]: "shrinks (cmd_data count)"
proof -
  have "shrinks (\<lambda>s. case receive_data s of
               (Inr msg, s') \<Rightarrow> data_received msg s'
             | (Inl MessageTooLarge, s') \<Rightarrow> reply r count s'
             | (Inl e, s') \<Rightarrow> (Inl e, s'))" (is "shrinks ?f") for r
    unfolding shrinks_def
  proof
    fix s
    obtain x s' where x: "receive_data s = (x, s')" by fastforce
    note le = shrinks_receive_data [OF x]
    show "session_size (snd (?f s)) \<le> session_size s"
    proof (cases x)
      case (Inl e)
      then show ?thesis using x le by (cases e) (auto intro: shrinks_at consume_lems)
    next
      case (Inr msg)
      then show ?thesis using x le by (auto intro: shrinks_at consume_lems)
    qed
  qed
  then have "shrinks (sthen (write_reply DATA_START) (\<lambda>s. case receive_data s of
               (Inr msg, s') \<Rightarrow> data_received msg s'
             | (Inl MessageTooLarge, s') \<Rightarrow> reply (crlf ''552 Message exceeds maximum size'') count s'
             | (Inl e, s') \<Rightarrow> (Inl e, s')))"
    by (intro shrinks_then shrinks_write)
  then show ?thesis
    unfolding cmd_data_def by (auto simp: shrinks_def intro: shrinksD [OF shrinks_reply])
qed

lemma shrinks_cmds [consume_lems]:
  "shrinks (cmd_ehlo count)" "shrinks (cmd_starttls count)" "shrinks (cmd_mail l count)"
  "shrinks (cmd_rcpt l count)" "shrinks cmd_quit" "shrinks (cmd_rset count)"
proof -
  show "shrinks (cmd_ehlo count)" "shrinks (cmd_mail l count)" "shrinks (cmd_rcpt l count)"
    by (auto simp: shrinks_def cmd_ehlo_def cmd_mail_def cmd_rcpt_def Let_def
        intro!: shrinks_at [OF shrinks_reply] split: option.splits)
  have "shrinks (sthen (write_reply STARTTLS_READY) (sthen upgrade_to_tls (sret (Continue count))))"
    by (intro consume_lems)
  then show "shrinks (cmd_starttls count)"
    by (auto simp: shrinks_def cmd_starttls_def intro!: shrinks_at [OF shrinks_reply])
  show "shrinks cmd_quit" "shrinks (cmd_rset count)"
    unfolding cmd_quit_def cmd_rset_def by (intro consume_lems)+
qed

lemma shrinks_auth [consume_lems]: "shrinks (handle_auth_plain l)" "shrinks handle_auth_login"
  unfolding handle_auth_plain_def handle_auth_login_def Let_def
  by (auto intro!: consume_lems)

lemma shrinks_command: "shrinks (command line count)"
  unfolding command_def Let_def by (auto intro!: consume_lems)

lemma from_utf8_lossy_empty [simp]: "from_utf8_lossy [] = []"
  by (simp add: from_utf8_lossy_def)

lemma read_bounded_line_less:
  "read_bounded_line s = (Inr line, s') \<Longrightarrow> line \<noteq> [] \<Longrightarrow> session_size s' < session_size s"
  by (auto simp: read_bounded_line_def read_bounded_line_raw_def read_line_untimed_def sess_defs
      session_size_def split: option.splits prod.splits sum.splits
      dest!: read_line_conn_size)

lemma turn_less: "turn count s = (Inr (Continue n), s') \<Longrightarrow> session_size s' < session_size s"
proof -
  assume t: "turn count s = (Inr (Continue n), s')"
  then obtain line s1 where l: "read_bounded_line s = (Inr line, s1)"
    by (auto simp: turn_def sbind_def split: prod.splits sum.splits)
  with t have "line \<noteq> []" by (auto simp: turn_def sbind_def sret_def)
  moreover from t l this have "command line (count + 1) s1 = (Inr (Continue n), s')"
    by (auto simp: turn_def sess_defs split: if_splits prod.splits sum.splits)
  ultimately show ?thesis
    using read_bounded_line_less [OF l] shrinksD [OF shrinks_command, of line "count + 1" s1] by simp
qed

function handle_loop :: "nat \<Rightarrow> unit sess" where
  "handle_loop count s =
     (case turn count s of
        (Inl e, s') \<Rightarrow> (Inl e, s')
      | (Inr Return, s') \<Rightarrow> (Inr (), s')
      | (Inr (Continue n), s') \<Rightarrow> handle_loop n s')"
  by pat_completeness auto

termination
  by (relation "measure (\<lambda>(count, s). session_size s)") (auto intro: turn_less [OF sym])

declare handle_loop.simps [simp del]

definition handle :: "unit sess" where
  "handle = sthen (write_reply (crlf ''220 rustmail ESMTP ready'')) (handle_loop 0)"

text \<open>A session as \<open>Session::new\<close> makes it, in a given world.\<close>

definition new_session ::
  "fill list \<Rightarrow> nat \<Rightarrow> bool \<Rightarrow> (session_error, fill list) result list \<Rightarrow> session_error option list
   \<Rightarrow> verdict list \<Rightarrow> session" where
  "new_session fills mx use_tls hs faults vs =
     \<lparr>handshakes = hs, write_faults = faults, verdicts = vs, journal = [],
      stream = Some (Plain \<lparr>buffer = [], incoming = fills\<rparr>), max_message_size = mx, tls = use_tls,
      greeted = False, mail_from = None, rcpt_to = []\<rparr>"

end
