(* ===== verification/Smtp_Framing.thy ===== *)
theory Smtp_Framing
  imports Smtp_Session
begin

text \<open>
  What the readers of \<open>session.rs\<close> do, stated on the bytes of the wire alone. The transport
  may cut the bytes into reads of any length; \<open>wire\<close> forgets the cuts, and the lemmas show
  that lines, messages and the drain after a refusal do not depend on them. The last part
  shows that dot-stuffed messages arrive as they were sent.
\<close>

subsection \<open>The bytes of the wire\<close>

text \<open>How the bytes end: the peer closed the stream, it failed, or the peer went silent.\<close>

datatype ending = Closed | Failed | Silent

fun wire_of :: "fill list \<Rightarrow> bytes \<times> ending" where
  "wire_of [] = ([], Closed)"
| "wire_of (Data [] # _) = ([], Closed)"
| "wire_of (Data bs # r) = (bs @ fst (wire_of r), snd (wire_of r))"
| "wire_of (ReadError # _) = ([], Failed)"
| "wire_of (Stall # _) = ([], Silent)"

definition wire :: "conn \<Rightarrow> bytes" where
  "wire c = buffer c @ fst (wire_of (incoming c))"

definition wire_end :: "conn \<Rightarrow> ending" where
  "wire_end c = snd (wire_of (incoming c))"

fun end_error :: "ending \<Rightarrow> session_error" where
  "end_error Closed = Io UnexpectedEof"
| "end_error Failed = Io OtherIo"
| "end_error Silent = Timeout"

lemma fill_buf_cases:
  assumes "fill_buf c = (r, c')"
  obtains (bytes) av where "r = Inr av" "av \<noteq> []" "buffer c' = av" "wire c = av @ fst (wire_of (incoming c'))"
      "wire c' = wire c" "wire_end c' = wire_end c"
    | (eof) "r = Inr []" "c' = c" "wire c = []" "wire_end c = Closed"
    | (fault) "r = Inl (end_error (wire_end c))" "c' = c" "wire c = []" "wire_end c \<noteq> Closed"
proof -
  have "wire_of (Data bs # fs) = (bs @ fst (wire_of fs), snd (wire_of fs))" if "bs \<noteq> []" for bs fs
    using that by (cases bs) auto
  then show ?thesis
    using assms that
    by (auto simp: fill_buf_def wire_def wire_end_def split: if_splits list.splits fill.splits)
qed

lemma wire_consume:
  "buffer c = av \<Longrightarrow> n \<le> length av \<Longrightarrow> wire (consume n c) = drop n (wire c)"
  "wire_end (consume n c) = wire_end c"
  by (auto simp: wire_def wire_end_def consume_def)

text \<open>The first line, its newline included, and what follows it.\<close>

definition first_line :: "bytes \<Rightarrow> bytes" where
  "first_line bs = take (taken bs) bs"

definition after_line :: "bytes \<Rightarrow> bytes" where
  "after_line bs = drop (taken bs) bs"

lemma taken_le: "taken bs \<le> length bs"
  using find_char_Some [of LF bs]
  by (auto simp: taken_def position_def split: option.splits)

lemma first_line_after_line [simp]: "first_line bs @ after_line bs = bs"
  by (simp add: first_line_def after_line_def)

lemma position_None: "position LF bs = None \<longleftrightarrow> LF \<notin> set bs"
  by (simp add: position_def find_char_def)

lemma taken_append_LF: "LF \<notin> set a \<Longrightarrow> taken (a @ LF # b) = Suc (length a)"
  by (induction a) (auto simp: taken_def position_def find_char_def)

lemma taken_append_no_LF: "LF \<notin> set a \<Longrightarrow> taken (a @ b) = length a + taken b"
  by (induction a) (auto simp: taken_def position_def find_char_def)

lemma taken_append_left: "LF \<in> set a \<Longrightarrow> taken (a @ b) = taken a"
  by (metis append.assoc append_Cons in_set_conv_decomp_first taken_append_LF)

lemma taken_no_LF: "LF \<notin> set a \<Longrightarrow> taken a = length a"
  by (simp add: taken_def position_def find_char_def)

lemma first_line_append_left: "LF \<in> set a \<Longrightarrow> first_line (a @ b) = first_line a"
  using taken_le [of a] by (simp add: first_line_def taken_append_left)

lemma first_line_append_no_LF: "LF \<notin> set a \<Longrightarrow> first_line (a @ b) = a @ first_line b"
  by (simp add: first_line_def taken_append_no_LF)

lemma after_line_append_left: "LF \<in> set a \<Longrightarrow> after_line (a @ b) = after_line a @ b"
  using taken_le [of a] by (simp add: after_line_def taken_append_left)

lemma after_line_append_no_LF: "LF \<notin> set a \<Longrightarrow> after_line (a @ b) = after_line b"
  by (simp add: after_line_def taken_append_no_LF)

lemmas line_append = first_line_append_left first_line_append_no_LF after_line_append_left
  after_line_append_no_LF

lemma LF_in_first_line: "LF \<in> set (first_line bs) \<longleftrightarrow> LF \<in> set bs"
proof
  assume "LF \<in> set bs"
  then obtain a b where "bs = a @ LF # b" "LF \<notin> set a" by (meson split_list_first)
  then show "LF \<in> set (first_line bs)" by (simp add: first_line_def taken_append_LF)
qed (auto simp: first_line_def dest: in_set_takeD)

lemma first_line_no_LF: "LF \<notin> set bs \<Longrightarrow> first_line bs = bs \<and> after_line bs = []"
  by (simp add: first_line_def after_line_def taken_no_LF)

lemma after_line_length: "bs \<noteq> [] \<Longrightarrow> length (after_line bs) < length bs"
  using taken_pos [of bs] by (simp add: after_line_def)

lemma ends_with_LF_first_line: "LF \<in> set bs \<Longrightarrow> ends_with (first_line bs) [LF]"
proof -
  assume "LF \<in> set bs"
  then obtain a b where "bs = a @ LF # b" "LF \<notin> set a" by (meson split_list_first)
  then show ?thesis by (simp add: first_line_def taken_append_LF ends_with_def)
qed

subsection \<open>One line\<close>

text \<open>
  What reading a line does: it returns the first line when that is complete and within the
  bound, refuses it once more than the bound has arrived, and fails the way the bytes end
  otherwise.
\<close>

definition line_read :: "nat \<Rightarrow> bytes \<Rightarrow> conn \<Rightarrow> (session_error, nat) result \<Rightarrow> bytes \<Rightarrow> conn \<Rightarrow> bool" where
  "line_read m buf c r buf' c' \<longleftrightarrow> wire_end c' = wire_end c \<and>
    (case r of
       Inr n \<Rightarrow> buf' = buf @ first_line (wire c) \<and> wire c' = after_line (wire c) \<and>
         length buf' \<le> m \<and> (LF \<in> set (wire c) \<or> wire_end c = Closed)
     | Inl e \<Rightarrow>
         if e = LineTooLong then
           \<exists>k \<le> taken (wire c). buf' = buf @ take k (wire c) \<and> wire c' = drop k (wire c) \<and> m < length buf'
         else e = end_error (wire_end c) \<and> wire_end c \<noteq> Closed \<and> LF \<notin> set (wire c) \<and>
           wire c' = [] \<and> length buf + length (wire c) \<le> m)"

lemma end_error_not_LineTooLong [simp]: "end_error x \<noteq> LineTooLong" "LineTooLong \<noteq> end_error x"
  by (cases x; simp)+

lemma line_read_extend:
  assumes "line_read m (buf @ av) c2 r buf' c'" "LF \<notin> set av"
    and "wire c = av @ wire c2" "wire_end c2 = wire_end c"
  shows "line_read m buf c r buf' c'"
proof (cases "r = Inl LineTooLong")
  case True
  with assms(1) obtain k where "k \<le> taken (wire c2)" "buf' = buf @ av @ take k (wire c2)"
    "wire c' = drop k (wire c2)" "m < length buf'" by (auto simp: line_read_def)
  then show ?thesis using True assms
    by (auto simp: line_read_def taken_append_no_LF intro!: exI [of _ "length av + k"])
next
  case False
  with assms show ?thesis by (cases r) (auto simp: line_read_def line_append)
qed

lemma line_read_stop:
  assumes "buffer c1 = av" "wire c = av @ fst (wire_of (incoming c1))"
    and "wire c1 = wire c" "wire_end c1 = wire_end c"
  shows "m < length (buf @ first_line av) \<Longrightarrow>
      line_read m buf c (Inl LineTooLong) (buf @ first_line av) (consume (taken av) c1)"
    and "length (buf @ first_line av) \<le> m \<Longrightarrow> LF \<in> set av \<Longrightarrow>
      line_read m buf c (Inr n) (buf @ first_line av) (consume (taken av) c1)"
proof -
  have "taken av \<le> taken (wire c)"
    using assms(2) by (cases "LF \<in> set av") (auto simp: taken_append_left taken_append_no_LF taken_no_LF)
  moreover have "first_line av = take (taken av) (wire c)"
    and w: "wire (consume (taken av) c1) = drop (taken av) (wire c)"
    using assms taken_le [of av] by (auto simp: first_line_def wire_consume)
  ultimately show "m < length (buf @ first_line av) \<Longrightarrow>
      line_read m buf c (Inl LineTooLong) (buf @ first_line av) (consume (taken av) c1)"
    using assms(4) by (auto simp: line_read_def wire_consume)
  show "length (buf @ first_line av) \<le> m \<Longrightarrow> LF \<in> set av \<Longrightarrow>
      line_read m buf c (Inr n) (buf @ first_line av) (consume (taken av) c1)"
    using assms w by (simp add: line_read_def wire_consume line_append)
      (simp add: after_line_def taken_append_left taken_le)
qed

lemma read_line_conn_wire:
  "read_line_conn buf m c = (r, buf', c') \<Longrightarrow> length buf \<le> m \<Longrightarrow> line_read m buf c r buf' c'"
proof (induction buf m c arbitrary: r buf' c' rule: read_line_conn.induct)
  case (1 buf m c)
  obtain f c1 where f: "fill_buf c = (f, c1)" by fastforce
  note unf = read_line_conn.simps [of buf m c]
  show ?case
  proof (rule fill_buf_cases [OF f])
    fix av
    assume av: "f = Inr av" "av \<noteq> []" and c1: "buffer c1 = av" "wire c = av @ fst (wire_of (incoming c1))"
      "wire c1 = wire c" "wire_end c1 = wire_end c"
    let ?c2 = "consume (taken av) c1" and ?buf = "buf @ first_line av"
    note stop = line_read_stop [OF c1, where m = m and buf = buf]
    show ?thesis
    proof (cases "m < length ?buf \<or> LF \<in> set av")
      case True
      then show ?thesis using 1(2) f av stop
        by (auto simp: unf first_line_def position_None not_less Let_def split: if_splits)
    next
      case False
      then have av1: "first_line av = av" "taken av = length av" using first_line_no_LF taken_no_LF by auto
      have "line_read m ?buf ?c2 r buf' c'"
        using 1(1) [OF f [symmetric] av(1) av(2)] 1(2) f av False
        by (simp add: unf first_line_def position_None)
      moreover have "wire c = av @ wire ?c2" "wire_end ?c2 = wire_end c"
        using c1 av1 by (simp_all add: wire_consume)
      ultimately show ?thesis using line_read_extend False av1 by simp
    qed
  next
    assume "f = Inr []" "c1 = c" "wire c = []" "wire_end c = Closed"
    then show ?thesis using 1 f by (auto simp: unf first_line_no_LF line_read_def)
  next
    assume "f = Inl (end_error (wire_end c))" "c1 = c" "wire c = []" "wire_end c \<noteq> Closed"
    then show ?thesis using 1 f by (auto simp: unf line_read_def)
  qed
qed

subsection \<open>Draining\<close>

text \<open>The bytes after the next line that is a lone dot, if there is one.\<close>

function skip_to_dot :: "bytes \<Rightarrow> bytes option" where
  "skip_to_dot bs =
     (if LF \<notin> set bs then None
      else if is_data_terminator (first_line bs) then Some (after_line bs)
      else skip_to_dot (after_line bs))"
  by pat_completeness auto

termination
  by (relation "measure length") (auto intro: after_line_length)

declare skip_to_dot.simps [simp del]

definition skip_from :: "bool \<Rightarrow> bytes \<Rightarrow> bytes option" where
  "skip_from mid_line bs =
     (if mid_line then (if LF \<in> set bs then skip_to_dot (after_line bs) else None) else skip_to_dot bs)"

lemma is_data_terminator_iff:
  "is_data_terminator l \<longleftrightarrow> l = ''.'' \<or> l = ''.'' @ [LF] \<or> l = ''.'' @ [CR, LF]"
proof (cases "strip_suffix l [CR, LF]")
  case None
  then have crlf: "\<forall>t. l \<noteq> t @ [CR, LF]" by (simp add: strip_suffix_None)
  show ?thesis
  proof (cases "strip_suffix l [LF]")
    case None2: None
    with None have "is_data_terminator l \<longleftrightarrow> l = ''.''" by (simp add: is_data_terminator_def)
    then show ?thesis using crlf None2 by (auto simp: strip_suffix_None)
  next
    case (Some t)
    with None have "is_data_terminator l \<longleftrightarrow> t = ''.''" by (simp add: is_data_terminator_def)
    then show ?thesis using crlf Some by (auto simp: strip_suffix_Some)
  qed
next
  case (Some t)
  then have "l = t @ [CR, LF]" by (simp add: strip_suffix_Some)
  with Some show ?thesis by (auto simp: is_data_terminator_def Cons_eq_append_conv append_eq_Cons_conv)
qed

lemma is_data_terminator_head:
  assumes "LF \<notin> set a"
  shows "is_data_terminator (take 3 (a @ [LF])) \<longleftrightarrow> is_data_terminator (a @ [LF])"
proof (cases "length a \<le> 2")
  case False
  then obtain x y z r where "a = x # y # z # r"
    by (cases a; cases "tl a"; cases "tl (tl a)") auto
  with assms show ?thesis by (auto simp: is_data_terminator_iff)
qed simp

lemma first_line_LF: "LF \<in> set bs \<Longrightarrow> \<exists>a. first_line bs = a @ [LF] \<and> LF \<notin> set a"
proof -
  assume "LF \<in> set bs"
  then obtain a b where "bs = a @ LF # b" "LF \<notin> set a" by (meson split_list_first)
  then show ?thesis by (auto simp: first_line_def taken_append_LF)
qed

text \<open>
  The drain, in the middle of a line of which \<open>seen\<close> was read: it stops after the first lone
  dot, or fails the way the bytes end.
\<close>

definition drained :: "bool \<Rightarrow> bytes \<Rightarrow> conn \<Rightarrow> (session_error, unit) result \<Rightarrow> conn \<Rightarrow> bool" where
  "drained mid_line seen c r c' \<longleftrightarrow> wire_end c' = wire_end c \<and>
     (case skip_from mid_line (seen @ wire c) of
        None \<Rightarrow> r = Inl (end_error (wire_end c)) \<and> wire c' = []
      | Some rest \<Rightarrow> r = Inr () \<and> wire c' = rest)"

lemma skip_from_line:
  assumes "LF \<notin> set seen" "LF \<in> set av"
  shows "skip_from mid_line (seen @ av @ rest) =
    (if \<not> mid_line \<and> is_data_terminator (take 3 (seen @ first_line av)) then Some (after_line av @ rest)
     else skip_to_dot (after_line av @ rest))"
proof -
  obtain a where a: "first_line av = a @ [LF]" "LF \<notin> set a" using first_line_LF assms(2) by blast
  then have "is_data_terminator (take 3 (seen @ first_line av)) \<longleftrightarrow> is_data_terminator (seen @ first_line av)"
    using is_data_terminator_head [of "seen @ a"] assms(1) by simp
  then show ?thesis
    using assms skip_to_dot.simps [of "seen @ av @ rest"]
    by (auto simp: skip_from_def line_append)
qed

lemma skip_from_none: "LF \<notin> set bs \<Longrightarrow> skip_from mid_line bs = None"
  by (simp add: skip_from_def skip_to_dot.simps [of bs])

lemma line_head_take:
  "take 3 seen @ take (min (taken av) (length DATA_TERMINATOR - length (take 3 seen))) av =
   take 3 (seen @ first_line av)"
  by (simp add: first_line_def DATA_TERMINATOR_def crlf_def min.commute numeral_3_eq_3 min_diff)
    (metis diff_is_0_eq nat_le_linear min.absorb1 min.absorb2)

lemma drain_conn_step:
  assumes "fill_buf c = (Inr av, c1)" "av \<noteq> []"
  shows "drain_conn mid_line (take 3 seen) c =
    (if LF \<in> set av then
       if \<not> mid_line \<and> is_data_terminator (take 3 (seen @ first_line av))
       then (Inr (), consume (taken av) c1) else drain_conn False [] (consume (taken av) c1)
     else drain_conn mid_line (take 3 (seen @ first_line av)) (consume (taken av) c1))"
  by (subst drain_conn.simps) (simp only: assms Let_def line_head_take position_None prod.case sum.case if_False not_not)

lemma drain_conn_wire:
  "drain_conn mid_line (take 3 seen) c = (r, c') \<Longrightarrow> LF \<notin> set seen \<Longrightarrow> drained mid_line seen c r c'"
proof (induction "conn_size c" arbitrary: mid_line seen c r c' rule: less_induct)
  case less
  obtain f c1 where f: "fill_buf c = (f, c1)" by fastforce
  note unf = drain_conn.simps [of mid_line "take 3 seen" c]
  show ?case
  proof (rule fill_buf_cases [OF f])
    fix av
    assume av: "f = Inr av" "av \<noteq> []" and c1: "buffer c1 = av" "wire c = av @ fst (wire_of (incoming c1))"
      "wire c1 = wire c" "wire_end c1 = wire_end c"
    let ?c2 = "consume (taken av) c1" and ?rest = "fst (wire_of (incoming c1))"
    have w2: "wire ?c2 = after_line av @ ?rest" "wire_end ?c2 = wire_end c"
      using c1 taken_le [of av] by (simp_all add: wire_consume after_line_def)
    have smaller: "conn_size ?c2 < conn_size c" using f av consume_fill_size by blast
    have step: "drain_conn mid_line (take 3 seen) c =
      (if LF \<in> set av then
         if \<not> mid_line \<and> is_data_terminator (take 3 (seen @ first_line av)) then (Inr (), ?c2)
         else drain_conn False [] ?c2
       else drain_conn mid_line (take 3 (seen @ first_line av)) ?c2)"
      using drain_conn_step f av by simp
    show ?thesis
    proof (cases "LF \<in> set av")
      case True
      note line = skip_from_line [OF less.prems(2) True, of mid_line ?rest]
      show ?thesis
      proof (cases "\<not> mid_line \<and> is_data_terminator (take 3 (seen @ first_line av))")
        case True
        then have "r = Inr ()" "c' = ?c2"
          using less.prems(1) \<open>LF \<in> set av\<close> unfolding step by (simp_all del: take_append)
        then show ?thesis using True c1(2) w2 line by (simp add: drained_def del: take_append)
      next
        case False
        then have "drain_conn False (take 3 []) ?c2 = (r, c')"
          using False less.prems(1) \<open>LF \<in> set av\<close> unfolding step by (auto simp del: take_append)
        then have "drained False [] ?c2 r c'" using less.hyps [OF smaller] by simp
        moreover have "skip_from mid_line (seen @ wire c) = skip_from False (wire ?c2)"
          using False line w2(1) c1(2) by (auto simp: skip_from_def simp del: take_append)
        ultimately show ?thesis by (auto simp: drained_def w2(2) split: option.splits)
      qed
    next
      case False
      then have "drain_conn mid_line (take 3 (seen @ av)) ?c2 = (r, c')"
        using less.prems(1) by (simp add: step first_line_no_LF del: take_append)
      then have "drained mid_line (seen @ av) ?c2 r c'"
        using less.hyps [OF smaller] less.prems(2) False by simp
      then show ?thesis using False w2 c1
        by (auto simp: drained_def first_line_no_LF split: option.splits)
    qed
  next
    assume "f = Inr []" "c1 = c" "wire c = []" "wire_end c = Closed"
    then show ?thesis using less f by (auto simp: unf drained_def skip_from_none)
  next
    assume "f = Inl (end_error (wire_end c))" "c1 = c" "wire c = []" "wire_end c \<noteq> Closed"
    then show ?thesis using less f by (auto simp: unf drained_def skip_from_none)
  qed
qed

subsection \<open>One message\<close>

text \<open>\<open>receive_data\<close> on the bytes of the wire.\<close>

function recv_spec :: "nat \<Rightarrow> bytes \<Rightarrow> ending \<Rightarrow> bytes \<Rightarrow> (session_error, bytes option) result \<times> bytes" where
  "recv_spec mx data e bs =
     (if LF \<notin> set bs \<and> e \<noteq> Closed then (Inl (end_error e), [])
      else if bs = [] then (Inr None, [])
      else if is_data_terminator (first_line bs) then (Inr (Some data), after_line bs)
      else if mx < length data + length (first_line bs) then
        (case skip_to_dot (after_line bs) of
           None \<Rightarrow> (Inl (end_error e), [])
         | Some rest \<Rightarrow> (Inl MessageTooLarge, rest))
      else recv_spec mx (data @ unstuff (first_line bs)) e (after_line bs))"
  by pat_completeness auto

termination
  by (relation "measure (\<lambda>(mx, data, e, bs). length bs)") (auto intro: after_line_length)

declare recv_spec.simps [simp del]

lemma refuse_too_large_wire:
  assumes "refuse_too_large mid_line c = (r, c')"
  shows "wire_end c' = wire_end c \<and>
    (case skip_from mid_line (wire c) of
       None \<Rightarrow> r = Inl (end_error (wire_end c)) \<and> wire c' = []
     | Some rest \<Rightarrow> r = Inl MessageTooLarge \<and> wire c' = rest)"
proof -
  obtain q c1 where q: "drain_conn mid_line [] c = (q, c1)" by fastforce
  then have "drained mid_line [] c q c1" using drain_conn_wire [of mid_line "[]"] by simp
  then show ?thesis using assms q
    by (auto simp: refuse_too_large_def drain_data_def drained_def split: option.splits)
qed

text \<open>
  A line refused in the middle: dropping the rest of it, or nothing when it was read whole,
  leaves the drain at the next line.
\<close>

lemma skip_from_cut:
  assumes "k \<le> taken bs" "k \<noteq> 0"
  shows "skip_from (\<not> ends_with (take k bs) [LF]) (drop k bs) =
    (if LF \<in> set bs then skip_to_dot (after_line bs) else None)"
proof (cases "LF \<in> set bs")
  case True
  then obtain a b where bs: "bs = a @ LF # b" "LF \<notin> set a" by (meson split_list_first)
  then have t: "taken bs = Suc (length a)" "after_line bs = b"
    by (simp_all add: taken_append_LF after_line_def)
  show ?thesis
  proof (cases "k = Suc (length a)")
    case True
    then show ?thesis using bs t by (simp add: skip_from_def ends_with_def)
  next
    case False
    with assms t have k: "k \<le> length a" by simp
    then have "LF \<notin> set (take k bs)" using bs by (auto dest: in_set_takeD)
    then have "\<not> ends_with (take k bs) [LF]"
      by (metis ends_with_iff in_set_conv_decomp)
    moreover have "drop k bs = drop k a @ LF # b" "LF \<notin> set (drop k a)"
      using k bs by (auto dest: in_set_dropD)
    moreover have "after_line (drop k a @ LF # b) = b"
      using calculation by (simp add: after_line_def taken_append_LF)
    ultimately show ?thesis using t bs by (simp add: skip_from_def)
  qed
next
  case False
  then have "LF \<notin> set (drop k bs)" by (auto dest: in_set_dropD)
  then show ?thesis using False skip_from_none by simp
qed

lemma terminator_length: "is_data_terminator l \<Longrightarrow> length l \<le> 3"
  by (auto simp: is_data_terminator_iff)

lemma receive_data_conn_wire:
  "receive_data_conn mx data c = (r, c') \<Longrightarrow>
     recv_spec mx data (wire_end c) (wire c) = (r, wire c') \<and> wire_end c' = wire_end c"
proof (induction mx data c arbitrary: r c' rule: receive_data_conn.induct)
  case (1 mx data c)
  let ?budget = "mx - length data + length DATA_TERMINATOR"
  have b3: "mx - length data + 3 = ?budget" by (simp add: DATA_TERMINATOR_def crlf_def)
  obtain f l c1 where f: "read_line_conn [] ?budget c = (f, l, c1)" using prod_cases3 by blast
  then have lr: "line_read ?budget [] c f l c1" by (simp add: read_line_conn_wire)
  note unf = receive_data_conn.simps [of mx data c] and spec = recv_spec.simps [of mx data "wire_end c" "wire c"]
  show ?case
  proof (cases f)
    case (Inl e)
    show ?thesis
    proof (cases "e = LineTooLong")
      case True
      with Inl lr obtain k where k: "k \<le> taken (wire c)" "l = take k (wire c)"
        "wire c1 = drop k (wire c)" "?budget < length l" by (auto simp: line_read_def)
      have "length l \<le> length (first_line (wire c))" using k taken_le [of "wire c"] by (simp add: first_line_def)
      with k b3 have long: "mx < length data + length (first_line (wire c))" "3 < length (first_line (wire c))"
        by linarith+
      moreover have "k \<noteq> 0" using k by auto
      moreover have "refuse_too_large (\<not> ends_with l [LF]) c1 = (r, c')"
        using 1(2) f Inl True by (simp add: unf Let_def)
      ultimately show ?thesis
        using refuse_too_large_wire [of "\<not> ends_with l [LF]" c1 r c'] k lr terminator_length [of "first_line (wire c)"]
          skip_from_cut [OF k(1)] first_line_no_LF [of "wire c"] skip_to_dot.simps [of "[]"]
        by (auto simp: spec line_read_def split: option.splits if_splits)
    next
      case False
      then have "(r, c') = (Inl e, c1)" using 1(2) f Inl by (cases e) (auto simp: unf Let_def)
      then show ?thesis using lr Inl False by (auto simp: line_read_def spec)
    qed
  next
    case (Inr n)
    then have l: "l = first_line (wire c)" "wire c1 = after_line (wire c)" "wire_end c1 = wire_end c"
      "LF \<in> set (wire c) \<or> wire_end c = Closed" "n = length l"
      using lr f read_line_conn_length by (fastforce simp: line_read_def)+
    have l0: "l = [] \<longleftrightarrow> wire c = []" using l(1) taken_pos [of "wire c"] by (cases "wire c = []") (auto simp: first_line_def)
    show ?thesis
    proof (cases "n = 0 \<or> is_data_terminator l \<or> mx < length data + length l")
      case True
      then show ?thesis using 1(2) f Inr l l0 refuse_too_large_wire [of False c1 r c']
        by (auto simp: unf Let_def spec skip_from_def first_line_no_LF split: if_splits option.splits)
    next
      case False
      then show ?thesis using 1 f Inr l l0 by (auto simp: unf Let_def spec)
    qed
  qed
qed

subsection \<open>Messages as clients send them\<close>

text \<open>
  A client sends a message line by line, doubling a dot that starts a line, and ends it with
  a lone dot (RFC 5321, section 4.5.2).
\<close>

definition text_line :: "bytes \<Rightarrow> bool" where
  "text_line l \<longleftrightarrow> l \<noteq> [] \<and> last l = LF \<and> LF \<notin> set (butlast l)"

definition stuff_line :: "bytes \<Rightarrow> bytes" where
  "stuff_line l = (if starts_with l ''.'' then CHR ''.'' # l else l)"

definition transmit :: "bytes list \<Rightarrow> bytes" where
  "transmit ls = concat (map stuff_line ls) @ DATA_TERMINATOR"

lemma text_line_append: "text_line l \<Longrightarrow> \<exists>a. l = a @ [LF] \<and> LF \<notin> set a"
  by (metis append_butlast_last_id text_line_def)

lemma stuff_line_text: "text_line l \<Longrightarrow> text_line (stuff_line l)"
  by (auto simp: stuff_line_def text_line_def)

lemma first_line_text: "text_line l \<Longrightarrow> first_line (l @ bs) = l \<and> after_line (l @ bs) = bs"
  using text_line_append by (fastforce simp: first_line_def after_line_def taken_append_LF)

lemma text_line_LF: "text_line l \<Longrightarrow> LF \<in> set l \<and> l \<noteq> []"
  by (auto simp: text_line_def) (metis last_in_set)

lemma skip_to_dot_line:
  "text_line l \<Longrightarrow> skip_to_dot (l @ bs) = (if is_data_terminator l then Some bs else skip_to_dot bs)"
  using first_line_text text_line_LF by (subst skip_to_dot.simps) simp

lemma recv_spec_line:
  "text_line l \<Longrightarrow> recv_spec mx data e (l @ bs) =
     (if is_data_terminator l then (Inr (Some data), bs)
      else if mx < length data + length l then
        (case skip_to_dot bs of None \<Rightarrow> (Inl (end_error e), []) | Some rest \<Rightarrow> (Inl MessageTooLarge, rest))
      else recv_spec mx (data @ unstuff l) e bs)"
  using first_line_text [of l bs] text_line_LF [of l] by (subst recv_spec.simps) auto

lemma unstuff_stuff_line [simp]: "unstuff (stuff_line l) = l"
  by (cases l) (auto simp: unstuff_def stuff_line_def starts_with_def)

lemma stuff_line_not_terminator: "text_line l \<Longrightarrow> \<not> is_data_terminator (stuff_line l)"
  by (cases l) (auto simp: is_data_terminator_iff stuff_line_def starts_with_def text_line_def)

lemma terminator_facts:
  "is_data_terminator DATA_TERMINATOR" "text_line DATA_TERMINATOR"
  by (simp_all add: is_data_terminator_iff DATA_TERMINATOR_def crlf_def text_line_def)

lemma skip_to_dot_transmit:
  "\<forall>l \<in> set ls. text_line l \<Longrightarrow> skip_to_dot (transmit ls @ rest) = Some rest"
  by (induction ls)
    (simp_all add: transmit_def terminator_facts skip_to_dot_line stuff_line_text stuff_line_not_terminator)

lemma transmit_Cons: "transmit (l # ls) @ rest = stuff_line l @ transmit ls @ rest"
  by (simp add: transmit_def)

lemma recv_spec_transmit:
  "\<forall>l \<in> set ls. text_line l \<Longrightarrow>
     recv_spec mx data e (transmit ls @ rest) =
       (if \<forall>n < length ls. length data + length (concat (take n ls)) + length (stuff_line (ls ! n)) \<le> mx
        then Inr (Some (data @ concat ls)) else Inl MessageTooLarge, rest)"
proof (induction ls arbitrary: data)
  case Nil
  then show ?case by (simp add: transmit_def recv_spec_line terminator_facts)
next
  case (Cons l ls)
  have all: "(\<forall>n < Suc (length ls). P n) \<longleftrightarrow> P 0 \<and> (\<forall>n < length ls. P (Suc n))" for P
    by (metis Suc_less_eq gr0_conv_Suc linorder_neqE_nat not_less0 zero_less_Suc)
  show ?case
    using Cons.IH [of "data @ l"] Cons.prems skip_to_dot_transmit [of ls rest]
    by (auto simp: transmit_Cons recv_spec_line stuff_line_text stuff_line_not_terminator all add.assoc)
qed

lemma stuff_line_length: "length (stuff_line l) \<le> Suc (length l)"
  by (simp add: stuff_line_def)

lemma transmit_fits:
  assumes "length (concat ls) < mx" "n < length ls"
  shows "length (concat (take n ls)) + length (stuff_line (ls ! n)) \<le> mx"
proof -
  have "concat ls = concat (take n ls) @ ls ! n @ concat (drop (Suc n) ls)"
    using assms(2) by (metis append_assoc concat.simps(2) concat_append id_take_nth_drop)
  then have "length (concat ls) = length (concat (take n ls)) + length (ls ! n) + length (concat (drop (Suc n) ls))"
    by simp
  then show ?thesis using assms(1) stuff_line_length [of "ls ! n"] by linarith
qed

lemma recv_spec_bound:
  "fst (recv_spec mx data e bs) = Inr (Some m) \<Longrightarrow> length data \<le> mx \<Longrightarrow> length m \<le> mx"
proof (induction mx data e bs rule: recv_spec.induct)
  case (1 mx data e bs)
  let ?stop = "LF \<notin> set bs \<and> e \<noteq> Closed \<or> bs = [] \<or> is_data_terminator (first_line bs) \<or>
    mx < length data + length (first_line bs)"
  show ?case
  proof (cases ?stop)
    case True
    then show ?thesis using 1(2,3)
      by (subst (asm) recv_spec.simps) (auto split: if_splits option.splits)
  next
    case False
    then have "recv_spec mx data e bs = recv_spec mx (data @ unstuff (first_line bs)) e (after_line bs)"
      by (subst recv_spec.simps) auto
    moreover have "length (data @ unstuff (first_line bs)) \<le> mx"
      using False by (auto simp: unstuff_def)
    ultimately show ?thesis using 1 False by simp
  qed
qed

lemma receive_data_conn_spec:
  "(fst (receive_data_conn mx data c), wire (snd (receive_data_conn mx data c))) =
     recv_spec mx data (wire_end c) (wire c)"
  using receive_data_conn_wire [of mx data c] by (metis prod.collapse)

subsection \<open>Properties\<close>

text \<open>
  C19. How TCP cuts the bytes into reads never matters to a message: two connections with the
  same bytes to come (and the same way of ending) give the same result from \<open>receive_data\<close>,
  the same error included, and leave the same bytes for the next command.
\<close>

theorem receive_data_chunking:
  assumes "wire c = wire d" and "wire_end c = wire_end d"
  shows "fst (receive_data_conn mx data c) = fst (receive_data_conn mx data d) \<and>
    wire (snd (receive_data_conn mx data c)) = wire (snd (receive_data_conn mx data d))"
  using receive_data_conn_spec [of mx data c] receive_data_conn_spec [of mx data d] assms
  by (metis prod.inject)

theorem receive_data_chunking_witness:
  "fst (receive_data_conn 9 [] \<lparr>buffer = [], incoming = [Data (crlf ''Hi''), Data (''.'' @ [CR]), Data [LF]]\<rparr>) =
   fst (receive_data_conn 9 [] \<lparr>buffer = ''H'', incoming = [Data (''i'' @ [CR, LF]), Data (crlf ''.'')]\<rparr>)"
  using receive_data_chunking
    [of "\<lparr>buffer = [], incoming = [Data (crlf ''Hi''), Data (''.'' @ [CR]), Data [LF]]\<rparr>"
        "\<lparr>buffer = ''H'', incoming = [Data (''i'' @ [CR, LF]), Data (crlf ''.'')]\<rparr>" 9 "[]"]
  by (simp add: wire_def wire_end_def crlf_def)



text \<open>
  A received message never exceeds the configured maximum size, whatever was sent.
\<close>

theorem receive_data_bounded:
  assumes "fst (receive_data_conn mx [] c) = Inr (Some m)"
  shows "length m \<le> mx"
  using receive_data_conn_spec [of mx "[]" c] assms recv_spec_bound [of mx "[]" "wire_end c" "wire c" m]
  by (metis fst_conv list.size(3) le0)

theorem receive_data_bounded_witness:
  "length (crlf ''abc'') \<le> 5"
  by (rule receive_data_bounded [of 5 "\<lparr>buffer = [], incoming = [Data (transmit [crlf ''abc''])]\<rparr>"]) code_simp


end
