(* ===== verification/Smtp_Safety.thy ===== *)
theory Smtp_Safety
  imports Smtp_Framing
begin

text \<open>
  What holds over whole sessions, for every input, every fault of the transport and every
  answer of the storage side: the state of the mail transaction, the messages handed over,
  the replies they get, and what a STARTTLS upgrade leaves behind.
\<close>

subsection \<open>Frames\<close>

lemma write_reply_frame [frame_lems]:
  assumes "write_reply r s = (x, s')"
  shows "stream s' = stream s" "max_message_size s' = max_message_size s" "tls s' = tls s"
    "greeted s' = greeted s" "mail_from s' = mail_from s" "rcpt_to s' = rcpt_to s"
    "verdicts s' = verdicts s" "handshakes s' = handshakes s"
  using assms by (auto simp: write_reply_def split: option.splits list.splits)

lemma read_bounded_line_shape: "read_bounded_line s = (x, s') \<Longrightarrow> s' = s\<lparr>stream := stream s'\<rparr>"
  by (auto simp: read_bounded_line_def read_bounded_line_raw_def read_line_untimed_def sess_defs
      split: option.splits prod.splits sum.splits)

lemma receive_data_shape: "receive_data s = (x, s') \<Longrightarrow> s' = s\<lparr>stream := stream s'\<rparr>"
  by (auto simp: receive_data_def split: option.splits prod.splits)

lemma receive_data_message:
  assumes "receive_data s = (Inr (Some m), s')" "mail_from s = Some f"
  shows "rm_sender m = f \<and> rm_recipients m = rcpt_to s \<and> length (rm_raw m) \<le> max_message_size s"
proof -
  from assms(1) obtain st where st: "stream s = Some st" by (auto simp: receive_data_def split: option.splits)
  obtain r c where r: "receive_data_conn (max_message_size s) [] (conn_of st) = (r, c)" by fastforce
  with assms st obtain data where "r = Inr (Some data)"
    "m = \<lparr>rm_sender = f, rm_recipients = rcpt_to s, rm_raw = data\<rparr>"
    by (cases r) (auto simp: receive_data_def)
  then show ?thesis
    using r receive_data_conn_spec [of "max_message_size s" "[]" "conn_of st"]
      recv_spec_bound [of "max_message_size s" "[]" "wire_end (conn_of st)" "wire (conn_of st)" data]
    by (metis fst_conv list.size(3) le0 received_message.select_convs)
qed

subsection \<open>Invariants of a session\<close>

text \<open>
  The interface between the session's commands and an invariant: every way a command may
  change the session keeps it. The lemmas of the locale carry it through every command and
  the whole loop.
\<close>

locale session_invariant =
  fixes P :: "session \<Rightarrow> bool"
  assumes wrote: "P s \<Longrightarrow> P (s\<lparr>write_faults := fs, journal := journal s @ [Wrote r]\<rparr>)"
    and fault: "P s \<Longrightarrow> P (s\<lparr>write_faults := fs\<rparr>)"
    and moved: "P s \<Longrightarrow> P (s\<lparr>stream := st\<rparr>)"
    and shook: "P s \<Longrightarrow> P (s\<lparr>handshakes := hs\<rparr>)"
    and reset: "P s \<Longrightarrow> P (s\<lparr>greeted := b, mail_from := None, rcpt_to := []\<rparr>)"
    and mail: "P s \<Longrightarrow> greeted s \<Longrightarrow> P (s\<lparr>mail_from := Some f, rcpt_to := []\<rparr>)"
    and rcpt: "P s \<Longrightarrow> mail_from s \<noteq> None \<Longrightarrow> length (rcpt_to s) < MAX_RECIPIENTS \<Longrightarrow>
      P (s\<lparr>rcpt_to := rcpt_to s @ [a]\<rparr>)"
    and handed: "P s \<Longrightarrow> mail_from s = Some (rm_sender m) \<Longrightarrow> rm_recipients m = rcpt_to s \<Longrightarrow>
      rcpt_to s \<noteq> [] \<Longrightarrow> length (rm_raw m) \<le> max_message_size s \<Longrightarrow>
      P (s\<lparr>verdicts := vs, journal := journal s @ [Handed m v]\<rparr>)"
begin

definition keeps :: "'a sess \<Rightarrow> bool" where
  "keeps m \<longleftrightarrow> (\<forall>s. P s \<longrightarrow> P (snd (m s)))"

lemma keepsD: "keeps m \<Longrightarrow> P s \<Longrightarrow> P (snd (m s))"
  by (simp add: keeps_def)

lemma keeps_ret: "keeps (sret a)"
  by (simp add: keeps_def sret_def)

lemma keeps_bind: "keeps m \<Longrightarrow> (\<And>a. keeps (f a)) \<Longrightarrow> keeps (sbind m f)"
  by (fastforce simp: keeps_def sbind_def split: prod.splits sum.splits)

lemma keeps_then: "keeps m \<Longrightarrow> keeps k \<Longrightarrow> keeps (sthen m k)"
  by (simp add: sthen_def keeps_bind)

lemma keeps_write: "keeps (write_reply r)"
proof -
  have "P (s\<lparr>journal := journal s @ [Wrote r]\<rparr>)" if "P s" for s
    using wrote [OF that, where fs = "write_faults s"] by simp
  then show ?thesis
    by (auto simp: keeps_def write_reply_def wrote fault split: option.splits list.splits)
qed

lemma keeps_read: "keeps read_bounded_line"
  unfolding keeps_def by (metis moved prod.collapse read_bounded_line_shape)

lemma keeps_receive: "P s \<Longrightarrow> P (snd (receive_data s))"
  by (metis moved prod.collapse receive_data_shape)

lemma keeps_reset: "P s \<Longrightarrow> P (reset_transaction s)"
  using reset [of s "greeted s"] by (simp add: reset_transaction_def)

lemma keeps_upgrade: "keeps upgrade_to_tls"
proof -
  have "P (s\<lparr>stream := st, handshakes := hs\<rparr>)" if "P s" for s st hs
    using shook [OF moved [OF that]] by simp
  moreover have "P (reset_after_starttls s)" if "P s" for s
    using reset [OF that, of False] by (simp add: reset_after_starttls_def reset_transaction_def)
  ultimately show ?thesis
    by (auto simp: keeps_def upgrade_to_tls_def moved split: option.splits smtp_stream.splits list.splits sum.splits)
qed

lemma keeps_reply: "keeps (reply r count)"
  unfolding reply_def by (intro keeps_then keeps_write keeps_ret)

lemmas keeps_intros = keeps_ret keeps_bind keeps_then keeps_write keeps_read keeps_upgrade keeps_reply

lemma keeps_deliver:
  assumes "P s" "mail_from s = Some (rm_sender m)" "rm_recipients m = rcpt_to s" "rcpt_to s \<noteq> []"
    "length (rm_raw m) \<le> max_message_size s"
  shows "P (snd (deliver m s))"
  using handed [OF assms] keepsD [OF keeps_write]
  by (auto simp: deliver_def Let_def split: prod.splits list.splits verdict.splits delivery_outcome.splits)

lemma keeps_data_received:
  assumes "P s" "receive_data s = (Inr msg, s')" "mail_from s = Some f" "rcpt_to s \<noteq> []"
  shows "P (snd (data_received msg s'))"
proof -
  have s': "P s'" using keeps_receive [OF assms(1)] assms(2) by simp
  define st where "st = stream s'"
  have st: "s' = s\<lparr>stream := st\<rparr>" unfolding st_def by (rule receive_data_shape [OF assms(2)])
  have tail: "keeps (sthen (modify reset_transaction) (sret (Continue 0)))"
    by (auto simp: keeps_def sess_defs keeps_reset)
  show ?thesis
  proof (cases msg)
    case None
    then show ?thesis using keepsD [OF tail s'] by (simp add: data_received_def sess_defs)
  next
    case (Some m)
    with assms receive_data_message have "P (snd (deliver m s'))"
      by (intro keeps_deliver) (auto simp: st s' [unfolded st])
    then show ?thesis using Some keepsD [OF tail]
      by (auto simp: data_received_def sthen_def [of "deliver m"] sbind_def split: prod.splits sum.splits)
  qed
qed

lemma keeps_cmd_data: "keeps (cmd_data count)"
  unfolding keeps_def
proof (intro allI impI)
  fix s
  assume s: "P s"
  obtain w s1 where w: "write_reply DATA_START s = (w, s1)" by fastforce
  have s1: "P s1" using keepsD [OF keeps_write s] w by (metis snd_conv)
  note fr = write_reply_frame [OF w]
  obtain x s2 where x: "receive_data s1 = (x, s2)" by fastforce
  have s2: "P s2" using keeps_receive [OF s1] x by simp
  show "P (snd (cmd_data count s))"
  proof (cases "mail_from s = None \<or> rcpt_to s = []")
    case True
    then show ?thesis using keepsD [OF keeps_reply s] by (simp add: cmd_data_def)
  next
    case False
    then obtain f where f: "mail_from s1 = Some f" "rcpt_to s1 \<noteq> []" using fr by auto
    show ?thesis
      using False w x s1 s2 keepsD [OF keeps_reply s2] keeps_data_received [OF s1 _ f]
      by (auto simp: cmd_data_def sthen_def sbind_def split: sum.splits session_error.splits)
  qed
qed

lemma keeps_cmds:
  "keeps (cmd_ehlo count)" "keeps (cmd_starttls count)" "keeps (cmd_mail l count)"
  "keeps (cmd_rcpt l count)" "keeps cmd_quit" "keeps (cmd_rset count)"
proof -
  have "P (reset_transaction (s\<lparr>greeted := True\<rparr>))" if "P s" for s
    using reset [OF that, of True] by (simp add: reset_transaction_def)
  then show "keeps (cmd_ehlo count)" "keeps (cmd_mail l count)" "keeps (cmd_rcpt l count)"
    by (auto simp: keeps_def cmd_ehlo_def cmd_mail_def cmd_rcpt_def Let_def mail rcpt not_le
        intro!: keepsD [OF keeps_reply] split: option.splits)
  have "keeps (sthen (write_reply STARTTLS_READY) (sthen upgrade_to_tls (sret (Continue count))))"
    by (intro keeps_intros)
  then show "keeps (cmd_starttls count)"
    by (auto simp: keeps_def cmd_starttls_def intro!: keepsD [OF keeps_reply])
  have "keeps (modify reset_transaction)" by (simp add: keeps_def modify_def keeps_reset)
  then show "keeps cmd_quit" "keeps (cmd_rset count)"
    unfolding cmd_quit_def cmd_rset_def by (intro keeps_intros)+
qed

lemma keeps_auth: "keeps (handle_auth_plain l)" "keeps handle_auth_login"
  unfolding handle_auth_plain_def handle_auth_login_def Let_def by (auto intro!: keeps_intros)

lemma keeps_turn: "keeps (turn count)"
proof -
  have "keeps (command line count)" for line count
    unfolding command_def Let_def by (auto intro!: keeps_intros keeps_cmds keeps_cmd_data keeps_auth)
  then show ?thesis unfolding turn_def by (auto intro!: keeps_intros)
qed

lemma keeps_loop: "P s \<Longrightarrow> P (snd (handle_loop count s))"
proof (induction count s rule: handle_loop.induct)
  case (1 count s)
  obtain r s' where r: "turn count s = (r, s')" by fastforce
  then have "P s'" using keepsD [OF keeps_turn 1(2)] by (metis snd_conv)
  then show ?case using 1(1) [OF r [symmetric]] r
    by (auto simp: handle_loop.simps [of count s] split: sum.splits flow.splits)
qed

lemma keeps_handle: "keeps handle"
  unfolding handle_def by (intro keeps_then keeps_write) (simp add: keeps_def keeps_loop)

end

subsection \<open>The mail transaction\<close>

definition transaction_ok :: "session \<Rightarrow> bool" where
  "transaction_ok s \<longleftrightarrow>
     (rcpt_to s \<noteq> [] \<longrightarrow> mail_from s \<noteq> None) \<and> (mail_from s \<noteq> None \<longrightarrow> greeted s) \<and>
     length (rcpt_to s) \<le> MAX_RECIPIENTS"

interpretation txn: session_invariant transaction_ok
  by unfold_locales (auto simp: transaction_ok_def)

fun deliverable :: "nat \<Rightarrow> entry \<Rightarrow> bool" where
  "deliverable mx (Wrote _) = True"
| "deliverable mx (Handed m v) =
     (rm_recipients m \<noteq> [] \<and> length (rm_recipients m) \<le> MAX_RECIPIENTS \<and> length (rm_raw m) \<le> mx)"

definition handed_ok :: "nat \<Rightarrow> session \<Rightarrow> bool" where
  "handed_ok mx s \<longleftrightarrow>
     max_message_size s = mx \<and> length (rcpt_to s) \<le> MAX_RECIPIENTS \<and> list_all (deliverable mx) (journal s)"

interpretation out: session_invariant "handed_ok mx" for mx
  by unfold_locales (auto simp: handed_ok_def)

subsection \<open>Every message gets its answer\<close>

definition answer_for :: "verdict \<Rightarrow> bytes" where
  "answer_for v = (if v = Verdict Stored then OK else LOCAL_ERROR)"

text \<open>Every message handed over is followed at once by the reply its verdict calls for.\<close>

fun acked :: "entry list \<Rightarrow> bool" where
  "acked [] = True"
| "acked (Wrote r # es) = acked es"
| "acked (Handed m v # Wrote r # es) = (r = answer_for v \<and> acked es)"
| "acked (Handed m v # es) = False"

text \<open>A session that failed may have failed while writing the last reply.\<close>

definition acked_upto_fault :: "entry list \<Rightarrow> bool" where
  "acked_upto_fault es \<longleftrightarrow> acked es \<or> (\<exists>es' m v. es = es' @ [Handed m v] \<and> acked es')"

definition answers :: "'a sess \<Rightarrow> bool" where
  "answers m \<longleftrightarrow> (\<forall>s. \<exists>es. journal (snd (m s)) = journal s @ es \<and>
     (case fst (m s) of Inr _ \<Rightarrow> acked es | Inl _ \<Rightarrow> acked_upto_fault es))"

lemma acked_append: "acked es \<Longrightarrow> acked fs \<Longrightarrow> acked (es @ fs)"
  by (induction es rule: acked.induct) auto

lemma acked_upto_fault_append: "acked es \<Longrightarrow> acked_upto_fault fs \<Longrightarrow> acked_upto_fault (es @ fs)"
  unfolding acked_upto_fault_def by (metis acked_append append.assoc)

lemma answersI:
  assumes "\<And>s r s'. m s = (r, s') \<Longrightarrow> \<exists>es. journal s' = journal s @ es \<and>
     (case r of Inr _ \<Rightarrow> acked es | Inl _ \<Rightarrow> acked_upto_fault es)"
  shows "answers m"
  unfolding answers_def using assms by (metis prod.collapse)

lemma answersD:
  assumes "answers m" "m s = (r, s')"
  obtains es where "journal s' = journal s @ es" "case r of Inr _ \<Rightarrow> acked es | Inl _ \<Rightarrow> acked_upto_fault es"
  using assms unfolding answers_def by (metis fst_conv snd_conv)

lemma answers_quiet: "(\<And>s. journal (snd (m s)) = journal s) \<Longrightarrow> answers m"
  by (auto simp: answers_def acked_upto_fault_def split: sum.splits)

lemma answers_bind:
  assumes m: "answers m" and f: "\<And>a. answers (f a)"
  shows "answers (sbind m f)"
proof (rule answersI)
  fix s r s'
  assume b: "sbind m f s = (r, s')"
  obtain x s1 where x: "m s = (x, s1)" by fastforce
  obtain es where es: "journal s1 = journal s @ es"
    "case x of Inr _ \<Rightarrow> acked es | Inl _ \<Rightarrow> acked_upto_fault es" by (rule answersD [OF m x])
  show "\<exists>es. journal s' = journal s @ es \<and> (case r of Inr _ \<Rightarrow> acked es | Inl _ \<Rightarrow> acked_upto_fault es)"
  proof (cases x)
    case (Inl e)
    then show ?thesis using b x es by (auto simp: sbind_def)
  next
    case (Inr a)
    then have "f a s1 = (r, s')" using b x by (simp add: sbind_def)
    then obtain fs where "journal s' = journal s1 @ fs"
      "case r of Inr _ \<Rightarrow> acked fs | Inl _ \<Rightarrow> acked_upto_fault fs" by (rule answersD [OF f])
    then show ?thesis using es Inr acked_append acked_upto_fault_append
      by (auto intro!: exI [of _ "es @ fs"] split: sum.splits)
  qed
qed

lemma answers_then: "answers m \<Longrightarrow> answers k \<Longrightarrow> answers (sthen m k)"
  by (simp add: sthen_def answers_bind)

lemma answers_ret: "answers (sret a)" "answers (modify reset_transaction)"
  by (auto intro!: answers_quiet simp: sess_defs reset_transaction_def)

lemma write_reply_journal:
  "write_reply r s = (x, s') \<Longrightarrow> journal s' = journal s @ (if x = Inr () then [Wrote r] else [])"
  by (auto simp: write_reply_def split: option.splits list.splits)

lemma answers_write: "answers (write_reply r)"
  by (rule answersI) (auto dest!: write_reply_journal simp: acked_upto_fault_def split: sum.splits)

lemma answers_read: "answers read_bounded_line"
proof (rule answers_quiet)
  fix s
  show "journal (snd (read_bounded_line s)) = journal s"
    using read_bounded_line_shape [of s] by (metis prod.collapse session.select_convs(1) session.surjective
        session.update_convs(1) world.select_convs(4))
qed

lemma deliver_eq:
  "deliver m s =
     (let v = (case verdicts s of [] \<Rightarrow> AckTimedOut | v # _ \<Rightarrow> v) in
      write_reply (answer_for v)
        (s\<lparr>verdicts := (case verdicts s of [] \<Rightarrow> [] | _ # vs \<Rightarrow> vs), journal := journal s @ [Handed m v]\<rparr>))"
  by (auto simp: deliver_def answer_for_def Let_def
      split: list.splits verdict.splits delivery_outcome.splits)

lemma answers_deliver: "answers (deliver m)"
proof (rule answersI)
  fix s r s'
  assume d: "deliver m s = (r, s')"
  define v where "v = (case verdicts s of [] \<Rightarrow> AckTimedOut | v # _ \<Rightarrow> v)"
  have "journal s' = (journal s @ [Handed m v]) @ (if r = Inr () then [Wrote (answer_for v)] else [])"
    using d write_reply_journal unfolding deliver_eq Let_def v_def [symmetric] by fastforce
  then show "\<exists>es. journal s' = journal s @ es \<and> (case r of Inr _ \<Rightarrow> acked es | Inl _ \<Rightarrow> acked_upto_fault es)"
    by (cases r) (auto simp: acked_upto_fault_def)
qed

lemma answers_upgrade: "answers upgrade_to_tls"
  by (rule answers_quiet)
    (auto simp: upgrade_to_tls_def reset_after_starttls_def reset_transaction_def
      split: option.splits smtp_stream.splits list.splits sum.splits)

lemma answers_reply: "answers (reply r count)"
  unfolding reply_def by (intro answers_then answers_write answers_ret)

lemmas answers_intros = answers_ret answers_bind answers_then answers_write answers_read answers_upgrade
  answers_reply answers_deliver

lemma answers_from:
  assumes "answers m" "journal s1 = journal s"
  shows "\<exists>es. journal (snd (m s1)) = journal s @ es \<and>
     (case fst (m s1) of Inr _ \<Rightarrow> acked es | Inl _ \<Rightarrow> acked_upto_fault es)"
  using assms by (metis answers_def)

lemma answers_cmd_data: "answers (cmd_data count)"
proof -
  let ?body = "\<lambda>s. case receive_data s of
               (Inr msg, s') \<Rightarrow> data_received msg s'
             | (Inl MessageTooLarge, s') \<Rightarrow> reply (crlf ''552 Message exceeds maximum size'') count s'
             | (Inl e, s') \<Rightarrow> (Inl e, s')"
  have data: "answers (data_received msg)" for msg
    unfolding data_received_def by (auto intro!: answers_intros split: option.splits)
  have "answers ?body"
    unfolding answers_def
  proof
    fix s
    obtain x s1 where x: "receive_data s = (x, s1)" by fastforce
    then have j: "journal s1 = journal s" using receive_data_shape
      by (metis session.select_convs(1) session.surjective session.update_convs(1) world.select_convs(4))
    show "\<exists>es. journal (snd (?body s)) = journal s @ es \<and>
       (case fst (?body s) of Inr _ \<Rightarrow> acked es | Inl _ \<Rightarrow> acked_upto_fault es)"
    proof (cases x)
      case (Inr msg)
      then show ?thesis using x answers_from [OF data j] by simp
    next
      case (Inl e)
      show ?thesis
      proof (cases "e = MessageTooLarge")
        case True
        then show ?thesis using x Inl answers_from [OF answers_reply j] by simp
      next
        case False
        then have "?body s = (Inl e, s1)" using x Inl by (cases e) simp_all
        then show ?thesis using j by (simp add: acked_upto_fault_def)
      qed
    qed
  qed
  then have "answers (sthen (write_reply DATA_START) ?body)" by (intro answers_intros)
  then show ?thesis using answers_reply by (auto simp: answers_def cmd_data_def)
qed

lemma answers_cmds:
  "answers (cmd_ehlo count)" "answers (cmd_starttls count)" "answers (cmd_mail l count)"
  "answers (cmd_rcpt l count)" "answers cmd_quit" "answers (cmd_rset count)"
proof -
  show "answers (cmd_ehlo count)" "answers (cmd_mail l count)" "answers (cmd_rcpt l count)"
    unfolding answers_def cmd_ehlo_def cmd_mail_def cmd_rcpt_def Let_def
    by (auto intro!: answers_from [OF answers_reply] simp: reset_transaction_def split: option.splits)
  have "answers (sthen (write_reply STARTTLS_READY) (sthen upgrade_to_tls (sret (Continue count))))"
    by (intro answers_intros)
  then show "answers (cmd_starttls count)"
    using answers_reply by (auto simp: answers_def cmd_starttls_def)
  show "answers cmd_quit" "answers (cmd_rset count)"
    unfolding cmd_quit_def cmd_rset_def by (intro answers_intros)+
qed

lemma answers_turn: "answers (turn count)"
proof -
  have "answers (handle_auth_plain l)" "answers handle_auth_login" for l
    unfolding handle_auth_plain_def handle_auth_login_def Let_def by (auto intro!: answers_intros)
  then have "answers (command line count)" for line count
    unfolding command_def Let_def by (auto intro!: answers_intros answers_cmds answers_cmd_data)
  then show ?thesis unfolding turn_def by (auto intro!: answers_intros)
qed

lemma answers_loop: "answers (handle_loop count)"
proof (rule answersI)
  fix s r s'
  show "handle_loop count s = (r, s') \<Longrightarrow>
    \<exists>es. journal s' = journal s @ es \<and> (case r of Inr _ \<Rightarrow> acked es | Inl _ \<Rightarrow> acked_upto_fault es)"
  proof (induction count s arbitrary: r s' rule: handle_loop.induct)
    case (1 count s)
    obtain x s1 where x: "turn count s = (x, s1)" by fastforce
    obtain es where es: "journal s1 = journal s @ es"
      "case x of Inr _ \<Rightarrow> acked es | Inl _ \<Rightarrow> acked_upto_fault es" by (rule answersD [OF answers_turn x])
    show ?case
    proof (cases "\<exists>n. x = Inr (Continue n)")
      case True
      then obtain n where n: "x = Inr (Continue n)" by blast
      then have "handle_loop n s1 = (r, s')" using 1(2) x by (simp add: handle_loop.simps [of count s])
      then obtain fs where "journal s' = journal s1 @ fs"
        "case r of Inr _ \<Rightarrow> acked fs | Inl _ \<Rightarrow> acked_upto_fault fs" using 1(1) [OF x [symmetric] n refl] by blast
      then show ?thesis using es n acked_append acked_upto_fault_append
        by (auto intro!: exI [of _ "es @ fs"] split: sum.splits)
    next
      case False
      then show ?thesis using 1(2) x es
        by (auto simp: handle_loop.simps [of count s] split: sum.splits flow.splits)
    qed
  qed
qed

lemma answers_handle: "answers handle"
  unfolding handle_def by (intro answers_intros answers_loop)

subsection \<open>The command cap\<close>

lemma reply_Continue: "reply r count s = (Inr (Continue n), s') \<Longrightarrow> n = count"
  by (auto simp: reply_def sess_defs split: prod.splits sum.splits)

lemma then_Continue: "sthen m (sret (Continue count)) s = (Inr (Continue n), s') \<Longrightarrow> n = count"
  by (auto simp: sess_defs split: prod.splits sum.splits)

lemma cmd_data_Continue: "cmd_data count s = (Inr (Continue n), s') \<Longrightarrow> n = 0 \<or> n = count"
  by (auto simp: cmd_data_def data_received_def sess_defs reply_def
      split: if_splits prod.splits sum.splits session_error.splits)

lemma command_Continue: "command line count s = (Inr (Continue n), s') \<Longrightarrow> n = 0 \<or> n = count"
proof -
  have s1: "cmd_starttls count s = (Inr (Continue n), s') \<Longrightarrow> n = count"
    by (auto simp: cmd_starttls_def sess_defs reply_def split: if_splits prod.splits sum.splits)
  have s2: "cmd_quit s = (Inr (Continue n), s') \<Longrightarrow> n = count"
    by (auto simp: cmd_quit_def sess_defs split: prod.splits sum.splits)
  have s3: "cmd_rset count s = (Inr (Continue n), s') \<Longrightarrow> n = count"
    by (auto simp: cmd_rset_def sess_defs reply_def split: prod.splits sum.splits)
  have s4: "cmd_mail l count s = (Inr (Continue n), s') \<Longrightarrow> n = count"
    "cmd_rcpt l count s = (Inr (Continue n), s') \<Longrightarrow> n = count"
    "cmd_ehlo count s = (Inr (Continue n), s') \<Longrightarrow> n = count" for l
    by (auto simp: cmd_mail_def cmd_rcpt_def cmd_ehlo_def Let_def split: if_splits option.splits dest: reply_Continue)
  assume "command line count s = (Inr (Continue n), s')"
  then show ?thesis
    unfolding command_def Let_def
    by (auto split: if_splits dest: s1 s2 s3 s4 reply_Continue then_Continue cmd_data_Continue)
qed

subsection \<open>Declared sizes\<close>

lemma split_by_word: "\<forall>c \<in> set w. \<not> p c \<Longrightarrow> split_by p w = [w]"
  by (induction w) auto

lemma split_by_append: "\<forall>c \<in> set w. \<not> p c \<Longrightarrow> p d \<Longrightarrow> split_by p (w @ d # s) = w # split_by p s"
  by (induction w) auto

lemma parse_digits_overflow: "mx < n \<Longrightarrow> parse_digits mx 0 (show_nat n) = Inl PosOverflow"
proof (induction n rule: show_nat.induct)
  case (1 n)
  show ?case
  proof (cases "n < 10")
    case True
    then show ?thesis using 1 by (simp add: show_nat.simps [of n])
  next
    case False
    show ?thesis
    proof (cases "mx < n div 10")
      case True
      then show ?thesis using 1 False by (simp add: show_nat.simps [of n] parse_digits_append)
    next
      case small: False
      have "n div 10 * 10 + n mod 10 = n" by simp
      then show ?thesis using 1(2) False small
        by (auto simp: show_nat.simps [of n] parse_digits_append parse_digits_show_nat)
    qed
  qed
qed

lemma parse_unsigned_overflow: "mx < n \<Longrightarrow> parse_unsigned mx (show_nat n) = Inl PosOverflow"
proof -
  assume n: "mx < n"
  have "is_ascii_digit (hd (show_nat n))" by (rule show_nat_digits [of _ n]) simp
  then have h: "hd (show_nat n) \<noteq> CHR ''+''" "hd (show_nat n) \<noteq> CHR ''-''"
    by (auto simp: is_ascii_digit_def)
  then have "show_nat n \<noteq> ''+''" "show_nat n \<noteq> ''-''" by (metis list.sel(1))+
  then show ?thesis using h n by (simp add: parse_unsigned_def parse_digits_overflow)
qed

lemma size_value_SIZE: "size_value (''SIZE='' @ v) = Some v" "size_value (''FROM:<'' @ v) = None"
  by (simp_all add: size_value_def SIZE_PARAM_def eq_ignore_ascii_case_def to_ascii_lowercase_def ascii_lower_def)

lemma mail_tokens:
  assumes "\<forall>c \<in> set a. \<not> is_ascii_whitespace c"
  shows "split_ascii_whitespace (''MAIL FROM:<'' @ a @ ''> SIZE='' @ show_nat n) =
    [''MAIL'', ''FROM:<'' @ a @ ''>'', ''SIZE='' @ show_nat n]"
proof -
  let ?w2 = "''FROM:<'' @ a @ ''>''" and ?w3 = "''SIZE='' @ show_nat n"
  have digit: "\<not> is_ascii_whitespace c" if "is_ascii_digit c" for c
    using that by (auto simp: is_ascii_digit_def is_ascii_whitespace_def)
  have w: "\<forall>c \<in> set ''MAIL''. \<not> is_ascii_whitespace c" "\<forall>c \<in> set ?w2. \<not> is_ascii_whitespace c"
    "\<forall>c \<in> set ?w3. \<not> is_ascii_whitespace c" "is_ascii_whitespace CHR '' ''"
    using assms show_nat_digits [of _ n] digit by (auto simp: is_ascii_whitespace_def)
  have "''MAIL FROM:<'' @ a @ ''> SIZE='' @ show_nat n = ''MAIL'' @ CHR '' '' # (?w2 @ CHR '' '' # ?w3)" by simp
  then have "split_by is_ascii_whitespace (''MAIL FROM:<'' @ a @ ''> SIZE='' @ show_nat n) = [''MAIL'', ?w2, ?w3]"
    by (simp only: split_by_append [OF w(1,4)] split_by_append [OF w(2,4)] split_by_word [OF w(3)])
  then show ?thesis by (simp add: split_ascii_whitespace_def)
qed

subsection \<open>Properties\<close>

text \<open>
  C21. Whatever a peer sends, however it is cut into reads, and whatever fails: every message
  the session hands over has at least one and at most a hundred recipients and at most the
  configured number of bytes, and the transaction state stays in order (recipients only
  after a sender, a sender only after a greeting).
\<close>

theorem session_hands_over_only_deliverable:
  "list_all (deliverable mx) (journal (snd (handle (new_session fills mx use_tls hs faults vs)))) \<and>
   transaction_ok (snd (handle (new_session fills mx use_tls hs faults vs)))"
proof -
  let ?s = "new_session fills mx use_tls hs faults vs"
  have "handed_ok mx ?s" "transaction_ok ?s"
    by (simp_all add: handed_ok_def transaction_ok_def new_session_def)
  then have "handed_ok mx (snd (handle ?s))" "transaction_ok (snd (handle ?s))"
    using out.keepsD [OF out.keeps_handle] txn.keepsD [OF txn.keeps_handle] by blast+
  then show ?thesis by (simp add: handed_ok_def)
qed

text \<open>
  C4. In every session, each message handed to storage is answered by the very next reply:
  250 exactly when storage reported it stored, 451 for a closed channel, a refusal, a dropped
  or a missing acknowledgement. Only a session that ends in an error may miss the reply of
  its last message, namely when writing it failed.
\<close>

theorem session_answers_every_message:
  "case handle (new_session fills mx use_tls hs faults vs) of
     (Inr _, s) \<Rightarrow> acked (journal s)
   | (Inl _, s) \<Rightarrow> acked_upto_fault (journal s)"
proof -
  obtain r s where r: "handle (new_session fills mx use_tls hs faults vs) = (r, s)" by fastforce
  show ?thesis
    by (rule answersD [OF answers_handle r])
      (use r in \<open>auto simp: new_session_def split: sum.splits\<close>)
qed

text \<open>
  C27. STARTTLS: with plaintext already buffered behind the command the session ends in an
  error before any handshake; after a successful upgrade the session runs on the TLS stream
  with an empty buffer, must be greeted again, and carries no part of a transaction over.
\<close>

theorem starttls_forgets_plaintext:
  assumes "stream s = Some (Plain c)" and "tls s" and "write_faults s = []"
  shows "(buffer c \<noteq> [] \<longrightarrow>
      fst (cmd_starttls count s) = Inl (TlsUpgrade ''buffered plaintext remained before STARTTLS handshake'') \<and>
      handshakes (snd (cmd_starttls count s)) = handshakes s) \<and>
    (\<forall>n s'. cmd_starttls count s = (Inr (Continue n), s') \<longrightarrow>
      \<not> greeted s' \<and> mail_from s' = None \<and> rcpt_to s' = [] \<and>
      (\<exists>fills. Inr fills # handshakes s' = handshakes s \<and>
         stream s' = Some (Tls \<lparr>buffer = [], incoming = fills\<rparr>)))"
  using assms
  by (auto simp: cmd_starttls_def tls_active_def sess_defs write_reply_def upgrade_to_tls_def
      reset_after_starttls_def reset_transaction_def split: list.splits sum.splits if_splits)

theorem starttls_forgets_plaintext_witness:
  "fst (cmd_starttls 1 ((new_session [] 9 True [] [] [])\<lparr>stream := Some (Plain \<lparr>buffer = ''x'', incoming = []\<rparr>)\<rparr>))
     = Inl (TlsUpgrade ''buffered plaintext remained before STARTTLS handshake'')"
  using starttls_forgets_plaintext
    [of "(new_session [] 9 True [] [] [])\<lparr>stream := Some (Plain \<lparr>buffer = ''x'', incoming = []\<rparr>)\<rparr>"
        "\<lparr>buffer = ''x'', incoming = []\<rparr>" 1]
  by (simp add: new_session_def)

text \<open>
  The command count a turn goes on with is zero (after a completed DATA) or one more than
  before, and never exceeds a thousand: a peer that completes no transaction is cut off.
\<close>

theorem commands_are_capped:
  assumes "turn count s = (Inr (Continue n), s')"
  shows "n = 0 \<or> n = count + 1 \<and> n \<le> MAX_COMMANDS_PER_TRANSACTION"
proof -
  obtain line s1 where l: "read_bounded_line s = (Inr line, s1)"
    using assms by (auto simp: turn_def sbind_def split: prod.splits sum.splits)
  then have "count + 1 \<le> MAX_COMMANDS_PER_TRANSACTION \<and> command line (count + 1) s1 = (Inr (Continue n), s')"
    using assms by (auto simp: turn_def sess_defs split: if_splits prod.splits sum.splits)
  then show ?thesis using command_Continue by blast
qed

theorem commands_are_capped_witness:
  "(2 :: nat) = 0 \<or> 2 = 1 + (1 :: nat) \<and> 2 \<le> MAX_COMMANDS_PER_TRANSACTION"
  by (rule commands_are_capped
      [of 1 "new_session [Data (crlf ''NOOP'')] 9 False [] [] []" 2
        "(new_session [] 9 False [] [] [])\<lparr>journal := [Wrote OK]\<rparr>"]) code_simp

text \<open>
  \<open>MAIL FROM\<close> with a declared size is refused exactly when the number is over the limit,
  also when it does not fit the 64 bits it is parsed into.
\<close>

theorem declared_size_decides:
  assumes "\<forall>c \<in> set a. \<not> is_ascii_whitespace c" and "mx \<le> u64_max"
  shows "declared_size_refusal (''MAIL FROM:<'' @ a @ ''> SIZE='' @ show_nat n) mx =
    (if n \<le> mx then None else Some SIZE_EXCEEDED)"
proof (cases "n \<le> u64_max")
  case True
  then show ?thesis
    unfolding declared_size_refusal_def mail_tokens [OF assms(1)]
    by (simp add: size_value_SIZE [simplified] parse_unsigned_show_nat List.map_filter_simps)
next
  case False
  then show ?thesis using assms(2)
    unfolding declared_size_refusal_def mail_tokens [OF assms(1)]
    by (simp add: size_value_SIZE [simplified] parse_unsigned_overflow List.map_filter_simps)
qed

theorem declared_size_decides_witness:
  "declared_size_refusal (''MAIL FROM:<'' @ ''a@b'' @ ''> SIZE='' @ show_nat 11) 10 = Some SIZE_EXCEEDED"
  using declared_size_decides [of "''a@b''" 10 11] by (simp add: is_ascii_whitespace_def u64_max_def)

end
