(* ===== verification/Smtp_Server.thy ===== *)
theory Smtp_Server
  imports Smtp_Safety
begin

text \<open>
  The accept loop (\<open>rustmail-smtp/src/server.rs\<close>): a semaphore that caps the concurrent
  sessions and a back-off between failing calls of \<open>accept\<close>. Sessions end at any time, so
  the system is a step relation; the loop's own turn is a function.
\<close>

definition MAX_CONCURRENT_SESSIONS :: nat where "MAX_CONCURRENT_SESSIONS = 100"

text \<open>Durations are in milliseconds.\<close>

definition ACCEPT_BACKOFF_INITIAL :: nat where "ACCEPT_BACKOFF_INITIAL = 10"
definition ACCEPT_BACKOFF_MAX :: nat where "ACCEPT_BACKOFF_MAX = 1000"

definition next_accept_backoff :: "nat \<Rightarrow> nat" where
  "next_accept_backoff current = min (current * 2) ACCEPT_BACKOFF_MAX"

text \<open>
  A connection is known by a number. \<open>running\<close> holds the sessions whose task still owns its
  permit, \<open>turned_away\<close> the connections answered with 421, \<open>pauses\<close> the sleeps so far.
\<close>

record accept_loop =
  permits :: nat
  running :: "nat list"
  turned_away :: "nat list"
  accept_backoff :: nat
  pauses :: "nat list"

definition serve_start :: accept_loop where
  "serve_start = \<lparr>permits = MAX_CONCURRENT_SESSIONS, running = [], turned_away = [],
     accept_backoff = ACCEPT_BACKOFF_INITIAL, pauses = []\<rparr>"

text \<open>One turn of the loop of \<open>serve\<close>: a connection, or an error of \<open>accept\<close>.\<close>

fun serve_turn :: "nat option \<Rightarrow> accept_loop \<Rightarrow> accept_loop" where
  "serve_turn (Some peer) l =
     (let l' = l\<lparr>accept_backoff := ACCEPT_BACKOFF_INITIAL\<rparr> in
      if permits l' = 0 then l'\<lparr>turned_away := turned_away l' @ [peer]\<rparr>
      else l'\<lparr>permits := permits l' - 1, running := running l' @ [peer]\<rparr>)"
| "serve_turn None l =
     l\<lparr>pauses := pauses l @ [accept_backoff l],
       accept_backoff := next_accept_backoff (accept_backoff l)\<rparr>"

text \<open>A session's task is over, with or without an error: its permit is dropped.\<close>

definition session_over :: "nat \<Rightarrow> accept_loop \<Rightarrow> accept_loop" where
  "session_over peer l = l\<lparr>permits := permits l + 1, running := remove1 peer (running l)\<rparr>"

inductive serve_step :: "accept_loop \<Rightarrow> accept_loop \<Rightarrow> bool" where
  accepts: "serve_step l (serve_turn (Some peer) l)"
| fails: "serve_step l (serve_turn None l)"
| finishes: "peer \<in> set (running l) \<Longrightarrow> serve_step l (session_over peer l)"

inductive serve_reachable :: "accept_loop \<Rightarrow> bool" where
  start: "serve_reachable serve_start"
| step: "serve_reachable l \<Longrightarrow> serve_step l l' \<Longrightarrow> serve_reachable l'"

definition serve_inv :: "accept_loop \<Rightarrow> bool" where
  "serve_inv l \<longleftrightarrow>
     permits l + length (running l) = MAX_CONCURRENT_SESSIONS \<and>
     ACCEPT_BACKOFF_INITIAL \<le> accept_backoff l \<and> accept_backoff l \<le> ACCEPT_BACKOFF_MAX \<and>
     list_all (\<lambda>p. ACCEPT_BACKOFF_INITIAL \<le> p \<and> p \<le> ACCEPT_BACKOFF_MAX) (pauses l)"

lemmas backoff_defs = ACCEPT_BACKOFF_INITIAL_def ACCEPT_BACKOFF_MAX_def next_accept_backoff_def

lemma serve_turn_inv: "serve_inv l \<Longrightarrow> serve_inv (serve_turn e l)"
  by (cases e) (auto simp: serve_inv_def backoff_defs Let_def)

interpretation accept: kept_invariant "\<lambda>l e. serve_turn e l" serve_inv
  by unfold_locales (rule serve_turn_inv)

lemma session_over_inv: "serve_inv l \<Longrightarrow> peer \<in> set (running l) \<Longrightarrow> serve_inv (session_over peer l)"
proof -
  assume inv: "serve_inv l" and peer: "peer \<in> set (running l)"
  then have "0 < length (running l)" by (intro length_pos_if_in_set)
  then have "permits l + 1 + length (remove1 peer (running l)) = permits l + length (running l)"
    using peer by (simp only: length_remove1 if_True)
  then show ?thesis using inv by (simp add: serve_inv_def session_over_def)
qed

lemma serve_step_inv: "serve_step l l' \<Longrightarrow> serve_inv l \<Longrightarrow> serve_inv l'"
  by (induction rule: serve_step.induct) (auto intro: serve_turn_inv session_over_inv simp del: serve_turn.simps)

lemma min_min_power: "min (min x m * 2 ^ k) m = min (x * 2 ^ k) (m :: nat)"
proof (cases "x \<le> m")
  case False
  have one: "(1 :: nat) \<le> 2 ^ k" by simp
  then have "m \<le> m * 2 ^ k" "x \<le> x * 2 ^ k" by (metis mult.right_neutral mult_le_mono2)+
  then have "m \<le> m * 2 ^ k" "m \<le> x * 2 ^ k" using False by linarith+
  then show ?thesis using False by (simp only: min.absorb2 not_le less_imp_le)
qed simp

lemma failures_backoff:
  "accept_backoff (foldl (\<lambda>l e. serve_turn e l) l (replicate n None)) =
     (if n = 0 then accept_backoff l else min (accept_backoff l * 2 ^ n) ACCEPT_BACKOFF_MAX)"
proof (induction n arbitrary: l)
  case (Suc n)
  have "accept_backoff (serve_turn None l) = min (accept_backoff l * 2) ACCEPT_BACKOFF_MAX"
    by (simp add: next_accept_backoff_def)
  then show ?case
    using Suc [of "serve_turn None l"] min_min_power [of "accept_backoff l * 2" ACCEPT_BACKOFF_MAX n]
    by (auto simp: mult.assoc simp del: serve_turn.simps)
qed simp

subsection \<open>Properties\<close>

text \<open>
  C33. In every reachable state of the server the permits and the running sessions add up to
  one hundred, so at most a hundred sessions run and none of their permits is ever lost; a
  connection is turned away only while a hundred sessions run; every pause between failing
  accepts is between 10 ms and one second.
\<close>

theorem sessions_are_capped:
  assumes "serve_reachable l"
  shows "length (running l) \<le> MAX_CONCURRENT_SESSIONS \<and>
    permits l = MAX_CONCURRENT_SESSIONS - length (running l) \<and>
    (turned_away (serve_turn (Some peer) l) \<noteq> turned_away l \<longleftrightarrow>
       length (running l) = MAX_CONCURRENT_SESSIONS) \<and>
    (\<forall>p \<in> set (pauses l). 10 \<le> p \<and> p \<le> 1000)"
proof -
  have "serve_inv l"
    using assms
    by (induction rule: serve_reachable.induct)
      (auto simp: serve_step_inv, simp add: serve_inv_def serve_start_def backoff_defs)
  then show ?thesis
    by (auto simp: serve_inv_def backoff_defs list_all_iff Let_def)
qed

theorem sessions_are_capped_witness:
  "length (running (serve_turn (Some 7) serve_start)) \<le> MAX_CONCURRENT_SESSIONS"
  using sessions_are_capped [OF serve_reachable.step [OF serve_reachable.start serve_step.accepts [of _ 7]]]
  by simp

text \<open>
  After \<open>n\<close> accept errors in a row the pause is 10 ms doubled \<open>n\<close> times, capped at one
  second, and the next connection resets it.
\<close>

theorem accept_backoff_grows:
  "accept_backoff (foldl (\<lambda>l e. serve_turn e l) (serve_turn (Some peer) l) (replicate n None)) =
     min (10 * 2 ^ n) 1000"
proof -
  have "accept_backoff (serve_turn (Some peer) l) = 10" by (simp add: Let_def backoff_defs)
  then show ?thesis using failures_backoff [of "serve_turn (Some peer) l" n]
    by (auto simp: ACCEPT_BACKOFF_MAX_def simp del: serve_turn.simps)
qed

end
