(* ===== verification/Storage_Error.thy ===== *)
theory Storage_Error
  imports Rust_Str
begin

text \<open>
  The errors of the storage layer (\<open>rustmail-storage/src/error.rs\<close>) and how they are sorted:
  which are worth a retry, and which concern the store as a whole rather than one message.
  A path is the bytes of its name.
\<close>

text \<open>\<open>sqlx::Error\<close>: the variants the code tells apart, and one for all the others.\<close>

datatype sqlx_error =
    Configuration | SqlxIo | SqlxTls | Protocol | PoolTimedOut | PoolClosed | WorkerCrashed
  | DatabaseCode "bytes option"
  | OtherSqlx

datatype migration_refusal =
    AmbiguousBackup bytes int bytes "bytes option"
  | StrayMigrationCopy bytes bytes
  | BackupChanged bytes bytes bytes
  | MigrationFileInUse bytes bytes
  | SourceUnstable bytes
  | UnknownState bytes bytes "bytes list" bytes bytes

datatype restore_refusal =
    NotMigrated bytes bytes
  | NoBackup bytes bytes
  | BackupInvalid bytes int bytes
  | MigrationCopyPresent bytes bytes
  | RestoreFileInUse bytes bytes
  | CheckpointBusy bytes
  | KeptNameTaken bytes
  | NotAnInterruptedRestore bytes bytes bytes

datatype storage_error =
    Database sqlx_error
  | NotFound bytes
  | NewerSchema bytes int int
  | LegacySchema bytes int int
  | AttachmentCorrupt bytes bytes "int option" "int option" "int option"
  | ContentCorrupt bytes bytes
  | Compress bytes
  | DecodeAborted
  | UnrecognizedSchema bytes int "bytes list"
  | MigrationLocked bytes
  | MigrationRefused migration_refusal
  | RestoreRefused restore_refusal
  | MigrationVerifyFailed bytes bytes bytes bytes bytes
  | MigrationDiskFull bytes nat
  | MigrationIo bytes bytes bytes
  | MigrationTaskAborted

definition describe_backups :: "bytes list \<Rightarrow> bytes" where
  "describe_backups backups = (if backups = [] then ''none'' else join '', '' backups)"

definition SQLITE_BUSY :: int where "SQLITE_BUSY = 5"
definition SQLITE_LOCKED :: int where "SQLITE_LOCKED = 6"
definition SQLITE_NOMEM :: int where "SQLITE_NOMEM = 7"
definition SQLITE_READONLY :: int where "SQLITE_READONLY = 8"
definition SQLITE_IOERR :: int where "SQLITE_IOERR = 10"
definition SQLITE_CORRUPT :: int where "SQLITE_CORRUPT = 11"
definition SQLITE_FULL :: int where "SQLITE_FULL = 13"
definition SQLITE_CANTOPEN :: int where "SQLITE_CANTOPEN = 14"
definition SQLITE_NOTADB :: int where "SQLITE_NOTADB = 26"

lemmas sqlite_codes = SQLITE_BUSY_def SQLITE_LOCKED_def SQLITE_NOMEM_def SQLITE_READONLY_def
  SQLITE_IOERR_def SQLITE_CORRUPT_def SQLITE_FULL_def SQLITE_CANTOPEN_def SQLITE_NOTADB_def

text \<open>\<open>code & 0xFF\<close> keeps the low byte, also of a negative code.\<close>

definition sqlite_primary_code :: "storage_error \<Rightarrow> int option" where
  "sqlite_primary_code e =
     (case e of
        Database (DatabaseCode (Some code)) \<Rightarrow> map_option (\<lambda>c. c mod 256) (ok (parse_i32 code))
      | _ \<Rightarrow> None)"

definition is_store_wide :: "storage_error \<Rightarrow> bool" where
  "is_store_wide e =
     (case e of
        Database Configuration \<Rightarrow> True
      | Database SqlxIo \<Rightarrow> True
      | Database SqlxTls \<Rightarrow> True
      | Database Protocol \<Rightarrow> True
      | Database PoolTimedOut \<Rightarrow> True
      | Database PoolClosed \<Rightarrow> True
      | Database WorkerCrashed \<Rightarrow> True
      | _ \<Rightarrow>
          (case sqlite_primary_code e of
             None \<Rightarrow> False
           | Some code \<Rightarrow>
               List.member [SQLITE_BUSY, SQLITE_LOCKED, SQLITE_NOMEM, SQLITE_READONLY, SQLITE_IOERR,
                 SQLITE_CORRUPT, SQLITE_FULL, SQLITE_CANTOPEN, SQLITE_NOTADB] code))"

definition is_retryable_lock :: "storage_error \<Rightarrow> bool" where
  "is_retryable_lock e =
     (case sqlite_primary_code e of None \<Rightarrow> False | Some code \<Rightarrow> code = SQLITE_BUSY \<or> code = SQLITE_LOCKED)"

text \<open>Extended codes of a violated UNIQUE and PRIMARY KEY constraint.\<close>

definition unique_violation :: storage_error where
  "unique_violation = Database (DatabaseCode (Some ''2067''))"

definition primary_key_violation :: storage_error where
  "primary_key_violation = Database (DatabaseCode (Some ''1555''))"

lemma retryable_is_store_wide: "is_retryable_lock e \<Longrightarrow> is_store_wide e"
  by (auto simp: is_retryable_lock_def is_store_wide_def sqlite_codes
      split: option.splits storage_error.splits sqlx_error.splits)

lemma NotFound_not_store_wide [simp]:
  "\<not> is_retryable_lock (NotFound i)" "\<not> is_store_wide (NotFound i)"
  by (simp_all add: is_retryable_lock_def is_store_wide_def sqlite_primary_code_def)

end
