(* ===== verification/Storage_Content.thy ===== *)
theory Storage_Content
  imports Storage_Error
begin

text \<open>
  What is kept of a message (\<open>content.rs\<close>, \<open>locator.rs\<close>, \<open>prepared.rs\<close> and the decoding
  half of \<open>AttachmentRow\<close> in \<open>repo.rs\<close>): the source as one zstd frame, and each attachment
  either as a place in that source or decoded. The compressor and the MIME parser are
  libraries: they are parameters, and what is relied on of them is stated as laws.
\<close>

subsection \<open>The libraries\<close>

record zstd =
  z_compress :: "bytes \<Rightarrow> (bytes, bytes) result"
  z_frame_size :: "bytes \<Rightarrow> (unit, nat option) result"
  z_decompress :: "bytes \<Rightarrow> nat \<Rightarrow> (bytes, bytes) result"
  z_prefix :: "bytes \<Rightarrow> nat \<Rightarrow> (bytes, bytes) result"

text \<open>A frame declares its content size and decompresses to what was compressed.\<close>

definition zstd_laws :: "zstd \<Rightarrow> bool" where
  "zstd_laws Z \<longleftrightarrow>
     (\<forall>raw frame. z_compress Z raw = Inr frame \<longrightarrow>
        z_frame_size Z frame = Inr (Some (length raw)) \<and>
        z_decompress Z frame (length raw) = Inr raw \<and>
        (\<forall>n. z_prefix Z frame n = Inr (take n raw)))"

datatype encoding = EncNone | EncQuotedPrintable | EncBase64

text \<open>What the code reads of a parsed part and of a parsed message.\<close>

datatype part_type = TextPart | HtmlPart | Binary | InlineBinary | NestedMessage "mime_part list" | Multipart
and mime_part =
  MimePart (part_body: part_type) (part_content_type: "(bytes \<times> bytes option) option")
    (part_name: "bytes option") (part_content_id: "bytes option") (part_encoding: encoding)
    (is_encoding_problem: bool) (offset_header: nat) (offset_body: nat) (offset_end: nat)
    (part_raw_contents: bytes)

record parsed_message =
  parsed_subject :: "bytes option"
  body_text :: "bytes option"
  body_html :: "bytes option"
  attachment_count :: nat
  attachment_ids :: "nat list"
  parts :: "mime_part list"

record mime_lib =
  mp_parse :: "bytes \<Rightarrow> parsed_message option"
  quoted_printable_decode :: "bytes \<Rightarrow> bytes option"
  base64_decode :: "bytes \<Rightarrow> bytes option"
  to_json :: "bytes list \<Rightarrow> bytes"

subsection \<open>Bodies and frames\<close>

record bodies =
  bodies_text :: "bytes option"
  bodies_html :: "bytes option"

definition bodies_of :: "parsed_message \<Rightarrow> bodies" where
  "bodies_of parsed = \<lparr>bodies_text = body_text parsed, bodies_html = body_html parsed\<rparr>"

definition bodies_parse :: "mime_lib \<Rightarrow> bytes \<Rightarrow> bodies" where
  "bodies_parse M raw =
     (case mp_parse M raw of
        None \<Rightarrow> \<lparr>bodies_text = None, bodies_html = None\<rparr>
      | Some parsed \<Rightarrow> bodies_of parsed)"

definition compress :: "zstd \<Rightarrow> bytes \<Rightarrow> (storage_error, bytes) result" where
  "compress Z raw = map_err Compress (z_compress Z raw)"

definition decompress :: "zstd \<Rightarrow> bytes \<Rightarrow> int \<Rightarrow> bytes \<Rightarrow> (storage_error, bytes) result" where
  "decompress Z frame sz message_id =
     (let corrupt = ContentCorrupt message_id in
      if sz < 0 then Inl (corrupt (''recorded size '' @ show_int sz @ '' is negative''))
      else let capacity = nat sz in
        case z_frame_size Z frame of
          Inr (Some declared) \<Rightarrow>
            if declared = capacity then
              (case z_decompress Z frame capacity of
                 Inl error \<Rightarrow> Inl (corrupt error)
               | Inr raw \<Rightarrow>
                   if length raw \<noteq> capacity then
                     Inl (corrupt (''decompressed to '' @ show_nat (length raw) @
                       '' bytes, recorded size is '' @ show_int sz))
                   else Inr raw)
            else Inl (corrupt (''frame declares '' @ show_nat declared @
                   '' bytes, recorded size is '' @ show_int sz))
        | Inr None \<Rightarrow> Inl (corrupt ''frame declares no content size'')
        | Inl _ \<Rightarrow> Inl (corrupt ''frame header is unreadable''))"

definition decompress_prefix :: "zstd \<Rightarrow> bytes \<Rightarrow> nat \<Rightarrow> bytes \<Rightarrow> (storage_error, bytes) result" where
  "decompress_prefix Z frame max_bytes message_id =
     map_err (ContentCorrupt message_id) (z_prefix Z frame max_bytes)"

lemma decompress_length: "decompress Z frame sz i = Inr raw \<Longrightarrow> int (length raw) = sz"
  by (auto simp: decompress_def Let_def split: if_splits sum.splits option.splits)

lemma decompress_compress:
  "zstd_laws Z \<Longrightarrow> compress Z raw = Inr frame \<Longrightarrow> decompress Z frame (int (length raw)) i = Inr raw"
  by (cases "z_compress Z raw") (auto simp: zstd_laws_def compress_def decompress_def)

lemma decompress_prefix_compress:
  "zstd_laws Z \<Longrightarrow> compress Z raw = Inr frame \<Longrightarrow> decompress_prefix Z frame n i = Inr (take n raw)"
  by (cases "z_compress Z raw") (auto simp: zstd_laws_def compress_def decompress_prefix_def)

subsection \<open>Locating a part in the source\<close>

definition BASE64_QUANTUM_CHARS :: nat where "BASE64_QUANTUM_CHARS = 4"
definition BASE64_QUANTUM_BYTES :: nat where "BASE64_QUANTUM_BYTES = 3"

datatype transfer_encoding = Identity | QuotedPrintable | Base64

fun code :: "transfer_encoding \<Rightarrow> int" where
  "code Identity = 0"
| "code QuotedPrintable = 1"
| "code Base64 = 2"

definition from_code :: "int \<Rightarrow> transfer_encoding option" where
  "from_code c =
     (if c = 0 then Some Identity else if c = 1 then Some QuotedPrintable
      else if c = 2 then Some Base64 else None)"

interpretation te: code_table code from_code
proof
  fix e
  show "from_code (code e) = Some e" by (cases e) (simp_all add: from_code_def)
qed

fun encoding_of :: "encoding \<Rightarrow> transfer_encoding" where
  "encoding_of EncNone = Identity"
| "encoding_of EncQuotedPrintable = QuotedPrintable"
| "encoding_of EncBase64 = Base64"

definition decode :: "mime_lib \<Rightarrow> transfer_encoding \<Rightarrow> bytes \<Rightarrow> bytes option" where
  "decode M e body =
     (case e of
        Identity \<Rightarrow> Some body
      | QuotedPrintable \<Rightarrow> quoted_printable_decode M body
      | Base64 \<Rightarrow> base64_decode M body)"

record locator =
  loc_offset :: nat
  loc_len :: nat
  loc_encoding :: transfer_encoding

definition part_contents :: "mime_part \<Rightarrow> bytes" where
  "part_contents part =
     (case part_body part of
        NestedMessage [] \<Rightarrow> []
      | _ \<Rightarrow> part_raw_contents part)"

definition body_range :: "mime_part \<Rightarrow> transfer_encoding \<Rightarrow> (nat \<times> nat) option" where
  "body_range part e =
     (case (case (part_body part, e) of
              (NestedMessage nested, Identity) \<Rightarrow>
                (case nested of [] \<Rightarrow> None | root # _ \<Rightarrow> Some (offset_header root, offset_end root))
            | _ \<Rightarrow> Some (offset_body part, offset_end part)) of
        None \<Rightarrow> None
      | Some (start, end') \<Rightarrow> if start \<le> end' then Some (start, end') else None)"

definition is_base64_char :: "char \<Rightarrow> bool" where
  "is_base64_char b \<longleftrightarrow> is_ascii_alphanumeric b \<or> b = CHR ''+'' \<or> b = CHR ''/''"

fun base64_len_loop :: "nat \<Rightarrow> nat \<Rightarrow> bytes \<Rightarrow> nat option" where
  "base64_len_loop decoded_len pending [] = Some decoded_len"
| "base64_len_loop decoded_len pending (b # body) =
     (if is_base64_char b then
        let pending' = (pending + 1) mod BASE64_QUANTUM_CHARS in
        base64_len_loop (if pending' = 0 then decoded_len + BASE64_QUANTUM_BYTES else decoded_len) pending' body
      else if b = CHR ''='' then
        base64_len_loop
          (decoded_len + (if pending = 1 \<or> pending = 2 then 1 else if pending = 3 then 2 else 0)) 0 body
      else if b = CHR '' '' \<or> b = CHR 0x09 \<or> b = CR \<or> b = LF then base64_len_loop decoded_len pending body
      else None)"

definition predicted_base64_len :: "bytes \<Rightarrow> nat option" where
  "predicted_base64_len body = base64_len_loop 0 0 body"

text \<open>\<open>raw.get(start..end)\<close>.\<close>

definition slice :: "bytes \<Rightarrow> nat \<Rightarrow> nat \<Rightarrow> bytes option" where
  "slice raw start end' = (if start \<le> end' \<and> end' \<le> length raw then Some (take (end' - start) (drop start raw)) else None)"

definition locate :: "mime_lib \<Rightarrow> bytes \<Rightarrow> mime_part \<Rightarrow> locator option" where
  "locate M raw part =
     (let is_binary_or_message =
            (case part_body part of Binary \<Rightarrow> True | InlineBinary \<Rightarrow> True | NestedMessage _ \<Rightarrow> True | _ \<Rightarrow> False)
      in if \<not> is_binary_or_message \<or> part_content_type part = None \<or> is_encoding_problem part then None
      else let e = encoding_of (part_encoding part) in
        case body_range part e of
          None \<Rightarrow> None
        | Some (start, end') \<Rightarrow>
            (case slice raw start end' of
               None \<Rightarrow> None
             | Some body \<Rightarrow>
                 let contents = part_contents part;
                     decodes_to_contents =
                       (case e of
                          Identity \<Rightarrow> body = contents
                        | QuotedPrintable \<Rightarrow> quoted_printable_decode M body = Some contents
                        | Base64 \<Rightarrow> predicted_base64_len body = Some (length contents))
                 in if decodes_to_contents
                    then Some \<lparr>loc_offset = start, loc_len = end' - start, loc_encoding = e\<rparr>
                    else None))"

subsection \<open>Preparing a message\<close>

datatype attachment_storage = Located locator | Inline bytes

record prepared_attachment =
  pa_filename :: "bytes option"
  pa_content_type :: "bytes option"
  pa_content_id :: "bytes option"
  pa_size :: nat
  pa_storage :: attachment_storage

record prepared_message =
  pm_sender :: bytes
  pm_recipients_json :: bytes
  pm_subject :: "bytes option"
  pm_text_body :: "bytes option"
  pm_size :: nat
  pm_compressed_raw :: bytes
  pm_has_attachments :: bool
  pm_attachments :: "prepared_attachment list"

definition mime_type :: "bytes \<times> bytes option \<Rightarrow> bytes" where
  "mime_type ct = (case snd ct of Some subtype \<Rightarrow> fst ct @ ''/'' @ subtype | None \<Rightarrow> fst ct)"

definition stored_part_refs :: "parsed_message \<Rightarrow> mime_part list" where
  "stored_part_refs parsed =
     filter (\<lambda>part. part_contents part \<noteq> [])
       (map snd
         (filter (\<lambda>(idx, part). (idx < 2 ^ 32 \<and> List.member (attachment_ids parsed) idx) \<or> part_body part = InlineBinary)
           (zip [0..<length (parts parsed)] (parts parsed))))"

definition stored_part :: "mime_lib \<Rightarrow> bytes \<Rightarrow> mime_part \<Rightarrow> prepared_attachment" where
  "stored_part M raw part =
     \<lparr>pa_filename = part_name part,
      pa_content_type = map_option mime_type (part_content_type part),
      pa_content_id = part_content_id part,
      pa_size = length (part_contents part),
      pa_storage = (case locate M raw part of None \<Rightarrow> Inline (part_contents part) | Some l \<Rightarrow> Located l)\<rparr>"

definition stored_parts :: "mime_lib \<Rightarrow> parsed_message \<Rightarrow> bytes \<Rightarrow> prepared_attachment list" where
  "stored_parts M parsed raw = map (stored_part M raw) (stored_part_refs parsed)"

definition prepared_parse ::
  "zstd \<Rightarrow> mime_lib \<Rightarrow> bytes \<Rightarrow> bytes list \<Rightarrow> bytes \<Rightarrow> (storage_error, prepared_message) result" where
  "prepared_parse Z M sender recipients raw =
     (let recipients_json = to_json M recipients;
          (subject, text_body, has_attachments, attachments) =
            (case mp_parse M raw of
               Some parsed \<Rightarrow>
                 (parsed_subject parsed, bodies_text (bodies_of parsed),
                  attachment_count parsed > 0, stored_parts M parsed raw)
             | None \<Rightarrow> (None, None, False, []))
      in map_sum id (\<lambda>frame.
           \<lparr>pm_sender = sender, pm_recipients_json = recipients_json, pm_subject = subject,
            pm_text_body = text_body, pm_size = length raw, pm_compressed_raw = frame,
            pm_has_attachments = has_attachments, pm_attachments = attachments\<rparr>)
         (compress Z raw))"

lemma prepared_parse_kept:
  "prepared_parse Z M sender recipients raw = Inr pm \<Longrightarrow>
     compress Z raw = Inr (pm_compressed_raw pm) \<and> pm_size pm = length raw"
  by (auto simp: prepared_parse_def Let_def map_sum_def split: prod.splits sum.splits option.splits)

subsection \<open>Serving an attachment\<close>

text \<open>The row the attachment queries read: the stored columns and its message's frame.\<close>

record attachment_row =
  ar_id :: bytes
  ar_message_id :: bytes
  ar_filename :: "bytes option"
  ar_content_type :: "bytes option"
  ar_content_id :: "bytes option"
  ar_size :: "int option"
  ar_content :: "bytes option"
  ar_raw_offset :: "int option"
  ar_raw_len :: "int option"
  ar_transfer_encoding :: "int option"
  ar_raw_size :: int
  ar_compressed_raw :: "bytes option"

record attachment =
  att_id :: bytes
  att_message_id :: bytes
  att_filename :: "bytes option"
  att_content_type :: "bytes option"
  att_content_id :: "bytes option"
  att_size :: "int option"
  att_content :: bytes

definition located_body :: "attachment_row \<Rightarrow> bytes \<Rightarrow> bytes option" where
  "located_body row raw =
     (case (ar_raw_offset row, ar_raw_len row) of
        (Some offset, Some len) \<Rightarrow>
          if 0 \<le> offset \<and> 0 \<le> len then slice raw (nat offset) (nat offset + nat len) else None
      | _ \<Rightarrow> None)"

definition decode_located :: "mime_lib \<Rightarrow> attachment_row \<Rightarrow> bytes \<Rightarrow> bytes option" where
  "decode_located M row raw =
     (case (Option.bind (ar_transfer_encoding row) from_code, located_body row raw) of
        (Some e, Some body) \<Rightarrow> decode M e body
      | _ \<Rightarrow> None)"

definition into_attachment :: "zstd \<Rightarrow> mime_lib \<Rightarrow> attachment_row \<Rightarrow> (storage_error, attachment) result" where
  "into_attachment Z M row =
     and_then
       (case ar_compressed_raw row of
          Some frame \<Rightarrow> map_sum id Some (decompress Z frame (ar_raw_size row) (ar_message_id row))
        | None \<Rightarrow> Inr None)
       (\<lambda>raw.
          let content =
                (case (ar_content row, raw) of
                   (Some content, None) \<Rightarrow> Inr content
                 | (None, Some raw) \<Rightarrow>
                     (case decode_located M row raw of
                        Some decoded \<Rightarrow>
                          if ar_size row = Some (int (length decoded)) then Inr decoded
                          else Inl (Some (int (length decoded)))
                      | None \<Rightarrow> Inl None)
                 | _ \<Rightarrow> Inl None)
          in case content of
               Inr content \<Rightarrow>
                 Inr \<lparr>att_id = ar_id row, att_message_id = ar_message_id row, att_filename = ar_filename row,
                      att_content_type = ar_content_type row, att_content_id = ar_content_id row,
                      att_size = ar_size row, att_content = content\<rparr>
             | Inl actual_size \<Rightarrow>
                 Inl (AttachmentCorrupt (ar_message_id row) (ar_id row) (ar_transfer_encoding row)
                       (ar_size row) actual_size))"

text \<open>
  What is relied on of the parser: where a base64 body holds only alphabet, padding and
  white space and its predicted length is the parsed one, decoding the slice gives the parsed
  contents. (For the other encodings \<open>locate\<close> compares the bytes themselves.)
\<close>

definition parser_agrees :: "mime_lib \<Rightarrow> bytes \<Rightarrow> mime_part \<Rightarrow> bool" where
  "parser_agrees M raw part \<longleftrightarrow>
     (case body_range part Base64 of
        None \<Rightarrow> True
      | Some (start, end') \<Rightarrow>
          (case slice raw start end' of
             None \<Rightarrow> True
           | Some body \<Rightarrow>
               (part_encoding part = EncBase64 \<longrightarrow> predicted_base64_len body = Some (length (part_contents part)) \<longrightarrow>
                  base64_decode M body = Some (part_contents part))))"

lemma slice_offset: "slice raw start (start + len) = Some body \<Longrightarrow> length body = len"
  by (auto simp: slice_def split: if_splits)

lemma locate_Some:
  assumes "locate M raw part = Some l" "parser_agrees M raw part"
  shows "\<exists>body. slice raw (loc_offset l) (loc_offset l + loc_len l) = Some body \<and>
    decode M (loc_encoding l) body = Some (part_contents part)"
proof -
  let ?e = "encoding_of (part_encoding part)"
  obtain start end' body where r: "body_range part ?e = Some (start, end')" "slice raw start end' = Some body"
    and l: "l = \<lparr>loc_offset = start, loc_len = end' - start, loc_encoding = ?e\<rparr>"
    and d: "case ?e of Identity \<Rightarrow> body = part_contents part
        | QuotedPrintable \<Rightarrow> quoted_printable_decode M body = Some (part_contents part)
        | Base64 \<Rightarrow> predicted_base64_len body = Some (length (part_contents part))"
    using assms(1)
    by (auto simp: locate_def Let_def split: if_splits option.splits prod.splits)
  have "start \<le> end'" using r(2) by (auto simp: slice_def split: if_splits)
  moreover have "decode M ?e body = Some (part_contents part)"
    using d r assms(2)
    by (cases "part_encoding part") (auto simp: decode_def parser_agrees_def)
  ultimately show ?thesis using r l by auto
qed

lemma decode_located_locator:
  assumes "slice raw (loc_offset l) (loc_offset l + loc_len l) = Some body" "decode M (loc_encoding l) body = Some c"
    and "ar_raw_offset row = Some (int (loc_offset l))" "ar_raw_len row = Some (int (loc_len l))"
    and "ar_transfer_encoding row = Some (code (loc_encoding l))"
  shows "decode_located M row raw = Some c"
  using assms by (simp add: decode_located_def located_body_def te.decode_encode)

subsection \<open>Base64 as specified\<close>

text \<open>The encoder of RFC 4648, section 4, as the reference for the predicted length.\<close>

definition base64_alphabet :: bytes where
  "base64_alphabet = ''ABCDEFGHIJKLMNOPQRSTUVWXYZabcdefghijklmnopqrstuvwxyz0123456789+/''"

fun base64_encode :: "bytes \<Rightarrow> bytes" where
  "base64_encode [] = []"
| "base64_encode [a] = [base64_alphabet ! (byte a div 4), base64_alphabet ! (byte a mod 4 * 16), CHR ''='', CHR ''='']"
| "base64_encode [a, b] =
     [base64_alphabet ! (byte a div 4), base64_alphabet ! (byte a mod 4 * 16 + byte b div 16),
      base64_alphabet ! (byte b mod 16 * 4), CHR ''='']"
| "base64_encode (a # b # c # rest) =
     base64_alphabet ! (byte a div 4) # base64_alphabet ! (byte a mod 4 * 16 + byte b div 16) #
     base64_alphabet ! (byte b mod 16 * 4 + byte c div 64) # base64_alphabet ! (byte c mod 64) #
     base64_encode rest"

definition base64_white :: "char \<Rightarrow> bool" where
  "base64_white b \<longleftrightarrow> b = CHR '' '' \<or> b = CHR 0x09 \<or> b = CR \<or> b = LF"

lemma alphabet_ok: "n < 64 \<Longrightarrow> is_base64_char (base64_alphabet ! n)"
proof -
  assume n: "n < 64"
  have "list_all is_base64_char base64_alphabet" "length base64_alphabet = 64" by code_simp+
  then show ?thesis using n by (simp add: list_all_length)
qed

lemma byte_lt [simp]: "byte (c :: char) < 256"
  by simp

lemma sextets:
  fixes a b :: char
  shows "byte a div 4 < 64" "byte a mod 4 * 16 < 64" "byte a mod 4 * 16 + byte b div 16 < 64"
    "byte b mod 16 * 4 < 64" "byte a mod 16 * 4 + byte b div 64 < 64" "byte a mod 64 < 64"
proof -
  have d: "byte c div 4 < 64" "byte c div 16 < 16" "byte c div 64 < 4" for c :: char
    by (rule less_mult_imp_div_less, simp)+
  have m: "byte c mod 4 < 4" "byte c mod 16 < 16" "byte c mod 64 < 64" for c :: char by simp_all
  show "byte a div 4 < 64" "byte a mod 64 < 64" by (rule d m)+
  show "byte a mod 4 * 16 < 64" "byte a mod 4 * 16 + byte b div 16 < 64"
    "byte b mod 16 * 4 < 64" "byte a mod 16 * 4 + byte b div 64 < 64"
    using d [of b] m [of a] m [of b] by linarith+
qed

lemmas sextet_chars = sextets [THEN alphabet_ok]

lemma padding_not_alphabet [simp]: "\<not> is_base64_char CHR ''=''"
  by code_simp

lemma base64_len_loop_encode:
  "base64_len_loop n 0 (base64_encode bs) = Some (n + length bs)"
proof (induction bs arbitrary: n rule: base64_encode.induct)
  case (4 a b c rest)
  then show ?case
    by (simp add: sextet_chars Let_def BASE64_QUANTUM_CHARS_def BASE64_QUANTUM_BYTES_def)
qed (simp_all add: sextet_chars Let_def BASE64_QUANTUM_CHARS_def BASE64_QUANTUM_BYTES_def)

lemma base64_len_loop_white:
  "base64_len_loop n p body = base64_len_loop n p (filter (\<lambda>b. \<not> base64_white b) body)"
proof (induction n p body rule: base64_len_loop.induct)
  case (2 n p b body)
  have "base64_white b \<Longrightarrow> \<not> is_base64_char b \<and> b \<noteq> CHR ''=''"
    by (auto simp: base64_white_def is_base64_char_def is_ascii_alphanumeric_def is_ascii_digit_def)
  then show ?case using 2 by (auto simp: base64_white_def Let_def)
qed simp

subsection \<open>Properties\<close>

text \<open>
  The length predicted for a base64 body is the length of the encoded data, for every
  data and every way of folding the encoded text into lines.
\<close>

theorem predicted_base64_len_exact:
  assumes "filter (\<lambda>b. \<not> base64_white b) body = base64_encode bs"
  shows "predicted_base64_len body = Some (length bs)"
  using base64_len_loop_encode [of 0 bs] base64_len_loop_white [of 0 0 body] assms
  by (simp add: predicted_base64_len_def)

theorem predicted_base64_len_exact_witness:
  "predicted_base64_len (''QUJD'' @ [CR, LF] @ ''RA=='') = Some (length ''ABCD'')"
  by (rule predicted_base64_len_exact) code_simp


text \<open>Libraries that store a frame as it is, for the witnesses.\<close>

definition plain_zstd :: zstd where
  "plain_zstd = \<lparr>z_compress = Inr, z_frame_size = (\<lambda>f. Inr (Some (length f))),
     z_decompress = (\<lambda>f n. Inr f), z_prefix = (\<lambda>f n. Inr (take n f))\<rparr>"

definition plain_mime :: mime_lib where
  "plain_mime = \<lparr>mp_parse = (\<lambda>raw. None), quoted_printable_decode = Some, base64_decode = (\<lambda>b. None),
     to_json = (\<lambda>xs. ''['' @ join '','' xs @ '']'')\<rparr>"

lemma plain_zstd_laws: "zstd_laws plain_zstd"
  by (simp add: zstd_laws_def plain_zstd_def)


text \<open>
  A message's source survives preparation: what \<open>PreparedMessage::parse\<close> keeps
  decompresses to the very bytes received, at the recorded size, and every prefix of it can
  be read alone.
\<close>

theorem prepared_source_roundtrip:
  assumes "zstd_laws Z" and "prepared_parse Z M sender recipients raw = Inr pm"
  shows "decompress Z (pm_compressed_raw pm) (int (pm_size pm)) i = Inr raw \<and>
    decompress_prefix Z (pm_compressed_raw pm) n i = Inr (take n raw)"
  using decompress_compress [OF assms(1)] decompress_prefix_compress [OF assms(1)] prepared_parse_kept [OF assms(2)]
  by simp

theorem prepared_source_roundtrip_witness:
  "decompress plain_zstd ''Hi'' (int (length ''Hi'')) ''m'' = Inr ''Hi''"
  using prepared_source_roundtrip
    [OF plain_zstd_laws, of plain_mime "''a''" "[''b'']" "''Hi''"
      "\<lparr>pm_sender = ''a'', pm_recipients_json = ''[b]'', pm_subject = None, pm_text_body = None, pm_size = 2,
        pm_compressed_raw = ''Hi'', pm_has_attachments = False, pm_attachments = []\<rparr>" "''m''" 0]
  by (simp add: prepared_parse_def plain_mime_def compress_def) (simp add: plain_zstd_def)

end
