(* ===== verification/Storage_Tables.thy ===== *)
theory Storage_Tables
  imports Storage_Content
begin

text \<open>
  The database (\<open>schema.rs\<close>): the tables of schema 2 as lists in rowid order, with the
  constraints, triggers and cascades the schema declares, and the statements the repository
  issues as functions on them. SQLite itself is not modelled: a statement either does what
  it says or fails, and which statements fail is an input of the model.
\<close>

subsection \<open>Tables\<close>

record message_row =
  mr_seq :: int
  mr_id :: bytes
  mr_sender :: bytes
  mr_recipients :: bytes
  mr_subject :: "bytes option"
  mr_size :: int
  mr_has_attachments :: bool
  mr_is_read :: bool
  mr_is_starred :: bool
  mr_tags :: bytes
  mr_created_at :: bytes

record content_row =
  cr_seq :: int
  cr_raw :: bytes

text \<open>The text a row of the full-text index was built from.\<close>

record fts_row =
  fr_rowid :: int
  fr_subject :: "bytes option"
  fr_text_body :: "bytes option"
  fr_sender :: bytes
  fr_recipients :: bytes

record stored_attachment =
  sa_id :: bytes
  sa_message_seq :: int
  sa_filename :: "bytes option"
  sa_content_type :: "bytes option"
  sa_content_id :: "bytes option"
  sa_size :: "int option"
  sa_raw_offset :: "int option"
  sa_raw_len :: "int option"
  sa_transfer_encoding :: "int option"
  sa_content :: "bytes option"

record tables =
  messages :: "message_row list"
  message_content :: "content_row list"
  messages_fts :: "fts_row list"
  attachments :: "stored_attachment list"
  message_tags :: "(bytes \<times> int) list"

definition no_tables :: tables where
  "no_tables = \<lparr>messages = [], message_content = [], messages_fts = [], attachments = [], message_tags = []\<rparr>"

text \<open>The functions of SQLite the statements call, and its full-text matching.\<close>

record sql_lib =
  json_each :: "bytes \<Rightarrow> bytes list"
  fts_match :: "bytes \<Rightarrow> fts_row \<Rightarrow> bool"
  sql_lower :: "bytes \<Rightarrow> bytes"
  sql_like :: "bytes \<Rightarrow> bytes \<Rightarrow> bool"

subsection \<open>Constraints, triggers, cascades\<close>

text \<open>An \<open>INTEGER PRIMARY KEY\<close> left out of an insert is one more than the largest.\<close>

definition next_seq :: "message_row list \<Rightarrow> int" where
  "next_seq ms = (if ms = [] then 1 else Max (set (map mr_seq ms)) + 1)"

text \<open>\<open>INSERT OR IGNORE INTO message_tags\<close> of every value of the JSON array.\<close>

fun insert_tags :: "bytes list \<Rightarrow> int \<Rightarrow> (bytes \<times> int) list \<Rightarrow> (bytes \<times> int) list" where
  "insert_tags [] seq rows = rows"
| "insert_tags (tag # tags) seq rows =
     insert_tags tags seq (if List.member rows (tag, seq) then rows else rows @ [(tag, seq)])"

definition attachment_check :: "stored_attachment \<Rightarrow> bool" where
  "attachment_check a \<longleftrightarrow>
     (sa_content a = None) = (sa_raw_offset a \<noteq> None) \<and>
     (case sa_raw_offset a of
        None \<Rightarrow> True
      | Some offset \<Rightarrow>
          0 \<le> offset \<and>
          (case sa_raw_len a of None \<Rightarrow> True | Some len \<Rightarrow> 0 \<le> len) \<and>
          (case sa_transfer_encoding a of None \<Rightarrow> True | Some e \<Rightarrow> List.member [0, 1, 2] e))"

definition check_violation :: storage_error where
  "check_violation = Database (DatabaseCode (Some ''275''))"

text \<open>The insert into \<open>messages\<close> with its trigger \<open>message_tags_after_insert\<close>.\<close>

definition insert_message :: "sql_lib \<Rightarrow> (int \<Rightarrow> message_row) \<Rightarrow> tables \<Rightarrow> (storage_error, int \<times> tables) result" where
  "insert_message S mk t =
     (let seq = next_seq (messages t); row = mk seq in
      if List.member (map mr_id (messages t)) (mr_id row) then Inl unique_violation
      else Inr (seq, t\<lparr>messages := messages t @ [row],
             message_tags :=
               (if mr_tags row \<noteq> ''[]'' then insert_tags (json_each S (mr_tags row)) seq (message_tags t)
                else message_tags t)\<rparr>))"

definition insert_content :: "content_row \<Rightarrow> tables \<Rightarrow> (storage_error, unit \<times> tables) result" where
  "insert_content row t =
     (if List.member (map cr_seq (message_content t)) (cr_seq row) then Inl primary_key_violation
      else Inr ((), t\<lparr>message_content := message_content t @ [row]\<rparr>))"

definition insert_attachment :: "stored_attachment \<Rightarrow> tables \<Rightarrow> (storage_error, unit \<times> tables) result" where
  "insert_attachment row t =
     (if List.member (map sa_id (attachments t)) (sa_id row) then Inl primary_key_violation
      else if \<not> attachment_check row then Inl check_violation
      else Inr ((), t\<lparr>attachments := attachments t @ [row]\<rparr>))"

definition insert_fts :: "fts_row list \<Rightarrow> tables \<Rightarrow> (storage_error, unit \<times> tables) result" where
  "insert_fts rows t = Inr ((), t\<lparr>messages_fts := messages_fts t @ rows\<rparr>)"

text \<open>An update of \<open>messages\<close> with its trigger \<open>message_tags_after_update\<close>, row by row.\<close>

definition retag :: "sql_lib \<Rightarrow> message_row \<Rightarrow> message_row \<Rightarrow> (bytes \<times> int) list \<Rightarrow> (bytes \<times> int) list" where
  "retag S old new rows =
     (if mr_tags new \<noteq> mr_tags old
      then insert_tags (json_each S (mr_tags new)) (mr_seq new) (filter (\<lambda>(_, s). s \<noteq> mr_seq new) rows)
      else rows)"

definition update_where :: "sql_lib \<Rightarrow> (message_row \<Rightarrow> bool) \<Rightarrow> (message_row \<Rightarrow> message_row) \<Rightarrow> tables \<Rightarrow> nat \<times> tables" where
  "update_where S p f t =
     (length (filter p (messages t)),
      t\<lparr>messages := map (\<lambda>m. if p m then f m else m) (messages t),
        message_tags := fold (\<lambda>m. retag S m (f m)) (filter p (messages t)) (message_tags t)\<rparr>)"

text \<open>A delete from \<open>messages\<close>: content, attachments and tags follow by cascade.\<close>

definition delete_where :: "(message_row \<Rightarrow> bool) \<Rightarrow> tables \<Rightarrow> message_row list \<times> tables" where
  "delete_where p t =
     (let gone = filter p (messages t); seqs = map mr_seq gone in
      (gone,
       t\<lparr>messages := filter (\<lambda>m. \<not> p m) (messages t),
         message_content := filter (\<lambda>c. \<not> List.member seqs (cr_seq c)) (message_content t),
         attachments := filter (\<lambda>a. \<not> List.member seqs (sa_message_seq a)) (attachments t),
         message_tags := filter (\<lambda>(_, s). \<not> List.member seqs s) (message_tags t)\<rparr>))"

definition delete_fts_where :: "(int \<Rightarrow> bool) \<Rightarrow> tables \<Rightarrow> tables" where
  "delete_fts_where p t = t\<lparr>messages_fts := filter (\<lambda>f. \<not> p (fr_rowid f)) (messages_fts t)\<rparr>"

subsection \<open>Statements and transactions\<close>

text \<open>
  The store: the tables, and the outside world the code meets through it. The next entry of
  \<open>faults\<close> says whether the next statement fails (then it changes nothing); \<open>late\<close> answers
  the next look at the retry deadline; \<open>ulid\<close> and \<open>clock\<close> are the ids and times to come.
\<close>

record store =
  tables :: tables
  faults :: "storage_error option list"
  late :: "bool list"
  ulid :: "nat \<Rightarrow> bytes"
  clock :: "nat \<Rightarrow> bytes"
  drawn :: nat

type_synonym 'a sql = "(store, storage_error, 'a) call"

text \<open>The same on a store that carries more (the page counts of \<open>Storage_Reclaim\<close>).\<close>

type_synonym ('x, 'a) sql_on = "('x store_scheme, storage_error, 'a) call"

definition stmt :: "(tables \<Rightarrow> (storage_error, 'a \<times> tables) result) \<Rightarrow> ('x, 'a) sql_on" where
  "stmt f st =
     (let st' = st\<lparr>faults := tl (faults st)\<rparr> in
      case (case faults st of Some e # _ \<Rightarrow> Inl e | _ \<Rightarrow> f (tables st)) of
        Inl e \<Rightarrow> (Inl e, st')
      | Inr (a, t) \<Rightarrow> (Inr a, st'\<lparr>tables := t\<rparr>))"

definition select :: "(tables \<Rightarrow> 'a) \<Rightarrow> ('x, 'a) sql_on" where
  "select f = stmt (\<lambda>t. Inr (f t, t))"

definition exec :: "(tables \<Rightarrow> 'a \<times> tables) \<Rightarrow> 'a sql" where
  "exec f = stmt (\<lambda>t. Inr (f t))"

text \<open>
  \<open>begin\<close>, the body, and \<open>commit\<close> when the body asks for it; dropping the transaction, after
  an error or without a commit, rolls it back.
\<close>

definition transaction :: "(bool \<times> 'a) sql \<Rightarrow> 'a sql" where
  "transaction body st =
     (case select (\<lambda>_. ()) st of
        (Inl e, st1) \<Rightarrow> (Inl e, st1)
      | (Inr _, st1) \<Rightarrow>
          (case body st1 of
             (Inl e, st2) \<Rightarrow> (Inl e, st2\<lparr>tables := tables st1\<rparr>)
           | (Inr (False, a), st2) \<Rightarrow> (Inr a, st2\<lparr>tables := tables st1\<rparr>)
           | (Inr (True, a), st2) \<Rightarrow>
               (case select (\<lambda>_. ()) st2 of
                  (Inl e, st3) \<Rightarrow> (Inl e, st3\<lparr>tables := tables st1\<rparr>)
                | (Inr _, st3) \<Rightarrow> (Inr a, st3))))"

definition commit :: "'a \<Rightarrow> (bool \<times> 'a) sql" where
  "commit a = sret (True, a)"

text \<open>A fresh id; the same draw gives the time of day an insert is stamped with.\<close>

definition draw :: "bytes sql" where
  "draw st = (Inr (ulid st (drawn st)), st\<lparr>drawn := Suc (drawn st)\<rparr>)"

definition now :: "bytes sql" where
  "now st = (Inr (clock st (drawn st)), st)"

end
