(* ===== verification/Storage_Repo.thy ===== *)
theory Storage_Repo
  imports Storage_Tables
begin

text \<open>
  The write side of the repository (\<open>repo.rs\<close>): inserts, updates, deletes and retention,
  each the sequence of statements the method issues inside its transaction, with the retry
  loop around it.
\<close>

subsection \<open>Retrying\<close>

definition WRITE_ATTEMPTS :: nat where "WRITE_ATTEMPTS = 5"

definition past_deadline :: "'x store_scheme \<Rightarrow> bool \<times> 'x store_scheme" where
  "past_deadline st = (case late st of [] \<Rightarrow> (False, st) | l # r \<Rightarrow> (l, st\<lparr>late := r\<rparr>))"

text \<open>The loop of \<open>retry_on_lock\<close>, by the attempts left after the current one.\<close>

fun retry_loop :: "nat \<Rightarrow> ('x, 'a) sql_on \<Rightarrow> ('x, 'a) sql_on" where
  "retry_loop left op st =
     (case op st of
        (Inr a, st') \<Rightarrow> (Inr a, st')
      | (Inl e, st') \<Rightarrow>
          if is_retryable_lock e then
            (case left of
               0 \<Rightarrow> (Inl e, st')
             | Suc n \<Rightarrow>
                 (case past_deadline st' of
                    (True, st'') \<Rightarrow> (Inl e, st'')
                  | (False, st'') \<Rightarrow> retry_loop n op st''))
          else (Inl e, st'))"

declare retry_loop.simps [simp del]

definition retry_on_lock :: "('x, 'a) sql_on \<Rightarrow> ('x, 'a) sql_on" where
  "retry_on_lock op = retry_loop (WRITE_ATTEMPTS - 1) op"

subsection \<open>Inserting\<close>

record message_summary =
  ms_id :: bytes
  ms_sender :: bytes
  ms_recipients :: bytes
  ms_subject :: "bytes option"
  ms_size :: int
  ms_has_attachments :: bool
  ms_is_read :: bool
  ms_is_starred :: bool
  ms_tags :: bytes
  ms_created_at :: bytes

definition FTS_ROWS_PER_STATEMENT :: nat where "FTS_ROWS_PER_STATEMENT = 1000"

definition new_row :: "bytes \<Rightarrow> bytes \<Rightarrow> prepared_message \<Rightarrow> int \<Rightarrow> message_row" where
  "new_row i created pm seq =
     \<lparr>mr_seq = seq, mr_id = i, mr_sender = pm_sender pm, mr_recipients = pm_recipients_json pm,
      mr_subject = pm_subject pm, mr_size = int (pm_size pm), mr_has_attachments = pm_has_attachments pm,
      mr_is_read = False, mr_is_starred = False, mr_tags = ''[]'', mr_created_at = created\<rparr>"

definition new_attachment :: "bytes \<Rightarrow> int \<Rightarrow> prepared_attachment \<Rightarrow> stored_attachment" where
  "new_attachment i seq pa =
     (let (loc, content) =
            (case pa_storage pa of Located l \<Rightarrow> (Some l, None) | Inline c \<Rightarrow> (None, Some c))
      in \<lparr>sa_id = i, sa_message_seq = seq, sa_filename = pa_filename pa, sa_content_type = pa_content_type pa,
          sa_content_id = pa_content_id pa, sa_size = Some (int (pa_size pa)),
          sa_raw_offset = map_option (\<lambda>l. int (loc_offset l)) loc,
          sa_raw_len = map_option (\<lambda>l. int (loc_len l)) loc,
          sa_transfer_encoding = map_option (\<lambda>l. code (loc_encoding l)) loc,
          sa_content = content\<rparr>)"

definition summary_of :: "message_row \<Rightarrow> message_summary" where
  "summary_of m =
     \<lparr>ms_id = mr_id m, ms_sender = mr_sender m, ms_recipients = mr_recipients m, ms_subject = mr_subject m,
      ms_size = mr_size m, ms_has_attachments = mr_has_attachments m, ms_is_read = mr_is_read m,
      ms_is_starred = mr_is_starred m, ms_tags = mr_tags m, ms_created_at = mr_created_at m\<rparr>"

definition insert_attachment_in :: "int \<Rightarrow> prepared_attachment \<Rightarrow> unit sql" where
  "insert_attachment_in seq pa =
     sbind draw (\<lambda>i. stmt (insert_attachment (new_attachment i seq pa)))"

definition insert_rows_in :: "sql_lib \<Rightarrow> prepared_message \<Rightarrow> (int \<times> message_summary) sql" where
  "insert_rows_in S pm =
     sbind draw (\<lambda>i.
     sbind now (\<lambda>created.
     sbind (stmt (insert_message S (new_row i created pm))) (\<lambda>seq.
     sthen (stmt (insert_content \<lparr>cr_seq = seq, cr_raw = pm_compressed_raw pm\<rparr>))
     (sthen (scall_each (insert_attachment_in seq) (pm_attachments pm))
     (sret (seq, summary_of (new_row i created pm seq)))))))"

definition fts_of :: "int \<times> prepared_message \<Rightarrow> fts_row" where
  "fts_of = (\<lambda>(seq, pm).
     \<lparr>fr_rowid = seq, fr_subject = pm_subject pm, fr_text_body = pm_text_body pm,
      fr_sender = pm_sender pm, fr_recipients = pm_recipients_json pm\<rparr>)"

definition index_in :: "(int \<times> prepared_message) list \<Rightarrow> unit sql" where
  "index_in rows = stmt (insert_fts (map fts_of rows))"

text \<open>\<open>slice::chunks\<close>, for a positive length.\<close>

fun chunks :: "nat \<Rightarrow> 'a list \<Rightarrow> 'a list list" where
  "chunks n [] = []"
| "chunks n (x # xs) = (x # take (n - 1) xs) # chunks n (drop (n - 1) xs)"

definition insert_all_in :: "sql_lib \<Rightarrow> prepared_message list \<Rightarrow> message_summary list sql" where
  "insert_all_in S pms =
     sbind (scall_each (insert_rows_in S) pms) (\<lambda>inserted.
     sthen (scall_each index_in (chunks FTS_ROWS_PER_STATEMENT (zip (map fst inserted) pms)))
     (sret (map snd inserted)))"

definition insert_batch_once :: "sql_lib \<Rightarrow> prepared_message list \<Rightarrow> message_summary list sql" where
  "insert_batch_once S pms = transaction (sbind (insert_all_in S pms) commit)"

definition insert_batch :: "sql_lib \<Rightarrow> prepared_message list \<Rightarrow> message_summary list sql" where
  "insert_batch S pms = retry_on_lock (insert_batch_once S pms)"

definition insert_prepared_once :: "sql_lib \<Rightarrow> prepared_message \<Rightarrow> message_summary sql" where
  "insert_prepared_once S pm = transaction (sbind (insert_all_in S [pm]) (\<lambda>summaries. commit (hd summaries)))"

definition insert_prepared :: "sql_lib \<Rightarrow> prepared_message \<Rightarrow> message_summary sql" where
  "insert_prepared S pm = retry_on_lock (insert_prepared_once S pm)"

definition insert_raw :: "sql_lib \<Rightarrow> zstd \<Rightarrow> mime_lib \<Rightarrow> bytes \<Rightarrow> bytes list \<Rightarrow> bytes \<Rightarrow> message_summary sql" where
  "insert_raw S Z M sender recipients raw =
     (case prepared_parse Z M sender recipients raw of
        Inl e \<Rightarrow> sfail e
      | Inr pm \<Rightarrow> insert_prepared S pm)"

subsection \<open>Updating and deleting\<close>

definition coalesce :: "'a option \<Rightarrow> 'a \<Rightarrow> 'a" where
  "coalesce x y = (case x of None \<Rightarrow> y | Some v \<Rightarrow> v)"

definition set_flags :: "bool option \<Rightarrow> bool option \<Rightarrow> bytes option \<Rightarrow> message_row \<Rightarrow> message_row" where
  "set_flags is_read is_starred tags_json m =
     m\<lparr>mr_is_read := coalesce is_read (mr_is_read m), mr_is_starred := coalesce is_starred (mr_is_starred m),
       mr_tags := coalesce tags_json (mr_tags m)\<rparr>"

definition update_message ::
  "sql_lib \<Rightarrow> mime_lib \<Rightarrow> bytes \<Rightarrow> bool option \<Rightarrow> bool option \<Rightarrow> bytes list option \<Rightarrow> unit sql" where
  "update_message S M i is_read is_starred tags =
     (let tags_json = map_option (to_json M) tags in
      sbind (retry_on_lock (exec (update_where S (\<lambda>m. mr_id m = i) (set_flags is_read is_starred tags_json))))
        (\<lambda>rows_affected. if rows_affected = 0 then sfail (NotFound i) else sret ()))"

definition seqs_where :: "(message_row \<Rightarrow> bool) \<Rightarrow> tables \<Rightarrow> int list" where
  "seqs_where p t = map mr_seq (filter p (messages t))"

text \<open>The index rows of the messages with \<open>p\<close> first, then the messages.\<close>

definition delete_indexed :: "(message_row \<Rightarrow> bool) \<Rightarrow> message_row list sql" where
  "delete_indexed p =
     sthen (exec (\<lambda>t. ((), delete_fts_where (\<lambda>s. List.member (seqs_where p t) s) t)))
     (exec (delete_where p))"

definition delete_message :: "bytes \<Rightarrow> unit sql" where
  "delete_message i = transaction (
     sbind (delete_indexed (\<lambda>m. mr_id m = i)) (\<lambda>gone.
       if length gone = 0 then sfail (NotFound i) else commit ()))"

definition delete_all_once :: "nat sql" where
  "delete_all_once = transaction (
     sthen (exec (\<lambda>t. ((), t\<lparr>messages_fts := []\<rparr>)))
     (sthen (exec (\<lambda>t. ((), t\<lparr>message_content := []\<rparr>)))
     (sthen (exec (\<lambda>t. ((), t\<lparr>attachments := []\<rparr>)))
     (sthen (exec (\<lambda>t. ((), t\<lparr>message_tags := []\<rparr>)))
     (sbind (exec (delete_where (\<lambda>_. True))) (\<lambda>gone. commit (length gone)))))))"

definition delete_all :: "nat sql" where
  "delete_all = retry_on_lock delete_all_once"

subsection \<open>Retention\<close>

text \<open>SQLite compares text byte by byte.\<close>

fun bytes_less :: "bytes \<Rightarrow> bytes \<Rightarrow> bool" where
  "bytes_less [] [] = False"
| "bytes_less [] (_ # _) = True"
| "bytes_less (_ # _) [] = False"
| "bytes_less (a # as) (b # bs) = (byte a < byte b \<or> a = b \<and> bytes_less as bs)"

definition delete_older_txn :: "bytes \<Rightarrow> bytes list sql" where
  "delete_older_txn cutoff = transaction (
     sbind (delete_indexed (\<lambda>m. bytes_less (mr_created_at m) cutoff)) (\<lambda>gone. commit (map mr_id gone)))"

definition delete_older_than_once :: "bytes \<Rightarrow> bytes list sql" where
  "delete_older_than_once cutoff =
     sbind (select (\<lambda>t. list_ex (\<lambda>m. bytes_less (mr_created_at m) cutoff) (messages t))) (\<lambda>has_match.
       if \<not> has_match then sret [] else delete_older_txn cutoff)"

definition delete_older_than :: "bytes \<Rightarrow> bytes list sql" where
  "delete_older_than cutoff = retry_on_lock (delete_older_than_once cutoff)"

text \<open>\<open>LIMIT 1 OFFSET n\<close> of the sequence numbers, newest first.\<close>

definition nth_newest :: "int \<Rightarrow> tables \<Rightarrow> int option" where
  "nth_newest n t =
     (case drop (nat n) (rev (sort (map mr_seq (messages t)))) of [] \<Rightarrow> None | s # _ \<Rightarrow> Some s)"

definition trim_txn :: "int \<Rightarrow> bytes list sql" where
  "trim_txn mx = transaction (
     sbind (select (nth_newest mx)) (\<lambda>threshold.
       case threshold of
         None \<Rightarrow> sret (False, [])
       | Some s \<Rightarrow>
           sthen (exec (\<lambda>t. ((), delete_fts_where (\<lambda>r. r \<le> s) t)))
           (sbind (exec (delete_where (\<lambda>m. mr_seq m \<le> s))) (\<lambda>gone. commit (map mr_id gone)))))"

definition trim_to_max_once :: "int \<Rightarrow> bytes list sql" where
  "trim_to_max_once mx =
     sbind (select (\<lambda>t. int (length (messages t)))) (\<lambda>count.
       if count \<le> mx then sret [] else trim_txn mx)"

definition trim_to_max :: "int \<Rightarrow> bytes list sql" where
  "trim_to_max mx = retry_on_lock (trim_to_max_once mx)"

subsection \<open>Statements, transactions and retries as atomic steps\<close>

lemma stmt_Inr: "stmt f st = (Inr a, st') \<Longrightarrow> f (tables st) = Inr (a, tables st')"
  by (auto simp: stmt_def Let_def split: sum.splits list.splits option.splits)

lemma stmt_Inl: "stmt f st = (Inl e, st') \<Longrightarrow> tables st' = tables st"
  by (auto simp: stmt_def Let_def split: sum.splits list.splits option.splits)

lemma exec_Inr: "exec f st = (Inr a, st') \<Longrightarrow> f (tables st) = (a, tables st')"
  by (auto simp: exec_def dest: stmt_Inr)

lemma exec_result: "exec f st = (Inr a, st') \<Longrightarrow> a = fst (f (tables st)) \<and> tables st' = snd (f (tables st))"
  by (auto dest!: exec_Inr)

lemma select_tables: "select f st = (r, st') \<Longrightarrow> tables st' = tables st \<and> (\<forall>a. r = Inr a \<longrightarrow> a = f (tables st))"
  by (cases r) (auto simp: select_def dest: stmt_Inr stmt_Inl)

lemma sbind_Inr: "sbind m f s = (Inr b, s') \<longleftrightarrow> (\<exists>a s1. m s = (Inr a, s1) \<and> f a s1 = (Inr b, s'))"
  by (auto simp: sbind_def split: prod.splits sum.splits)

lemma sthen_Inr: "sthen m k s = (Inr b, s') \<longleftrightarrow> (\<exists>a s1. m s = (Inr a, s1) \<and> k s1 = (Inr b, s'))"
  by (simp add: sthen_def sbind_Inr)

lemma sret_Inr: "sret a s = (Inr b, s') \<longleftrightarrow> a = b \<and> s = s'"
  by (auto simp: sret_def)

lemma sfail_Inr: "sfail e s = (Inr b, s') \<longleftrightarrow> False"
  by (simp add: sfail_def)

lemmas call_Inr = sbind_Inr sthen_Inr sret_Inr sfail_Inr

text \<open>A committed transaction did what its body did; any other left the tables alone.\<close>

lemma transaction_Inl: "transaction body st = (Inl e, st') \<Longrightarrow> tables st' = tables st"
  by (auto simp: transaction_def split: prod.splits sum.splits bool.splits dest!: select_tables)

lemma transaction_Inr:
  assumes "transaction body st = (Inr a, st')"
  shows "\<exists>st1 b st2. tables st1 = tables st \<and> body st1 = (Inr (b, a), st2) \<and>
    tables st' = (if b then tables st2 else tables st)"
proof -
  obtain st1 where st1: "select (\<lambda>_. ()) st = (Inr (), st1)" "tables st1 = tables st"
    using assms by (cases "select (\<lambda>_. ()) st"; cases "fst (select (\<lambda>_. ()) st)")
      (auto simp: transaction_def dest: select_tables)
  obtain x st2 where b: "body st1 = (x, st2)" by fastforce
  show ?thesis using assms st1 b
    by (auto simp: transaction_def split: prod.splits sum.splits bool.splits if_splits dest!: select_tables)
      metis+
qed

text \<open>
  The interface between a write and the retry loop: a write that fails has changed nothing,
  and one that succeeds has met its specification. Retrying keeps both, so no attempt can
  leave a trace of an earlier one.
\<close>

locale atomic_write =
  fixes op :: "'a sql"
    and Q :: "tables \<Rightarrow> 'a \<Rightarrow> tables \<Rightarrow> bool"
  assumes fails_clean: "op st = (Inl e, st') \<Longrightarrow> tables st' = tables st"
    and succeeds: "op st = (Inr a, st') \<Longrightarrow> Q (tables st) a (tables st')"
begin

lemma past_deadline_tables: "past_deadline st = (l, st') \<Longrightarrow> tables st' = tables st"
  by (auto simp: past_deadline_def split: list.splits)

lemma retry_loop_spec:
  "retry_loop left op st = (r, st') \<Longrightarrow>
     (case r of Inl e \<Rightarrow> tables st' = tables st | Inr a \<Rightarrow> Q (tables st) a (tables st'))"
proof (induction "left" arbitrary: st r st')
  case 0
  then show ?case
    by (auto simp: retry_loop.simps [of 0] dest: fails_clean succeeds split: prod.splits sum.splits if_splits)
next
  case (Suc n)
  obtain x st1 where x: "op st = (x, st1)" by fastforce
  show ?case
  proof (cases "\<exists>e st2. x = Inl e \<and> is_retryable_lock e \<and> past_deadline st1 = (False, st2)")
    case True
    then obtain e st2 where e: "x = Inl e" "is_retryable_lock e" "past_deadline st1 = (False, st2)" by blast
    then have "tables st2 = tables st" using x fails_clean past_deadline_tables by metis
    moreover have "retry_loop n op st2 = (r, st')"
      using Suc.prems x e by (simp add: retry_loop.simps [of "Suc n"])
    ultimately show ?thesis using Suc.IH by metis
  next
    case False
    have "x = Inl e \<Longrightarrow> tables st1 = tables st" for e using x fails_clean by blast
    then show ?thesis using Suc.prems x False
      by (auto simp: retry_loop.simps [of "Suc n"] past_deadline_tables dest: succeeds
          split: prod.splits sum.splits if_splits bool.splits)
  qed
qed

lemma retry_fails_clean: "retry_on_lock op st = (Inl e, st') \<Longrightarrow> tables st' = tables st"
  using retry_loop_spec by (fastforce simp: retry_on_lock_def)

lemma retry_succeeds: "retry_on_lock op st = (Inr a, st') \<Longrightarrow> Q (tables st) a (tables st')"
  using retry_loop_spec by (fastforce simp: retry_on_lock_def)

end

lemma transaction_atomic:
  assumes "\<And>st b a st'. body st = (Inr (b, a), st') \<Longrightarrow> Q (tables st) a (if b then tables st' else tables st)"
  shows "atomic_write (transaction body) Q"
proof
  show "transaction body st = (Inl e, st') \<Longrightarrow> tables st' = tables st" for st e st'
    by (rule transaction_Inl)
next
  fix st a st'
  assume t: "transaction body st = (Inr a, st')"
  obtain st1 b st2 where st1: "tables st1 = tables st" and b: "body st1 = (Inr (b, a), st2)"
    and st': "tables st' = (if b then tables st2 else tables st)" using transaction_Inr [OF t] by blast
  show "Q (tables st) a (tables st')" using assms [OF b] unfolding st1 st' .
qed

lemma guarded_atomic:
  assumes "atomic_write op Q" and "\<And>t. c (g t) \<Longrightarrow> Q t d t"
  shows "atomic_write (sbind (select g) (\<lambda>x. if c x then sret d else op)) Q"
proof
  fix st e st'
  assume f: "sbind (select g) (\<lambda>x. if c x then sret d else op) st = (Inl e, st')"
  obtain x st1 where s: "select g st = (x, st1)" by fastforce
  have st1: "tables st1 = tables st" using select_tables [OF s] by blast
  have "st' = st1 \<or> op st1 = (Inl e, st')"
    using f s by (cases x) (auto simp: sbind_def sret_def split: if_splits)
  then show "tables st' = tables st" using atomic_write.fails_clean [OF assms(1)] st1 by metis
next
  fix st a st'
  assume "sbind (select g) (\<lambda>x. if c x then sret d else op) st = (Inr a, st')"
  then obtain x st1 where s: "select g st = (Inr x, st1)" and r: "(if c x then sret d else op) st1 = (Inr a, st')"
    unfolding sbind_Inr by blast
  have x: "tables st1 = tables st" "x = g (tables st)" using select_tables [OF s] by blast+
  show "Q (tables st) a (tables st')"
  proof (cases "c x")
    case True
    then have "a = d" "st' = st1" using r by (simp_all add: sret_def)
    then show ?thesis using assms(2) True x by simp
  next
    case False
    then have "op st1 = (Inr a, st')" using r by simp
    then show ?thesis using atomic_write.succeeds [OF assms(1)] x(1) by metis
  qed
qed

lemma retried_atomic:
  assumes "atomic_write op Q"
  shows "atomic_write (retry_on_lock op) Q"
  by unfold_locales
    (rule atomic_write.retry_fails_clean [OF assms] atomic_write.retry_succeeds [OF assms], assumption)+

subsection \<open>What an insert does\<close>

text \<open>The rows of one message, and of a batch, appended to the tables.\<close>

definition row_of :: "prepared_message \<Rightarrow> message_row \<Rightarrow> bool" where
  "row_of pm m \<longleftrightarrow> (\<exists>i created. m = new_row i created pm (mr_seq m))"

definition content_of :: "prepared_message \<Rightarrow> message_row \<Rightarrow> content_row" where
  "content_of pm m = \<lparr>cr_seq = mr_seq m, cr_raw = pm_compressed_raw pm\<rparr>"

definition attachments_of :: "prepared_message \<Rightarrow> message_row \<Rightarrow> (int \<times> prepared_attachment) list" where
  "attachments_of pm m = map (Pair (mr_seq m)) (pm_attachments pm)"

definition attachment_of :: "int \<times> prepared_attachment \<Rightarrow> stored_attachment \<Rightarrow> bool" where
  "attachment_of sp a \<longleftrightarrow> (\<exists>i. a = new_attachment i (fst sp) (snd sp))"

definition appended :: "prepared_message list \<Rightarrow> message_row list \<Rightarrow> tables \<Rightarrow> tables \<Rightarrow> bool" where
  "appended pms rows t t' \<longleftrightarrow>
     list_all2 row_of pms rows \<and>
     sorted_wrt (<) (map mr_seq rows) \<and> (\<forall>r \<in> set rows. \<forall>m \<in> set (messages t). mr_seq m < mr_seq r) \<and>
     distinct (map mr_id rows) \<and> set (map mr_id rows) \<inter> set (map mr_id (messages t)) = {} \<and>
     (\<exists>atts. list_all2 attachment_of (concat (map2 attachments_of pms rows)) atts \<and>
        distinct (map sa_id atts) \<and> set (map sa_id atts) \<inter> set (map sa_id (attachments t)) = {} \<and>
        t' = t\<lparr>messages := messages t @ rows,
               message_content := message_content t @ map2 content_of pms rows,
               attachments := attachments t @ atts\<rparr>)"

lemma next_seq_greater: "m \<in> set ms \<Longrightarrow> mr_seq m < next_seq ms"
proof -
  assume m: "m \<in> set ms"
  then have "mr_seq m \<le> Max (set (map mr_seq ms))" by (intro Max_ge) auto
  then show ?thesis using m by (auto simp: next_seq_def)
qed

lemma insert_message_Inr:
  assumes "insert_message S (new_row i created pm) t = Inr (seq, t')"
  shows "seq = next_seq (messages t) \<and> i \<notin> set (map mr_id (messages t)) \<and>
    t' = t\<lparr>messages := messages t @ [new_row i created pm seq]\<rparr>"
  using assms by (auto simp: insert_message_def Let_def new_row_def split: if_splits)

lemma draw_tables: "draw st = (r, st') \<Longrightarrow> tables st' = tables st"
  by (auto simp: draw_def)

lemma now_tables: "now st = (r, st') \<Longrightarrow> tables st' = tables st"
  by (auto simp: now_def)

lemma insert_attachment_in_Inr:
  assumes "insert_attachment_in seq pa st = (Inr u, st')"
  shows "\<exists>a. attachment_of (seq, pa) a \<and> sa_id a \<notin> set (map sa_id (attachments (tables st))) \<and>
    tables st' = (tables st)\<lparr>attachments := attachments (tables st) @ [a]\<rparr>"
proof -
  obtain i st1 where d: "draw st = (Inr i, st1)"
    and i: "insert_attachment (new_attachment i seq pa) (tables st1) = Inr (u, tables st')"
    using assms by (auto simp: call_Inr insert_attachment_in_def dest!: stmt_Inr)
  then show ?thesis using draw_tables [OF d]
    by (intro exI [of _ "new_attachment i seq pa"])
      (auto simp: insert_attachment_def attachment_of_def split: if_splits)
qed

lemma insert_attachments_Inr:
  "scall_each (insert_attachment_in seq) pas st = (Inr us, st') \<Longrightarrow>
     \<exists>atts. list_all2 attachment_of (map (Pair seq) pas) atts \<and> distinct (map sa_id atts) \<and>
       set (map sa_id atts) \<inter> set (map sa_id (attachments (tables st))) = {} \<and>
       tables st' = (tables st)\<lparr>attachments := attachments (tables st) @ atts\<rparr>"
proof (induction pas arbitrary: st us)
  case (Cons pa pas)
  then obtain u st2 us' where i: "insert_attachment_in seq pa st = (Inr u, st2)"
    and r: "scall_each (insert_attachment_in seq) pas st2 = (Inr us', st')"
    by (auto simp: call_Inr)
  obtain a where a: "attachment_of (seq, pa) a" "sa_id a \<notin> set (map sa_id (attachments (tables st)))"
    "tables st2 = (tables st)\<lparr>attachments := attachments (tables st) @ [a]\<rparr>"
    using insert_attachment_in_Inr [OF i] by blast
  obtain atts where "list_all2 attachment_of (map (Pair seq) pas) atts" "distinct (map sa_id atts)"
    "set (map sa_id atts) \<inter> set (map sa_id (attachments (tables st2))) = {}"
    "tables st' = (tables st2)\<lparr>attachments := attachments (tables st2) @ atts\<rparr>" using Cons.IH [OF r] by blast
  then show ?case using a by (intro exI [of _ "a # atts"]) auto
qed (auto simp: sret_Inr)

lemma insert_rows_in_Inr:
  assumes "insert_rows_in S pm st = (Inr (seq, sm), st')"
  shows "\<exists>m. mr_seq m = seq \<and> sm = summary_of m \<and> appended [pm] [m] (tables st) (tables st')"
proof -
  obtain i st0 created st1 st2 u st3 us where d: "draw st = (Inr i, st0)" "now st0 = (Inr created, st1)"
    and m: "stmt (insert_message S (new_row i created pm)) st1 = (Inr seq, st2)"
    and c: "stmt (insert_content \<lparr>cr_seq = seq, cr_raw = pm_compressed_raw pm\<rparr>) st2 = (Inr u, st3)"
    and atts: "scall_each (insert_attachment_in seq) (pm_attachments pm) st3 = (Inr us, st')"
    and sm: "sm = summary_of (new_row i created pm seq)"
    using assms unfolding insert_rows_in_def call_Inr by blast
  let ?m = "new_row i created pm seq"
  have m': "seq = next_seq (messages (tables st))" "i \<notin> set (map mr_id (messages (tables st)))"
    "tables st2 = (tables st)\<lparr>messages := messages (tables st) @ [?m]\<rparr>"
    using insert_message_Inr [OF stmt_Inr [OF m]] draw_tables [OF d(1)] now_tables [OF d(2)] by auto
  have st3: "tables st3 = (tables st2)\<lparr>message_content := message_content (tables st2) @ [content_of pm ?m]\<rparr>"
    using stmt_Inr [OF c] by (auto simp: insert_content_def content_of_def new_row_def split: if_splits)
  obtain as where "list_all2 attachment_of (map (Pair seq) (pm_attachments pm)) as" "distinct (map sa_id as)"
    "set (map sa_id as) \<inter> set (map sa_id (attachments (tables st3))) = {}"
    "tables st' = (tables st3)\<lparr>attachments := attachments (tables st3) @ as\<rparr>"
    using insert_attachments_Inr [OF atts] by blast
  then show ?thesis using m' st3 sm next_seq_greater
    by (intro exI [of _ ?m] conjI)
      (auto simp: appended_def row_of_def attachments_of_def new_row_def intro!: exI [of _ as])
qed

lemma appended_Nil: "appended [] [] t t"
  by (simp add: appended_def)

lemma map2_append:
  "length xs = length as \<Longrightarrow> map2 f (xs @ ys) (as @ bs) = map2 f xs as @ map2 f ys bs"
  by simp

lemma appended_append:
  assumes "appended pms rows t t1" "appended pms' rows' t1 t2"
  shows "appended (pms @ pms') (rows @ rows') t t2"
proof -
  have len: "length pms = length rows" using assms(1) by (auto simp: appended_def dest: list_all2_lengthD)
  note m2 = map2_append [OF len]
  obtain as where as: "list_all2 attachment_of (concat (map2 attachments_of pms rows)) as" "distinct (map sa_id as)"
    "set (map sa_id as) \<inter> set (map sa_id (attachments t)) = {}"
    "t1 = t\<lparr>messages := messages t @ rows, message_content := message_content t @ map2 content_of pms rows,
       attachments := attachments t @ as\<rparr>"
    using assms(1) by (auto simp: appended_def)
  obtain bs where bs: "list_all2 attachment_of (concat (map2 attachments_of pms' rows')) bs" "distinct (map sa_id bs)"
    "set (map sa_id bs) \<inter> set (map sa_id (attachments t1)) = {}"
    "t2 = t1\<lparr>messages := messages t1 @ rows', message_content := message_content t1 @ map2 content_of pms' rows',
       attachments := attachments t1 @ bs\<rparr>"
    using assms(2) by (auto simp: appended_def)
  have "list_all2 attachment_of (concat (map2 attachments_of (pms @ pms') (rows @ rows'))) (as @ bs)"
    unfolding m2 using as bs by (simp add: list_all2_appendI)
  moreover have "distinct (map sa_id (as @ bs))" "set (map sa_id (as @ bs)) \<inter> set (map sa_id (attachments t)) = {}"
    using as bs by auto
  moreover have "t2 = t\<lparr>messages := messages t @ rows @ rows',
      message_content := message_content t @ map2 content_of (pms @ pms') (rows @ rows'),
      attachments := attachments t @ as @ bs\<rparr>"
    unfolding m2 using as bs by simp
  moreover have "list_all2 row_of (pms @ pms') (rows @ rows')"
    using assms by (auto simp: appended_def intro: list_all2_appendI)
  moreover have "sorted_wrt (<) (map mr_seq (rows @ rows'))"
    "\<forall>r \<in> set (rows @ rows'). \<forall>x \<in> set (messages t). mr_seq x < mr_seq r" "distinct (map mr_id (rows @ rows'))"
    "set (map mr_id (rows @ rows')) \<inter> set (map mr_id (messages t)) = {}"
    using assms as(4) by (auto simp: appended_def sorted_wrt_append)
  ultimately show ?thesis unfolding appended_def by blast
qed

lemma appended_Cons:
  "appended [pm] [m] t t1 \<Longrightarrow> appended pms rows t1 t2 \<Longrightarrow> appended (pm # pms) (m # rows) t t2"
  using appended_append [of "[pm]" "[m]" t t1 pms rows t2] by simp

lemma insert_rows_each:
  "scall_each (insert_rows_in S) pms st = (Inr ins, st') \<Longrightarrow>
     \<exists>rows. map fst ins = map mr_seq rows \<and> map snd ins = map summary_of rows \<and>
       appended pms rows (tables st) (tables st')"
proof (induction pms arbitrary: st ins)
  case Nil
  then show ?case by (auto simp: sret_Inr intro!: exI [of _ "[]"] appended_Nil)
next
  case (Cons pm pms)
  then obtain seq sm st1 ins' where h: "insert_rows_in S pm st = (Inr (seq, sm), st1)"
    and r: "scall_each (insert_rows_in S) pms st1 = (Inr ins', st')" and ins: "ins = (seq, sm) # ins'"
    by (auto simp: call_Inr)
  obtain m where m: "mr_seq m = seq" "sm = summary_of m" "appended [pm] [m] (tables st) (tables st1)"
    using insert_rows_in_Inr [OF h] by blast
  obtain rows where "map fst ins' = map mr_seq rows" "map snd ins' = map summary_of rows"
    "appended pms rows (tables st1) (tables st')" using Cons.IH [OF r] by blast
  then show ?case using m ins appended_Cons by (intro exI [of _ "m # rows"]) auto
qed

lemma index_each:
  "scall_each index_in rss st = (Inr us, st') \<Longrightarrow>
     tables st' = (tables st)\<lparr>messages_fts := messages_fts (tables st) @ map fts_of (concat rss)\<rparr>"
proof (induction rss arbitrary: st us)
  case (Cons rs rss)
  then obtain u st1 us' where i: "index_in rs st = (Inr u, st1)" "scall_each index_in rss st1 = (Inr us', st')"
    by (auto simp: call_Inr)
  have "tables st1 = (tables st)\<lparr>messages_fts := messages_fts (tables st) @ map fts_of rs\<rparr>"
    using i(1) by (auto simp: index_in_def insert_fts_def dest!: stmt_Inr)
  then show ?case using Cons.IH [OF i(2)] by simp
qed (auto simp: sret_Inr)

lemma concat_chunks: "0 < n \<Longrightarrow> concat (chunks n xs) = xs"
  by (induction n xs rule: chunks.induct) auto

definition index_of :: "prepared_message \<Rightarrow> message_row \<Rightarrow> fts_row" where
  "index_of pm m = fts_of (mr_seq m, pm)"

text \<open>What storing a batch means: its rows appended in order, each indexed, and nothing else.\<close>

definition batch_stored :: "prepared_message list \<Rightarrow> tables \<Rightarrow> message_summary list \<Rightarrow> tables \<Rightarrow> bool" where
  "batch_stored pms t sms t' \<longleftrightarrow>
     (\<exists>rows t1. appended pms rows t t1 \<and> sms = map summary_of rows \<and>
        t' = t1\<lparr>messages_fts := messages_fts t @ map2 index_of pms rows\<rparr>)"

lemma appended_length: "appended pms rows t t' \<Longrightarrow> length pms = length rows \<and> messages_fts t' = messages_fts t"
  by (auto simp: appended_def dest: list_all2_lengthD)

lemma zip_map_index:
  "length pms = length rows \<Longrightarrow> map fts_of (zip (map mr_seq rows) pms) = map2 index_of pms rows"
  by (induction pms rows rule: list_induct2) (auto simp: index_of_def)

lemma insert_all_in_Inr:
  assumes "insert_all_in S pms st = (Inr sms, st')"
  shows "batch_stored pms (tables st) sms (tables st')"
proof -
  obtain ins st1 us where i: "scall_each (insert_rows_in S) pms st = (Inr ins, st1)"
    and x: "scall_each index_in (chunks FTS_ROWS_PER_STATEMENT (zip (map fst ins) pms)) st1 = (Inr us, st')"
    and sms: "sms = map snd ins"
    using assms unfolding insert_all_in_def call_Inr by blast
  obtain rows where rows: "map fst ins = map mr_seq rows" "map snd ins = map summary_of rows"
    "appended pms rows (tables st) (tables st1)" using insert_rows_each [OF i] by blast
  have "tables st' = (tables st1)\<lparr>messages_fts := messages_fts (tables st) @ map2 index_of pms rows\<rparr>"
    using index_each [OF x] rows appended_length [OF rows(3)]
    by (simp add: concat_chunks FTS_ROWS_PER_STATEMENT_def zip_map_index)
  then show ?thesis using rows sms unfolding batch_stored_def by auto
qed

lemma appended_index_free:
  "appended pms rows t t' \<Longrightarrow> appended pms rows (t\<lparr>messages_fts := fs\<rparr>) (t'\<lparr>messages_fts := fs\<rparr>)"
  by (auto simp: appended_def)

lemma batch_stored_Nil: "batch_stored [] t [] t"
  unfolding batch_stored_def by (intro exI [of _ "[]"] exI [of _ t]) (simp add: appended_Nil)

lemma batch_stored_append:
  assumes "batch_stored pms t sms t1" "batch_stored pms' t1 sms' t2"
  shows "batch_stored (pms @ pms') t (sms @ sms') t2"
proof -
  obtain rows u where a: "appended pms rows t u" "sms = map summary_of rows"
    "t1 = u\<lparr>messages_fts := messages_fts t @ map2 index_of pms rows\<rparr>"
    using assms(1) by (auto simp: batch_stored_def)
  obtain rows' v where b: "appended pms' rows' t1 v" "sms' = map summary_of rows'"
    "t2 = v\<lparr>messages_fts := messages_fts t1 @ map2 index_of pms' rows'\<rparr>"
    using assms(2) by (auto simp: batch_stored_def)
  have u: "messages_fts u = messages_fts t" "length pms = length rows" using appended_length [OF a(1)] by auto
  have "u\<lparr>messages_fts := messages_fts t\<rparr> = u" using u(1) by (cases u) simp
  then have "appended pms' rows' u (v\<lparr>messages_fts := messages_fts t\<rparr>)"
    using appended_index_free [OF b(1), of "messages_fts t"] a(3) by simp
  then have "appended (pms @ pms') (rows @ rows') t (v\<lparr>messages_fts := messages_fts t\<rparr>)"
    using a(1) appended_append by blast
  then show ?thesis unfolding batch_stored_def
    using a b u by (intro exI [of _ "rows @ rows'"] exI [of _ "v\<lparr>messages_fts := messages_fts t\<rparr>"]) simp
qed

interpretation batch: atomic_write "insert_batch_once S pms" "batch_stored pms" for S pms
  unfolding insert_batch_once_def
  by (rule transaction_atomic) (auto simp: call_Inr commit_def dest: insert_all_in_Inr)

interpretation one: atomic_write "insert_prepared_once S pm" "\<lambda>t sm t'. batch_stored [pm] t [sm] t'" for S pm
  unfolding insert_prepared_once_def
proof (rule transaction_atomic)
  fix st b sm st'
  assume "sbind (insert_all_in S [pm]) (\<lambda>sms. commit (hd sms)) st = (Inr (b, sm), st')"
  then obtain sms where sms: "insert_all_in S [pm] st = (Inr sms, st')" "b" "sm = hd sms"
    by (auto simp: call_Inr commit_def)
  then have "batch_stored [pm] (tables st) sms (tables st')" using insert_all_in_Inr by blast
  moreover from this have "sms = [hd sms]"
    by (auto simp: batch_stored_def appended_def list_all2_Cons1)
  ultimately show "batch_stored [pm] (tables st) [sm] (if b then tables st' else tables st)" using sms by simp
qed

end
