(* ===== verification/Storage_Invariant.thy ===== *)
theory Storage_Invariant
  imports Storage_Repo
begin

text \<open>
  The well-formedness of the database and that every write keeps it, whichever statements
  fail: messages in arrival order under distinct ids, and the content, the full-text index,
  the attachments and the tag index each in step with them.
\<close>

definition indexes :: "fts_row \<Rightarrow> message_row \<Rightarrow> bool" where
  "indexes f m \<longleftrightarrow>
     fr_rowid f = mr_seq m \<and> fr_subject f = mr_subject m \<and> fr_sender f = mr_sender m \<and>
     fr_recipients f = mr_recipients m"

definition tag_pairs :: "sql_lib \<Rightarrow> message_row list \<Rightarrow> (bytes \<times> int) set" where
  "tag_pairs S ms = (\<Union>m \<in> set ms. (\<lambda>tag. (tag, mr_seq m)) ` set (json_each S (mr_tags m)))"

definition messages_wf :: "tables \<Rightarrow> bool" where
  "messages_wf t \<longleftrightarrow> sorted_wrt (<) (map mr_seq (messages t)) \<and> distinct (map mr_id (messages t))"

definition attachments_wf :: "tables \<Rightarrow> bool" where
  "attachments_wf t \<longleftrightarrow>
     (\<forall>a \<in> set (attachments t). sa_message_seq a \<in> set (map mr_seq (messages t)) \<and> attachment_check a) \<and>
     distinct (map sa_id (attachments t))"

definition tags_wf :: "sql_lib \<Rightarrow> tables \<Rightarrow> bool" where
  "tags_wf S t \<longleftrightarrow> set (message_tags t) = tag_pairs S (messages t) \<and> distinct (message_tags t)"

definition db_wf :: "sql_lib \<Rightarrow> tables \<Rightarrow> bool" where
  "db_wf S t \<longleftrightarrow>
     messages_wf t \<and> map cr_seq (message_content t) = map mr_seq (messages t) \<and>
     list_all2 indexes (messages_fts t) (messages t) \<and> attachments_wf t \<and> tags_wf S t"

lemmas wf_defs = db_wf_def messages_wf_def attachments_wf_def tags_wf_def

lemma empty_wf: "db_wf S no_tables"
  by (simp add: wf_defs no_tables_def tag_pairs_def)

subsection \<open>Inserting\<close>

lemma new_attachment_check: "attachment_check (new_attachment i seq pa)"
  by (cases "pa_storage pa"; cases "loc_encoding (case pa_storage pa of Located l \<Rightarrow> l)")
    (auto simp: attachment_check_def new_attachment_def split: attachment_storage.splits)

lemma row_of_fields: "row_of pm m \<Longrightarrow> mr_tags m = ''[]'' \<and> mr_sender m = pm_sender pm \<and>
    mr_recipients m = pm_recipients_json pm \<and> mr_subject m = pm_subject pm \<and> mr_size m = int (pm_size pm) \<and>
    \<not> mr_is_read m \<and> \<not> mr_is_starred m \<and> mr_has_attachments m = pm_has_attachments pm"
  unfolding row_of_def by (metis message_row.select_convs new_row_def)

lemma index_of_indexes: "list_all2 row_of pms rows \<Longrightarrow> list_all2 indexes (map2 index_of pms rows) rows"
  by (induction rule: list_all2_induct)
    (auto simp: index_of_def indexes_def fts_of_def dest: row_of_fields)

lemma content_of_seqs: "list_all2 row_of pms rows \<Longrightarrow> map cr_seq (map2 content_of pms rows) = map mr_seq rows"
  by (induction rule: list_all2_induct) (auto simp: content_of_def)

lemma attachments_of_seqs:
  "list_all2 attachment_of (concat (map2 attachments_of pms rows)) atts \<Longrightarrow> a \<in> set atts \<Longrightarrow>
     sa_message_seq a \<in> set (map mr_seq rows) \<and> attachment_check a"
proof -
  assume l: "list_all2 attachment_of (concat (map2 attachments_of pms rows)) atts" "a \<in> set atts"
  then obtain sp where sp: "sp \<in> set (concat (map2 attachments_of pms rows))" "attachment_of sp a"
    by (metis in_set_conv_nth list_all2_conv_all_nth)
  then obtain pm m where "(pm, m) \<in> set (zip pms rows)" "sp \<in> set (attachments_of pm m)" by auto
  then have "fst sp \<in> set (map mr_seq rows)" by (auto simp: attachments_of_def dest: set_zip_rightD)
  moreover have "sa_message_seq a = fst sp" "attachment_check a"
    using sp(2) new_attachment_check by (auto simp: attachment_of_def) (simp add: new_attachment_def split: attachment_storage.splits)
  ultimately show ?thesis by simp
qed

lemma batch_stored_wf [wf_lems]:
  assumes "batch_stored pms t sms t'" "db_wf S t" "json_each S ''[]'' = []"
  shows "db_wf S t'"
proof -
  obtain rows t1 where a: "appended pms rows t t1"
    and t': "t' = t1\<lparr>messages_fts := messages_fts t @ map2 index_of pms rows\<rparr>"
    using assms(1) by (auto simp: batch_stored_def)
  obtain atts where rows: "list_all2 row_of pms rows" "sorted_wrt (<) (map mr_seq rows)"
    "\<forall>r \<in> set rows. \<forall>m \<in> set (messages t). mr_seq m < mr_seq r" "distinct (map mr_id rows)"
    "set (map mr_id rows) \<inter> set (map mr_id (messages t)) = {}"
    and atts: "list_all2 attachment_of (concat (map2 attachments_of pms rows)) atts" "distinct (map sa_id atts)"
      "set (map sa_id atts) \<inter> set (map sa_id (attachments t)) = {}"
    and t1: "t1 = t\<lparr>messages := messages t @ rows, message_content := message_content t @ map2 content_of pms rows,
       attachments := attachments t @ atts\<rparr>"
    using a unfolding appended_def by blast
  have m: "messages_wf t'"
    using rows assms(2) t' t1 by (auto simp: wf_defs sorted_wrt_append)
  have at: "attachments_wf t'"
    using assms(2) t' t1 atts attachments_of_seqs [OF atts(1)] by (auto simp: wf_defs)
  have "mr_tags r = ''[]''" if "r \<in> set rows" for r
    using that rows(1) by (metis in_set_conv_nth list_all2_conv_all_nth row_of_fields)
  then have "tag_pairs S rows = {}" using assms(3) by (auto simp: tag_pairs_def)
  then have tg: "tags_wf S t'" using assms(2) t' t1 by (auto simp: wf_defs tag_pairs_def)
  show ?thesis using m at tg assms(2) t' t1 index_of_indexes [OF rows(1)] content_of_seqs [OF rows(1)]
    by (simp add: db_wf_def list_all2_appendI)
qed

subsection \<open>Deleting\<close>

lemma seq_unique:
  "messages_wf t \<Longrightarrow> m \<in> set (messages t) \<Longrightarrow> m' \<in> set (messages t) \<Longrightarrow> mr_seq m = mr_seq m' \<Longrightarrow> m = m'"
proof -
  assume "messages_wf t" "m \<in> set (messages t)" "m' \<in> set (messages t)" "mr_seq m = mr_seq m'"
  moreover from this have "distinct (map mr_seq (messages t))"
    by (auto simp: messages_wf_def strict_sorted_iff)
  ultimately show ?thesis by (metis distinct_map inj_onD)
qed

lemma deleted_seqs:
  "messages_wf t \<Longrightarrow> m \<in> set (messages t) \<Longrightarrow> mr_seq m \<in> mr_seq ` {x \<in> set (messages t). p x} \<longleftrightarrow> p m"
  using seq_unique by blast

lemma list_all2_filter_same:
  "list_all2 R xs ys \<Longrightarrow> (\<And>x y. R x y \<Longrightarrow> y \<in> set ys \<Longrightarrow> P x = Q y) \<Longrightarrow> list_all2 R (filter P xs) (filter Q ys)"
  by (induction rule: list_all2_induct) auto

lemma filter_map_seq: "map f (filter (\<lambda>x. P (f x)) xs) = filter P (map f xs)"
  by (simp add: filter_map comp_def)

text \<open>Deleting messages and their index rows together, the rest by cascade.\<close>

lemma delete_wf [wf_lems]:
  assumes "db_wf S t" and q: "\<And>m. m \<in> set (messages t) \<Longrightarrow> q (mr_seq m) = p m"
  shows "db_wf S (snd (delete_where p (delete_fts_where q t)))"
proof -
  have m: "messages_wf t" using assms(1) by (simp add: db_wf_def)
  note gone = deleted_seqs [OF m]
  let ?t = "snd (delete_where p (delete_fts_where q t))"
  have msgs: "messages_wf ?t"
    using m by (auto simp: delete_where_def delete_fts_where_def messages_wf_def Let_def sorted_wrt_map
        intro: sorted_wrt_filter distinct_map_filter)
  have seqs: "map mr_seq (filter (\<lambda>m. \<not> p m) (messages t)) =
    filter (\<lambda>s. s \<notin> mr_seq ` {x \<in> set (messages t). p x}) (map mr_seq (messages t))"
    unfolding filter_map comp_def using gone by (intro arg_cong [where f = "map mr_seq"] filter_cong) auto
  have content: "map cr_seq (message_content ?t) = map mr_seq (messages ?t)"
    using assms(1) seqs
      filter_map_seq [of cr_seq "\<lambda>s. s \<notin> mr_seq ` {x \<in> set (messages t). p x}" "message_content t"]
    by (simp add: delete_where_def delete_fts_where_def Let_def db_wf_def)
  have fts: "list_all2 indexes (messages_fts ?t) (messages ?t)"
    using assms by (auto simp: delete_where_def delete_fts_where_def Let_def db_wf_def indexes_def
        intro!: list_all2_filter_same)
  have kept: "s \<in> mr_seq ` {x \<in> set (messages t). \<not> p x}"
    if "s \<in> mr_seq ` set (messages t)" "s \<notin> mr_seq ` {x \<in> set (messages t). p x}" for s
    using that by auto
  have att: "attachments_wf ?t"
    using assms(1) kept
    by (auto simp: delete_where_def delete_fts_where_def Let_def wf_defs distinct_map_filter)
  have "tag_pairs S (filter (\<lambda>m. \<not> p m) (messages t)) =
      {x \<in> tag_pairs S (messages t). snd x \<notin> mr_seq ` {x \<in> set (messages t). p x}}"
    by (auto simp: tag_pairs_def dest: seq_unique [OF m])
  then have tags: "tags_wf S ?t"
    using assms(1) by (auto simp: delete_where_def delete_fts_where_def Let_def wf_defs)
  show ?thesis using msgs content fts att tags by (simp add: db_wf_def)
qed

text \<open>A deletion of the messages with \<open>p\<close>: those rows are returned, their index rows gone.\<close>

definition deleted :: "(message_row \<Rightarrow> bool) \<Rightarrow> tables \<Rightarrow> message_row list \<Rightarrow> tables \<Rightarrow> bool" where
  "deleted p t gone t' \<longleftrightarrow>
     gone = filter p (messages t) \<and>
     (\<exists>q. (messages_wf t \<longrightarrow> (\<forall>m \<in> set (messages t). q (mr_seq m) = p m)) \<and>
        t' = snd (delete_where p (delete_fts_where q t)))"

lemma deleted_wf [wf_lems]: "deleted p t gone t' \<Longrightarrow> db_wf S t \<Longrightarrow> db_wf S t'"
  using delete_wf by (auto simp: deleted_def db_wf_def [of S t])

lemma deleted_messages: "deleted p t gone t' \<Longrightarrow> messages t' = filter (\<lambda>m. \<not> p m) (messages t)"
  by (auto simp: deleted_def delete_where_def delete_fts_where_def Let_def)

lemma seqs_where_member:
  "messages_wf t \<Longrightarrow> m \<in> set (messages t) \<Longrightarrow> mr_seq m \<in> set (seqs_where p t) \<longleftrightarrow> p m"
  using seq_unique by (fastforce simp: seqs_where_def)

lemma delete_indexed_Inr:
  assumes "delete_indexed p st = (Inr gone, st')"
  shows "deleted p (tables st) gone (tables st')"
proof -
  obtain u st1 where e: "exec (\<lambda>t. ((), delete_fts_where (\<lambda>s. List.member (seqs_where p t) s) t)) st = (Inr u, st1)"
    "exec (delete_where p) st1 = (Inr gone, st')"
    using assms unfolding delete_indexed_def sthen_Inr by blast
  then have "tables st1 = delete_fts_where (\<lambda>s. List.member (seqs_where p (tables st)) s) (tables st)"
    "delete_where p (tables st1) = (gone, tables st')"
    by (auto dest!: exec_Inr)
  then show ?thesis
    unfolding deleted_def
    by (intro conjI exI [of _ "\<lambda>s. List.member (seqs_where p (tables st)) s"])
      (auto simp: delete_where_def delete_fts_where_def Let_def seqs_where_member)
qed

interpretation del: atomic_write "delete_message i"
  "\<lambda>t _ t'. \<exists>gone. gone \<noteq> [] \<and> deleted (\<lambda>m. mr_id m = i) t gone t'" for i
  unfolding delete_message_def
  by (rule transaction_atomic)
    (auto simp: call_Inr commit_def dest!: delete_indexed_Inr split: if_splits)

definition deleted_ids :: "(message_row \<Rightarrow> bool) \<Rightarrow> tables \<Rightarrow> bytes list \<Rightarrow> tables \<Rightarrow> bool" where
  "deleted_ids p t ids t' \<longleftrightarrow> (\<exists>gone. ids = map mr_id gone \<and> deleted p t gone t')"

lemma delete_none: "filter p (messages t) = [] \<Longrightarrow> deleted_ids p t [] t"
proof -
  assume "filter p (messages t) = []"
  then show ?thesis
    unfolding deleted_ids_def deleted_def
    by (intro exI [of _ "[]"] exI [of _ "\<lambda>_. False"] conjI)
      (auto simp: delete_where_def delete_fts_where_def Let_def filter_empty_conv filter_id_conv case_prod_unfold)
qed

interpretation older: atomic_write "delete_older_than_once cutoff"
  "deleted_ids (\<lambda>m. bytes_less (mr_created_at m) cutoff)" for cutoff
  unfolding delete_older_than_once_def
proof (rule guarded_atomic)
  show "atomic_write (delete_older_txn cutoff) (deleted_ids (\<lambda>m. bytes_less (mr_created_at m) cutoff))"
    unfolding delete_older_txn_def
    by (rule transaction_atomic) (auto simp: call_Inr commit_def deleted_ids_def dest!: delete_indexed_Inr)
  show "\<not> list_ex (\<lambda>m. bytes_less (mr_created_at m) cutoff) (messages t) \<Longrightarrow>
    deleted_ids (\<lambda>m. bytes_less (mr_created_at m) cutoff) t [] t" for t
    by (rule delete_none) (auto simp: list_ex_iff filter_empty_conv)
qed

text \<open>
  Trimming deletes everything up to the threshold, the sequence number with \<open>mx\<close> newer ones.
\<close>

definition trimmed :: "int \<Rightarrow> tables \<Rightarrow> bytes list \<Rightarrow> tables \<Rightarrow> bool" where
  "trimmed mx t ids t' \<longleftrightarrow>
     (case nth_newest mx t of
        None \<Rightarrow> ids = [] \<and> t' = t
      | Some s \<Rightarrow> deleted_ids (\<lambda>m. mr_seq m \<le> s) t ids t')"

lemma trim_body_Inr:
  assumes "sthen (exec (\<lambda>t. ((), delete_fts_where (\<lambda>r. r \<le> s) t)))
           (sbind (exec (delete_where (\<lambda>m. mr_seq m \<le> s))) (\<lambda>gone. commit (map mr_id gone))) st = (Inr (b, ids), st')"
  shows "b \<and> deleted_ids (\<lambda>m. mr_seq m \<le> s) (tables st) ids (tables st')"
proof -
  obtain u st1 gone where e: "exec (\<lambda>t. ((), delete_fts_where (\<lambda>r. r \<le> s) t)) st = (Inr u, st1)"
    "exec (delete_where (\<lambda>m. mr_seq m \<le> s)) st1 = (Inr gone, st')" "b" "ids = map mr_id gone"
    using assms unfolding call_Inr commit_def by blast
  then have "tables st1 = delete_fts_where (\<lambda>r. r \<le> s) (tables st)"
    "delete_where (\<lambda>m. mr_seq m \<le> s) (tables st1) = (gone, tables st')"
    by (auto dest!: exec_Inr)
  then have "deleted (\<lambda>m. mr_seq m \<le> s) (tables st) gone (tables st')"
    unfolding deleted_def
    by (intro conjI exI [of _ "\<lambda>r. r \<le> s"]) (auto simp: delete_where_def delete_fts_where_def Let_def)
  then show ?thesis using e by (auto simp: deleted_ids_def)
qed

lemma trim_txn_atomic: "atomic_write (trim_txn mx) (trimmed mx)"
  unfolding trim_txn_def
proof (rule transaction_atomic)
  fix st b ids st'
  assume "sbind (select (nth_newest mx)) (\<lambda>threshold. case threshold of None \<Rightarrow> sret (False, [])
       | Some s \<Rightarrow> sthen (exec (\<lambda>t. ((), delete_fts_where (\<lambda>r. r \<le> s) t)))
           (sbind (exec (delete_where (\<lambda>m. mr_seq m \<le> s))) (\<lambda>gone. commit (map mr_id gone)))) st = (Inr (b, ids), st')"
  then obtain x st1 where s: "select (nth_newest mx) st = (Inr x, st1)"
    and r: "(case x of None \<Rightarrow> sret (False, [])
       | Some s \<Rightarrow> sthen (exec (\<lambda>t. ((), delete_fts_where (\<lambda>r. r \<le> s) t)))
           (sbind (exec (delete_where (\<lambda>m. mr_seq m \<le> s))) (\<lambda>gone. commit (map mr_id gone)))) st1 = (Inr (b, ids), st')"
    unfolding sbind_Inr by blast
  show "trimmed mx (tables st) ids (if b then tables st' else tables st)"
  proof (cases x)
    case None
    then show ?thesis using r select_tables [OF s] by (auto simp: trimmed_def sret_def)
  next
    case (Some t)
    then have "nth_newest mx (tables st) = Some t" "tables st1 = tables st" using select_tables [OF s] by auto
    moreover have "b \<and> deleted_ids (\<lambda>m. mr_seq m \<le> t) (tables st1) ids (tables st')"
      using r Some by (intro trim_body_Inr) simp
    ultimately show ?thesis by (simp add: trimmed_def)
  qed
qed

lemma nth_newest_None: "nth_newest mx t = None \<longleftrightarrow> int (length (messages t)) \<le> max 0 mx"
  by (auto simp: nth_newest_def split: list.splits dest: arg_cong [where f = length])

interpretation trim: atomic_write "trim_to_max_once mx" "trimmed mx" for mx
  unfolding trim_to_max_once_def
proof (rule guarded_atomic [OF trim_txn_atomic])
  show "int (length (messages t)) \<le> mx \<Longrightarrow> trimmed mx t [] t" for t
    using nth_newest_None [of mx t] by (simp add: trimmed_def)
qed

interpretation purge: atomic_write delete_all_once "\<lambda>t n t'. t' = no_tables \<and> n = length (messages t)"
  unfolding delete_all_once_def
proof (rule transaction_atomic)
  fix st b n st'
  assume "sthen (exec (\<lambda>t. ((), t\<lparr>messages_fts := []\<rparr>)))
     (sthen (exec (\<lambda>t. ((), t\<lparr>message_content := []\<rparr>)))
     (sthen (exec (\<lambda>t. ((), t\<lparr>attachments := []\<rparr>)))
     (sthen (exec (\<lambda>t. ((), t\<lparr>message_tags := []\<rparr>)))
     (sbind (exec (delete_where (\<lambda>_. True))) (\<lambda>gone. commit (length gone)))))) st = (Inr (b, n), st')"
  then show "(if b then tables st' else tables st) = no_tables \<and> n = length (messages (tables st))"
    by (auto simp: call_Inr commit_def delete_where_def no_tables_def Let_def dest!: exec_result)
qed

subsection \<open>Updating\<close>

lemma exec_atomic: "atomic_write (exec f) (\<lambda>t a t'. f t = (a, t'))"
  by unfold_locales (auto simp: exec_def dest: stmt_Inr stmt_Inl)

lemma insert_tags_set: "set (insert_tags tags s rows) = set rows \<union> (\<lambda>tag. (tag, s)) ` set tags"
  by (induction tags s rows rule: insert_tags.induct) auto

lemma insert_tags_distinct: "distinct rows \<Longrightarrow> distinct (insert_tags tags s rows)"
  by (induction tags s rows rule: insert_tags.induct) auto

lemma filter_id:
  assumes "messages_wf t"
  shows "filter (\<lambda>m. mr_id m = i) (messages t) = [] \<or> (\<exists>m \<in> set (messages t). filter (\<lambda>m. mr_id m = i) (messages t) = [m])"
proof -
  have "distinct (map mr_id ms) \<Longrightarrow> filter (\<lambda>m. mr_id m = i) ms = [] \<or> (\<exists>m \<in> set ms. filter (\<lambda>m. mr_id m = i) ms = [m])" for ms
  proof (induction ms)
    case (Cons a ms)
    from Cons.prems have "mr_id a = i \<Longrightarrow> filter (\<lambda>m. mr_id m = i) ms = []"
      by (auto simp: filter_empty_conv) (metis imageI)
    then show ?case using Cons by auto
  qed simp
  then show ?thesis using assms by (auto simp: messages_wf_def)
qed

definition flag_update :: "(message_row \<Rightarrow> message_row) \<Rightarrow> bool" where
  "flag_update f \<longleftrightarrow>
     (\<forall>m. mr_seq (f m) = mr_seq m \<and> mr_id (f m) = mr_id m \<and> mr_sender (f m) = mr_sender m \<and>
        mr_recipients (f m) = mr_recipients m \<and> mr_subject (f m) = mr_subject m)"

lemma set_flags_update: "flag_update (set_flags r s tj)"
  by (simp add: flag_update_def set_flags_def)

lemma update_tags_wf:
  assumes "db_wf S t" "flag_update f"
  shows "tags_wf S (snd (update_where S (\<lambda>m. mr_id m = i) f t))"
proof -
  have wf: "messages_wf t" and tags: "set (message_tags t) = tag_pairs S (messages t)" "distinct (message_tags t)"
    using assms(1) by (auto simp: wf_defs)
  consider "filter (\<lambda>m. mr_id m = i) (messages t) = []"
    | m where "m \<in> set (messages t)" "filter (\<lambda>m. mr_id m = i) (messages t) = [m]"
    using filter_id [OF wf] by blast
  then show ?thesis
  proof cases
    case 1
    then have "map (\<lambda>m. if mr_id m = i then f m else m) (messages t) = messages t"
      by (auto simp: filter_empty_conv intro: map_idI)
    then show ?thesis using 1 tags by (simp add: update_where_def tags_wf_def)
  next
    case 2
    then have "{x \<in> set (messages t). mr_id x = i} = {m}" by (metis empty_set list.simps(15) set_filter)
    then have only: "x \<in> set (messages t) \<Longrightarrow> mr_id x = i \<longleftrightarrow> x = m" for x by blast
    let ?ms = "map (\<lambda>m. if mr_id m = i then f m else m) (messages t)"
    have seq: "x \<in> set (messages t) \<Longrightarrow> x \<noteq> m \<Longrightarrow> mr_seq x \<noteq> mr_seq m" for x
      using seq_unique [OF wf] 2(1) by blast
    define P where "P x = (\<lambda>tag. (tag, mr_seq x)) ` set (json_each S (mr_tags x))" for x :: message_row
    have rest: "(\<Union>x \<in> set (messages t) - {m}. P x) = {x \<in> tag_pairs S (messages t). snd x \<noteq> mr_seq m}"
    proof -
      have tp: "tag_pairs S (messages t) = (\<Union>x \<in> set (messages t). P x)" by (simp add: tag_pairs_def P_def)
      have "y \<in> P x \<Longrightarrow> snd y = mr_seq x" for x y by (auto simp: P_def)
      then have "y \<in> P x \<Longrightarrow> x \<in> set (messages t) \<Longrightarrow> snd y = mr_seq m \<longleftrightarrow> x = m" for x y
        using seq by metis
      then show ?thesis unfolding tp by blast
    qed
    have "set ?ms = insert (f m) (set (messages t) - {m})"
      using only 2(1) by (auto simp: image_iff)
    then have "tag_pairs S ?ms = P (f m) \<union> {x \<in> tag_pairs S (messages t). snd x \<noteq> mr_seq m}"
      using rest by (simp add: tag_pairs_def P_def)
    moreover have "tag_pairs S (messages t) = P m \<union> {x \<in> tag_pairs S (messages t). snd x \<noteq> mr_seq m}"
      unfolding rest [symmetric] using 2(1) by (auto simp: tag_pairs_def P_def)
    ultimately have "set (retag S m (f m) (message_tags t)) = tag_pairs S ?ms"
      using tags(1) assms(2) by (auto simp: retag_def insert_tags_set flag_update_def P_def)
    moreover have "distinct (retag S m (f m) (message_tags t))"
      using tags(2) by (simp add: retag_def insert_tags_distinct)
    ultimately show ?thesis using 2 by (simp add: update_where_def tags_wf_def)
  qed
qed

lemma tags_of_message:
  assumes "db_wf S t" "m \<in> set (messages t)"
  shows "{tag. (tag, mr_seq m) \<in> set (message_tags t)} = set (json_each S (mr_tags m))"
proof -
  have wf: "messages_wf t" and tags: "set (message_tags t) = tag_pairs S (messages t)"
    using assms(1) by (auto simp: db_wf_def tags_wf_def)
  have "(tag, mr_seq m) \<in> tag_pairs S (messages t) \<longleftrightarrow>
      (\<exists>x \<in> set (messages t). mr_seq x = mr_seq m \<and> tag \<in> set (json_each S (mr_tags x)))" for tag
    by (auto simp: tag_pairs_def image_iff)
  then show ?thesis unfolding tags using seq_unique [OF wf _ assms(2)] assms(2) by blast
qed

lemma list_all2_map_same:
  "list_all2 R xs ys \<Longrightarrow> (\<And>x y. R x y \<Longrightarrow> R x (g y)) \<Longrightarrow> list_all2 R xs (map g ys)"
  by (induction rule: list_all2_induct) auto

lemma update_wf [wf_lems]:
  assumes "db_wf S t" "flag_update f"
  shows "db_wf S (snd (update_where S (\<lambda>m. mr_id m = i) f t))"
proof -
  let ?g = "\<lambda>m. if mr_id m = i then f m else m"
  have "map mr_seq (map ?g ms) = map mr_seq ms" "map mr_id (map ?g ms) = map mr_id ms" for ms
    using assms(2) by (auto simp: flag_update_def)
  moreover have "list_all2 indexes (messages_fts t) (map ?g (messages t))"
    using assms by (intro list_all2_map_same) (auto simp: db_wf_def indexes_def flag_update_def)
  ultimately show ?thesis
    using assms(1) update_tags_wf [OF assms]
    by (simp add: db_wf_def messages_wf_def attachments_wf_def update_where_def del: map_map)
qed

lemma update_message_tables:
  assumes "update_message S M i r s tags st = (x, st')"
  shows "tables st' = tables st \<or>
    tables st' = snd (update_where S (\<lambda>m. mr_id m = i) (set_flags r s (map_option (to_json M) tags)) (tables st))"
proof -
  let ?op = "exec (update_where S (\<lambda>m. mr_id m = i) (set_flags r s (map_option (to_json M) tags)))"
  have at: "atomic_write (retry_on_lock ?op) (\<lambda>t a t'. update_where S (\<lambda>m. mr_id m = i)
      (set_flags r s (map_option (to_json M) tags)) t = (a, t'))"
    by (intro retried_atomic exec_atomic)
  obtain y st1 where y: "retry_on_lock ?op st = (y, st1)" by fastforce
  have "st' = st1"
    using assms y by (cases y) (auto simp: update_message_def sess_defs split: if_splits)
  then show ?thesis
    using atomic_write.fails_clean [OF at, of st _ st1] atomic_write.succeeds [OF at, of st _ st1] y
    by (cases y) auto
qed

subsection \<open>Any sequence of writes\<close>

datatype write_op =
    InsertBatch "prepared_message list"
  | InsertPrepared prepared_message
  | UpdateMessage bytes "bool option" "bool option" "bytes list option"
  | DeleteMessage bytes
  | DeleteAll
  | DeleteOlderThan bytes
  | TrimToMax int

fun run_write :: "sql_lib \<Rightarrow> mime_lib \<Rightarrow> store \<Rightarrow> write_op \<Rightarrow> store" where
  "run_write S M st (InsertBatch pms) = snd (insert_batch S pms st)"
| "run_write S M st (InsertPrepared pm) = snd (insert_prepared S pm st)"
| "run_write S M st (UpdateMessage i r s tags) = snd (update_message S M i r s tags st)"
| "run_write S M st (DeleteMessage i) = snd (delete_message i st)"
| "run_write S M st DeleteAll = snd (delete_all st)"
| "run_write S M st (DeleteOlderThan cutoff) = snd (delete_older_than cutoff st)"
| "run_write S M st (TrimToMax mx) = snd (trim_to_max mx st)"

lemma atomic_tables:
  assumes "atomic_write op Q" "\<And>a t'. Q (tables st) a t' \<Longrightarrow> P t'" "P (tables st)"
  shows "P (tables (snd (op st)))"
proof -
  obtain r st' where r: "op st = (r, st')" by fastforce
  show ?thesis
  proof (cases r)
    case (Inl e)
    then have "tables st' = tables st" using atomic_write.fails_clean [OF assms(1)] r by blast
    then show ?thesis using r assms(3) by simp
  next
    case (Inr a)
    then have "Q (tables st) a (tables st')" using atomic_write.succeeds [OF assms(1)] r by blast
    then show ?thesis using r assms(2) by simp
  qed
qed

lemma deleted_ids_wf [wf_lems]: "deleted_ids p t ids t' \<Longrightarrow> db_wf S t \<Longrightarrow> db_wf S t'"
  using deleted_wf by (auto simp: deleted_ids_def)

lemma trimmed_wf [wf_lems]: "trimmed mx t ids t' \<Longrightarrow> db_wf S t \<Longrightarrow> db_wf S t'"
  using deleted_ids_wf by (auto simp: trimmed_def split: option.splits)

lemmas retried = retried_atomic [OF batch.atomic_write_axioms] retried_atomic [OF one.atomic_write_axioms]
  retried_atomic [OF purge.atomic_write_axioms] retried_atomic [OF older.atomic_write_axioms]
  retried_atomic [OF trim.atomic_write_axioms]

lemma run_write_wf:
  assumes "db_wf S (tables st)" "json_each S ''[]'' = []"
  shows "db_wf S (tables (run_write S M st w))"
proof (cases w)
  case (InsertBatch pms)
  show ?thesis unfolding InsertBatch run_write.simps insert_batch_def
    by (rule atomic_tables [OF retried(1)]) (use assms in \<open>auto intro: wf_lems empty_wf\<close>)
next
  case (InsertPrepared pm)
  show ?thesis unfolding InsertPrepared run_write.simps insert_prepared_def
    by (rule atomic_tables [OF retried(2)]) (use assms in \<open>auto intro: wf_lems empty_wf\<close>)
next
  case (UpdateMessage i r s tags)
  obtain x st' where "update_message S M i r s tags st = (x, st')" by fastforce
  then show ?thesis using UpdateMessage assms update_message_tables update_wf set_flags_update
    by (metis run_write.simps(3) snd_conv)
next
  case (DeleteMessage i)
  show ?thesis unfolding DeleteMessage run_write.simps
    by (rule atomic_tables [OF del.atomic_write_axioms]) (use assms in \<open>auto intro: wf_lems empty_wf\<close>)
next
  case DeleteAll
  show ?thesis unfolding DeleteAll run_write.simps delete_all_def
    by (rule atomic_tables [OF retried(3)]) (use assms in \<open>auto intro: wf_lems empty_wf\<close>)
next
  case (DeleteOlderThan cutoff)
  show ?thesis unfolding DeleteOlderThan run_write.simps delete_older_than_def
    by (rule atomic_tables [OF retried(4)]) (use assms in \<open>auto intro: wf_lems empty_wf\<close>)
next
  case (TrimToMax mx)
  show ?thesis unfolding TrimToMax run_write.simps trim_to_max_def
    by (rule atomic_tables [OF retried(5)]) (use assms in \<open>auto intro: wf_lems empty_wf\<close>)
qed

interpretation writes: kept_invariant "run_write S M" "\<lambda>st. json_each S ''[]'' = [] \<longrightarrow> db_wf S (tables st)" for S M
  by unfold_locales (simp add: run_write_wf)

subsection \<open>Inserts succeed when nothing fails\<close>

text \<open>
  No statement fails, and the ids drawn from now on are new: then an insert returns.
\<close>

definition ready :: "store \<Rightarrow> bool" where
  "ready st \<longleftrightarrow>
     faults st = [] \<and> inj (ulid st) \<and>
     set (map mr_id (messages (tables st))) \<subseteq> ulid st ` {..<drawn st} \<and>
     set (map sa_id (attachments (tables st))) \<subseteq> ulid st ` {..<drawn st} \<and>
     set (map cr_seq (message_content (tables st))) \<subseteq> set (map mr_seq (messages (tables st)))"

lemma stmt_ready: "faults st = [] \<Longrightarrow> f (tables st) = Inr (a, t) \<Longrightarrow> stmt f st = (Inr a, st\<lparr>tables := t\<rparr>)"
  by (cases st) (simp add: stmt_def)

lemma ulid_new: "ready st \<Longrightarrow> ulid st (drawn st) \<notin> ulid st ` {..<drawn st}"
  by (auto simp: ready_def dest: injD)

lemma insert_attachment_ready:
  assumes "ready st"
  shows "\<exists>st'. insert_attachment_in seq pa st = (Inr (), st') \<and> ready st'"
proof -
  let ?a = "new_attachment (ulid st (drawn st)) seq pa"
  have a: "sa_id ?a = ulid st (drawn st)" "attachment_check ?a"
    by (simp_all add: new_attachment_check) (simp add: new_attachment_def split: attachment_storage.splits)
  then have "insert_attachment ?a (tables st) = Inr ((), (tables st)\<lparr>attachments := attachments (tables st) @ [?a]\<rparr>)"
    using assms ulid_new [OF assms] by (auto simp: insert_attachment_def ready_def)
  then show ?thesis using assms a
    by (auto simp: insert_attachment_in_def sbind_def draw_def stmt_ready ready_def lessThan_Suc)
qed

lemma insert_attachments_ready:
  "ready st \<Longrightarrow> \<exists>us st'. scall_each (insert_attachment_in seq) pas st = (Inr us, st') \<and> ready st'"
proof (induction pas arbitrary: st)
  case (Cons pa pas)
  obtain st1 where "insert_attachment_in seq pa st = (Inr (), st1)" "ready st1"
    using insert_attachment_ready [OF Cons.prems] by blast
  then show ?case using Cons.IH [of st1] by (fastforce simp: sbind_def sret_def)
qed (simp add: sret_def)

lemma insert_rows_ready:
  assumes "ready st"
  shows "\<exists>a st'. insert_rows_in S pm st = (Inr a, st') \<and> ready st'"
proof -
  let ?i = "ulid st (drawn st)" and ?seq = "next_seq (messages (tables st))"
  let ?m = "new_row ?i (clock st (Suc (drawn st))) pm ?seq"
  let ?t1 = "(tables st)\<lparr>messages := messages (tables st) @ [?m]\<rparr>"
  let ?c = "\<lparr>cr_seq = ?seq, cr_raw = pm_compressed_raw pm\<rparr>"
  let ?t2 = "?t1\<lparr>message_content := message_content (tables st) @ [?c]\<rparr>"
  let ?st0 = "st\<lparr>drawn := Suc (drawn st)\<rparr>"
  have f: "faults ?st0 = []" using assms by (simp add: ready_def)
  have "insert_message S (new_row ?i (clock st (Suc (drawn st))) pm) (tables st) = Inr (?seq, ?t1)"
    using assms ulid_new [OF assms] by (auto simp: insert_message_def Let_def new_row_def ready_def)
  then have m: "stmt (insert_message S (new_row ?i (clock st (Suc (drawn st))) pm)) ?st0 =
      (Inr ?seq, ?st0\<lparr>tables := ?t1\<rparr>)"
    using f by (intro stmt_ready) simp_all
  have "?seq \<notin> set (map cr_seq (message_content (tables st)))"
  proof
    assume "?seq \<in> set (map cr_seq (message_content (tables st)))"
    then obtain m where "m \<in> set (messages (tables st))" "mr_seq m = ?seq" using assms by (auto simp: ready_def)
    then show False using next_seq_greater [of m "messages (tables st)"] by simp
  qed
  then have c: "stmt (insert_content ?c) (?st0\<lparr>tables := ?t1\<rparr>) = (Inr (), ?st0\<lparr>tables := ?t2\<rparr>)"
    using f by (subst stmt_ready [where t = ?t2]) (simp_all add: insert_content_def)
  have "ready (?st0\<lparr>tables := ?t2\<rparr>)"
    using assms by (auto simp: ready_def lessThan_Suc new_row_def)
  then obtain us st' where "scall_each (insert_attachment_in ?seq) (pm_attachments pm) (?st0\<lparr>tables := ?t2\<rparr>) = (Inr us, st')"
    "ready st'" using insert_attachments_ready by blast
  then show ?thesis using m c
    by (auto simp: insert_rows_in_def sbind_def sthen_def draw_def now_def sret_def)
qed

lemma insert_rows_each_ready:
  "ready st \<Longrightarrow> \<exists>ins st'. scall_each (insert_rows_in S) pms st = (Inr ins, st') \<and> ready st'"
proof (induction pms arbitrary: st)
  case (Cons pm pms)
  obtain a st1 where "insert_rows_in S pm st = (Inr a, st1)" "ready st1"
    using insert_rows_ready [OF Cons.prems] by blast
  then show ?case using Cons.IH [of st1] by (fastforce simp: sbind_def sret_def)
qed (simp add: sret_def)

lemma index_each_ready:
  "faults st = [] \<Longrightarrow> \<exists>us st'. scall_each index_in rss st = (Inr us, st') \<and> faults st' = []"
proof (induction rss arbitrary: st)
  case (Cons rs rss)
  let ?st = "st\<lparr>tables := (tables st)\<lparr>messages_fts := messages_fts (tables st) @ map fts_of rs\<rparr>\<rparr>"
  have "index_in rs st = (Inr (), ?st)"
    using Cons.prems unfolding index_in_def by (intro stmt_ready) (simp_all add: insert_fts_def)
  then show ?case using Cons.IH [of ?st] Cons.prems by (fastforce simp: sbind_def sret_def)
qed (simp add: sret_def)

lemma insert_batch_ready:
  assumes "ready st"
  shows "\<exists>sms st'. insert_batch S pms st = (Inr sms, st')"
proof -
  have sel: "faults s = [] \<Longrightarrow> select (\<lambda>_. ()) s = (Inr (), s)" for s
    by (cases s) (simp add: select_def stmt_def)
  obtain ins st1 where i: "scall_each (insert_rows_in S) pms st = (Inr ins, st1)" "ready st1"
    using insert_rows_each_ready [OF assms] by blast
  have "faults st1 = []" using i(2) by (simp add: ready_def)
  then obtain us st2 where x: "scall_each index_in (chunks FTS_ROWS_PER_STATEMENT (zip (map fst ins) pms)) st1 = (Inr us, st2)"
    "faults st2 = []" using index_each_ready by blast
  have "insert_batch_once S pms st = (Inr (map snd ins), st2)"
    using assms i x sel [of st] sel [of st2]
    by (simp add: insert_batch_once_def transaction_def ready_def insert_all_in_def sbind_def sthen_def sret_def commit_def)
  then show ?thesis
    by (auto simp: insert_batch_def retry_on_lock_def WRITE_ATTEMPTS_def retry_loop.simps)
qed

subsection \<open>Retention on sorted tables\<close>

lemma filter_le_nth:
  "sorted_wrt (<) (map f xs) \<Longrightarrow> k < length xs \<Longrightarrow> filter (\<lambda>x. f x \<le> (f (xs ! k) :: int)) xs = take (Suc k) xs"
proof (induction xs arbitrary: k)
  case (Cons x xs)
  show ?case
  proof (cases k)
    case 0
    have "\<forall>y \<in> set xs. f x < f y" using Cons.prems by simp
    then show ?thesis using 0 by (auto simp: filter_empty_conv)
  next
    case (Suc j)
    then have "f x \<le> f (xs ! j)" using Cons.prems by (simp add: less_imp_le)
    then show ?thesis using Suc Cons.IH [of j] Cons.prems by (simp del: not_le)
  qed
qed simp

lemma filter_not_le_nth:
  "sorted_wrt (<) (map f xs) \<Longrightarrow> k < length xs \<Longrightarrow> filter (\<lambda>x. \<not> f x \<le> (f (xs ! k) :: int)) xs = drop (Suc k) xs"
proof (induction xs arbitrary: k)
  case (Cons x xs)
  show ?case
  proof (cases k)
    case 0
    have "\<forall>y \<in> set xs. f x < f y" using Cons.prems by simp
    then show ?thesis using 0 by (auto simp: filter_id_conv)
  next
    case (Suc j)
    then have "f x \<le> f (xs ! j)" using Cons.prems by (simp add: less_imp_le)
    then show ?thesis using Suc Cons.IH [of j] Cons.prems by (simp del: not_le)
  qed
qed simp

lemma nth_newest_Some:
  assumes "messages_wf t" "0 \<le> mx" "mx < int (length (messages t))"
  shows "nth_newest mx t = Some (mr_seq (messages t ! (length (messages t) - Suc (nat mx))))"
proof -
  let ?s = "map mr_seq (messages t)"
  have n: "nat mx < length ?s" using assms by (simp add: nat_less_iff)
  have "sort ?s = ?s" using assms(1) by (simp add: messages_wf_def strict_sorted_iff sorted_sort_id)
  moreover have "drop (nat mx) (rev ?s) = rev ?s ! nat mx # drop (Suc (nat mx)) (rev ?s)"
    using n by (simp add: Cons_nth_drop_Suc)
  ultimately show ?thesis using n by (simp add: nth_newest_def rev_nth)
qed

lemma trimmed_exact:
  assumes "trimmed mx t ids t'" "messages_wf t" "0 \<le> mx"
  shows "messages t' = drop (length (messages t) - nat mx) (messages t) \<and>
    ids = map mr_id (take (length (messages t) - nat mx) (messages t))"
proof (cases "int (length (messages t)) \<le> mx")
  case True
  then have "nth_newest mx t = None" using nth_newest_None [of mx t] assms(3) by simp
  then show ?thesis using assms(1) True by (auto simp: trimmed_def)
next
  case False
  define k where "k = length (messages t) - Suc (nat mx)"
  have k: "k < length (messages t)" "Suc k = length (messages t) - nat mx" using False assms(3) by (auto simp: k_def)
  have "deleted_ids (\<lambda>m. mr_seq m \<le> mr_seq (messages t ! k)) t ids t'"
    using assms False nth_newest_Some [of t mx] by (simp add: trimmed_def k_def)
  moreover have s: "sorted_wrt (<) (map mr_seq (messages t))" using assms(2) by (simp add: messages_wf_def)
  ultimately show ?thesis
    using filter_le_nth [OF s k(1)] filter_not_le_nth [OF s k(1)] k(2)
    by (auto simp: deleted_ids_def deleted_messages) (auto simp: deleted_def)
qed

subsection \<open>Properties\<close>

text \<open>
  C5. Whatever sequence of inserts, updates, deletions and retention sweeps runs on a fresh
  database, and whichever statements fail in it, the database stays well-formed: sequence
  numbers increase with arrival and ids are distinct, and content, full-text index,
  attachments and tag index hold exactly the rows the messages call for.
\<close>

theorem database_stays_well_formed:
  assumes "json_each S ''[]'' = []" and "tables st = no_tables"
  shows "db_wf S (tables (foldl (run_write S M) st ws))"
  using writes.run_keeps [of S st M ws] assms empty_wf by simp

text \<open>A library and a store for the witnesses: ids count up in unary.\<close>

definition plain_sql :: sql_lib where
  "plain_sql = \<lparr>json_each = (\<lambda>j. []), fts_match = (\<lambda>q f. True), sql_lower = to_ascii_lowercase,
     sql_like = (\<lambda>p s. True)\<rparr>"

definition plain_store :: store where
  "plain_store = \<lparr>tables = no_tables, faults = [], late = [], ulid = (\<lambda>n. replicate n CHR ''i''),
     clock = (\<lambda>n. replicate n CHR ''t''), drawn = 0\<rparr>"

definition plain_prepared :: "bytes \<Rightarrow> prepared_message" where
  "plain_prepared raw =
     \<lparr>pm_sender = ''a'', pm_recipients_json = ''[b]'', pm_subject = None, pm_text_body = None,
      pm_size = length raw, pm_compressed_raw = raw, pm_has_attachments = False, pm_attachments = []\<rparr>"

lemma plain_store_ready: "ready plain_store"
  by (auto simp: ready_def plain_store_def no_tables_def inj_def)

theorem database_stays_well_formed_witness:
  "db_wf plain_sql (tables (foldl (run_write plain_sql plain_mime) plain_store
     [InsertBatch [plain_prepared ''x'', plain_prepared ''y''], DeleteMessage []]))"
  by (rule database_stays_well_formed) (simp_all add: plain_sql_def plain_store_def)

text \<open>
  C20. \<open>insert_batch\<close> is all or nothing: an error leaves every table as it was, and success
  appends one row per message, in input order after all earlier ones, with its source, its
  attachments and its index row, and returns their summaries in that order.
\<close>

theorem insert_batch_all_or_nothing:
  assumes "insert_batch S pms st = (r, st')"
  shows "case r of
      Inl e \<Rightarrow> tables st' = tables st
    | Inr sms \<Rightarrow> \<exists>rows atts.
        list_all2 row_of pms rows \<and> sms = map summary_of rows \<and>
        messages (tables st') = messages (tables st) @ rows \<and>
        message_content (tables st') = message_content (tables st) @ map2 content_of pms rows \<and>
        messages_fts (tables st') = messages_fts (tables st) @ map2 index_of pms rows \<and>
        attachments (tables st') = attachments (tables st) @ atts \<and>
        list_all2 attachment_of (concat (map2 attachments_of pms rows)) atts \<and>
        message_tags (tables st') = message_tags (tables st)"
proof (cases r)
  case (Inl e)
  then show ?thesis using assms batch.retry_fails_clean by (auto simp: insert_batch_def)
next
  case (Inr sms)
  then have "batch_stored pms (tables st) sms (tables st')"
    using assms batch.retry_succeeds by (auto simp: insert_batch_def)
  then show ?thesis using Inr by (fastforce simp: batch_stored_def appended_def)
qed

theorem insert_batch_all_or_nothing_witness:
  "case fst (insert_batch plain_sql [plain_prepared ''x''] plain_store) of
     Inl e \<Rightarrow> False | Inr sms \<Rightarrow> map ms_sender sms = [''a'']"
proof -
  obtain sms st' where b: "insert_batch plain_sql [plain_prepared ''x''] plain_store = (Inr sms, st')"
    using insert_batch_ready [OF plain_store_ready] by blast
  have "\<exists>rows. list_all2 row_of [plain_prepared ''x''] rows \<and> sms = map summary_of rows"
    using insert_batch_all_or_nothing [OF b] by auto
  then show ?thesis using b
    by (auto simp: list_all2_Cons1 summary_of_def plain_prepared_def dest!: row_of_fields)
qed

text \<open>
  With no failing statement and ids that were not used before, \<open>insert_batch\<close> returns the
  summaries of the batch, one for each message.
\<close>

theorem insert_batch_returns:
  assumes "ready st"
  shows "\<exists>sms st'. insert_batch S pms st = (Inr sms, st') \<and> length sms = length pms"
proof -
  obtain sms st' where b: "insert_batch S pms st = (Inr sms, st')" using insert_batch_ready [OF assms] by blast
  then have "batch_stored pms (tables st) sms (tables st')"
    using batch.retry_succeeds by (auto simp: insert_batch_def)
  then have "length sms = length pms" by (auto simp: batch_stored_def dest: appended_length)
  then show ?thesis using b by blast
qed

theorem insert_batch_returns_witness:
  "\<exists>sms st'. insert_batch plain_sql [plain_prepared ''x'', plain_prepared ''y''] plain_store = (Inr sms, st') \<and>
     length sms = 2"
  using insert_batch_returns [OF plain_store_ready, of plain_sql "[plain_prepared ''x'', plain_prepared ''y'']"]
  by (simp add: numeral_2_eq_2)

text \<open>
  \<open>trim_to_max\<close> keeps exactly the newest messages, as many as the maximum, and returns the
  ids of exactly the others; a failure deletes nothing.
\<close>

theorem trim_keeps_the_newest:
  assumes "db_wf S (tables st)" and "0 \<le> mx" and "trim_to_max mx st = (r, st')"
  shows "case r of
      Inl e \<Rightarrow> tables st' = tables st
    | Inr ids \<Rightarrow>
        messages (tables st') = drop (length (messages (tables st)) - nat mx) (messages (tables st)) \<and>
        ids = map mr_id (take (length (messages (tables st)) - nat mx) (messages (tables st))) \<and>
        length (messages (tables st')) = min (nat mx) (length (messages (tables st)))"
proof (cases r)
  case (Inl e)
  then show ?thesis using assms(3) trim.retry_fails_clean by (auto simp: trim_to_max_def)
next
  case (Inr ids)
  then have "trimmed mx (tables st) ids (tables st')"
    using assms(3) trim.retry_succeeds by (auto simp: trim_to_max_def)
  then show ?thesis using Inr assms trimmed_exact by (auto simp: db_wf_def)
qed

text \<open>
  \<open>delete_older_than\<close> removes exactly the messages stamped before the cutoff and returns
  their ids; a failure deletes nothing.
\<close>

theorem delete_older_than_exact:
  assumes "delete_older_than cutoff st = (r, st')"
  shows "case r of
      Inl e \<Rightarrow> tables st' = tables st
    | Inr ids \<Rightarrow>
        messages (tables st') = filter (\<lambda>m. \<not> bytes_less (mr_created_at m) cutoff) (messages (tables st)) \<and>
        ids = map mr_id (filter (\<lambda>m. bytes_less (mr_created_at m) cutoff) (messages (tables st)))"
proof (cases r)
  case (Inl e)
  then show ?thesis using assms older.retry_fails_clean by (auto simp: delete_older_than_def)
next
  case (Inr ids)
  then have "deleted_ids (\<lambda>m. bytes_less (mr_created_at m) cutoff) (tables st) ids (tables st')"
    using assms older.retry_succeeds by (auto simp: delete_older_than_def)
  then obtain gone where g: "ids = map mr_id gone" "deleted (\<lambda>m. bytes_less (mr_created_at m) cutoff) (tables st) gone (tables st')"
    by (auto simp: deleted_ids_def)
  show ?thesis using Inr g(1) deleted_messages [OF g(2)] g(2) [unfolded deleted_def] by simp
qed

text \<open>One stored message, for the witnesses.\<close>

definition one_row :: message_row where
  "one_row = new_row ''i'' ''t'' (plain_prepared ''x'') 1"

definition one_message :: tables where
  "one_message = no_tables\<lparr>messages := [one_row], message_content := [content_of (plain_prepared ''x'') one_row],
     messages_fts := [index_of (plain_prepared ''x'') one_row]\<rparr>"

definition one_store :: store where
  "one_store = plain_store\<lparr>tables := one_message\<rparr>"

lemma one_message_wf: "db_wf plain_sql (tables one_store)"
  by (simp add: one_store_def one_message_def one_row_def wf_defs no_tables_def tag_pairs_def plain_sql_def
      content_of_def index_of_def fts_of_def indexes_def new_row_def plain_prepared_def)

theorem trim_keeps_the_newest_witness:
  "fst (trim_to_max 0 one_store) = Inr [''i''] \<and> messages (tables (snd (trim_to_max 0 one_store))) = []"
proof -
  have r: "fst (trim_to_max 0 one_store) = Inr [''i'']" by code_simp
  show ?thesis
    using trim_keeps_the_newest [OF one_message_wf _ prod.collapse [symmetric], of 0] r
    by (simp add: one_store_def one_message_def)
qed

theorem delete_older_than_exact_witness:
  "fst (delete_older_than ''u'' one_store) = Inr [''i''] \<and> messages (tables (snd (delete_older_than ''u'' one_store))) = []"
proof -
  have r: "fst (delete_older_than ''u'' one_store) = Inr [''i'']" by code_simp
  show ?thesis
    using delete_older_than_exact [OF prod.collapse [symmetric], of "''u''" one_store] r
    by (simp add: one_store_def one_message_def one_row_def new_row_def)
qed

text \<open>
  \<open>update_message\<close>, when it succeeds, changes the named message in exactly the fields
  given, and no other message and no other table but the tag index, which afterwards lists
  exactly the new tags under it. An error changes nothing, and when no statement fails the
  error is \<open>NotFound\<close> and says that no message has the id.
\<close>

theorem update_message_exact:
  assumes "db_wf S (tables st)" and "json_each S (to_json M ts) = ts"
    and "update_message S M i r s (Some ts) st = (res, st')"
  shows "case res of
      Inl e \<Rightarrow> tables st' = tables st \<and>
        (faults st = [] \<longrightarrow> e = NotFound i \<and> i \<notin> set (map mr_id (messages (tables st))))
    | Inr _ \<Rightarrow> \<exists>m \<in> set (messages (tables st)). mr_id m = i \<and>
        messages (tables st') = map (\<lambda>m. if mr_id m = i then set_flags r s (Some (to_json M ts)) m else m)
          (messages (tables st)) \<and>
        message_content (tables st') = message_content (tables st) \<and>
        messages_fts (tables st') = messages_fts (tables st) \<and> attachments (tables st') = attachments (tables st) \<and>
        {tag. (tag, mr_seq m) \<in> set (message_tags (tables st'))} = set ts"
proof -
  let ?f = "set_flags r s (Some (to_json M ts))"
  let ?u = "update_where S (\<lambda>m. mr_id m = i) ?f"
  have at: "atomic_write (retry_on_lock (exec ?u)) (\<lambda>t a t'. ?u t = (a, t'))"
    by (intro retried_atomic exec_atomic)
  obtain y st1 where y: "retry_on_lock (exec ?u) st = (y, st1)" by fastforce
  have same: "st' = st1" using assms(3) y by (cases y) (auto simp: update_message_def sess_defs split: if_splits)
  have clean: "faults st = [] \<Longrightarrow> y = Inr (fst (?u (tables st)))"
    using y by (auto simp: retry_on_lock_def WRITE_ATTEMPTS_def retry_loop.simps exec_def stmt_def split: prod.splits)
  show ?thesis
  proof (cases y)
    case (Inl e)
    then have "res = Inl e" using assms(3) y by (simp add: update_message_def sess_defs)
    then show ?thesis using atomic_write.fails_clean [OF at, of st e st1] y Inl same clean by auto
  next
    case (Inr n)
    have "?u (tables st) = (n, tables st')" using atomic_write.succeeds [OF at, of st n st1] y Inr same by simp
    then have u: "tables st' = snd (?u (tables st))" "n = fst (?u (tables st))" by simp_all
    show ?thesis
    proof (cases "n = 0")
      case True
      then have none: "filter (\<lambda>m. mr_id m = i) (messages (tables st)) = []" using u by (auto simp: update_where_def)
      then have "map (\<lambda>m. if mr_id m = i then ?f m else m) (messages (tables st)) = messages (tables st)"
        by (auto simp: filter_empty_conv intro: map_idI)
      then have "tables st' = tables st" using u none by (auto simp: update_where_def)
      moreover have "res = Inl (NotFound i)" using assms(3) y Inr True by (simp add: update_message_def sess_defs)
      ultimately show ?thesis using none by (auto simp: filter_empty_conv)
    next
      case False
      have wf: "db_wf S (tables st')" using update_wf [OF assms(1) set_flags_update, of i r s "Some (to_json M ts)"] u by simp
      obtain m where m: "m \<in> set (messages (tables st))" "mr_id m = i"
        using False u(2) by (auto simp: update_where_def filter_empty_conv)
      then have m': "?f m \<in> set (messages (tables st'))" "mr_seq (?f m) = mr_seq m" "mr_tags (?f m) = to_json M ts"
        unfolding u(1) by (auto simp: update_where_def set_flags_def coalesce_def)
      have "{tag. (tag, mr_seq m) \<in> set (message_tags (tables st'))} = set ts"
        using tags_of_message [OF wf m'(1)] m'(2,3) assms(2) by simp
      then show ?thesis using assms(3) y Inr False m u
        by (auto simp: update_message_def sess_defs update_where_def)
    qed
  qed
qed

definition tagging_sql :: sql_lib where
  "tagging_sql = plain_sql\<lparr>json_each := (\<lambda>j. if j = ''[a]'' then [''a''] else [])\<rparr>"

lemma one_message_tagging_wf: "db_wf tagging_sql (tables one_store)"
  by (simp add: one_store_def one_message_def one_row_def wf_defs no_tables_def tag_pairs_def tagging_sql_def
      content_of_def index_of_def fts_of_def indexes_def new_row_def plain_prepared_def)

theorem update_message_exact_witness:
  "\<exists>m \<in> set (messages (tables one_store)). mr_id m = ''i'' \<and>
     {tag. (tag, mr_seq m) \<in> set (message_tags (tables (snd
        (update_message tagging_sql plain_mime ''i'' (Some True) None (Some [''a'']) one_store))))} = {''a''}"
proof -
  have r: "fst (update_message tagging_sql plain_mime ''i'' (Some True) None (Some [''a'']) one_store) = Inr ()"
    by code_simp
  have j: "json_each tagging_sql (to_json plain_mime [''a'']) = [''a'']"
    by (simp add: tagging_sql_def plain_mime_def)
  show ?thesis
    using update_message_exact [OF one_message_tagging_wf j prod.collapse [symmetric], of "''i''" "Some True" None] r
    by auto
qed

end
