(* ===== verification/Storage_Query.thy ===== *)
theory Storage_Query
  imports Storage_Invariant
begin

text \<open>
  The read side of the repository (\<open>query.rs\<close> and the queries of \<open>repo.rs\<close>): filters,
  pages, cursors, search and counts, a message and its source, its attachments. Statements
  built from the same pieces are composed from the same functions here.
\<close>

subsection \<open>Filters and pages\<close>

record message_filter =
  f_starred :: bool
  f_unread :: bool
  f_has_attachments :: bool
  f_tags :: "bytes list"

definition default_filter :: message_filter where
  "default_filter = \<lparr>f_starred = False, f_unread = False, f_has_attachments = False, f_tags = []\<rparr>"

definition filter_is_empty :: "message_filter \<Rightarrow> bool" where
  "filter_is_empty f \<longleftrightarrow> f = default_filter"

datatype page_start = Offset int | Before int

text \<open>The conditions \<open>push_filter\<close> appends, on one row.\<close>

definition passes :: "message_filter \<Rightarrow> tables \<Rightarrow> message_row \<Rightarrow> bool" where
  "passes f t m \<longleftrightarrow>
     (f_starred f \<longrightarrow> mr_is_starred m) \<and> (f_unread f \<longrightarrow> \<not> mr_is_read m) \<and>
     (f_has_attachments f \<longrightarrow> mr_has_attachments m) \<and>
     (f_tags f \<noteq> [] \<longrightarrow>
        List.member (map snd (filter (\<lambda>(tag, s). List.member (f_tags f) tag) (message_tags t))) (mr_seq m))"

text \<open>\<open>LIMIT\<close> and \<open>OFFSET\<close>: a negative limit is none, a negative offset is zero.\<close>

definition window :: "int \<Rightarrow> int \<Rightarrow> 'a list \<Rightarrow> 'a list" where
  "window limit offset xs =
     (let rest = drop (nat offset) xs in if limit < 0 then rest else take (nat limit) rest)"

text \<open>What \<open>push_page\<close> appends: the cursor bound, newest first, the page window.\<close>

definition page :: "('a \<Rightarrow> int) \<Rightarrow> page_start \<Rightarrow> int \<Rightarrow> 'a list \<Rightarrow> 'a list" where
  "page rowid start limit xs =
     (case start of
        Before bound \<Rightarrow> window limit 0 (rev (sort_key rowid (filter (\<lambda>x. rowid x < bound) xs)))
      | Offset offset \<Rightarrow> window limit offset (rev (sort_key rowid xs)))"

subsection \<open>Listing and searching\<close>

definition list_statement :: "message_filter \<Rightarrow> page_start \<Rightarrow> int \<Rightarrow> tables \<Rightarrow> message_summary list" where
  "list_statement f start limit t =
     map summary_of (page mr_seq start limit (filter (passes f t) (messages t)))"

definition list_page :: "message_filter \<Rightarrow> page_start \<Rightarrow> int \<Rightarrow> message_summary list sql" where
  "list_page f start limit = select (list_statement f start limit)"

definition list_messages_repo :: "int \<Rightarrow> int \<Rightarrow> message_summary list sql" where
  "list_messages_repo limit offset = list_page default_filter (Offset offset) limit"

text \<open>\<open>char::is_alphanumeric\<close>: beyond ASCII it is the Unicode tables' (a parameter).\<close>

definition is_alphanumeric :: "(bytes \<Rightarrow> bool) \<Rightarrow> bytes \<Rightarrow> bool" where
  "is_alphanumeric uni c = (case c of [b] \<Rightarrow> is_ascii_alphanumeric b | _ \<Rightarrow> uni c)"

definition sanitize_fts_query :: "(bytes \<Rightarrow> bool) \<Rightarrow> bytes \<Rightarrow> bytes option" where
  "sanitize_fts_query uni query =
     (let sanitized = concat (filter (\<lambda>c. is_alphanumeric uni c \<or>
            List.member ['' '', ''@'', ''.'', ''-'', ''+'', ''_''] c) (chars query))
      in if trim sanitized = [] then None else Some ([CHR 0x22] @ sanitized @ [CHR 0x22]))"

text \<open>The index joined to \<open>messages\<close> by rowid.\<close>

definition fts_join :: "sql_lib \<Rightarrow> bytes \<Rightarrow> tables \<Rightarrow> message_row list" where
  "fts_join S quoted t =
     concat (map (\<lambda>f. filter (\<lambda>m. mr_seq m = fr_rowid f) (messages t)) (filter (fts_match S quoted) (messages_fts t)))"

definition search_statement ::
  "sql_lib \<Rightarrow> bytes \<Rightarrow> message_filter \<Rightarrow> page_start \<Rightarrow> int \<Rightarrow> tables \<Rightarrow> message_summary list" where
  "search_statement S quoted f start limit t =
     map summary_of (page mr_seq start limit (filter (passes f t) (fts_join S quoted t)))"

definition search_page ::
  "sql_lib \<Rightarrow> (bytes \<Rightarrow> bool) \<Rightarrow> bytes \<Rightarrow> message_filter \<Rightarrow> page_start \<Rightarrow> int \<Rightarrow> message_summary list sql" where
  "search_page S uni query f start limit =
     (case sanitize_fts_query uni query of
        None \<Rightarrow> sret []
      | Some quoted \<Rightarrow> select (search_statement S quoted f start limit))"

definition search_repo :: "sql_lib \<Rightarrow> (bytes \<Rightarrow> bool) \<Rightarrow> bytes \<Rightarrow> int \<Rightarrow> int \<Rightarrow> message_summary list sql" where
  "search_repo S uni query limit offset = search_page S uni query default_filter (Offset offset) limit"

definition find_message :: "bytes \<Rightarrow> tables \<Rightarrow> message_row option" where
  "find_message i t = find (\<lambda>m. mr_id m = i) (messages t)"

definition cursor :: "bytes \<Rightarrow> int sql" where
  "cursor i = sbind (select (find_message i)) (\<lambda>row.
     case row of None \<Rightarrow> sfail (NotFound i) | Some m \<Rightarrow> sret (mr_seq m))"

subsection \<open>Counting\<close>

definition search_count :: "sql_lib \<Rightarrow> (bytes \<Rightarrow> bool) \<Rightarrow> bytes \<Rightarrow> int sql" where
  "search_count S uni query =
     (case sanitize_fts_query uni query of
        None \<Rightarrow> sret 0
      | Some quoted \<Rightarrow> select (\<lambda>t. int (length (filter (fts_match S quoted) (messages_fts t)))))"

definition search_count_statement :: "sql_lib \<Rightarrow> bytes \<Rightarrow> message_filter \<Rightarrow> tables \<Rightarrow> int" where
  "search_count_statement S quoted f t = int (length (filter (passes f t) (fts_join S quoted t)))"

definition search_count_filtered :: "sql_lib \<Rightarrow> (bytes \<Rightarrow> bool) \<Rightarrow> bytes \<Rightarrow> message_filter \<Rightarrow> int sql" where
  "search_count_filtered S uni query f =
     (if filter_is_empty f then search_count S uni query
      else case sanitize_fts_query uni query of
        None \<Rightarrow> sret 0
      | Some quoted \<Rightarrow> select (search_count_statement S quoted f))"

definition count :: "int sql" where
  "count = select (\<lambda>t. int (length (messages t)))"

definition count_statement :: "message_filter \<Rightarrow> tables \<Rightarrow> int" where
  "count_statement f t = int (length (filter (passes f t) (messages t)))"

definition count_filtered :: "message_filter \<Rightarrow> int sql" where
  "count_filtered f = (if filter_is_empty f then count else select (count_statement f))"

definition replace_char :: "char \<Rightarrow> bytes \<Rightarrow> bytes \<Rightarrow> bytes" where
  "replace_char c r s = concat (map (\<lambda>x. if x = c then r else [x]) s)"

definition escape_like :: "bytes \<Rightarrow> bytes" where
  "escape_like s =
     replace_char CHR ''_'' [CHR 0x5C, CHR ''_'']
       (replace_char CHR ''%'' [CHR 0x5C, CHR ''%''] (replace_char CHR 0x5C [CHR 0x5C, CHR 0x5C] s))"

text \<open>\<open>LOWER(column) LIKE '%needle%' ESCAPE '\'\<close>; a null column is not like anything.\<close>

definition column_like :: "sql_lib \<Rightarrow> (bytes \<Rightarrow> bytes) \<Rightarrow> bytes \<Rightarrow> bytes option \<Rightarrow> bool" where
  "column_like S to_lowercase needle column =
     (case column of
        None \<Rightarrow> False
      | Some text \<Rightarrow> sql_like S (''%'' @ escape_like (to_lowercase needle) @ ''%'') (sql_lower S text))"

definition matches :: "sql_lib \<Rightarrow> (bytes \<Rightarrow> bytes) \<Rightarrow> bytes option \<Rightarrow> bytes option \<Rightarrow> bytes option \<Rightarrow> message_row \<Rightarrow> bool" where
  "matches S to_lowercase subject sender recipient m \<longleftrightarrow>
     list_all (\<lambda>(column, needle). case needle of None \<Rightarrow> True | Some n \<Rightarrow> column_like S to_lowercase n column)
       [(mr_subject m, subject), (Some (mr_sender m), sender), (Some (mr_recipients m), recipient)]"

definition count_matching ::
  "sql_lib \<Rightarrow> (bytes \<Rightarrow> bytes) \<Rightarrow> bytes option \<Rightarrow> bytes option \<Rightarrow> bytes option \<Rightarrow> int sql" where
  "count_matching S to_lowercase subject sender recipient =
     select (\<lambda>t. int (length (filter (matches S to_lowercase subject sender recipient) (messages t))))"

subsection \<open>One message\<close>

definition content_row_of :: "int \<Rightarrow> tables \<Rightarrow> content_row option" where
  "content_row_of seq t = find (\<lambda>c. cr_seq c = seq) (message_content t)"

text \<open>\<open>messages\<close> joined to \<open>message_content\<close>, by id.\<close>

definition content_join :: "bytes \<Rightarrow> tables \<Rightarrow> (message_row \<times> bytes) option" where
  "content_join i t =
     (case find_message i t of
        None \<Rightarrow> None
      | Some m \<Rightarrow> map_option (\<lambda>c. (m, cr_raw c)) (content_row_of (mr_seq m) t))"

definition fetch :: "bytes \<Rightarrow> (message_row \<times> bytes) sql" where
  "fetch i = sbind (select (content_join i)) (\<lambda>row.
     case row of None \<Rightarrow> sfail (NotFound i) | Some r \<Rightarrow> sret r)"

definition of_result :: "(storage_error, 'a) result \<Rightarrow> 'a sql" where
  "of_result r = (case r of Inl e \<Rightarrow> sfail e | Inr a \<Rightarrow> sret a)"

record full_message =
  fm_summary :: message_summary
  fm_text_body :: "bytes option"
  fm_html_body :: "bytes option"

definition into_message :: "zstd \<Rightarrow> mime_lib \<Rightarrow> message_row \<Rightarrow> bytes \<Rightarrow> (storage_error, full_message) result" where
  "into_message Z M m frame =
     map_sum id (\<lambda>raw. let b = bodies_parse M raw in
        \<lparr>fm_summary = summary_of m, fm_text_body = bodies_text b, fm_html_body = bodies_html b\<rparr>)
       (decompress Z frame (mr_size m) (mr_id m))"

definition get_message :: "zstd \<Rightarrow> mime_lib \<Rightarrow> bytes \<Rightarrow> full_message sql" where
  "get_message Z M i = sbind (fetch i) (\<lambda>(m, frame). of_result (into_message Z M m frame))"

definition get_raw :: "zstd \<Rightarrow> bytes \<Rightarrow> bytes sql" where
  "get_raw Z i = sbind (fetch i) (\<lambda>(m, frame). of_result (decompress Z frame (mr_size m) i))"

definition get_raw_prefix :: "zstd \<Rightarrow> bytes \<Rightarrow> int \<Rightarrow> bytes sql" where
  "get_raw_prefix Z i max_bytes =
     sbind (fetch i) (\<lambda>(m, frame). of_result (decompress_prefix Z frame (nat (max max_bytes 0)) i))"

subsection \<open>Attachments\<close>

record attachment_summary =
  as_id :: bytes
  as_message_id :: bytes
  as_filename :: "bytes option"
  as_content_type :: "bytes option"
  as_content_id :: "bytes option"
  as_size :: "int option"

definition attachments_by_seq :: "int \<Rightarrow> tables \<Rightarrow> stored_attachment list" where
  "attachments_by_seq seq t = filter (\<lambda>a. sa_message_seq a = seq) (attachments t)"

definition get_attachments :: "bytes \<Rightarrow> attachment_summary list sql" where
  "get_attachments message_id = select (\<lambda>t.
     case find_message message_id t of
       None \<Rightarrow> []
     | Some m \<Rightarrow> map (\<lambda>a. \<lparr>as_id = sa_id a, as_message_id = mr_id m, as_filename = sa_filename a,
           as_content_type = sa_content_type a, as_content_id = sa_content_id a, as_size = sa_size a\<rparr>)
         (attachments_by_seq (mr_seq m) t))"

text \<open>The columns of \<open>ATTACHMENT_ROW_COLUMNS\<close> for one attachment of a message.\<close>

definition attachment_row_of :: "message_row \<Rightarrow> bytes \<Rightarrow> stored_attachment \<Rightarrow> attachment_row" where
  "attachment_row_of m frame a =
     \<lparr>ar_id = sa_id a, ar_message_id = mr_id m, ar_filename = sa_filename a,
      ar_content_type = sa_content_type a, ar_content_id = sa_content_id a, ar_size = sa_size a,
      ar_content = sa_content a, ar_raw_offset = sa_raw_offset a, ar_raw_len = sa_raw_len a,
      ar_transfer_encoding = sa_transfer_encoding a, ar_raw_size = mr_size m,
      ar_compressed_raw = (if sa_raw_offset a = None then None else Some frame)\<rparr>"

definition find_attachment :: "(stored_attachment \<Rightarrow> bool) \<Rightarrow> bytes \<Rightarrow> tables \<Rightarrow> attachment_row option" where
  "find_attachment p message_id t =
     (case content_join message_id t of
        None \<Rightarrow> None
      | Some (m, frame) \<Rightarrow>
          map_option (attachment_row_of m frame) (find p (attachments_by_seq (mr_seq m) t)))"

definition resolve_attachment :: "zstd \<Rightarrow> mime_lib \<Rightarrow> (stored_attachment \<Rightarrow> bool) \<Rightarrow> bytes \<Rightarrow> bytes \<Rightarrow> attachment sql" where
  "resolve_attachment Z M p message_id key =
     sbind (select (find_attachment p message_id)) (\<lambda>row.
       case row of None \<Rightarrow> sfail (NotFound key) | Some r \<Rightarrow> of_result (into_attachment Z M r))"

definition get_attachment :: "zstd \<Rightarrow> mime_lib \<Rightarrow> bytes \<Rightarrow> bytes \<Rightarrow> attachment sql" where
  "get_attachment Z M message_id attachment_id =
     resolve_attachment Z M (\<lambda>a. sa_id a = attachment_id) message_id attachment_id"

definition get_attachment_by_content_id :: "zstd \<Rightarrow> mime_lib \<Rightarrow> bytes \<Rightarrow> bytes \<Rightarrow> attachment sql" where
  "get_attachment_by_content_id Z M message_id content_id =
     resolve_attachment Z M (\<lambda>a. sa_content_id a = Some content_id) message_id content_id"

subsection \<open>Pages of a sorted table\<close>

text \<open>The messages that pass a filter, newest first.\<close>

definition listing :: "message_filter \<Rightarrow> tables \<Rightarrow> message_row list" where
  "listing f t = rev (filter (passes f t) (messages t))"

lemma sorted_key_strict: "sorted_wrt (<) (map f xs) \<Longrightarrow> sort_key f xs = xs"
  for f :: "'a \<Rightarrow> int"
proof -
  assume "sorted_wrt (<) (map f xs)"
  then have "sorted (map f xs)" by (simp add: strict_sorted_iff)
  then show ?thesis by (simp add: sort_key_id_if_sorted)
qed

lemma sorted_filter_seq: "messages_wf t \<Longrightarrow> sorted_wrt (<) (map mr_seq (filter p (messages t)))"
  by (auto simp: messages_wf_def sorted_wrt_map intro: sorted_wrt_filter)

lemma page_Offset:
  "sorted_wrt (<) (map f xs) \<Longrightarrow> page f (Offset k) limit xs = window limit k (rev xs)"
  by (simp add: page_def sorted_key_strict)

lemma page_Before:
  "sorted_wrt (<) (map f xs) \<Longrightarrow> page f (Before b) limit xs = window limit 0 (dropWhile (\<lambda>x. b \<le> f x) (rev xs))"
proof -
  assume s: "sorted_wrt (<) (map f xs)"
  then have "sorted_wrt (<) (map f (filter (\<lambda>x. f x < b) xs))"
    by (auto simp: sorted_wrt_map intro: sorted_wrt_filter)
  then have "page f (Before b) limit xs = window limit 0 (filter (\<lambda>x. f x < b) (rev xs))"
    by (simp add: page_def sorted_key_strict rev_filter)
  moreover have "sorted_wrt (\<lambda>x y. f x > f y) (rev xs)"
    using s by (simp add: sorted_wrt_rev sorted_wrt_map)
  ultimately show ?thesis by (simp add: filter_eq_take_while_sorted)
qed

lemma dropWhile_nth_desc:
  assumes "sorted_wrt (\<lambda>x y. f x > (f y :: int)) xs" "k < length xs"
  shows "dropWhile (\<lambda>x. f (xs ! k) \<le> f x) xs = drop (Suc k) xs"
  using assms
proof (induction xs arbitrary: k)
  case (Cons x xs)
  show ?case
  proof (cases k)
    case 0
    have "\<forall>y \<in> set xs. f y < f x" using Cons.prems by simp
    then have "dropWhile (\<lambda>y. f x \<le> f y) xs = xs" by (cases xs) auto
    then show ?thesis using 0 by simp
  next
    case (Suc j)
    then have "f (xs ! j) \<le> f x" using Cons.prems by (simp add: less_imp_le)
    then show ?thesis using Suc Cons.IH [of j] Cons.prems by simp
  qed
qed simp

lemma window_zero: "window limit (int k) xs = window limit 0 (drop k xs)"
  by (simp add: window_def)

lemma listing_desc: "messages_wf t \<Longrightarrow> sorted_wrt (\<lambda>x y. mr_seq x > mr_seq y) (listing f t)"
  using sorted_filter_seq by (simp add: listing_def sorted_wrt_rev sorted_wrt_map)

lemma list_statement_Offset:
  "messages_wf t \<Longrightarrow> list_statement f (Offset k) limit t = map summary_of (window limit k (listing f t))"
  by (simp add: list_statement_def listing_def page_Offset sorted_filter_seq)

lemma list_statement_Before:
  "messages_wf t \<Longrightarrow> k < length (listing f t) \<Longrightarrow>
     list_statement f (Before (mr_seq (listing f t ! k))) limit t =
     map summary_of (window limit 0 (drop (Suc k) (listing f t)))"
  using dropWhile_nth_desc [OF listing_desc]
  by (simp add: list_statement_def page_Before sorted_filter_seq) (simp add: listing_def)

text \<open>
  A client walking the pages: the first page by offset, each next one from the cursor of the
  last message it saw. \<open>fuel\<close> bounds the pages it asks for.
\<close>

fun walk :: "message_filter \<Rightarrow> int \<Rightarrow> tables \<Rightarrow> nat \<Rightarrow> page_start \<Rightarrow> message_summary list" where
  "walk f limit t 0 start = []"
| "walk f limit t (Suc fuel) start =
     (let p = list_statement f start limit t in
      if p = [] then []
      else p @ walk f limit t fuel
        (Before (case find_message (ms_id (last p)) t of None \<Rightarrow> 0 | Some m \<Rightarrow> mr_seq m)))"

lemma find_message_id:
  "messages_wf t \<Longrightarrow> m \<in> set (messages t) \<Longrightarrow> find_message (mr_id m) t = Some m"
  by (simp add: find_message_def messages_wf_def find_distinct)

lemma walk_from:
  assumes wf: "messages_wf t" and n: "0 < limit"
  shows "k < length (listing f t) \<Longrightarrow> length (listing f t) - Suc k \<le> fuel \<Longrightarrow>
    walk f limit t (Suc fuel) (Before (mr_seq (listing f t ! k))) = map summary_of (drop (Suc k) (listing f t))"
proof (induction fuel arbitrary: k)
  case 0
  then have "drop (Suc k) (listing f t) = []" by simp
  then show ?case using list_statement_Before [OF wf 0(1)] by (simp add: window_def)
next
  case (Suc fuel)
  let ?L = "listing f t" and ?p = "window limit 0 (drop (Suc k) (listing f t))"
  have p: "?p = take (nat limit) (drop (Suc k) ?L)" using n by (simp add: window_def)
  show ?case
  proof (cases "drop (Suc k) ?L = []")
    case True
    then show ?thesis using list_statement_Before [OF wf Suc.prems(1)] by (simp add: window_def)
  next
    case False
    define l where "l = min (nat limit) (length ?L - Suc k)"
    define j where "j = k + l"
    have l: "0 < l" "l \<le> nat limit" "Suc k + l \<le> length ?L" using False n by (auto simp: l_def)
    have "length ?p = l" using l by (simp add: p l_def min.commute)
    then have "last ?p = ?p ! (l - 1)" "?p \<noteq> []" using l(1) by (auto simp: last_conv_nth)
    moreover have "?p ! (l - 1) = ?L ! j" using l by (simp add: p j_def)
    ultimately have last: "last ?p = ?L ! j" and j: "Suc k \<le> j" "j < length ?L" "?p \<noteq> []"
      using l by (simp_all add: j_def)
    have "set ?L \<subseteq> set (messages t)" by (auto simp: listing_def)
    then have "?L ! j \<in> set (messages t)" using nth_mem [OF j(2)] by blast
    then have "find_message (mr_id (last ?p)) t = Some (?L ! j)" using last find_message_id [OF wf] by simp
    moreover have "last (map summary_of ?p) = summary_of (last ?p)" using j(3) by (simp add: last_map)
    ultimately have "walk f limit t (Suc (Suc fuel)) (Before (mr_seq (?L ! k))) =
        map summary_of ?p @ walk f limit t (Suc fuel) (Before (mr_seq (?L ! j)))"
      using list_statement_Before [OF wf Suc.prems(1)] j(3) by (simp add: Let_def summary_of_def del: walk.simps(1))
    moreover have "walk f limit t (Suc fuel) (Before (mr_seq (?L ! j))) = map summary_of (drop (Suc j) ?L)"
      using Suc.IH [OF j(2)] Suc.prems j by simp
    moreover have "?p @ drop (Suc j) ?L = drop (Suc k) ?L"
    proof -
      have "take (nat limit) (drop (Suc k) ?L) = take l (drop (Suc k) ?L)" by (simp add: l_def min_def)
      moreover have "drop (Suc j) ?L = drop l (drop (Suc k) ?L)" by (simp add: j_def add.commute)
      ultimately show ?thesis unfolding p by (metis append_take_drop_id)
    qed
    ultimately show ?thesis by (metis map_append)
  qed
qed

lemma walk_all:
  assumes wf: "messages_wf t" and n: "0 < limit" and fuel: "length (listing f t) \<le> fuel"
  shows "walk f limit t (Suc fuel) (Offset 0) = map summary_of (listing f t)"
proof (cases "listing f t")
  case Nil
  then show ?thesis using list_statement_Offset [OF wf, of f 0 limit] by (simp add: window_def)
next
  case (Cons m rest)
  let ?L = "listing f t"
  define l where "l = min (nat limit) (length ?L)"
  have l: "0 < l" "l \<le> length ?L" using n Cons by (auto simp: l_def)
  have p: "list_statement f (Offset 0) limit t = map summary_of (take l ?L)"
    using list_statement_Offset [OF wf, of f 0 limit] n by (simp add: window_def l_def min_def)
  have ne: "take l ?L \<noteq> []" using l by auto
  have last: "last (take l ?L) = ?L ! (l - 1)" using l ne by (simp add: last_conv_nth)
  have "set ?L \<subseteq> set (messages t)" by (auto simp: listing_def)
  then have "?L ! (l - 1) \<in> set (messages t)" using l nth_mem [of "l - 1" ?L] by (simp add: subset_iff)
  then have "find_message (mr_id (last (take l ?L))) t = Some (?L ! (l - 1))" using last find_message_id [OF wf] by simp
  moreover have "last (map summary_of (take l ?L)) = summary_of (last (take l ?L))" using ne by (simp add: last_map)
  ultimately have "walk f limit t (Suc fuel) (Offset 0) =
      map summary_of (take l ?L) @ walk f limit t fuel (Before (mr_seq (?L ! (l - 1))))"
    using p ne by (simp add: Let_def summary_of_def)
  moreover have "walk f limit t fuel (Before (mr_seq (?L ! (l - 1)))) = map summary_of (drop l ?L)"
    using walk_from [OF wf n, of "l - 1" f "fuel - 1"] l fuel by simp
  ultimately show ?thesis by (metis append_take_drop_id map_append)
qed

subsection \<open>The index agrees with the messages\<close>

lemma filter_seq_single:
  "distinct (map mr_seq ms) \<Longrightarrow> m \<in> set ms \<Longrightarrow> filter (\<lambda>x. mr_seq x = mr_seq m) ms = [m]"
proof (induction ms)
  case (Cons a ms)
  then show ?case by (cases "a = m") (auto simp: filter_empty_conv image_iff)
qed simp

lemma fts_join_zip:
  assumes "db_wf S t"
  shows "fts_join S q t = map snd (filter (\<lambda>(f, m). fts_match S q f) (zip (messages_fts t) (messages t)))"
proof -
  have d: "distinct (map mr_seq (messages t))"
    using assms by (simp add: db_wf_def messages_wf_def strict_sorted_iff)
  have "list_all2 indexes fs ms \<Longrightarrow> set ms \<subseteq> set (messages t) \<Longrightarrow>
      concat (map (\<lambda>f. filter (\<lambda>m. mr_seq m = fr_rowid f) (messages t)) (filter (fts_match S q) fs)) =
      map snd (filter (\<lambda>(f, m). fts_match S q f) (zip fs ms))" for fs ms
  proof (induction rule: list_all2_induct)
    case (Cons f fs m ms)
    then show ?case using filter_seq_single [OF d, of m] by (auto simp: indexes_def)
  qed simp
  then show ?thesis using assms by (simp add: fts_join_def db_wf_def)
qed

lemma fts_join_sorted:
  assumes "db_wf S t"
  shows "sorted_wrt (<) (map mr_seq (filter p (fts_join S q t)))"
proof -
  have "subseq (map snd (filter (\<lambda>(f, m). fts_match S q f) (zip fs ms))) ms" for fs :: "fts_row list" and ms :: "message_row list"
    by (induction fs ms rule: list_induct2') auto
  then have "subseq (filter p (fts_join S q t)) (messages t)"
    using fts_join_zip [OF assms] by (metis subseq_order.trans subseq_filter_left)
  then have "subseq (map mr_seq (filter p (fts_join S q t))) (map mr_seq (messages t))" by (rule subseq_map)
  then show ?thesis
    using assms sorted_wrt_subseq by (fastforce simp: db_wf_def messages_wf_def)
qed

lemma fts_join_length:
  assumes "db_wf S t"
  shows "length (fts_join S q t) = length (filter (fts_match S q) (messages_fts t))"
proof -
  have "list_all2 indexes fs ms \<Longrightarrow> length (filter (\<lambda>(f, m). fts_match S q f) (zip fs ms)) = length (filter (fts_match S q) fs)" for fs ms
    by (induction rule: list_all2_induct) auto
  then show ?thesis using assms by (simp add: fts_join_zip db_wf_def)
qed

lemma passes_default [simp]: "passes default_filter t m"
  by (simp add: passes_def default_filter_def)

subsection \<open>Patterns\<close>

text \<open>
  What SQLite documents of \<open>LIKE ... ESCAPE '\'\<close>: per cent matches any bytes, the
  escape takes the next character literally, and ASCII letters match in either case. (An
  underscore stands for one character; \<open>escape_like\<close> never leaves one bare.)
\<close>

fun like_match :: "bytes \<Rightarrow> bytes \<Rightarrow> bool" where
  "like_match [] s = (s = [])"
| "like_match (p # ps) s =
     (if p = CHR ''%'' then list_ex (\<lambda>k. like_match ps (drop k s)) [0..<Suc (length s)]
      else if p = CHR 0x5C then
        (case (ps, s) of (q # qs, c # cs) \<Rightarrow> ascii_lower c = ascii_lower q \<and> like_match qs cs | _ \<Rightarrow> False)
      else if p = CHR ''_'' then (case chars s of [] \<Rightarrow> False | c # cs \<Rightarrow> like_match ps (concat cs))
      else (case s of [] \<Rightarrow> False | c # cs \<Rightarrow> ascii_lower c = ascii_lower p \<and> like_match ps cs))"

definition esc :: "char \<Rightarrow> bytes" where
  "esc c = (if c = CHR 0x5C \<or> c = CHR ''%'' \<or> c = CHR ''_'' then [CHR 0x5C, c] else [c])"

lemma escape_like_esc: "escape_like s = concat (map esc s)"
  by (induction s) (auto simp: escape_like_def replace_char_def esc_def)

lemma like_match_esc:
  "like_match (concat (map esc n) @ ps) s \<longleftrightarrow>
     (\<exists>a b. s = a @ b \<and> to_ascii_lowercase a = to_ascii_lowercase n \<and> like_match ps b)"
proof (induction n arbitrary: s)
  case (Cons c n)
  have "like_match (esc c @ concat (map esc n) @ ps) s \<longleftrightarrow>
      (\<exists>d cs. s = d # cs \<and> ascii_lower d = ascii_lower c \<and> like_match (concat (map esc n) @ ps) cs)"
    by (cases s) (auto simp: esc_def)
  also have "\<dots> \<longleftrightarrow> (\<exists>d a b. s = d # a @ b \<and> ascii_lower d = ascii_lower c \<and>
      to_ascii_lowercase a = to_ascii_lowercase n \<and> like_match ps b)"
    using Cons by blast
  also have "\<dots> \<longleftrightarrow> (\<exists>a b. s = a @ b \<and> to_ascii_lowercase a = to_ascii_lowercase (c # n) \<and> like_match ps b)"
    by (auto simp: to_ascii_lowercase_def Cons_eq_append_conv map_eq_Cons_conv) blast+
  finally show ?case by simp
qed (simp add: to_ascii_lowercase_def)

lemma like_match_percent: "like_match (CHR ''%'' # ps) s \<longleftrightarrow> (\<exists>a b. s = a @ b \<and> like_match ps b)"
proof
  assume "like_match (CHR ''%'' # ps) s"
  then obtain k where "like_match ps (drop k s)" by (auto simp: list_ex_iff simp del: upt_Suc)
  then show "\<exists>a b. s = a @ b \<and> like_match ps b" by (metis append_take_drop_id)
next
  assume "\<exists>a b. s = a @ b \<and> like_match ps b"
  then obtain a b where "s = a @ b" "like_match ps b" by blast
  then show "like_match (CHR ''%'' # ps) s"
    by (auto simp: list_ex_iff simp del: upt_Suc intro!: bexI [of _ "length a"])
qed

lemma like_contains:
  "like_match (''%'' @ escape_like n @ ''%'') s \<longleftrightarrow> sublist (to_ascii_lowercase n) (to_ascii_lowercase s)"
proof -
  have "like_match (''%'' @ escape_like n @ ''%'') s \<longleftrightarrow>
      (\<exists>a b c. s = a @ b @ c \<and> to_ascii_lowercase b = to_ascii_lowercase n)"
    by (auto simp: like_match_percent like_match_esc escape_like_esc simp del: like_match.simps(2))
  also have "\<dots> \<longleftrightarrow> sublist (to_ascii_lowercase n) (to_ascii_lowercase s)"
  proof
    assume "\<exists>a b c. s = a @ b @ c \<and> to_ascii_lowercase b = to_ascii_lowercase n"
    then obtain a b c where "s = a @ b @ c" "to_ascii_lowercase b = to_ascii_lowercase n" by blast
    then have "to_ascii_lowercase s = to_ascii_lowercase a @ to_ascii_lowercase n @ to_ascii_lowercase c"
      by (simp add: to_ascii_lowercase_def)
    then show "sublist (to_ascii_lowercase n) (to_ascii_lowercase s)" by (simp add: sublist_appendI)
  next
    assume "sublist (to_ascii_lowercase n) (to_ascii_lowercase s)"
    then obtain x y where xy: "map ascii_lower s = x @ to_ascii_lowercase n @ y"
      by (auto simp: sublist_def to_ascii_lowercase_def)
    then obtain a r where a: "s = a @ r" "map ascii_lower r = to_ascii_lowercase n @ y"
      by (metis map_eq_append_conv)
    then obtain b c where "r = b @ c" "map ascii_lower b = to_ascii_lowercase n" by (metis map_eq_append_conv)
    then show "\<exists>a b c. s = a @ b @ c \<and> to_ascii_lowercase b = to_ascii_lowercase n"
      using a(1) by (metis to_ascii_lowercase_def)
  qed
  finally show ?thesis .
qed

lemma sanitize_no_quote:
  assumes "sanitize_fts_query uni q = Some s"
  shows "\<exists>w. s = [CHR 0x22] @ w @ [CHR 0x22] \<and> CHR 0x22 \<notin> set w"
proof -
  let ?keep = "\<lambda>c. is_alphanumeric uni c \<or> List.member ['' '', ''@'', ''.'', ''-'', ''+'', ''_''] c"
  have "CHR 0x22 \<notin> set ch" if "ch \<in> set (chars q)" "?keep ch" for ch
  proof (cases "length ch = 1")
    case True
    then obtain b where "ch = [b]" by (auto simp: length_Suc_conv)
    then show ?thesis using that(2)
      by (auto simp: is_alphanumeric_def is_ascii_alphanumeric_def is_ascii_digit_def)
  next
    case False
    then show ?thesis using chars_high [OF that(1)] by fastforce
  qed
  then show ?thesis using assms by (auto simp: sanitize_fts_query_def Let_def split: if_splits)
qed

subsection \<open>Reading back what was stored\<close>

lemma content_row_found:
  assumes "db_wf S t" "c \<in> set (message_content t)"
  shows "content_row_of (cr_seq c) t = Some c"
proof -
  have "distinct (map cr_seq (message_content t))"
    using assms(1) by (simp add: db_wf_def messages_wf_def strict_sorted_iff)
  then show ?thesis using assms(2) by (simp add: content_row_of_def find_distinct)
qed

lemma batch_content_join:
  assumes "batch_stored pms t sms t'" "db_wf S t'" "k < length pms"
  shows "\<exists>m. content_join (ms_id (sms ! k)) t' = Some (m, pm_compressed_raw (pms ! k)) \<and>
    sms ! k = summary_of m \<and> mr_size m = int (pm_size (pms ! k))"
proof -
  obtain rows t1 where r: "appended pms rows t t1" "sms = map summary_of rows"
    "t' = t1\<lparr>messages_fts := messages_fts t @ map2 index_of pms rows\<rparr>"
    using assms(1) by (auto simp: batch_stored_def)
  have len: "length rows = length pms" and row: "row_of (pms ! k) (rows ! k)"
    using r(1) assms(3) by (auto simp: appended_def list_all2_conv_all_nth)
  have msgs: "messages t' = messages t @ rows" "message_content t' = message_content t @ map2 content_of pms rows"
    using r by (auto simp: appended_def)
  have m: "rows ! k \<in> set (messages t')" "content_of (pms ! k) (rows ! k) \<in> set (message_content t')"
    using msgs len assms(3) by (auto simp: set_zip image_iff)
  have id: "ms_id (sms ! k) = mr_id (rows ! k)" using r(2) len assms(3) by (simp add: summary_of_def)
  have "find_message (mr_id (rows ! k)) t' = Some (rows ! k)"
    using m(1) assms(2) find_message_id by (simp add: db_wf_def)
  moreover have "content_row_of (mr_seq (rows ! k)) t' = Some (content_of (pms ! k) (rows ! k))"
    using content_row_found [OF assms(2) m(2)] by (simp add: content_of_def)
  ultimately show ?thesis
    using id r(2) len assms(3) row_of_fields [OF row] by (simp add: content_join_def content_of_def)
qed

lemma fetch_found: "faults st = [] \<Longrightarrow> content_join i (tables st) = Some r \<Longrightarrow> fst (fetch i st) = Inr r"
  by (simp add: fetch_def select_def stmt_def sess_defs)

lemma fetch_then: "faults st = [] \<Longrightarrow> content_join i (tables st) = Some r \<Longrightarrow>
    fst (sbind (fetch i) (\<lambda>x. of_result (g x)) st) = g r"
  by (cases "g r") (auto simp: fetch_def select_def stmt_def sess_defs of_result_def)

subsection \<open>Properties\<close>

text \<open>
  Pagination by cursor visits every message: on a well-formed database, following the
  pages of any positive size from the newest message, each from the cursor of the last one
  seen, lists every message that passes the filter exactly once, newest first, and then ends.
\<close>

theorem pages_enumerate_the_listing:
  assumes "db_wf S t" and "0 < limit" and "length (messages t) \<le> fuel"
  shows "walk f limit t (Suc fuel) (Offset 0) = map summary_of (rev (filter (passes f t) (messages t)))"
  using walk_all [of t limit f fuel] assms length_filter_le [of "passes f t" "messages t"]
  by (auto simp: db_wf_def listing_def)

lemma one_message_messages: "messages one_message = [one_row]"
  by (simp add: one_message_def)

theorem pages_enumerate_the_listing_witness:
  "walk default_filter 1 one_message (Suc 1) (Offset 0) = [summary_of one_row]"
  using pages_enumerate_the_listing [of plain_sql one_message 1 1 default_filter] one_message_wf
  by (simp add: one_store_def one_message_messages del: walk.simps)

text \<open>
  A page that starts from a cursor is the page an offset past that message would give, on
  every well-formed database, for every filter and limit.
\<close>

theorem cursor_page_is_offset_page:
  assumes "db_wf S t" and "k < length (rev (filter (passes f t) (messages t)))"
  shows "list_statement f (Before (mr_seq (rev (filter (passes f t) (messages t)) ! k))) limit t =
    list_statement f (Offset (int (Suc k))) limit t"
  using list_statement_Before [of t k f limit] list_statement_Offset [of t f "int (Suc k)" limit] assms
  unfolding window_zero by (simp add: db_wf_def listing_def)

theorem cursor_page_is_offset_page_witness:
  "list_statement default_filter (Before 1) 5 one_message = list_statement default_filter (Offset 1) 5 one_message"
  using cursor_page_is_offset_page [of plain_sql one_message 0 default_filter 5] one_message_wf
  by (simp add: one_store_def) (simp add: one_message_def one_row_def new_row_def)

text \<open>
  Search counts are honest: on a well-formed database the count for a query, taken on the
  index alone when no filter is set and by joining back otherwise, is the number of messages
  the unlimited search returns.
\<close>

theorem search_count_is_result_length:
  assumes "db_wf S (tables st)" and "faults st = []"
  shows "fst (search_count_filtered S uni q f st) =
    map_sum id (\<lambda>r. int (length r)) (fst (search_page S uni q f (Offset 0) (- 1) st))"
proof -
  have "int (length (filter (passes f (tables st)) (fts_join S s (tables st)))) =
      int (length (search_statement S s f (Offset 0) (- 1) (tables st)))" for s
    by (simp add: search_statement_def page_Offset fts_join_sorted [OF assms(1)] window_def)
  moreover have "filter_is_empty f \<Longrightarrow> filter (passes f (tables st)) xs = xs" for xs
    by (simp add: filter_is_empty_def)
  ultimately show ?thesis
    using assms(2) fts_join_length [OF assms(1)]
    by (auto simp: search_count_filtered_def search_count_def search_page_def search_count_statement_def
        select_def stmt_def sret_def split: option.splits)
qed

theorem search_count_is_result_length_witness:
  "fst (search_count_filtered plain_sql (\<lambda>_. False) ''x'' default_filter one_store) =
   map_sum id (\<lambda>r. int (length r)) (fst (search_page plain_sql (\<lambda>_. False) ''x'' default_filter (Offset 0) (- 1) one_store))"
  by (rule search_count_is_result_length [OF one_message_wf]) (simp add: one_store_def plain_store_def)

text \<open>
  C22. What was stored is what is read: after a batch of prepared messages was stored in a
  well-formed database, the raw source of each, asked for by the id in its summary, is
  exactly the bytes that were received, and a prefix is a prefix of them.
\<close>

theorem stored_source_is_read_back:
  assumes "db_wf S (tables st)" and "json_each S ''[]'' = []" and "zstd_laws Z"
    and "insert_batch S pms st = (Inr sms, st')" and "faults st' = []" and "k < length pms"
    and "prepared_parse Z M sender recipients raw = Inr (pms ! k)"
  shows "fst (get_raw Z (ms_id (sms ! k)) st') = Inr raw \<and>
    fst (get_raw_prefix Z (ms_id (sms ! k)) n st') = Inr (take (nat n) raw)"
proof -
  have b: "batch_stored pms (tables st) sms (tables st')"
    using assms(4) batch.retry_succeeds by (simp add: insert_batch_def)
  obtain m where m: "content_join (ms_id (sms ! k)) (tables st') = Some (m, pm_compressed_raw (pms ! k))"
    "mr_size m = int (pm_size (pms ! k))"
    using batch_content_join [OF b batch_stored_wf [OF b assms(1,2)] assms(6)] by blast
  have c: "compress Z raw = Inr (pm_compressed_raw (pms ! k))" "pm_size (pms ! k) = length raw"
    using prepared_parse_kept [OF assms(7)] by auto
  have "fst (get_raw Z (ms_id (sms ! k)) st') =
      decompress Z (pm_compressed_raw (pms ! k)) (mr_size m) (ms_id (sms ! k))"
    using fetch_then [OF assms(5) m(1), where g = "\<lambda>(m, frame). decompress Z frame (mr_size m) (ms_id (sms ! k))"]
    by (simp add: get_raw_def case_prod_unfold)
  moreover have "fst (get_raw_prefix Z (ms_id (sms ! k)) n st') =
      decompress_prefix Z (pm_compressed_raw (pms ! k)) (nat n) (ms_id (sms ! k))"
    using fetch_then [OF assms(5) m(1), where g = "\<lambda>(m, frame). decompress_prefix Z frame (nat (max n 0)) (ms_id (sms ! k))"]
    by (simp add: get_raw_prefix_def case_prod_unfold max_def)
  ultimately show ?thesis
    using decompress_compress [OF assms(3) c(1)] decompress_prefix_compress [OF assms(3) c(1)] m(2) c(2) by simp
qed

theorem stored_source_is_read_back_witness:
  "let r = insert_batch plain_sql [plain_prepared ''Hi''] plain_store in
   case fst r of Inl _ \<Rightarrow> False | Inr sms \<Rightarrow> fst (get_raw plain_zstd (ms_id (sms ! 0)) (snd r)) = Inr ''Hi''"
proof -
  let ?r = "insert_batch plain_sql [plain_prepared ''Hi''] plain_store"
  have f: "faults (snd ?r) = []" by code_simp
  obtain sms st' where r: "?r = (Inr sms, st')" using insert_batch_ready [OF plain_store_ready] by blast
  have wf: "db_wf plain_sql (tables plain_store)" "json_each plain_sql ''[]'' = []"
    using empty_wf by (simp_all add: plain_store_def plain_sql_def)
  have "prepared_parse plain_zstd plain_mime ''a'' [''b''] ''Hi'' = Inr ([plain_prepared ''Hi''] ! 0)" by code_simp
  then show ?thesis
    using stored_source_is_read_back [OF wf plain_zstd_laws r, of 0 plain_mime "''a''" "[''b'']" "''Hi''" 0] f r
    by simp
qed

text \<open>
  A search query cannot leave its quotes: whatever the user types, the text handed to the
  full-text engine is one string literal, opened and closed by the only two quotes in it.
\<close>

theorem search_query_stays_quoted:
  assumes "sanitize_fts_query uni q = Some s"
  shows "\<exists>w. s = [CHR 0x22] @ w @ [CHR 0x22] \<and> CHR 0x22 \<notin> set w"
  by (rule sanitize_no_quote [OF assms])

theorem search_query_stays_quoted_witness:
  "\<exists>w. [CHR 0x22] @ ''a OR b'' @ [CHR 0x22] = [CHR 0x22] @ w @ [CHR 0x22] \<and> CHR 0x22 \<notin> set w"
  by (rule search_query_stays_quoted [of "\<lambda>_. False" "''a'' @ [CHR 0x22] @ '' OR b''"]) code_simp

text \<open>
  The assertion count counts by containment: given that \<open>LIKE\<close> and \<open>LOWER\<close> do what SQLite
  documents, each condition holds of a message exactly when the lower-cased needle occurs in
  the column, ASCII letters compared in either case, with wildcard characters in the needle
  standing for themselves.
\<close>

theorem count_matching_counts_containment:
  assumes "\<And>p s. sql_like S p s = like_match p s" and "sql_lower S = to_ascii_lowercase" and "faults st = []"
  shows "fst (count_matching S low None (Some n) None st) =
    Inr (int (length (filter (\<lambda>m. sublist (to_ascii_lowercase (low n)) (to_ascii_lowercase (mr_sender m)))
      (messages (tables st)))))"
proof -
  have "matches S low None (Some n) None m \<longleftrightarrow>
      sublist (to_ascii_lowercase (low n)) (to_ascii_lowercase (mr_sender m))" for m
    using like_contains [of "low n" "to_ascii_lowercase (mr_sender m)"] assms(1,2)
    by (simp add: matches_def column_like_def del: like_match.simps)
  then have "matches S low None (Some n) None =
      (\<lambda>m. sublist (to_ascii_lowercase (low n)) (to_ascii_lowercase (mr_sender m)))" by blast
  then show ?thesis using assms(3) by (simp add: count_matching_def select_def stmt_def)
qed

text \<open>A library that follows SQLite's documentation, for the witnesses.\<close>

definition like_sql :: sql_lib where
  "like_sql = plain_sql\<lparr>sql_like := like_match, sql_lower := to_ascii_lowercase\<rparr>"

theorem count_matching_counts_containment_witness:
  "fst (count_matching like_sql to_ascii_lowercase None (Some ''A'') None one_store) = Inr 1"
proof -
  have f: "filter (\<lambda>m. sublist (to_ascii_lowercase (to_ascii_lowercase ''A'')) (to_ascii_lowercase (mr_sender m)))
      (messages (tables one_store)) = [one_row]"
    by code_simp
  show ?thesis
    using count_matching_counts_containment [of like_sql one_store to_ascii_lowercase "''A''"] f
    by (simp add: like_sql_def) (simp add: one_store_def plain_store_def)
qed

text \<open>
  The case-insensitive count is not, beyond ASCII: \<open>to_lowercase\<close> changes letters that
  \<open>LOWER\<close> and \<open>LIKE\<close> leave alone, so a message whose subject is the single letter
  U+00C9 is not counted when that very letter is asked for.
\<close>

theorem count_matching_misses_non_ascii:
  "let subject = [CHR 0xC3, CHR 0x89];
       low = (\<lambda>s. if s = [CHR 0xC3, CHR 0x89] then [CHR 0xC3, CHR 0xA9] else s);
       st = one_store\<lparr>tables := one_message\<lparr>messages := [one_row\<lparr>mr_subject := Some subject\<rparr>]\<rparr>\<rparr>
   in fst (count_matching like_sql low (Some subject) None None st) = Inr 0"
  by code_simp

end
