(* ===== verification/Storage_Reclaim.thy ===== *)
theory Storage_Reclaim
  imports Storage_Invariant
begin

text \<open>
  Giving freed pages back to the filesystem (\<open>rustmail-storage/src/reclaim.rs\<close> and the two
  repository methods that call it). The store carries the page counts SQLite reports besides
  its tables; \<open>incremental_vacuum\<close> releases at most so many pages, and what other connections
  free or use between two steps is an input.
\<close>

definition RECLAIM_STEP_PAGES :: int where "RECLAIM_STEP_PAGES = 1024"
definition RETENTION_MIN_FREE_BYTES :: int where "RETENTION_MIN_FREE_BYTES = 64 * 1024 * 1024"
definition RETENTION_MIN_FREE_PERCENT :: int where "RETENTION_MIN_FREE_PERCENT = 25"
definition NOTABLE_RECLAIM_BYTES :: int where "NOTABLE_RECLAIM_BYTES = 64 * 1024 * 1024"
definition PERCENT :: int where "PERCENT = 100"

datatype reclaim_trigger = DeleteAll | Retention

definition trigger_str :: "reclaim_trigger \<Rightarrow> bytes" where
  "trigger_str tr = (case tr of DeleteAll \<Rightarrow> ''delete_all'' | Retention \<Rightarrow> ''retention'')"

record page_stats =
  page_size :: int
  page_count :: int
  freelist_count :: int

definition free_bytes :: "page_stats \<Rightarrow> int" where
  "free_bytes ps = saturating_mul (freelist_count ps) (page_size ps)"

definition file_bytes :: "page_stats \<Rightarrow> int" where
  "file_bytes ps = saturating_mul (page_count ps) (page_size ps)"

definition warrants_retention_reclaim :: "page_stats \<Rightarrow> bool" where
  "warrants_retention_reclaim ps =
     (let free = free_bytes ps;
          past_share_of_file =
            saturating_mul free PERCENT > saturating_mul (file_bytes ps) RETENTION_MIN_FREE_PERCENT
      in free > RETENTION_MIN_FREE_BYTES \<and> past_share_of_file)"

record pager = store +
  pages :: page_stats
  meanwhile :: "int list"
  budget_spent :: "bool list"
  readers_hold :: "bool list"

type_synonym 'a paged = "(pager, storage_error, 'a) call"

definition page_stats_of :: "page_stats paged" where
  "page_stats_of = sbind (select (\<lambda>_. ())) (\<lambda>_ p. (Inr (pages p), p))"

text \<open>One \<open>incremental_vacuum\<close>, and what others do to the freelist right after it.\<close>

definition incremental_vacuum :: "pager \<Rightarrow> pager" where
  "incremental_vacuum p =
     (let ps = pages p; released = min RECLAIM_STEP_PAGES (freelist_count ps);
          other = (case meanwhile p of [] \<Rightarrow> 0 | d # _ \<Rightarrow> d)
      in p\<lparr>pages := ps\<lparr>page_count := page_count ps - released,
                       freelist_count := max 0 (freelist_count ps - released + other)\<rparr>,
           meanwhile := tl (meanwhile p)\<rparr>)"

definition vacuum_step :: "int paged" where
  "vacuum_step =
     sthen (select (\<lambda>_. ()))
     (sthen (sthen (select (\<lambda>_. ())) (modify incremental_vacuum))
     (sbind (select (\<lambda>_. ())) (\<lambda>_ p. (Inr (freelist_count (pages p)), p))))"

definition over_budget :: "pager \<Rightarrow> bool \<times> pager" where
  "over_budget p = (case budget_spent p of [] \<Rightarrow> (False, p) | l # r \<Rightarrow> (l, p\<lparr>budget_spent := r\<rparr>))"

text \<open>The loop of \<open>reclaim\<close>; it returns the free pages left.\<close>

function reclaim_loop :: "int \<Rightarrow> int paged" where
  "reclaim_loop free_pages p =
     (if 0 < free_pages then
        (case over_budget p of
           (True, p1) \<Rightarrow> (Inr free_pages, p1)
         | (False, p1) \<Rightarrow>
             (case retry_on_lock vacuum_step p1 of
                (Inl e, p2) \<Rightarrow> (Inl e, p2)
              | (Inr left, p2) \<Rightarrow>
                  if left < free_pages then reclaim_loop left p2 else (Inr left, p2)))
      else (Inr free_pages, p))"
  by pat_completeness auto

termination
  by (relation "measure (\<lambda>(free_pages, p). nat free_pages)") auto

declare reclaim_loop.simps [simp del]

definition checkpoint_truncate :: "bool paged" where
  "checkpoint_truncate p =
     (case select (\<lambda>_. ()) p of
        (Inr _, p1) \<Rightarrow>
          (Inr (case readers_hold p1 of [] \<Rightarrow> False | b # _ \<Rightarrow> b), p1\<lparr>readers_hold := tl (readers_hold p1)\<rparr>)
      | (Inl e, p1) \<Rightarrow> if is_retryable_lock e then (Inr True, p1) else (Inl e, p1))"

text \<open>What \<open>reclaim\<close> logs.\<close>

record reclaim_report =
  rr_trigger :: bytes
  rr_freed_pages :: int
  rr_free_pages_left :: int
  rr_checkpoint_busy :: bool
  rr_notable :: bool

definition reclaim :: "reclaim_trigger \<Rightarrow> reclaim_report paged" where
  "reclaim tr =
     sbind page_stats_of (\<lambda>before.
     sbind (reclaim_loop (freelist_count before)) (\<lambda>left.
     sbind checkpoint_truncate (\<lambda>busy.
       let freed = max 0 (saturating_sub (freelist_count before) left) in
       sret \<lparr>rr_trigger = trigger_str tr, rr_freed_pages = freed, rr_free_pages_left = left,
             rr_checkpoint_busy = busy,
             rr_notable = saturating_mul freed (page_size before) > NOTABLE_RECLAIM_BYTES\<rparr>)))"

text \<open>The repository methods: a failed reclaim after a delete-all is only logged.\<close>

definition reclaim_after_delete_all :: "pager \<Rightarrow> pager" where
  "reclaim_after_delete_all p = snd (reclaim DeleteAll p)"

definition reclaim_after_retention :: "unit paged" where
  "reclaim_after_retention =
     sbind page_stats_of (\<lambda>stats.
       if \<not> warrants_retention_reclaim stats then sret ()
       else sthen (reclaim Retention) (sret ()))"

text \<open>A repository call on the store a pager carries.\<close>

definition on_store :: "'a sql \<Rightarrow> 'a paged" where
  "on_store op p = (case op (store.truncate p) of (r, st) \<Rightarrow> (r, store.extend st (store.more p)))"

lemma on_store_tables:
  "on_store op p = (r, p') \<Longrightarrow> \<exists>st. op (store.truncate p) = (r, st) \<and> tables p' = tables st \<and> store.truncate p' = st"
  by (auto simp: on_store_def store.defs split: prod.splits)

lemma truncate_tables [simp]: "tables (store.truncate p) = tables p"
  by (simp add: store.defs)

subsection \<open>Reclaiming leaves the mail alone\<close>

lemma select_unit: "select (\<lambda>_. ()) p = (r, p') \<Longrightarrow> tables p' = tables p"
  by (auto simp: select_def stmt_def Let_def split: list.splits option.splits sum.splits)

lemma vacuum_step_tables: "vacuum_step p = (r, p') \<Longrightarrow> tables p' = tables p"
  by (auto simp: vacuum_step_def sess_defs incremental_vacuum_def Let_def
      split: prod.splits sum.splits dest!: select_unit)

lemma retry_frame:
  assumes "\<And>p r p'. op p = (r, p') \<Longrightarrow> tables p' = tables p"
  shows "retry_loop n op p = (r, p') \<Longrightarrow> tables p' = tables p"
proof (induction n arbitrary: p r p')
  case 0
  then show ?case using assms by (auto simp: retry_loop.simps [of 0] split: prod.splits sum.splits if_splits)
next
  case (Suc n)
  have late: "past_deadline q = (l, q') \<Longrightarrow> tables q' = tables q" for q :: "'a store_scheme" and l q'
    by (auto simp: past_deadline_def split: list.splits)
  obtain x q where x: "op p = (x, q)" by fastforce
  then have q: "tables q = tables p" using assms by blast
  obtain l q' where l: "past_deadline q = (l, q')" by fastforce
  consider "p' = q" | "p' = q'" | "retry_loop n op q' = (r, p')"
    using Suc.prems x l
    by (auto simp: retry_loop.simps [of "Suc n"] split: sum.splits if_splits bool.splits)
  then show ?case using Suc.IH [of q' r p'] q late [OF l] by cases simp_all
qed

lemma reclaim_loop_tables: "reclaim_loop free p = (r, p') \<Longrightarrow> tables p' = tables p"
proof (induction free p arbitrary: r p' rule: reclaim_loop.induct)
  case (1 free p)
  have late: "over_budget p = (l, q) \<Longrightarrow> tables q = tables p" for l q
    by (auto simp: over_budget_def split: list.splits)
  have step: "retry_on_lock vacuum_step q = (x, q') \<Longrightarrow> tables q' = tables q" for q x q'
    using retry_frame [OF vacuum_step_tables] by (simp add: retry_on_lock_def)
  obtain l q where l: "over_budget p = (l, q)" by fastforce
  obtain x q' where x: "retry_on_lock vacuum_step q = (x, q')" by fastforce
  show ?case
  proof (cases "0 < free \<and> \<not> l \<and> (\<exists>left. x = Inr left \<and> left < free)")
    case True
    then obtain left where left: "x = Inr left" "left < free" by blast
    then have "reclaim_loop left q' = (r, p')"
      using "1.prems" l x True by (simp add: reclaim_loop.simps [of free])
    moreover have "over_budget p = (False, q)" "retry_on_lock vacuum_step q = (Inr left, q')" using l x True left by simp_all
    ultimately have "tables p' = tables q'" using "1.IH" True left by metis
    then show ?thesis using late [OF l] step [OF x] by simp
  next
    case False
    then have "p' = p \<or> p' = q \<or> p' = q'"
      using "1.prems" l x by (auto simp: reclaim_loop.simps [of free] split: if_splits bool.splits sum.splits)
    then show ?thesis using late [OF l] step [OF x] by auto
  qed
qed

lemma page_stats_of_Inr: "page_stats_of p = (r, p') \<Longrightarrow> tables p' = tables p"
  by (auto simp: page_stats_of_def sess_defs split: prod.splits sum.splits dest!: select_unit)

lemma checkpoint_tables: "checkpoint_truncate p = (r, p') \<Longrightarrow> tables p' = tables p"
  by (auto simp: checkpoint_truncate_def split: prod.splits sum.splits if_splits dest!: select_unit)

lemma bind_tables:
  assumes "\<And>p r p'. m p = (r, p') \<Longrightarrow> tables p' = tables p" "\<And>a p r p'. f a p = (r, p') \<Longrightarrow> tables p' = tables p"
  shows "sbind m f p = (r, p') \<Longrightarrow> tables p' = tables (p :: pager)"
proof -
  assume b: "sbind m f p = (r, p')"
  obtain x q where x: "m p = (x, q)" by fastforce
  show ?thesis using b x assms(1) [OF x] assms(2) by (cases x) (auto simp: sbind_def)
qed

lemma sret_tables: "sret a p = (r, p') \<Longrightarrow> tables p' = tables p"
  by (simp add: sret_def)

lemma reclaim_tables: "reclaim tr p = (r, p') \<Longrightarrow> tables p' = tables p"
  unfolding reclaim_def Let_def
  by (rule bind_tables [OF page_stats_of_Inr bind_tables [OF reclaim_loop_tables
        bind_tables [OF checkpoint_tables sret_tables]]])

lemma reclaim_after_retention_tables: "reclaim_after_retention p = (r, p') \<Longrightarrow> tables p' = tables p"
  unfolding reclaim_after_retention_def
proof (rule bind_tables [OF page_stats_of_Inr])
  fix stats q r p'
  assume "(if \<not> warrants_retention_reclaim stats then sret () else sthen (reclaim Retention) (sret ())) q = (r, p')"
  then show "tables p' = tables q"
    using bind_tables [OF reclaim_tables sret_tables, where p = q and r = r and p' = p'] sret_tables [of "()" q r p']
    by (auto simp: sthen_def split: if_splits)
qed

subsection \<open>An undisturbed reclaim empties the freelist\<close>

definition undisturbed :: "pager \<Rightarrow> bool" where
  "undisturbed p \<longleftrightarrow> faults p = [] \<and> meanwhile p = [] \<and> budget_spent p = [] \<and> readers_hold p = [] \<and>
     0 \<le> freelist_count (pages p)"

lemma select_undisturbed: "faults p = [] \<Longrightarrow> select (\<lambda>_. ()) p = (Inr (), p)"
  by (simp add: select_def stmt_def)

lemma vacuum_undisturbed:
  assumes "undisturbed p"
  shows "retry_on_lock vacuum_step p = (Inr (freelist_count (pages (incremental_vacuum p))), incremental_vacuum p) \<and>
    undisturbed (incremental_vacuum p) \<and>
    freelist_count (pages (incremental_vacuum p)) = max 0 (freelist_count (pages p) - 1024) \<and>
    page_count (pages (incremental_vacuum p)) - freelist_count (pages (incremental_vacuum p)) =
      page_count (pages p) - freelist_count (pages p) \<and>
    tables (incremental_vacuum p) = tables p"
proof -
  have i: "faults (incremental_vacuum p) = []" using assms by (simp add: incremental_vacuum_def undisturbed_def Let_def)
  have "vacuum_step p = (Inr (freelist_count (pages (incremental_vacuum p))), incremental_vacuum p)"
    using assms i by (simp add: vacuum_step_def sess_defs select_undisturbed undisturbed_def)
  then have "retry_on_lock vacuum_step p = (Inr (freelist_count (pages (incremental_vacuum p))), incremental_vacuum p)"
    unfolding retry_on_lock_def by (subst retry_loop.simps) simp
  moreover have "undisturbed (incremental_vacuum p)" using assms
    by (auto simp: incremental_vacuum_def undisturbed_def RECLAIM_STEP_PAGES_def Let_def)
  ultimately show ?thesis using assms
    by (auto simp: incremental_vacuum_def undisturbed_def RECLAIM_STEP_PAGES_def Let_def)
qed

lemma reclaim_loop_undisturbed:
  assumes "undisturbed p" "free = freelist_count (pages p)"
  shows "\<exists>p'. reclaim_loop free p = (Inr 0, p') \<and> undisturbed p' \<and> freelist_count (pages p') = 0 \<and>
    page_count (pages p') = page_count (pages p) - freelist_count (pages p) \<and> tables p' = tables p"
  using assms
proof (induction "nat free" arbitrary: free p rule: less_induct)
  case less
  show ?case
  proof (cases "0 < free")
    case False
    then have "free = 0" using less.prems by (simp add: undisturbed_def)
    then show ?thesis using less.prems by (auto simp: reclaim_loop.simps [of 0])
  next
    case True
    let ?q = "incremental_vacuum p"
    have b: "over_budget p = (False, p)" using less.prems(1) by (simp add: over_budget_def undisturbed_def)
    note v = vacuum_undisturbed [OF less.prems(1)]
    have l: "freelist_count (pages ?q) < free" using v True less.prems(2) by simp
    then have "\<exists>p'. reclaim_loop (freelist_count (pages ?q)) ?q = (Inr 0, p') \<and> undisturbed p' \<and>
        freelist_count (pages p') = 0 \<and>
        page_count (pages p') = page_count (pages ?q) - freelist_count (pages ?q) \<and> tables p' = tables ?q"
      by (intro less.hyps) (use True v l in auto)
    moreover have "reclaim_loop free p = reclaim_loop (freelist_count (pages ?q)) ?q"
      using b v l True by (simp add: reclaim_loop.simps [of free])
    ultimately show ?thesis using v by auto
  qed
qed

text \<open>
  C32. A reclaim that nothing disturbs ends, gives every free page back to the filesystem,
  reports as many, and leaves every table as it is.
\<close>

theorem reclaim_empties_the_freelist:
  assumes "undisturbed p" "freelist_count (pages p) \<le> i64_max"
  shows "\<exists>p' report. reclaim tr p = (Inr report, p') \<and> rr_freed_pages report = freelist_count (pages p) \<and>
    rr_free_pages_left report = 0 \<and> freelist_count (pages p') = 0 \<and>
    page_count (pages p') = page_count (pages p) - freelist_count (pages p) \<and> tables p' = tables p"
proof -
  have s: "page_stats_of p = (Inr (pages p), p)"
    using assms(1) by (simp add: page_stats_of_def sess_defs select_undisturbed undisturbed_def)
  obtain p' where l: "reclaim_loop (freelist_count (pages p)) p = (Inr 0, p')" "undisturbed p'"
    "freelist_count (pages p') = 0" "page_count (pages p') = page_count (pages p) - freelist_count (pages p)"
    "tables p' = tables p"
    using reclaim_loop_undisturbed [OF assms(1) refl] by blast
  have c: "checkpoint_truncate p' = (Inr False, p')"
    using l(2) by (simp add: checkpoint_truncate_def select_undisturbed undisturbed_def)
  have "i64_min \<le> 0" "0 \<le> freelist_count (pages p)" using assms(1) by (simp_all add: i64_min_def undisturbed_def)
  then have "max 0 (saturating_sub (freelist_count (pages p)) 0) = freelist_count (pages p)"
    using assms(2) by (simp add: saturating_sub_def)
  then show ?thesis using s l c by (simp add: reclaim_def sbind_def sret_def Let_def)
qed

definition plain_pager :: "int \<Rightarrow> pager" where
  "plain_pager n = store.extend plain_store
     (pager.fields \<lparr>page_size = 4096, page_count = 5000, freelist_count = n\<rparr> [] [] [])"

theorem reclaim_empties_the_freelist_witness:
  "\<exists>p' report. reclaim DeleteAll (plain_pager 3000) = (Inr report, p') \<and> rr_freed_pages report = 3000 \<and>
     page_count (pages p') = 2000"
  using reclaim_empties_the_freelist [of "plain_pager 3000" DeleteAll]
  by (auto simp: undisturbed_def plain_pager_def plain_store_def store.defs pager.defs i64_max_def)

text \<open>
  The retention sweep reclaims exactly when more than 64 MiB and more than a quarter of the
  file are free, for every file below 368 petabytes: no product it computes wraps or saturates
  into the wrong answer.
\<close>

theorem retention_reclaim_threshold:
  assumes "0 \<le> freelist_count ps" "freelist_count ps \<le> page_count ps" "0 < page_size ps"
    and "page_count ps * page_size ps * 25 \<le> i64_max"
  shows "warrants_retention_reclaim ps \<longleftrightarrow>
    freelist_count ps * page_size ps > 64 * 1024 * 1024 \<and> 4 * freelist_count ps > page_count ps"
proof -
  let ?free = "freelist_count ps * page_size ps" and ?file = "page_count ps * page_size ps"
  have le: "?free \<le> ?file" "0 \<le> ?free" using assms(1-3) by (auto intro: mult_right_mono)
  have lo: "i64_min \<le> 0" by (simp add: i64_min_def)
  have fileb: "file_bytes ps = ?file" using le lo assms(4) by (simp add: file_bytes_def saturating_mul_def)
  have freeb: "free_bytes ps = ?free" using le lo assms(4) by (simp add: free_bytes_def saturating_mul_def)
  have f25: "saturating_mul ?file 25 = ?file * 25" using le lo assms(4) by (simp add: saturating_mul_def)
  have f100: "saturating_mul ?free 100 = min i64_max (?free * 100)" using le lo by (simp add: saturating_mul_def i64_max_def)
  have "k * 25 \<noteq> i64_max" for k :: int by (simp add: i64_max_def) presburger
  then have "i64_max > ?file * 25" using assms(4) by (metis order.not_eq_order_implies_strict)
  then have "min i64_max (?free * 100) > ?file * 25 \<longleftrightarrow> ?free * 100 > ?file * 25" by simp
  moreover have "?free * 100 > ?file * 25 \<longleftrightarrow> 4 * freelist_count ps > page_count ps"
  proof -
    have "?free * 100 > ?file * 25 \<longleftrightarrow> page_size ps * (25 * page_count ps) < page_size ps * (25 * (4 * freelist_count ps))"
      by (simp add: algebra_simps)
    then show ?thesis using assms(3) by simp
  qed
  ultimately show ?thesis
    by (simp add: warrants_retention_reclaim_def Let_def fileb freeb f25 f100 PERCENT_def RETENTION_MIN_FREE_PERCENT_def
        RETENTION_MIN_FREE_BYTES_def)
qed

theorem retention_reclaim_threshold_witness:
  "warrants_retention_reclaim \<lparr>page_size = 4096, page_count = 40000, freelist_count = 20000\<rparr>"
  using retention_reclaim_threshold [of "\<lparr>page_size = 4096, page_count = 40000, freelist_count = 20000\<rparr>"]
  by (simp add: i64_max_def)

end
