(* ===== verification/Ingest.thy ===== *)
theory Ingest
  imports Smtp_Message Storage_Query
begin

text \<open>
  The message processor of \<open>rustmail-server/src/main.rs\<close>: deliveries taken off the queue in
  batches, split into transactions, stored, acknowledged to the waiting SMTP sessions and
  announced to WebSocket clients. The repository's two inserts are an interface here (the
  locale \<open>message_store\<close>); it is interpreted on the repository of \<open>Storage_Repo\<close>.
\<close>

definition MAX_BATCH_MESSAGES :: nat where "MAX_BATCH_MESSAGES = 32"
definition MAX_BATCH_BYTES :: nat where "MAX_BATCH_BYTES = 4 * 1024 * 1024"

text \<open>
  A delivery is the message and the handle of its acknowledgement, a number that names the
  one-shot channel. The processor's world: the repository, the channels, what was announced,
  the sessions that stop waiting before each look at a channel, and whether the fallback
  deadline has passed at each look at the clock.
\<close>

type_synonym handle = nat

record 's ingest =
  repo :: 's
  channels :: "handle \<Rightarrow> oneshot"
  announced :: "message_summary list"
  leaving :: "handle list list"
  fallback_late :: "bool list"

definition drop_receiver :: "oneshot \<Rightarrow> oneshot" where
  "drop_receiver c = (if c = Waiting then ReceiverDropped else c)"

text \<open>Sessions give up at any time; it shows at the next look at or answer to a channel.\<close>

definition depart :: "'s ingest \<Rightarrow> 's ingest" where
  "depart g =
     (case leaving g of
        [] \<Rightarrow> g
      | gone # rest \<Rightarrow>
          g\<lparr>leaving := rest,
            channels := (\<lambda>c. if List.member gone c then drop_receiver (channels g c) else channels g c)\<rparr>)"

definition look_abandoned :: "handle \<Rightarrow> 's ingest \<Rightarrow> bool \<times> 's ingest" where
  "look_abandoned h g = (is_abandoned (channels (depart g) h), depart g)"

definition answer_ack :: "delivery_outcome \<Rightarrow> handle \<Rightarrow> 's ingest \<Rightarrow> 's ingest" where
  "answer_ack v h g = (let g' = depart g in g'\<lparr>channels := (channels g')(h := answer v (channels g' h))\<rparr>)"

definition answer_all :: "delivery_outcome \<Rightarrow> handle list \<Rightarrow> 's ingest \<Rightarrow> 's ingest" where
  "answer_all v hs g = foldl (\<lambda>g h. answer_ack v h g) g hs"

definition announce :: "message_summary list \<Rightarrow> 's ingest \<Rightarrow> 's ingest" where
  "announce sms g = g\<lparr>announced := announced g @ sms\<rparr>"

definition look_late :: "'s ingest \<Rightarrow> bool \<times> 's ingest" where
  "look_late g = (case fallback_late g of [] \<Rightarrow> (False, g) | l # r \<Rightarrow> (l, g\<lparr>fallback_late := r\<rparr>))"

subsection \<open>Batches and transactions\<close>

text \<open>
  The receiving half of the queue: what is queued, what sessions hand over from one look to
  the next, what they could not hand over once it was closed, whether the stop signal is still
  awaited, and whether it comes first at each wait. \<open>recv_many\<close> waits until something is
  queued or no sender is left.
\<close>

record inbox =
  queued :: "(received_message \<times> handle) list"
  arriving :: "(received_message \<times> handle) list list"
  refused :: "(received_message \<times> handle) list"
  stop_armed :: bool
  stop_wins :: "bool list"

fun recv_many :: "nat \<Rightarrow> 'a list \<Rightarrow> 'a list list \<Rightarrow> 'a list \<times> 'a list \<times> 'a list list" where
  "recv_many n q [] = (take n q, drop n q, [])"
| "recv_many n q (c # cs) = (if q @ c = [] then recv_many n [] cs else (take n (q @ c), drop n (q @ c), cs))"

definition close_inbox :: "inbox \<Rightarrow> inbox" where
  "close_inbox ib = ib\<lparr>arriving := [], refused := refused ib @ concat (arriving ib), stop_armed := False\<rparr>"

text \<open>\<open>next_batch\<close>: an empty batch ends the processor.\<close>

definition next_batch :: "inbox \<Rightarrow> (received_message \<times> handle) list \<times> inbox" where
  "next_batch ib =
     (let signalled = stop_armed ib \<and> (case stop_wins ib of [] \<Rightarrow> False | w # _ \<Rightarrow> w);
          ib1 = (if stop_armed ib then ib\<lparr>stop_wins := tl (stop_wins ib)\<rparr> else ib);
          ib2 = (if signalled then close_inbox ib1 else ib1)
      in case recv_many MAX_BATCH_MESSAGES (queued ib2) (arriving ib2) of
           (batch, q, cs) \<Rightarrow> (batch, ib2\<lparr>queued := q, arriving := cs\<rparr>))"

lemma recv_many_takes:
  "recv_many n q cs = (batch, q', cs') \<Longrightarrow> q @ concat cs = batch @ q' @ concat cs' \<and>
     length batch \<le> n \<and> (batch = [] \<and> 0 < n \<longrightarrow> q' = [] \<and> cs' = []) \<and> (cs = [] \<longrightarrow> cs' = [])"
  by (induction n q cs rule: recv_many.induct)
    (auto split: if_splits simp del: take_append drop_append simp flip: append_assoc)

text \<open>Deliveries taken, still to come and refused: nothing is lost, nothing is reordered.\<close>

lemma next_batch_takes:
  assumes "next_batch ib = (batch, ib')"
  shows "\<exists>gone. refused ib' = refused ib @ gone \<and>
    queued ib @ concat (arriving ib) = batch @ queued ib' @ concat (arriving ib') @ gone \<and>
    length batch \<le> MAX_BATCH_MESSAGES \<and> (gone = [] \<or> arriving ib' = []) \<and>
    (batch = [] \<longrightarrow> queued ib' = [] \<and> arriving ib' = []) \<and> (arriving ib = [] \<longrightarrow> gone = [] \<and> arriving ib' = [])"
proof -
  let ?signalled = "stop_armed ib \<and> (case stop_wins ib of [] \<Rightarrow> False | w # _ \<Rightarrow> w)"
  let ?cs = "if ?signalled then [] else arriving ib" and ?gone = "if ?signalled then concat (arriving ib) else []"
  obtain q cs where recv: "recv_many MAX_BATCH_MESSAGES (queued ib) ?cs = (batch, q, cs)"
    using assms by (auto simp: next_batch_def Let_def close_inbox_def split: prod.splits if_splits)
  have "queued ib' = q" "arriving ib' = cs" "refused ib' = refused ib @ ?gone"
    using assms recv by (auto simp: next_batch_def Let_def close_inbox_def split: prod.splits if_splits)
  then show ?thesis using recv_many_takes [OF recv]
    by (intro exI [of _ ?gone]) (auto simp: MAX_BATCH_MESSAGES_def split: if_splits)
qed

lemma next_batch_shrinks:
  assumes "next_batch ib = (batch, ib')" "batch \<noteq> []"
  shows "length (queued ib' @ concat (arriving ib')) < length (queued ib @ concat (arriving ib))"
proof -
  obtain gone where "queued ib @ concat (arriving ib) = batch @ queued ib' @ concat (arriving ib') @ gone"
    using next_batch_takes [OF assms(1)] by blast
  then have "length (queued ib @ concat (arriving ib)) = length (batch @ queued ib' @ concat (arriving ib') @ gone)"
    by simp
  then show ?thesis using assms(2) by (simp add: length_greater_0_conv [symmetric] del: length_greater_0_conv)
qed

text \<open>The loop of \<open>transactions\<close>: a delivery joins the last group while the group's bytes allow.\<close>

fun transactions_loop ::
  "(received_message \<times> handle) list list \<Rightarrow> nat \<Rightarrow> (received_message \<times> handle) list \<Rightarrow>
   (received_message \<times> handle) list list" where
  "transactions_loop groups group_bytes [] = groups"
| "transactions_loop groups group_bytes (d # ds) =
     (let sz = length (rm_raw (fst d)) in
      if groups \<noteq> [] \<and> group_bytes + sz \<le> MAX_BATCH_BYTES
      then transactions_loop (butlast groups @ [last groups @ [d]]) (group_bytes + sz) ds
      else transactions_loop (groups @ [[d]]) sz ds)"

definition transactions :: "(received_message \<times> handle) list \<Rightarrow> (received_message \<times> handle) list list" where
  "transactions ds = transactions_loop [] 0 ds"

subsection \<open>Storing a group\<close>

definition prepare :: "zstd \<Rightarrow> mime_lib \<Rightarrow> received_message \<Rightarrow> (storage_error, prepared_message) result" where
  "prepare Z M rm = prepared_parse Z M (rm_sender rm) (rm_recipients rm) (rm_raw rm)"

text \<open>The first loop of \<open>store_group\<close>: which messages are left to store, and their handles.\<close>

fun prepare_group ::
  "zstd \<Rightarrow> mime_lib \<Rightarrow> (received_message \<times> handle) list \<Rightarrow> 's ingest \<Rightarrow> (prepared_message \<times> handle) list \<times> 's ingest" where
  "prepare_group Z M [] g = ([], g)"
| "prepare_group Z M ((rm, h) # ds) g =
     (case look_abandoned h g of
        (True, g1) \<Rightarrow> prepare_group Z M ds g1
      | (False, g1) \<Rightarrow>
          (case prepare Z M rm of
             Inl e \<Rightarrow> prepare_group Z M ds (answer_ack Rejected h g1)
           | Inr pm \<Rightarrow> (case prepare_group Z M ds g1 of (kept, g2) \<Rightarrow> ((pm, h) # kept, g2))))"

definition reject_rest :: "(prepared_message \<times> handle) list \<Rightarrow> 's ingest \<Rightarrow> 's ingest" where
  "reject_rest pending g = answer_all Rejected (map snd pending) g"

fun store_one_by_one ::
  "(prepared_message \<Rightarrow> ('s, storage_error, message_summary) call) \<Rightarrow> (prepared_message \<times> handle) list \<Rightarrow>
   's ingest \<Rightarrow> message_summary list \<times> 's ingest" where
  "store_one_by_one ins_one [] g = ([], g)"
| "store_one_by_one ins_one ((pm, h) # pending) g =
     (case look_abandoned h g of
        (True, g1) \<Rightarrow> store_one_by_one ins_one pending g1
      | (False, g1) \<Rightarrow>
          (case look_late g1 of
             (True, g2) \<Rightarrow> ([], reject_rest pending (answer_ack Rejected h g2))
           | (False, g2) \<Rightarrow>
               (case ins_one pm (repo g2) of
                  (Inr sm, s) \<Rightarrow>
                    (case store_one_by_one ins_one pending
                            (announce [sm] (answer_ack Stored h (g2\<lparr>repo := s\<rparr>))) of
                       (sms, g3) \<Rightarrow> (sm # sms, g3))
                | (Inl e, s) \<Rightarrow>
                    if is_store_wide e then ([], reject_rest pending (answer_ack Rejected h (g2\<lparr>repo := s\<rparr>)))
                    else store_one_by_one ins_one pending (answer_ack Rejected h (g2\<lparr>repo := s\<rparr>)))))"

definition store_group ::
  "zstd \<Rightarrow> mime_lib \<Rightarrow> (prepared_message list \<Rightarrow> ('s, storage_error, message_summary list) call) \<Rightarrow>
   (prepared_message \<Rightarrow> ('s, storage_error, message_summary) call) \<Rightarrow>
   (received_message \<times> handle) list \<Rightarrow> 's ingest \<Rightarrow> message_summary list \<times> 's ingest" where
  "store_group Z M ins_batch ins_one grp g =
     (case prepare_group Z M grp g of
        (kept, g1) \<Rightarrow>
          if kept = [] then ([], g1)
          else case ins_batch (map fst kept) (repo g1) of
            (Inr sms, s) \<Rightarrow> (sms, announce sms (answer_all Stored (map snd kept) (g1\<lparr>repo := s\<rparr>)))
          | (Inl e, s) \<Rightarrow>
              if length kept = 1 \<or> is_store_wide e
              then ([], answer_all Rejected (map snd kept) (g1\<lparr>repo := s\<rparr>))
              else store_one_by_one ins_one kept (g1\<lparr>repo := s\<rparr>))"

fun store_groups ::
  "((received_message \<times> handle) list \<Rightarrow> 's ingest \<Rightarrow> message_summary list \<times> 's ingest) \<Rightarrow>
   (received_message \<times> handle) list list \<Rightarrow> 's ingest \<Rightarrow> message_summary list \<times> 's ingest" where
  "store_groups store [] g = ([], g)"
| "store_groups store (grp # grps) g =
     (case store grp g of
        (sms, g1) \<Rightarrow> (case store_groups store grps g1 of (sms', g2) \<Rightarrow> (sms @ sms', g2)))"

definition store_and_announce ::
  "zstd \<Rightarrow> mime_lib \<Rightarrow> (prepared_message list \<Rightarrow> ('s, storage_error, message_summary list) call) \<Rightarrow>
   (prepared_message \<Rightarrow> ('s, storage_error, message_summary) call) \<Rightarrow>
   (received_message \<times> handle) list \<Rightarrow> 's ingest \<Rightarrow> message_summary list \<times> 's ingest" where
  "store_and_announce Z M ins_batch ins_one ds g =
     store_groups (store_group Z M ins_batch ins_one) (transactions ds) g"

text \<open>
  The processor task of \<open>run_serve\<close>: batch after batch until none is left. It also returns the
  deliveries it took, batch by batch.
\<close>

function process_queue ::
  "((received_message \<times> handle) list \<Rightarrow> 's ingest \<Rightarrow> message_summary list \<times> 's ingest) \<Rightarrow>
   inbox \<Rightarrow> 's ingest \<Rightarrow> (received_message \<times> handle) list list \<times> message_summary list \<times> inbox \<times> 's ingest" where
  "process_queue process ib g =
     (case next_batch ib of
        (batch, ib1) \<Rightarrow>
          if batch = [] then ([], [], ib1, g)
          else (case process batch g of
                  (sms, g1) \<Rightarrow> (case process_queue process ib1 g1 of
                    (taken, sms', ib2, g2) \<Rightarrow> (batch # taken, sms @ sms', ib2, g2))))"
  by pat_completeness auto

termination
proof (relation "measure (\<lambda>(process, ib, g). length (queued ib @ concat (arriving ib)))", goal_cases)
  case (2 process ib g nb batch ib1)
  from next_batch_shrinks [of ib nb batch] 2 show ?case by simp
qed simp

declare process_queue.simps [simp del]

subsection \<open>How transactions split a batch\<close>

definition group_size :: "(received_message \<times> handle) list \<Rightarrow> nat" where
  "group_size grp = sum_list (map (\<lambda>d. length (rm_raw (fst d))) grp)"

definition group_fits :: "(received_message \<times> handle) list \<Rightarrow> bool" where
  "group_fits grp \<longleftrightarrow> grp \<noteq> [] \<and> (group_size grp \<le> MAX_BATCH_BYTES \<or> length grp = 1)"

lemma group_size_snoc [simp]: "group_size (grp @ [d]) = group_size grp + length (rm_raw (fst d))"
  by (simp add: group_size_def)

lemma transactions_loop_spec:
  assumes "\<forall>grp \<in> set groups. group_fits grp" "groups \<noteq> [] \<longrightarrow> group_bytes = group_size (last groups)"
  shows "concat (transactions_loop groups group_bytes ds) = concat groups @ ds \<and>
         (\<forall>grp \<in> set (transactions_loop groups group_bytes ds). group_fits grp)"
  using assms
proof (induction ds arbitrary: groups group_bytes)
  case (Cons d ds)
  let ?sz = "length (rm_raw (fst d))"
  show ?case
  proof (cases "groups \<noteq> [] \<and> group_bytes + ?sz \<le> MAX_BATCH_BYTES")
    case True
    then obtain gs grp where groups: "groups = gs @ [grp]" by (metis rev_exhaust)
    have b: "group_bytes = group_size grp" using Cons.prems(2) groups by simp
    have fits: "\<forall>g \<in> set (gs @ [grp @ [d]]). group_fits g"
      using Cons.prems(1) True groups b by (auto simp: group_fits_def)
    have "transactions_loop groups group_bytes (d # ds) =
          transactions_loop (gs @ [grp @ [d]]) (group_bytes + ?sz) ds" using True groups by (simp add: Let_def)
    then show ?thesis using Cons.IH [OF fits, of "group_bytes + ?sz"] b groups by simp
  next
    case False
    have fits: "\<forall>g \<in> set (groups @ [[d]]). group_fits g" using Cons.prems(1) by (auto simp: group_fits_def)
    have "transactions_loop groups group_bytes (d # ds) = transactions_loop (groups @ [[d]]) ?sz ds"
      using False by (auto simp: Let_def)
    then show ?thesis using Cons.IH [OF fits, of ?sz] by (simp add: group_size_def)
  qed
qed simp

text \<open>
  A batch is split into transactions that keep every delivery in arrival order, none of
  them empty, each at most \<open>MAX_BATCH_BYTES\<close> of raw mail unless it is a single message.
\<close>

theorem transactions_partition_the_batch:
  "concat (transactions ds) = ds \<and>
   list_all (\<lambda>grp. grp \<noteq> [] \<and> (group_size grp \<le> 4 * 1024 * 1024 \<or> length grp = 1)) (transactions ds)"
  using transactions_loop_spec [of "[]" 0 ds]
  by (auto simp: transactions_def group_fits_def MAX_BATCH_BYTES_def list_all_iff)

subsection \<open>What becomes of the channels\<close>

text \<open>
  A channel nobody answers can only lose its receiver. A set of handles is settled when each
  of them is answered (stored exactly when it is in the second set) or has no receiver left.
\<close>

definition may_leave :: "oneshot \<Rightarrow> oneshot \<Rightarrow> bool" where
  "may_leave c c' \<longleftrightarrow> c' = c \<or> c = Waiting \<and> c' = ReceiverDropped"

definition is_open :: "oneshot \<Rightarrow> bool" where
  "is_open c \<longleftrightarrow> c = Waiting \<or> c = ReceiverDropped"

definition settled :: "handle set \<Rightarrow> handle set \<Rightarrow> 's ingest \<Rightarrow> 's ingest \<Rightarrow> bool" where
  "settled A S g g' \<longleftrightarrow> S \<subseteq> A \<and>
     (\<forall>h. if h \<in> A then channels g' h = ReceiverDropped \<or>
                          channels g' h = Answered (if h \<in> S then Stored else Rejected)
          else may_leave (channels g h) (channels g' h))"

lemma depart_frame [simp]: "repo (depart g) = repo g" "announced (depart g) = announced g"
  "fallback_late (depart g) = fallback_late g"
  by (simp_all add: depart_def split: list.split)

lemma depart_channel: "may_leave (channels g h) (channels (depart g) h)"
  by (simp add: depart_def may_leave_def drop_receiver_def split: list.split)

lemma depart_settled: "settled {} {} g (depart g)"
  by (simp add: settled_def depart_channel)

lemma is_open_leave: "is_open c \<Longrightarrow> may_leave c c' \<Longrightarrow> is_open c'"
  by (auto simp: is_open_def may_leave_def)

lemma settled_Un:
  assumes "settled A S g g1" "settled B T g1 g2" "A \<inter> B = {}"
  shows "settled (A \<union> B) (S \<union> T) g g2"
  using assms unfolding settled_def may_leave_def by (smt (verit) Un_iff disjoint_iff oneshot.distinct subset_iff)

lemma settled_frame:
  "channels g' = channels g \<Longrightarrow> settled {} {} g g'"
  by (simp add: settled_def may_leave_def)

lemma settled_fields [simp]:
  "settled A S g (announce sms g') = settled A S g g'" "settled A S g (g'\<lparr>repo := s\<rparr>) = settled A S g g'"
  "settled A S (g\<lparr>repo := s\<rparr>) g' = settled A S g g'"
  by (simp_all add: settled_def announce_def split: if_split)

lemma announce_frame [simp]: "repo (announce sms g) = repo g" "announced (announce sms g) = announced g @ sms"
  by (simp_all add: announce_def)

lemma settled_open: "settled A S g g' \<Longrightarrow> h \<notin> A \<Longrightarrow> is_open (channels g h) \<Longrightarrow> is_open (channels g' h)"
  by (auto simp: settled_def intro: is_open_leave)

lemma settled_opens:
  "settled A S g g' \<Longrightarrow> A \<inter> B = {} \<Longrightarrow> \<forall>h \<in> B. is_open (channels g h) \<Longrightarrow> \<forall>h \<in> B. is_open (channels g' h)"
  using settled_open by blast

lemma settled_Waiting: "settled A S g g' \<Longrightarrow> h \<notin> A \<Longrightarrow> channels g' h = Waiting \<Longrightarrow> channels g h = Waiting"
  by (auto simp: settled_def may_leave_def split: if_splits)

lemma answer_ack_frame [simp]: "repo (answer_ack v h g) = repo g" "announced (answer_ack v h g) = announced g"
  "fallback_late (answer_ack v h g) = fallback_late g"
  by (simp_all add: answer_ack_def Let_def)

lemma answer_ack_settled:
  assumes "is_open (channels g h)"
  shows "settled {h} (if v = Stored then {h} else {}) g (answer_ack v h g)"
  using is_open_leave [OF assms depart_channel] depart_channel [of g]
  by (cases v) (auto simp: settled_def answer_ack_def Let_def answer_def is_open_def)

lemma answer_all_frame [simp]: "repo (answer_all v hs g) = repo g" "announced (answer_all v hs g) = announced g"
  "fallback_late (answer_all v hs g) = fallback_late g"
  by (induction hs arbitrary: g) (simp_all add: answer_all_def)

lemma answer_all_settled:
  assumes "distinct hs" "\<forall>h \<in> set hs. is_open (channels g h)"
  shows "settled (set hs) (if v = Stored then set hs else {}) g (answer_all v hs g)"
  using assms
proof (induction hs arbitrary: g)
  case Nil
  then show ?case by (simp add: answer_all_def settled_frame)
next
  case (Cons h hs)
  let ?g = "answer_ack v h g"
  have one: "settled {h} (if v = Stored then {h} else {}) g ?g" using Cons.prems by (simp add: answer_ack_settled)
  have "settled (set hs) (if v = Stored then set hs else {}) ?g (answer_all v hs ?g)"
  proof (rule Cons.IH)
    show "distinct hs" using Cons.prems(1) by simp
    show "\<forall>x \<in> set hs. is_open (channels ?g x)" using Cons.prems settled_opens [OF one, of "set hs"] by simp
  qed
  from settled_Un [OF one this] Cons.prems(1) show ?case by (cases v) (simp_all add: answer_all_def)
qed

lemma look_abandoned_True:
  "look_abandoned h g = (True, g') \<Longrightarrow> settled {h} {} g g' \<and> repo g' = repo g \<and> announced g' = announced g"
  using depart_channel [of g] by (auto simp: look_abandoned_def settled_def is_abandoned_def)

lemma look_abandoned_False:
  assumes "look_abandoned h g = (False, g')" "is_open (channels g h)"
  shows "settled {} {} g g' \<and> channels g' h = Waiting \<and> channels g h = Waiting \<and>
         repo g' = repo g \<and> announced g' = announced g"
  using assms is_open_leave [OF assms(2) depart_channel] depart_channel [of g h]
  by (auto simp: look_abandoned_def depart_settled is_abandoned_def is_open_def may_leave_def)

lemma look_late_frame:
  "look_late g = (b, g') \<Longrightarrow> channels g' = channels g \<and> repo g' = repo g \<and> announced g' = announced g"
  by (auto simp: look_late_def split: list.splits)

definition parsed_from :: "zstd \<Rightarrow> mime_lib \<Rightarrow> prepared_message \<times> handle \<Rightarrow> received_message \<times> handle \<Rightarrow> bool" where
  "parsed_from Z M p d \<longleftrightarrow> snd p = snd d \<and> prepare Z M (fst d) = Inr (fst p)"

text \<open>A list drawn from another: its elements come, in order, from some of the other's.\<close>

inductive drawn_from :: "('a \<Rightarrow> 'b \<Rightarrow> bool) \<Rightarrow> 'a list \<Rightarrow> 'b list \<Rightarrow> bool" for P where
  drawn_Nil: "drawn_from P [] []"
| drawn_skip: "drawn_from P ps ds \<Longrightarrow> drawn_from P ps (d # ds)"
| drawn_keep: "P p d \<Longrightarrow> drawn_from P ps ds \<Longrightarrow> drawn_from P (p # ps) (d # ds)"

inductive_cases drawn_ConsE: "drawn_from P ps (d # ds)"

lemma drawn_append: "drawn_from P ps ds \<Longrightarrow> drawn_from P ps' ds' \<Longrightarrow> drawn_from P (ps @ ps') (ds @ ds')"
  by (induction rule: drawn_from.induct) (auto intro: drawn_from.intros)

lemma drawn_None: "drawn_from P [] ds"
  by (induction ds) (auto intro: drawn_from.intros)

lemma drawn_subseq: "drawn_from P ps ds \<Longrightarrow> subseq qs ps \<Longrightarrow> drawn_from P qs ds"
proof (induction arbitrary: qs rule: drawn_from.induct)
  case (drawn_keep p d ps ds)
  from drawn_keep.prems show ?case
    by (cases rule: list_emb.cases) (use drawn_keep in \<open>auto intro: drawn_from.intros drawn_None\<close>)
next
  case drawn_Nil
  then show ?case by (cases qs) (auto intro: drawn_from.intros)
qed (auto intro: drawn_from.intros)

lemma drawn_picks: "drawn_from P ps ds \<Longrightarrow> \<exists>picked. subseq picked ds \<and> list_all2 P ps picked"
proof (induction rule: drawn_from.induct)
  case (drawn_keep p d ps ds)
  then obtain picked where "subseq picked ds" "list_all2 P ps picked" by blast
  with drawn_keep(1) show ?case by (intro exI [of _ "d # picked"]) simp
qed (auto intro: list_emb_Cons)

lemma parsed_handles: "drawn_from (parsed_from Z M) ps ds \<Longrightarrow> subseq (map snd ps) (map snd ds)"
  by (induction rule: drawn_from.induct) (auto simp: parsed_from_def)

lemma parsed_handles_subset: "drawn_from (parsed_from Z M) ps ds \<Longrightarrow> snd ` set ps \<subseteq> snd ` set ds"
  by (induction rule: drawn_from.induct) (auto simp: parsed_from_def)

lemma prepare_group_spec:
  assumes "prepare_group Z M ds g = (kept, g1)" "distinct (map snd ds)"
    and "\<forall>h \<in> snd ` set ds. is_open (channels g h)"
  shows "drawn_from (parsed_from Z M) kept ds \<and> repo g1 = repo g \<and> announced g1 = announced g \<and>
    settled (snd ` set ds - snd ` set kept) {} g g1 \<and> (\<forall>h \<in> snd ` set kept. channels g h = Waiting)"
  using assms
proof (induction ds arbitrary: g kept g1)
  case Nil
  then show ?case by (auto simp: settled_frame drawn_Nil)
next
  case (Cons d ds)
  obtain rm h where d: "d = (rm, h)" by fastforce
  obtain b gd where look: "look_abandoned h g = (b, gd)" by fastforce
  have new: "h \<notin> snd ` set ds" "distinct (map snd ds)" using Cons.prems(2) d by auto
  have skip: ?case if h: "settled {h} {} g g0" "repo g0 = repo g" "announced g0 = announced g"
    and run: "prepare_group Z M ds g0 = (kept, g1)" for g0
  proof -
    have op: "\<forall>x \<in> snd ` set ds. is_open (channels g0 x)"
      using settled_opens [OF h(1), of "snd ` set ds"] new(1) Cons.prems(3) by simp
    note ih = Cons.IH [OF run new(2) op]
    have sub: "snd ` set kept \<subseteq> snd ` set ds" using ih parsed_handles_subset by blast
    then have eq: "{h} \<union> (snd ` set ds - snd ` set kept) = snd ` set (d # ds) - snd ` set kept" using new(1) d by auto
    have "settled ({h} \<union> (snd ` set ds - snd ` set kept)) ({} \<union> {}) g g1"
      by (rule settled_Un [OF h(1)]) (use ih new(1) in auto)
    then have "settled (snd ` set (d # ds) - snd ` set kept) {} g g1" by (simp only: eq Un_empty_left)
    moreover have "\<forall>x \<in> snd ` set kept. channels g x = Waiting"
    proof
      fix x assume x: "x \<in> snd ` set kept"
      then have "x \<notin> {h}" "channels g0 x = Waiting" using ih sub new(1) by auto
      then show "channels g x = Waiting" by (rule settled_Waiting [OF h(1)])
    qed
    moreover have "drawn_from (parsed_from Z M) kept (d # ds)" by (rule drawn_skip [OF conjunct1 [OF ih]])
    moreover have "repo g1 = repo g" "announced g1 = announced g" using ih h(2,3) by simp_all
    ultimately show ?thesis by (intro conjI)
  qed
  show ?case
  proof (cases b)
    case True
    then have "look_abandoned h g = (True, gd)" using look by simp
    then show ?thesis using skip [of gd] look_abandoned_True [of h g gd] Cons.prems(1) d by simp
  next
    case False
    then have "look_abandoned h g = (False, gd)" using look by simp
    note gd = look_abandoned_False [OF this]
    then have h: "settled {} {} g gd" "channels gd h = Waiting" "channels g h = Waiting"
      "repo gd = repo g" "announced gd = announced g" using Cons.prems(3) d by auto
    show ?thesis
    proof (cases "prepare Z M rm")
      case (Inl e)
      have "settled ({} \<union> {h}) ({} \<union> {}) g (answer_ack Rejected h gd)"
        using settled_Un [OF h(1)] answer_ack_settled [of gd h Rejected] h(2) by (simp add: is_open_def)
      then show ?thesis using skip Cons.prems(1) d look False Inl h by simp
    next
      case (Inr pm)
      obtain kept' where kept: "kept = (pm, h) # kept'" and run: "prepare_group Z M ds gd = (kept', g1)"
        using Cons.prems(1) d look False Inr by (auto split: prod.splits)
      have op: "\<forall>x \<in> snd ` set ds. is_open (channels gd x)"
        using settled_opens [OF h(1), of "snd ` set ds"] Cons.prems(3) by simp
      note ih = Cons.IH [OF run new(2) op]
      have eq: "snd ` set (d # ds) - snd ` set kept = {} \<union> (snd ` set ds - snd ` set kept')" using new(1) d kept by auto
      have "settled ({} \<union> (snd ` set ds - snd ` set kept')) ({} \<union> {}) g g1"
        by (rule settled_Un [OF h(1)]) (use ih in auto)
      then have "settled (snd ` set (d # ds) - snd ` set kept) {} g g1" by (simp only: eq Un_empty_left)
      moreover have "drawn_from (parsed_from Z M) kept (d # ds)"
        unfolding kept d by (rule drawn_keep [OF _ conjunct1 [OF ih]]) (simp add: parsed_from_def Inr)
      moreover have "\<forall>x \<in> snd ` set kept. channels g x = Waiting"
        using ih h(3) kept settled_Waiting [OF h(1)] by auto
      moreover have "repo g1 = repo g" "announced g1 = announced g" using ih h(4,5) by simp_all
      ultimately show ?thesis by (intro conjI)
    qed
  qed
qed

subsection \<open>The interface to the repository\<close>

text \<open>
  What storing some deliveries comes to: the store grew by the chosen messages, they are
  announced, every handle is settled, and the chosen ones had a session waiting.
\<close>

definition outcome ::
  "(prepared_message list \<Rightarrow> message_summary list \<Rightarrow> 's \<Rightarrow> 's \<Rightarrow> bool) \<Rightarrow> handle set \<Rightarrow>
   (prepared_message \<times> handle) list \<Rightarrow> message_summary list \<Rightarrow> 's ingest \<Rightarrow> 's ingest \<Rightarrow> bool" where
  "outcome grows A sel sms g g' \<longleftrightarrow>
     grows (map fst sel) sms (repo g) (repo g') \<and> announced g' = announced g @ sms \<and>
     settled A (snd ` set sel) g g' \<and> (\<forall>h \<in> snd ` set sel. channels g h = Waiting)"

locale message_store =
  fixes ins_batch :: "prepared_message list \<Rightarrow> ('s, storage_error, message_summary list) call"
    and ins_one :: "prepared_message \<Rightarrow> ('s, storage_error, message_summary) call"
    and grows :: "prepared_message list \<Rightarrow> message_summary list \<Rightarrow> 's \<Rightarrow> 's \<Rightarrow> bool"
  assumes batch_ok: "ins_batch pms s = (Inr sms, s') \<Longrightarrow> grows pms sms s s'"
    and batch_err: "ins_batch pms s = (Inl e, s') \<Longrightarrow> grows [] [] s s'"
    and one_ok: "ins_one pm s = (Inr sm, s') \<Longrightarrow> grows [pm] [sm] s s'"
    and one_err: "ins_one pm s = (Inl e, s') \<Longrightarrow> grows [] [] s s'"
    and grows_refl: "grows [] [] s s"
    and grows_append: "grows pms sms s s1 \<Longrightarrow> grows pms' sms' s1 s2 \<Longrightarrow> grows (pms @ pms') (sms @ sms') s s2"
begin

lemma outcome_append:
  assumes "outcome grows A sel sms g g1" "outcome grows B sel' sms' g1 g2" "A \<inter> B = {}"
  shows "outcome grows (A \<union> B) (sel @ sel') (sms @ sms') g g2"
proof -
  have a: "grows (map fst sel) sms (repo g) (repo g1)" "announced g1 = announced g @ sms"
    "settled A (snd ` set sel) g g1" "\<forall>h \<in> snd ` set sel. channels g h = Waiting"
    using assms(1) by (auto simp: outcome_def)
  have b: "grows (map fst sel') sms' (repo g1) (repo g2)" "announced g2 = announced g1 @ sms'"
    "settled B (snd ` set sel') g1 g2" "\<forall>h \<in> snd ` set sel'. channels g1 h = Waiting"
    using assms(2) by (auto simp: outcome_def)
  have "snd ` set sel' \<subseteq> B" using b(3) by (simp add: settled_def)
  then have "\<forall>h \<in> snd ` set sel'. channels g h = Waiting" using b(4) settled_Waiting [OF a(3)] assms(3) by blast
  then show ?thesis
    using grows_append [OF a(1) b(1)] a(2,4) b(2) settled_Un [OF a(3) b(3) assms(3)]
    unfolding outcome_def by (auto simp: image_Un)
qed

lemma outcome_quiet:
  assumes "grows [] [] (repo g) (repo g')" "announced g' = announced g" "settled A {} g g'"
  shows "outcome grows A [] [] g g'"
  using assms by (simp add: outcome_def)

text \<open>One pending message settled, then the rest.\<close>

lemma one_then_rest:
  assumes o: "outcome grows {snd p} sel0 sms0 g g0" and sub: "subseq sel0 [p]"
    and dist: "distinct (map snd (p # pending))" and op: "\<forall>h \<in> snd ` set pending. is_open (channels g h)"
    and ih: "\<forall>h \<in> snd ` set pending. is_open (channels g0 h) \<Longrightarrow>
               \<exists>sel. subseq sel pending \<and> outcome grows (snd ` set pending) sel sms1 g0 g'"
  shows "\<exists>sel. subseq sel (p # pending) \<and> outcome grows (snd ` set (p # pending)) sel (sms0 @ sms1) g g'"
proof -
  have new: "{snd p} \<inter> snd ` set pending = {}" using dist by auto
  have "\<forall>h \<in> snd ` set pending. is_open (channels g0 h)"
    using o op new settled_opens [of "{snd p}" "snd ` set sel0" g g0 "snd ` set pending"] by (simp add: outcome_def)
  from ih [OF this] obtain sel where sel: "subseq sel pending"
    "outcome grows (snd ` set pending) sel sms1 g0 g'" by blast
  have "subseq (sel0 @ sel) ([p] @ pending)" by (rule list_emb_append_mono) (use sub sel in auto)
  then show ?thesis using outcome_append [OF o sel(2) new] by auto
qed

lemma reject_pending_outcome:
  assumes "settled {} {} g g2" "grows [] [] (repo g) (repo g2)" "announced g2 = announced g"
    and "distinct (map snd (p # pending))" "\<forall>h \<in> snd ` set (p # pending). is_open (channels g h)"
  shows "outcome grows (snd ` set (p # pending)) [] [] g (reject_rest pending (answer_ack Rejected (snd p) g2))"
proof (rule outcome_quiet)
  have "settled (set (map snd (p # pending))) {} g2 (answer_all Rejected (map snd (p # pending)) g2)"
    using answer_all_settled [of "map snd (p # pending)" g2 Rejected] assms(4,5)
      settled_opens [OF assms(1), of "snd ` set (p # pending)"] by auto
  from settled_Un [OF assms(1) this]
  show "settled (snd ` set (p # pending)) {} g (reject_rest pending (answer_ack Rejected (snd p) g2))"
    by (simp add: reject_rest_def answer_all_def)
qed (use assms in \<open>simp_all add: reject_rest_def\<close>)

lemma answered_outcome:
  assumes "settled {} {} g g2" "channels g h = Waiting" "channels g2 h = Waiting" "announced g2 = announced g"
  shows "grows [] [] (repo g) s \<Longrightarrow> outcome grows {h} [] [] g (answer_ack Rejected h (g2\<lparr>repo := s\<rparr>))"
    and "grows [pm] [sm] (repo g) s \<Longrightarrow>
         outcome grows {h} [(pm, h)] [sm] g (announce [sm] (answer_ack Stored h (g2\<lparr>repo := s\<rparr>)))"
proof -
  have "settled {} {} g (g2\<lparr>repo := s\<rparr>)" using assms(1) by simp
  from settled_Un [OF this answer_ack_settled [of "g2\<lparr>repo := s\<rparr>" h]]
  have ack: "settled {h} (if v = Stored then {h} else {}) g (answer_ack v h (g2\<lparr>repo := s\<rparr>))" for v
    using assms(3) by (simp add: is_open_def)
  show "outcome grows {h} [] [] g (answer_ack Rejected h (g2\<lparr>repo := s\<rparr>))" if "grows [] [] (repo g) s"
    using that assms(4) ack [of Rejected] by (intro outcome_quiet) auto
  show "outcome grows {h} [(pm, h)] [sm] g (announce [sm] (answer_ack Stored h (g2\<lparr>repo := s\<rparr>)))"
    if "grows [pm] [sm] (repo g) s"
    using that assms(2,4) ack [of Stored] by (simp add: outcome_def)
qed

lemma store_one_by_one_outcome:
  assumes "store_one_by_one ins_one pending g = (sms, g')" "distinct (map snd pending)"
    and "\<forall>h \<in> snd ` set pending. is_open (channels g h)"
  shows "\<exists>sel. subseq sel pending \<and> outcome grows (snd ` set pending) sel sms g g'"
  using assms
proof (induction pending arbitrary: g sms g')
  case Nil
  then show ?case by (auto intro!: outcome_quiet grows_refl settled_frame)
next
  case (Cons p pending)
  obtain pm h where p: "p = (pm, h)" by fastforce
  obtain b gd where look: "look_abandoned h g = (b, gd)" by fastforce
  obtain late g2 where late: "look_late gd = (late, g2)" by fastforce
  obtain r s where ins: "ins_one pm (repo g2) = (r, s)" by fastforce
  have dist: "distinct (map snd pending)" "\<forall>h \<in> snd ` set pending. is_open (channels g h)"
    using Cons.prems(2,3) by auto
  have rest: "\<exists>sel. subseq sel (p # pending) \<and> outcome grows (snd ` set (p # pending)) sel (sms0 @ sms1) g g'"
    if "outcome grows {h} sel0 sms0 g g0" "subseq sel0 [p]" "store_one_by_one ins_one pending g0 = (sms1, g')"
    for sel0 sms0 sms1 g0
    using one_then_rest [OF _ that(2) Cons.prems(2) dist(2) Cons.IH [OF that(3) dist(1)]] that(1) p by simp
  show ?case
  proof (cases b)
    case True
    then have "settled {h} {} g gd" "repo gd = repo g" "announced gd = announced g"
      using look_abandoned_True look by auto
    then have "outcome grows {h} [] [] g gd" using grows_refl by (intro outcome_quiet) auto
    then show ?thesis using rest [of "[]" "[]" gd sms] Cons.prems(1) p look True by simp
  next
    case False
    then have "look_abandoned h g = (False, gd)" using look by simp
    note gd = look_abandoned_False [OF this]
    have g2: "settled {} {} g g2" "channels g h = Waiting" "channels g2 h = Waiting"
      "repo g2 = repo g" "announced g2 = announced g"
      using look_late_frame [OF late] gd Cons.prems(3) p by (auto simp: settled_def)
    then have g2s: "settled {} {} g (g2\<lparr>repo := s\<rparr>)" by simp
    note answered = answered_outcome [OF g2(1-3,5)]
    note rejected = reject_pending_outcome [OF _ _ _ Cons.prems(2,3)]
    consider "late" | e where "\<not> late" "r = Inl e" "is_store_wide e"
      | e where "\<not> late" "r = Inl e" "\<not> is_store_wide e" | sm where "\<not> late" "r = Inr sm"
      by (cases r) auto
    then show ?thesis
    proof cases
      case 1
      then show ?thesis using rejected [of g2] g2 grows_refl Cons.prems(1) p look False late
        by (intro exI [of _ "[]"]) simp
    next
      case (2 e)
      then have "grows [] [] (repo g) s" using one_err ins g2(4) by metis
      then show ?thesis using rejected [OF g2s] 2 g2 ins Cons.prems(1) p look False late
        by (intro exI [of _ "[]"]) simp
    next
      case (3 e)
      then have "grows [] [] (repo g) s" using one_err ins g2(4) by metis
      from rest [OF answered(1) [OF this], of sms] 3 show ?thesis
        using ins Cons.prems(1) p look False late by simp
    next
      case (4 sm)
      then have "grows [pm] [sm] (repo g) s" using one_ok ins g2(4) by metis
      from rest [OF answered(2) [OF this]] 4 show ?thesis
        using ins Cons.prems(1) p look False late by (auto split: prod.splits)
    qed
  qed
qed

lemma store_group_outcome:
  assumes run: "store_group Z M ins_batch ins_one grp g = (sms, g')" and dist: "distinct (map snd grp)"
    and op: "\<forall>h \<in> snd ` set grp. is_open (channels g h)"
  shows "\<exists>sel. drawn_from (parsed_from Z M) sel grp \<and> outcome grows (snd ` set grp) sel sms g g'"
proof -
  obtain kept g1 where kept: "prepare_group Z M grp g = (kept, g1)" by fastforce
  note prep = prepare_group_spec [OF kept dist op]
  have d: "drawn_from (parsed_from Z M) kept grp" and quiet: "repo g1 = repo g" "announced g1 = announced g"
    and s: "settled (snd ` set grp - snd ` set kept) {} g g1"
    and w: "\<forall>h \<in> snd ` set kept. channels g h = Waiting" using prep by auto
  have hs: "distinct (map snd kept)" "snd ` set kept \<subseteq> snd ` set grp"
    using subseq_distinct [OF parsed_handles [OF d] dist] parsed_handles_subset [OF d] by auto
  then have split: "snd ` set grp = (snd ` set grp - snd ` set kept) \<union> snd ` set kept" by auto
  have op1: "\<forall>h \<in> snd ` set kept. is_open (channels g1 h)"
    by (rule settled_opens [OF s]) (use w in \<open>auto simp: is_open_def\<close>)
  have whole: "outcome grows (snd ` set grp) sel sms g g'"
    if "settled (snd ` set kept) (snd ` set sel) g1 g'" "set sel \<subseteq> set kept"
      "grows (map fst sel) sms (repo g) (repo g')" "announced g' = announced g @ sms" for sel
  proof -
    have "settled ((snd ` set grp - snd ` set kept) \<union> snd ` set kept) ({} \<union> snd ` set sel) g g'"
      by (rule settled_Un [OF s that(1)]) auto
    then have "settled (snd ` set grp) (snd ` set sel) g g'" by (simp only: Un_empty_left split [symmetric])
    moreover have "\<forall>h \<in> snd ` set sel. channels g h = Waiting" using that(2) w by blast
    ultimately show ?thesis using that(3,4) unfolding outcome_def by (intro conjI)
  qed
  have answered: "settled (snd ` set kept) (if v = Stored then snd ` set kept else {}) g1
      (answer_all v (map snd kept) (g1\<lparr>repo := st\<rparr>))" for v st
    using settled_Un [of "{}" "{}" g1 "g1\<lparr>repo := st\<rparr>"] settled_frame [of "g1\<lparr>repo := st\<rparr>" g1]
      answer_all_settled [of "map snd kept" "g1\<lparr>repo := st\<rparr>" v] hs(1) op1 by auto
  obtain r st where ins: "ins_batch (map fst kept) (repo g1) = (r, st)" by fastforce
  consider "kept = []" | summaries where "kept \<noteq> []" "r = Inr summaries"
    | e where "kept \<noteq> []" "r = Inl e" "length kept = 1 \<or> is_store_wide e"
    | e where "kept \<noteq> []" "r = Inl e" "\<not> (length kept = 1 \<or> is_store_wide e)"
    by (cases r) auto
  then show ?thesis
  proof cases
    case 1
    have "sms = []" "g' = g1" using run kept 1 by (auto simp: store_group_def)
    then have "outcome grows (snd ` set grp) [] sms g g'"
      using 1 s quiet grows_refl by (simp add: outcome_def)
    then show ?thesis using drawn_None by blast
  next
    case (2 summaries)
    have g': "sms = summaries" "g' = announce summaries (answer_all Stored (map snd kept) (g1\<lparr>repo := st\<rparr>))"
      using run kept ins 2 by (auto simp: store_group_def)
    then have "outcome grows (snd ` set grp) kept sms g g'"
      using batch_ok [OF ins [unfolded 2(2)]] quiet answered [of Stored st] by (intro whole) simp_all
    then show ?thesis using d by blast
  next
    case (3 e)
    have g': "sms = []" "g' = answer_all Rejected (map snd kept) (g1\<lparr>repo := st\<rparr>)"
      using run kept ins 3 by (auto simp: store_group_def)
    then have "outcome grows (snd ` set grp) [] sms g g'"
      using batch_err [OF ins [unfolded 3(2)]] quiet answered [of Rejected st] by (intro whole) simp_all
    then show ?thesis using drawn_None by blast
  next
    case (4 e)
    then have "store_one_by_one ins_one kept (g1\<lparr>repo := st\<rparr>) = (sms, g')"
      using run kept ins by (auto simp: store_group_def)
    from store_one_by_one_outcome [OF this hs(1)] op1 obtain sel where sel: "subseq sel kept"
      "outcome grows (snd ` set kept) sel sms (g1\<lparr>repo := st\<rparr>) g'" by auto
    have "grows ([] @ map fst sel) ([] @ sms) (repo g) (repo g')"
      using grows_append [OF batch_err [OF ins [unfolded 4(2)]]] sel(2) quiet(1) by (simp add: outcome_def)
    moreover have "settled (snd ` set kept) (snd ` set sel) g1 g'" using sel(2) by (simp add: outcome_def)
    ultimately have "outcome grows (snd ` set grp) sel sms g g'"
      using subseq_set [OF sel(1)] sel(2) quiet(2) by (intro whole) (simp_all add: outcome_def)
    then show ?thesis using drawn_subseq [OF d sel(1)] by blast
  qed
qed

lemma store_groups_outcome:
  assumes "store_groups (store_group Z M ins_batch ins_one) grps g = (sms, g')" "distinct (map snd (concat grps))"
    and "\<forall>h \<in> snd ` set (concat grps). is_open (channels g h)"
  shows "\<exists>sel. drawn_from (parsed_from Z M) sel (concat grps) \<and> outcome grows (snd ` set (concat grps)) sel sms g g'"
  using assms
proof (induction grps arbitrary: g sms g')
  case Nil
  then show ?case by (auto intro!: exI [of _ "[]"] drawn_Nil outcome_quiet grows_refl settled_frame)
next
  case (Cons grp grps)
  obtain sms1 g1 where one: "store_group Z M ins_batch ins_one grp g = (sms1, g1)" by fastforce
  obtain sms2 where rest: "store_groups (store_group Z M ins_batch ins_one) grps g1 = (sms2, g')" "sms = sms1 @ sms2"
    using Cons.prems(1) one by (auto split: prod.splits)
  have new: "snd ` set grp \<inter> snd ` set (concat grps) = {}" "distinct (map snd grp)" "distinct (map snd (concat grps))"
    using Cons.prems(2) by auto
  obtain sel1 where sel1: "drawn_from (parsed_from Z M) sel1 grp" "outcome grows (snd ` set grp) sel1 sms1 g g1"
    using store_group_outcome [OF one new(2)] Cons.prems(3) by auto
  have "\<forall>h \<in> snd ` set (concat grps). is_open (channels g1 h)"
    by (rule settled_opens [OF _ new(1)]) (use sel1(2) Cons.prems(3) in \<open>auto simp: outcome_def\<close>)
  from Cons.IH [OF rest(1) new(3) this] obtain sel2 where
    sel2: "drawn_from (parsed_from Z M) sel2 (concat grps)" "outcome grows (snd ` set (concat grps)) sel2 sms2 g1 g'" by blast
  show ?case
    using drawn_append [OF sel1(1) sel2(1)] outcome_append [OF sel1(2) sel2(2) new(1)] rest(2)
    by (auto simp: image_Un)
qed

lemma process_queue_outcome:
  assumes "process_queue (store_and_announce Z M ins_batch ins_one) ib g = (taken, sms, ib', g')"
    and "distinct (map snd (concat taken))" "\<forall>h \<in> snd ` set (concat taken). is_open (channels g h)"
  shows "\<exists>sel. drawn_from (parsed_from Z M) sel (concat taken) \<and> outcome grows (snd ` set (concat taken)) sel sms g g'"
  using assms
proof (induction taken arbitrary: ib g sms)
  case Nil
  then have "sms = []" "g' = g"
    by (auto simp: process_queue.simps [of _ ib] split: prod.splits if_splits)
  then show ?case by (auto intro!: exI [of _ "[]"] drawn_Nil outcome_quiet grows_refl settled_frame)
next
  case (Cons batch taken)
  obtain ib1 sms1 g1 sms2 where
    run: "store_and_announce Z M ins_batch ins_one batch g = (sms1, g1)"
    and rest: "process_queue (store_and_announce Z M ins_batch ins_one) ib1 g1 = (taken, sms2, ib', g')" "sms = sms1 @ sms2"
    using Cons.prems(1)
    by (auto simp: process_queue.simps [of _ ib] split: prod.splits if_splits)
  then have one: "store_groups (store_group Z M ins_batch ins_one) (transactions batch) g = (sms1, g1)"
    by (simp add: store_and_announce_def)
  have batch: "concat (transactions batch) = batch"
    using transactions_loop_spec [of "[]" 0 batch] by (simp add: transactions_def)
  have new: "snd ` set batch \<inter> snd ` set (concat taken) = {}" "distinct (map snd batch)"
    "distinct (map snd (concat taken))" using Cons.prems(2) by auto
  obtain sel1 where sel1: "drawn_from (parsed_from Z M) sel1 batch" "outcome grows (snd ` set batch) sel1 sms1 g g1"
    using store_groups_outcome [OF one] batch new(2) Cons.prems(3) by auto
  have "\<forall>h \<in> snd ` set (concat taken). is_open (channels g1 h)"
    by (rule settled_opens [OF _ new(1)]) (use sel1(2) Cons.prems(3) in \<open>auto simp: outcome_def\<close>)
  from Cons.IH [OF rest(1) new(3) this] obtain sel2 where
    sel2: "drawn_from (parsed_from Z M) sel2 (concat taken)" "outcome grows (snd ` set (concat taken)) sel2 sms2 g1 g'" by blast
  show ?case
    using drawn_append [OF sel1(1) sel2(1)] outcome_append [OF sel1(2) sel2(2) new(1)] rest(2)
    by (auto simp: image_Un)
qed

end

text \<open>Storing through the repository: the tables grow by the chosen messages and nothing else.\<close>

definition repo_grows :: "prepared_message list \<Rightarrow> message_summary list \<Rightarrow> store \<Rightarrow> store \<Rightarrow> bool" where
  "repo_grows pms sms st st' \<longleftrightarrow> batch_stored pms (tables st) sms (tables st')"

interpretation repository: message_store "insert_batch S" "insert_prepared S" repo_grows for S
proof
  fix pms st sms st' e pm sm st1 pms' sms' st2
  show "insert_batch S pms st = (Inr sms, st') \<Longrightarrow> repo_grows pms sms st st'"
    unfolding insert_batch_def repo_grows_def
    by (auto split: if_splits simp: sret_def batch_stored_Nil dest: batch.retry_succeeds)
  show "insert_batch S pms st = (Inl e, st') \<Longrightarrow> repo_grows [] [] st st'"
    unfolding insert_batch_def repo_grows_def
    by (auto split: if_splits simp: sret_def batch_stored_Nil dest: batch.retry_fails_clean)
  show "insert_prepared S pm st = (Inr sm, st') \<Longrightarrow> repo_grows [pm] [sm] st st'"
    unfolding insert_prepared_def repo_grows_def by (rule one.retry_succeeds)
  show "insert_prepared S pm st = (Inl e, st') \<Longrightarrow> repo_grows [] [] st st'"
    unfolding insert_prepared_def repo_grows_def using one.retry_fails_clean by (metis batch_stored_Nil)
qed (simp_all add: repo_grows_def batch_stored_Nil batch_stored_append)

lemma process_queue_takes:
  "process_queue process ib g = (taken, sms, ib', g') \<Longrightarrow>
     \<exists>gone. refused ib' = refused ib @ gone \<and> concat taken @ gone = queued ib @ concat (arriving ib) \<and>
       (arriving ib = [] \<longrightarrow> gone = []) \<and>
       list_all (\<lambda>batch. batch \<noteq> [] \<and> length batch \<le> MAX_BATCH_MESSAGES) taken"
proof (induction process ib g arbitrary: taken sms ib' g' rule: process_queue.induct)
  case (1 process ib g)
  obtain batch ib1 where nb: "next_batch ib = (batch, ib1)" by fastforce
  obtain gone where gone: "refused ib1 = refused ib @ gone"
    "queued ib @ concat (arriving ib) = batch @ queued ib1 @ concat (arriving ib1) @ gone"
    "length batch \<le> MAX_BATCH_MESSAGES" "gone = [] \<or> arriving ib1 = []"
    "batch = [] \<longrightarrow> queued ib1 = [] \<and> arriving ib1 = []" "arriving ib = [] \<longrightarrow> gone = [] \<and> arriving ib1 = []"
    using next_batch_takes [OF nb] by blast
  show ?case
  proof (cases "batch = []")
    case True
    then have "taken = []" "ib' = ib1" using "1.prems" nb by (simp_all add: process_queue.simps [of process ib])
    then show ?thesis using gone True by simp
  next
    case False
    obtain sms1 g1 where p: "process batch g = (sms1, g1)" by fastforce
    obtain taken' sms' where q: "process_queue process ib1 g1 = (taken', sms', ib', g')" "taken = batch # taken'"
      using "1.prems" nb False p by (auto simp: process_queue.simps [of process ib] split: prod.splits)
    from "1.IH" [OF nb [symmetric] False p [symmetric] q(1)] obtain more where
      more: "refused ib' = refused ib1 @ more" "concat taken' @ more = queued ib1 @ concat (arriving ib1)"
      "arriving ib1 = [] \<longrightarrow> more = []" "list_all (\<lambda>batch. batch \<noteq> [] \<and> length batch \<le> MAX_BATCH_MESSAGES) taken'"
      by blast
    then show ?thesis using gone q(2) False by (intro exI [of _ "gone @ more"]) auto
  qed
qed

lemma picked_handles:
  assumes "list_all2 (parsed_from Z M) sel picked" "subseq picked ds" "distinct (map snd ds)" "d \<in> set ds"
  shows "snd d \<in> snd ` set sel \<longleftrightarrow> d \<in> set picked"
proof -
  have "map snd sel = map snd picked" using assms(1) by (induction rule: list_all2_induct) (auto simp: parsed_from_def)
  then have "snd ` set sel = snd ` set picked" by (metis list.set_map)
  moreover have "inj_on snd (set ds)" using assms(3) by (simp add: distinct_map)
  ultimately show ?thesis using subseq_set [OF assms(2)] assms(4) by (auto dest: inj_onD)
qed

text \<open>
  C1. What a \<open>250\<close> means. However sessions come and go, whatever the store answers, once the
  processor has drained its queue there is a choice of the deliveries it took, in arrival
  order, whose parsed messages are exactly what the tables gained and what was announced to
  WebSocket clients; each chosen delivery is answered \<open>Stored\<close> and each other one
  \<open>Rejected\<close>, unless its session had stopped waiting; none is left without an answer, and a
  delivery whose session had gone before is never chosen.
\<close>

theorem every_delivery_is_settled:
  assumes "process_queue (store_and_announce Z M (insert_batch S) (insert_prepared S)) ib g = (taken, sms, ib', g')"
    and "distinct (map snd (queued ib @ concat (arriving ib)))"
    and "\<forall>d \<in> set (queued ib @ concat (arriving ib)). channels g (snd d) \<in> {Waiting, ReceiverDropped}"
  shows "\<exists>sel picked. subseq picked (concat taken) \<and> list_all2 (parsed_from Z M) sel picked \<and>
    batch_stored (map fst sel) (tables (repo g)) sms (tables (repo g')) \<and> announced g' = announced g @ sms \<and>
    (\<forall>d \<in> set (concat taken). channels g' (snd d) = ReceiverDropped \<or>
       channels g' (snd d) = Answered (if d \<in> set picked then Stored else Rejected)) \<and>
    (\<forall>d \<in> set picked. channels g (snd d) = Waiting)"
proof -
  obtain gone where gone: "concat taken @ gone = queued ib @ concat (arriving ib)"
    using process_queue_takes [OF assms(1)] by blast
  have ds: "distinct (map snd (concat taken))" using assms(2) gone [symmetric] by simp
  have "\<forall>h \<in> snd ` set (concat taken). is_open (channels g h)"
    using assms(3) gone [symmetric] by (auto simp: is_open_def)
  from repository.process_queue_outcome [OF assms(1) ds this] obtain sel where
    sel: "drawn_from (parsed_from Z M) sel (concat taken)"
    "outcome repo_grows (snd ` set (concat taken)) sel sms g g'" by blast
  obtain picked where picked: "subseq picked (concat taken)" "list_all2 (parsed_from Z M) sel picked"
    using drawn_picks [OF sel(1)] by blast
  note same = picked_handles [OF picked(2,1) ds]
  have "channels g' (snd d) = ReceiverDropped \<or>
      channels g' (snd d) = Answered (if d \<in> set picked then Stored else Rejected)" if "d \<in> set (concat taken)" for d
    using sel(2) same [OF that] that unfolding outcome_def settled_def by (metis image_eqI)
  moreover have "channels g (snd d) = Waiting" if "d \<in> set picked" for d
    using sel(2) same [of d] subseq_set [OF picked(1)] that unfolding outcome_def by blast
  ultimately show ?thesis using picked sel(2) unfolding outcome_def repo_grows_def by blast
qed

definition plain_delivery :: "handle \<Rightarrow> received_message \<times> handle" where
  "plain_delivery h = (\<lparr>rm_sender = ''a'', rm_recipients = [''b''], rm_raw = ''Hi''\<rparr>, h)"

definition plain_ingest :: "store ingest" where
  "plain_ingest = \<lparr>repo = plain_store, channels = (\<lambda>h. if h = 1 then ReceiverDropped else Waiting),
     announced = [], leaving = [], fallback_late = []\<rparr>"

definition plain_inbox :: inbox where
  "plain_inbox = \<lparr>queued = [plain_delivery 0, plain_delivery 1], arriving = [[], [plain_delivery 2]], refused = [],
     stop_armed = True, stop_wins = [False, True]\<rparr>"

theorem every_delivery_is_settled_witness:
  "\<exists>taken sms ib' g'. process_queue (store_and_announce plain_zstd plain_mime (insert_batch plain_sql) (insert_prepared plain_sql))
       plain_inbox plain_ingest = (taken, sms, ib', g') \<and>
     (\<forall>d \<in> set (concat taken). channels g' (snd d) \<noteq> Waiting)"
proof -
  obtain taken sms ib' g' where run: "process_queue
      (store_and_announce plain_zstd plain_mime (insert_batch plain_sql) (insert_prepared plain_sql))
      plain_inbox plain_ingest = (taken, sms, ib', g')" using prod_cases4 by blast
  have "\<forall>d \<in> set (concat taken). channels g' (snd d) \<noteq> Waiting"
    using every_delivery_is_settled [OF run] by (fastforce simp: plain_inbox_def plain_ingest_def plain_delivery_def)
  with run show ?thesis by blast
qed

text \<open>
  The processor loses nothing: the deliveries it took, batch after batch, followed by those
  whose hand-over it refused after the stop signal, are the queued and arriving deliveries in
  their order; no batch is empty or larger than \<open>MAX_BATCH_MESSAGES\<close>.
\<close>

theorem processor_drains_the_queue:
  "case process_queue process ib g of (taken, sms, ib', g') \<Rightarrow>
     \<exists>gone. refused ib' = refused ib @ gone \<and> concat taken @ gone = queued ib @ concat (arriving ib) \<and>
       list_all (\<lambda>batch. batch \<noteq> [] \<and> length batch \<le> 32) taken"
  using process_queue_takes [of process ib g] by (auto simp: MAX_BATCH_MESSAGES_def split: prod.split)

definition answered_alone ::
  "(prepared_message \<Rightarrow> bool) \<Rightarrow> (prepared_message \<times> handle) list \<Rightarrow> 's ingest \<Rightarrow> message_summary list \<times> 's ingest \<Rightarrow> bool" where
  "answered_alone bad pending g r \<longleftrightarrow>
     (\<forall>h. h \<notin> snd ` set pending \<longrightarrow> channels (snd r) h = channels g h) \<and>
     (\<forall>p \<in> set pending. channels (snd r) (snd p) = Answered (if bad (fst p) then Rejected else Stored)) \<and>
     length (fst r) = length (filter (\<lambda>p. \<not> bad (fst p)) pending)"

lemma answered_alone_Cons:
  assumes "answered_alone bad pending g' r" "channels g' = (channels g)(h := Answered (if bad pm then Rejected else Stored))"
    and "h \<notin> snd ` set pending" "sms = (if bad pm then fst r else sm # fst r)"
  shows "answered_alone bad ((pm, h) # pending) g (sms, snd r)"
  using assms by (auto simp: answered_alone_def)

lemma one_by_one_answered_alone:
  assumes "leaving g = []" "fallback_late g = []" "distinct (map snd pending)"
    and "\<forall>h \<in> set (map snd pending). channels g h = Waiting"
    and bad: "\<And>pm s. bad pm \<Longrightarrow> \<exists>e s'. ins_one pm s = (Inl e, s') \<and> \<not> is_store_wide e"
    and good: "\<And>pm s. \<not> bad pm \<Longrightarrow> \<exists>sm s'. ins_one pm s = (Inr sm, s')"
  shows "answered_alone bad pending g (store_one_by_one ins_one pending g)"
  using assms(1-4)
proof (induction pending arbitrary: g)
  case Nil
  then show ?case by (simp add: answered_alone_def)
next
  case (Cons p pending)
  obtain pm h where p: "p = (pm, h)" by fastforce
  have here: "look_abandoned h g = (False, g)" "look_late g = (False, g)"
    using Cons.prems p by (simp_all add: look_abandoned_def depart_def is_abandoned_def look_late_def)
  have new: "h \<notin> snd ` set pending" "distinct (map snd pending)" using Cons.prems(3) p by auto
  have ack: "leaving (answer_ack v h (g\<lparr>repo := s\<rparr>)) = []" "fallback_late (answer_ack v h (g\<lparr>repo := s\<rparr>)) = []"
      "channels (answer_ack v h (g\<lparr>repo := s\<rparr>)) = (channels g)(h := Answered v)" for v s
    using Cons.prems p by (simp_all add: answer_ack_def depart_def answer_def)
  then have wait: "\<forall>x \<in> set (map snd pending). channels (answer_ack v h (g\<lparr>repo := s\<rparr>)) x = Waiting" for v s
    using Cons.prems(4) new(1) by auto
  show ?case
  proof (cases "bad pm")
    case True
    then obtain e s where ins: "ins_one pm (repo g) = (Inl e, s)" "\<not> is_store_wide e" using bad by blast
    let ?g = "answer_ack Rejected h (g\<lparr>repo := s\<rparr>)"
    have "answered_alone bad pending ?g (store_one_by_one ins_one pending ?g)"
      using ack(1,2) new(2) wait by (rule Cons.IH)
    from answered_alone_Cons [OF this, of g h pm] show ?thesis using ack True new(1) here ins p by simp
  next
    case False
    then obtain sm s where ins: "ins_one pm (repo g) = (Inr sm, s)" using good by blast
    let ?g = "announce [sm] (answer_ack Stored h (g\<lparr>repo := s\<rparr>))"
    have "answered_alone bad pending ?g (store_one_by_one ins_one pending ?g)"
      by (rule Cons.IH) (use ack new(2) wait in \<open>auto simp: announce_def\<close>)
    from answered_alone_Cons [OF this, of g h pm _ sm] show ?thesis
      using ack False new(1) here ins p by (simp add: announce_def case_prod_unfold)
  qed
qed

text \<open>
  A message the store refuses does not cost its neighbours: in the fallback, with nobody
  leaving, time left and no store-wide failure, each message is answered by its own insert
  alone, and the summaries returned are as many as the messages stored.
\<close>

theorem poisoned_message_fails_alone:
  assumes "leaving g = []" "fallback_late g = []" "distinct (map snd pending)"
    and "\<forall>h \<in> set (map snd pending). channels g h = Waiting"
    and "\<And>pm s. bad pm \<Longrightarrow> \<exists>e s'. ins_one pm s = (Inl e, s') \<and> \<not> is_store_wide e"
    and "\<And>pm s. \<not> bad pm \<Longrightarrow> \<exists>sm s'. ins_one pm s = (Inr sm, s')"
  shows "map (channels (snd (store_one_by_one ins_one pending g))) (map snd pending) =
           map (\<lambda>p. Answered (if bad (fst p) then Rejected else Stored)) pending \<and>
         length (fst (store_one_by_one ins_one pending g)) = length (filter (\<lambda>p. \<not> bad (fst p)) pending)"
  using one_by_one_answered_alone [of g pending bad ins_one, OF assms] by (simp add: answered_alone_def)

definition picky_insert :: "prepared_message \<Rightarrow> (nat, storage_error, message_summary) call" where
  "picky_insert pm s =
     (if pm_size pm = 0 then (Inl (NotFound ''poison''), s)
      else (Inr \<lparr>ms_id = ''i'', ms_sender = pm_sender pm, ms_recipients = [], ms_subject = None, ms_size = 1,
              ms_has_attachments = False, ms_is_read = False, ms_is_starred = False, ms_tags = [],
              ms_created_at = []\<rparr>, Suc s))"

theorem poisoned_message_fails_alone_witness:
  "map (channels (snd (store_one_by_one picky_insert
      [(plain_prepared ''x'', 0), (plain_prepared [], 1), (plain_prepared ''y'', 2)]
      \<lparr>repo = 0, channels = (\<lambda>h. Waiting), announced = [], leaving = [], fallback_late = []\<rparr>))) [0, 1, 2] =
    [Answered Stored, Answered Rejected, Answered Stored]"
  using poisoned_message_fails_alone
    [of "\<lparr>repo = 0, channels = (\<lambda>h. Waiting), announced = [], leaving = [], fallback_late = []\<rparr>"
      "[(plain_prepared ''x'', 0), (plain_prepared [], 1), (plain_prepared ''y'', 2)]"
      "\<lambda>pm. pm_size pm = 0" picky_insert]
  by (simp add: picky_insert_def plain_prepared_def)

end
