(* ===== verification/Api_Guard.thy ===== *)
theory Api_Guard
  imports Rust_Net
begin

text \<open>
  Who may talk to the API from a browser: web origins (\<open>rustmail-api/src/origin.rs\<close>) and the
  host guard against DNS rebinding (\<open>rustmail-api/src/host.rs\<close>).
\<close>

subsection \<open>Origins\<close>

definition HTTP :: bytes where "HTTP = ''http''"
definition HTTPS :: bytes where "HTTPS = ''https''"
definition HTTP_DEFAULT_PORT :: nat where "HTTP_DEFAULT_PORT = 80"
definition HTTPS_DEFAULT_PORT :: nat where "HTTPS_DEFAULT_PORT = 443"

record origin =
  scheme :: bytes
  authority :: bytes

datatype origin_error = UnsupportedScheme bytes | MalformedAuthority bytes | InvalidPort bytes

definition hostname_of :: "bytes \<Rightarrow> bytes" where
  "hostname_of auth =
     (case rfind_char (CHR '']'') auth of
        Some close \<Rightarrow> take (Suc close) auth
      | None \<Rightarrow> hd (split_by (\<lambda>c. c = CHR '':'') auth))"

definition is_default_port :: "bytes \<Rightarrow> nat \<Rightarrow> bool" where
  "is_default_port sch port \<longleftrightarrow>
     sch = HTTP \<and> port = HTTP_DEFAULT_PORT \<or> sch = HTTPS \<and> port = HTTPS_DEFAULT_PORT"

definition split_host_port :: "bytes \<Rightarrow> (bytes \<times> bytes option) option" where
  "split_host_port auth =
     (if starts_with auth ''['' then
        (case find_char (CHR '']'') auth of
           None \<Rightarrow> None
         | Some close \<Rightarrow>
             let host = to_ascii_lowercase (take (Suc close) auth); rest = drop (Suc close) auth in
             if rest = [] then Some (host, None)
             else map_option (\<lambda>port. (host, Some port)) (strip_prefix rest '':''))
      else
        (case split_once (CHR '':'') auth of
           Some (host, port) \<Rightarrow> Some (to_ascii_lowercase host, Some port)
         | None \<Rightarrow> Some (to_ascii_lowercase auth, None)))"

definition forbidden_in_authority :: "char \<Rightarrow> bool" where
  "forbidden_in_authority c \<longleftrightarrow> c \<in> {CHR ''/'', CHR ''?'', CHR ''#'', CHR ''@'', CHR '' '', CHR 0x09}"

definition normalize_authority :: "bytes \<Rightarrow> bytes \<Rightarrow> bytes \<Rightarrow> (origin_error, bytes) result" where
  "normalize_authority auth sch raw =
     (if auth = [] \<or> list_ex forbidden_in_authority auth then Inl (MalformedAuthority raw)
      else case split_host_port auth of
        None \<Rightarrow> Inl (MalformedAuthority raw)
      | Some (host, port) \<Rightarrow>
          if host = [] then Inl (MalformedAuthority raw)
          else (case port of
            None \<Rightarrow> Inr host
          | Some digits \<Rightarrow>
              (case parse_u16 digits of
                 Inl _ \<Rightarrow> Inl (InvalidPort raw)
               | Inr n \<Rightarrow>
                   if n = 0 then Inl (InvalidPort raw)
                   else if is_default_port sch n then Inr host
                   else Inr (host @ '':'' @ show_nat n))))"

fun split_once_str :: "bytes \<Rightarrow> bytes \<Rightarrow> (bytes \<times> bytes) option" where
  "split_once_str p [] = (if p = [] then Some ([], []) else None)"
| "split_once_str p (c # s) =
     (if starts_with (c # s) p then Some ([], drop (length p) (c # s))
      else map_option (\<lambda>(a, b). (c # a, b)) (split_once_str p s))"

text \<open>\<open>Origin::from_str\<close> and its display.\<close>

definition origin_from_str :: "bytes \<Rightarrow> (origin_error, origin) result" where
  "origin_from_str s =
     (let raw = trim s in
      case split_once_str ''://'' raw of
        None \<Rightarrow> Inl (UnsupportedScheme raw)
      | Some (sch, auth) \<Rightarrow>
          (let sch' = to_ascii_lowercase sch in
           if sch' = HTTP \<or> sch' = HTTPS
           then and_then (normalize_authority auth sch' raw) (\<lambda>a. Inr \<lparr>scheme = sch', authority = a\<rparr>)
           else Inl (UnsupportedScheme raw)))"

definition origin_display :: "origin \<Rightarrow> bytes" where
  "origin_display org = scheme org @ ''://'' @ authority org"

definition origin_allowed :: "bytes \<Rightarrow> bytes option \<Rightarrow> origin list \<Rightarrow> bool" where
  "origin_allowed ov hv allowed =
     (case Option.bind (to_str ov) (\<lambda>v. ok (origin_from_str v)) of
        None \<Rightarrow> False
      | Some org \<Rightarrow>
          if List.member allowed org then True
          else (case Option.bind (map_option trim (Option.bind hv to_str))
                       (\<lambda>host. ok (normalize_authority host (scheme org) host)) of
                  None \<Rightarrow> False
                | Some host \<Rightarrow> host = authority org))"

subsection \<open>Hosts\<close>

definition LOCALHOST :: bytes where "LOCALHOST = ''localhost''"
definition LOCALHOST_SUFFIX :: bytes where "LOCALHOST_SUFFIX = ''.localhost''"
definition BROWSER_MARKERS :: "bytes list" where
  "BROWSER_MARKERS = [''sec-fetch-site'', ''sec-fetch-mode'', ''sec-fetch-dest'', ''origin'']"
definition BROWSER_AGENT_PREFIX :: bytes where "BROWSER_AGENT_PREFIX = ''Mozilla/''"

type_synonym hostname = bytes

datatype hostname_error = HostEmpty | NotBare bytes

definition bare_char :: "bytes \<Rightarrow> bool" where
  "bare_char ch \<longleftrightarrow>
     (case ch of [c] \<Rightarrow> is_ascii_alphanumeric c \<or> c \<in> {CHR ''-'', CHR ''.'', CHR ''_''} | _ \<Rightarrow> False)"

definition hostname_from_str :: "bytes \<Rightarrow> (hostname_error, hostname) result" where
  "hostname_from_str s =
     (let raw = trim s in
      if raw = [] then Inl HostEmpty
      else if \<not> list_all bare_char (chars raw) then Inl (NotBare raw)
      else Inr (to_ascii_lowercase raw))"

definition is_browser_request :: "header_map \<Rightarrow> bool" where
  "is_browser_request hs \<longleftrightarrow>
     list_ex (contains_key hs) BROWSER_MARKERS \<or>
     (case Option.bind (header_get hs ''user-agent'') to_str of
        None \<Rightarrow> False | Some agent \<Rightarrow> starts_with agent BROWSER_AGENT_PREFIX)"

definition is_ip_literal :: "bytes \<Rightarrow> bool" where
  "is_ip_literal host =
     (let bare = (case Option.bind (strip_prefix host ''['') (\<lambda>h. strip_suffix h '']'') of
                    Some h \<Rightarrow> h | None \<Rightarrow> host)
      in parse_ip_addr bare \<noteq> None)"

definition host_allowed :: "header_map \<Rightarrow> hostname list \<Rightarrow> origin list \<Rightarrow> bool" where
  "host_allowed hs allowed origins =
     (case Option.bind (header_get hs ''host'') to_str of
        None \<Rightarrow> False
      | Some v \<Rightarrow>
          let host = to_ascii_lowercase (hostname_of (trim v)) in
          if host = [] then False
          else if is_ip_literal host \<or> host = LOCALHOST \<or> ends_with host LOCALHOST_SUFFIX then True
          else List.member allowed host \<or>
               list_ex (\<lambda>org. hostname_of (authority org) = host) origins)"

definition spelled_host :: "header_map \<Rightarrow> bytes" where
  "spelled_host hs = (case header_get hs ''host'' of None \<Rightarrow> [] | Some v \<Rightarrow> from_utf8_lossy v)"

text \<open>The guard in front of every route: the host it logs when it refuses, else the request goes on.\<close>

definition guard_host :: "hostname list \<Rightarrow> origin list \<Rightarrow> header_map \<Rightarrow> bytes option" where
  "guard_host allowed origins hs =
     (if is_browser_request hs \<and> \<not> host_allowed hs allowed origins then Some (spelled_host hs) else None)"

subsection \<open>Facts about trimming and lower case\<close>

text \<open>A byte that is no letter.\<close>

definition uncased :: "char \<Rightarrow> bool" where
  "uncased c \<longleftrightarrow> byte c < 65 \<or> 122 < byte c \<or> byte c \<in> {91..96}"

lemma ascii_lower_eq: "uncased d \<Longrightarrow> ascii_lower c = d \<longleftrightarrow> c = d"
  by (auto simp: ascii_lower_def uncased_def split: if_splits)

lemma lower_member: "uncased d \<Longrightarrow> d \<in> set (to_ascii_lowercase s) \<longleftrightarrow> d \<in> set s"
  unfolding to_ascii_lowercase_def by (simp add: image_iff) (metis ascii_lower_eq)

lemma ok_eq_Some [simp]: "ok r = Some a \<longleftrightarrow> r = Inr a"
  by (cases r) auto

lemma graphic_visible: "32 < byte c \<Longrightarrow> byte c < 127 \<Longrightarrow> visible_ascii c"
  by (simp add: visible_ascii_def)

lemma trim_noop:
  assumes "is_ascii s" "s \<noteq> []" "\<not> is_whitespace [hd s]" "\<not> is_whitespace [last s]"
  shows "trim s = s"
proof -
  obtain a b where s: "s = a # b" using assms(2) by (cases s) auto
  then have d: "dropWhile is_whitespace (map (\<lambda>c. [c]) s) = map (\<lambda>c. [c]) s" using assms(3) by simp
  obtain x y where r: "s = x @ [y]" using assms(2) by (metis rev_exhaust)
  then have "dropWhile is_whitespace (rev (map (\<lambda>c. [c]) s)) = rev (map (\<lambda>c. [c]) s)" using assms(4) by simp
  then show ?thesis using assms(1) d by (simp add: trim_def chars_ascii)
qed

lemma trim_ascii:
  "is_ascii s \<Longrightarrow> trim s = rev (dropWhile (\<lambda>c. is_whitespace [c]) (rev (dropWhile (\<lambda>c. is_whitespace [c]) s)))"
  by (simp add: trim_def chars_ascii dropWhile_map rev_map comp_def)

lemma graphic_not_space: "32 < byte c \<Longrightarrow> byte c < 127 \<Longrightarrow> \<not> is_whitespace [c]"
  by (auto simp: is_whitespace_def white_space_def)

lemma visible_lower: "list_all visible_ascii s \<Longrightarrow> list_all visible_ascii (to_ascii_lowercase s)"
  by (auto simp: list_all_iff to_ascii_lowercase_def visible_ascii_def ascii_lower_def)

lemma set_trim: "is_ascii s \<Longrightarrow> set (trim s) \<subseteq> set s"
  by (auto simp: trim_ascii dest!: set_dropWhileD)

lemma find_char_append: "c \<notin> set x \<Longrightarrow> find_char c (x @ c # y) = Some (length x)"
  by (induction x) (auto simp: find_char_def)

lemma split_once_append: "c \<notin> set x \<Longrightarrow> split_once c (x @ c # y) = Some (x, y)"
  by (simp add: split_once_def find_char_append)

lemma split_once_str_Some: "split_once_str p s = Some (a, b) \<Longrightarrow> s = a @ p @ b"
proof (induction p s arbitrary: a b rule: split_once_str.induct)
  case (2 p c s)
  show ?case
  proof (cases "starts_with (c # s) p")
    case True
    then have "c # s = p @ drop (length p) (c # s)" unfolding starts_with_def by (metis append_take_drop_id)
    moreover have "a = []" "b = drop (length p) (c # s)" using True 2(2) by auto
    ultimately show ?thesis by simp
  next
    case False
    with 2 show ?thesis by auto
  qed
qed (auto split: if_splits)

subsection \<open>Normal forms of origins\<close>

lemma forbidden_uncased: "forbidden_in_authority c \<Longrightarrow> uncased c"
  by (auto simp: forbidden_in_authority_def uncased_def)

lemma forbidden_lower: "list_ex forbidden_in_authority (to_ascii_lowercase s) = list_ex forbidden_in_authority s"
  using lower_member forbidden_uncased by (auto simp: list_ex_iff)

lemma split_host_port_sub:
  "split_host_port a = Some (h, p) \<Longrightarrow> \<exists>x. h = to_ascii_lowercase x \<and> set x \<subseteq> set a"
proof (cases "starts_with a ''[''")
  case False
  assume "split_host_port a = Some (h, p)"
  with False consider x y where "split_once (CHR '':'') a = Some (x, y)" "h = to_ascii_lowercase x"
    | "h = to_ascii_lowercase a" by (auto simp: split_host_port_def split: option.splits)
  then show ?thesis
  proof cases
    case (1 x y)
    then have "a = x @ CHR '':'' # y" using split_once_Some by blast
    with 1 show ?thesis by auto
  qed blast
qed (auto simp: split_host_port_def Let_def split: if_splits option.splits dest: in_set_takeD)

lemma split_host_port_normal:
  assumes "split_host_port a = Some (h, p)" "h \<noteq> []"
  shows "split_host_port h = Some (h, None) \<and> split_host_port (h @ '':'' @ q) = Some (h, Some q)"
proof (cases "starts_with a ''[''")
  case True
  then obtain close where close: "find_char (CHR '']'') a = Some close"
    "h = to_ascii_lowercase (take (Suc close) a)"
    using assms(1) by (auto simp: split_host_port_def Let_def split: option.splits if_splits)
  let ?L = "to_ascii_lowercase (take close a)"
  have c: "close < length a" "a ! close = CHR '']''" "CHR '']'' \<notin> set (take close a)"
    using find_char_Some [OF close(1)] by auto
  have h: "h = ?L @ '']''" using close(2) c(1,2)
    by (simp add: take_Suc_conv_app_nth to_ascii_lowercase_def ascii_lower_def)
  have "CHR '']'' \<notin> set ?L" using c(3) by (simp add: lower_member uncased_def)
  then have f: "find_char (CHR '']'') (?L @ '']'' @ r) = Some (length ?L)" for r using find_char_append by simp
  have "0 < close" using True c(2) by (cases a; cases close) (auto simp: starts_with_def)
  then have "starts_with (?L @ r) ''[''" for r using True c(1)
    by (cases a; cases close) (auto simp: starts_with_def to_ascii_lowercase_def ascii_lower_def)
  then show ?thesis using f [of "[]"] f [of "'':'' @ q"] h
    by (simp add: split_host_port_def Let_def to_ascii_lowercase_def strip_prefix_def starts_with_def ascii_lower_def comp_def)
next
  case False
  then obtain x where x: "h = to_ascii_lowercase x" "CHR '':'' \<notin> set x" "x \<noteq> [] \<longrightarrow> hd x = hd a"
    using assms(1)
    by (auto simp: split_host_port_def split_once_None hd_append split: option.splits dest!: split_once_Some)
  have "x \<noteq> []" using x(1) assms(2) by (auto simp: to_ascii_lowercase_def)
  then have nb: "\<not> starts_with (h @ r) ''[''" for r using x False assms(1)
    by (cases x; cases a) (auto simp: starts_with_def to_ascii_lowercase_def ascii_lower_eq uncased_def split_host_port_def split_once_def find_char_def)
  have "CHR '':'' \<notin> set h" using x by (simp add: lower_member uncased_def)
  then show ?thesis using x(1) nb [of "[]"] nb
    by (simp add: split_host_port_def split_once_append split_once_None [THEN iffD2])
qed

lemma normalize_normal:
  assumes "normalize_authority a sch raw = Inr n"
  shows "normalize_authority n sch raw' = Inr n"
proof -
  obtain h p where hp: "split_host_port a = Some (h, p)" "h \<noteq> []" "\<not> list_ex forbidden_in_authority a"
    using assms by (auto simp: normalize_authority_def split: if_splits option.splits)
  have "\<not> list_ex forbidden_in_authority h"
    using split_host_port_sub [OF hp(1)] hp(3) forbidden_lower by (auto simp: list_ex_iff)
  moreover have "\<not> forbidden_in_authority c" if "c \<in> set (show_nat k)" for c k
    using show_nat_digits [OF that] by (auto simp: forbidden_in_authority_def is_ascii_digit_def)
  ultimately have clean: "\<not> list_ex forbidden_in_authority h" "\<not> list_ex forbidden_in_authority (h @ '':'' @ show_nat k)" for k
    by (auto simp: list_ex_iff) (simp add: forbidden_in_authority_def)
  have cases_n: "n = h \<or> (\<exists>k. n = h @ '':'' @ show_nat k \<and> k \<noteq> 0 \<and> k \<le> u16_max \<and> \<not> is_default_port sch k)"
    using assms hp parse_unsigned_bound
    by (auto simp: normalize_authority_def split: if_splits option.splits sum.splits)
  then show ?thesis
  proof
    assume "n = h"
    then show ?thesis using split_host_port_normal [OF hp(1,2)] hp(2) clean by (simp add: normalize_authority_def)
  next
    assume "\<exists>k. n = h @ '':'' @ show_nat k \<and> k \<noteq> 0 \<and> k \<le> u16_max \<and> \<not> is_default_port sch k"
    then obtain k where "n = h @ '':'' @ show_nat k" "k \<noteq> 0" "k \<le> u16_max" "\<not> is_default_port sch k" by blast
    then show ?thesis using split_host_port_normal [OF hp(1,2), of "show_nat k"] hp(2) clean(2) [of k]
      by (simp add: normalize_authority_def parse_unsigned_show_nat)
  qed
qed

lemma normalize_graphic:
  assumes "normalize_authority a sch raw = Inr n" "list_all visible_ascii a"
  shows "n \<noteq> [] \<and> (\<forall>c \<in> set n. 32 < byte c \<and> byte c < 127)"
proof -
  obtain h p where hp: "split_host_port a = Some (h, p)" "h \<noteq> []" "\<not> list_ex forbidden_in_authority a"
    using assms by (auto simp: normalize_authority_def split: if_splits option.splits)
  obtain x where x: "h = to_ascii_lowercase x" "set x \<subseteq> set a" using split_host_port_sub [OF hp(1)] by blast
  then have "\<forall>c \<in> set x. visible_ascii c \<and> \<not> forbidden_in_authority c"
    using assms(2) hp(3) by (auto simp: list_all_iff list_ex_iff)
  moreover have "32 < byte c \<and> byte c < 127" if "visible_ascii c" "\<not> forbidden_in_authority c" for c
  proof -
    have "byte c \<noteq> 9" "byte c \<noteq> 32"
      using that(2) of_char_eq_iff [of c "CHR 0x09", where ?'a = nat] of_char_eq_iff [of c "CHR '' ''", where ?'a = nat]
      by (auto simp: forbidden_in_authority_def)
    then show ?thesis using that(1) by (auto simp: visible_ascii_def)
  qed
  ultimately have "\<forall>c \<in> set x. 32 < byte c \<and> byte c < 127" by blast
  then have h: "\<forall>c \<in> set h. 32 < byte c \<and> byte c < 127" using x(1)
    by (auto simp: to_ascii_lowercase_def ascii_lower_def)
  have "n = h \<or> (\<exists>k. n = h @ '':'' @ show_nat k)"
    using assms(1) hp by (auto simp: normalize_authority_def split: if_splits option.splits sum.splits)
  moreover have "32 < byte c \<and> byte c < 127" if "c \<in> set (show_nat k)" for c k
    using show_nat_digits [OF that] by (simp add: is_ascii_digit_def)
  ultimately show ?thesis using h hp(2) by auto
qed

lemma trim_origin:
  assumes "sch = HTTP \<or> sch = HTTPS" "auth \<noteq> []" "list_all visible_ascii auth" "\<not> is_whitespace [last auth]"
  shows "trim (sch @ ''://'' @ auth) = sch @ ''://'' @ auth"
  using assms visible_is_ascii [OF assms(3)]
  by (intro trim_noop) (auto simp: is_ascii_def HTTP_def HTTPS_def is_whitespace_def white_space_def)

lemma split_scheme:
  "sch = HTTP \<or> sch = HTTPS \<Longrightarrow> split_once_str ''://'' (sch @ ''://'' @ auth) = Some (sch, auth)"
  by (auto simp: HTTP_def HTTPS_def starts_with_def)

lemma lower_scheme: "sch = HTTP \<or> sch = HTTPS \<Longrightarrow> to_ascii_lowercase sch = sch"
  by (auto simp: HTTP_def HTTPS_def to_ascii_lowercase_def ascii_lower_def)

lemma origin_from_str_Inr:
  assumes "origin_from_str s = Inr org" "list_all visible_ascii s"
  shows "(scheme org = HTTP \<or> scheme org = HTTPS) \<and>
    (\<exists>auth raw. list_all visible_ascii auth \<and> normalize_authority auth (scheme org) raw = Inr (authority org))"
proof -
  obtain sch auth where split: "split_once_str ''://'' (trim s) = Some (sch, auth)"
    "to_ascii_lowercase sch = HTTP \<or> to_ascii_lowercase sch = HTTPS"
    "and_then (normalize_authority auth (to_ascii_lowercase sch) (trim s))
       (\<lambda>a. Inr \<lparr>scheme = to_ascii_lowercase sch, authority = a\<rparr>) = Inr org"
    using assms(1) by (auto simp: origin_from_str_def Let_def split: option.splits if_splits)
  have "set auth \<subseteq> set s"
    using split_once_str_Some [OF split(1)] set_trim [OF visible_is_ascii [OF assms(2)]] by auto
  then have "list_all visible_ascii auth" using assms(2) by (auto simp: list_all_iff)
  moreover obtain a where "normalize_authority auth (to_ascii_lowercase sch) (trim s) = Inr a"
    "org = \<lparr>scheme = to_ascii_lowercase sch, authority = a\<rparr>" using split(3) by (auto simp: and_then_eq_Inr)
  ultimately show ?thesis using split(2) by auto
qed

lemma origin_of_parts:
  assumes "sch = HTTP \<or> sch = HTTPS" "auth \<noteq> []" "list_all visible_ascii auth" "\<not> is_whitespace [last auth]"
  shows "origin_from_str (sch @ ''://'' @ auth) =
    and_then (normalize_authority auth sch (sch @ ''://'' @ auth)) (\<lambda>a. Inr \<lparr>scheme = sch, authority = a\<rparr>)"
  using assms(1)
  by (simp add: origin_from_str_def trim_origin [OF assms] split_scheme [OF assms(1)] lower_scheme [OF assms(1)] Let_def
      del: append.simps append_Cons)

text \<open>
  Reading an origin brings it to a normal form that its display spells: displaying an
  origin that was read from a header or an option and reading it again gives the same origin.
\<close>

theorem origin_reads_its_display:
  assumes "origin_from_str s = Inr org" "list_all visible_ascii s"
  shows "origin_from_str (origin_display org) = Inr org"
proof -
  obtain auth raw where o: "scheme org = HTTP \<or> scheme org = HTTPS" "list_all visible_ascii auth"
    "normalize_authority auth (scheme org) raw = Inr (authority org)"
    using origin_from_str_Inr [OF assms] by blast
  have g: "authority org \<noteq> []" "\<forall>c \<in> set (authority org). 32 < byte c \<and> byte c < 127"
    using normalize_graphic [OF o(3,2)] by auto
  then have "list_all visible_ascii (authority org)" "\<not> is_whitespace [last (authority org)]"
    using graphic_not_space by (auto simp: list_all_iff visible_ascii_def le_less)
  from origin_of_parts [OF o(1) g(1) this] show ?thesis
    using normalize_normal [OF o(3)] by (simp add: origin_display_def)
qed

theorem origin_reads_its_display_witness:
  "origin_from_str (origin_display \<lparr>scheme = HTTPS, authority = ''mail.test''\<rparr>) =
     Inr \<lparr>scheme = HTTPS, authority = ''mail.test''\<rparr>"
  by (rule origin_reads_its_display [of "''HTTPS://Mail.Test''"]) code_simp+

lemma normalize_raw: "normalize_authority a sch raw = Inr n \<longleftrightarrow> normalize_authority a sch raw' = Inr n"
  by (auto simp: normalize_authority_def split: if_splits option.splits sum.splits)

lemma trim_last: "is_ascii s \<Longrightarrow> trim s \<noteq> [] \<Longrightarrow> \<not> is_whitespace [last (trim s)]"
  using hd_dropWhile [of "\<lambda>c. is_whitespace [c]" "rev (dropWhile (\<lambda>c. is_whitespace [c]) s)"]
  by (simp add: trim_ascii last_rev)

lemma normalize_reads_origin:
  assumes "sch = HTTP \<or> sch = HTTPS" "list_all visible_ascii hv"
  shows "origin_from_str (sch @ ''://'' @ trim hv) = Inr \<lparr>scheme = sch, authority = a\<rparr> \<longleftrightarrow>
         normalize_authority (trim hv) sch raw = Inr a"
proof (cases "trim hv = []")
  case True
  have "trim (sch @ ''://'') = sch @ ''://''"
    using assms(1) by (intro trim_noop) (auto simp: is_ascii_def HTTP_def HTTPS_def is_whitespace_def white_space_def)
  then show ?thesis using True split_scheme [OF assms(1), of "[]"]
    by (auto simp: origin_from_str_def Let_def normalize_authority_def)
next
  case False
  have asc: "is_ascii hv" using visible_is_ascii [OF assms(2)] .
  have "list_all visible_ascii (trim hv)" using set_trim [OF asc] assms(2) by (auto simp: list_all_iff)
  from origin_of_parts [OF assms(1) False this trim_last [OF asc False]] show ?thesis
    using normalize_raw [of "trim hv" sch raw a] by (auto simp: and_then_eq_Inr)
qed

text \<open>
  C26. A browser page may open the WebSocket exactly when its origin is one of the configured
  ones, or is the very origin that the \<open>Host\<close> header spells under the page's own scheme; an
  origin that cannot be read is refused.
\<close>

theorem websocket_admits_same_or_configured_origin:
  "origin_allowed ov (Some hv) allowed \<longleftrightarrow>
     (\<exists>org. list_all visible_ascii ov \<and> origin_from_str ov = Inr org \<and>
        (org \<in> set allowed \<or>
         list_all visible_ascii hv \<and> origin_from_str (scheme org @ ''://'' @ trim hv) = Inr org))"
proof (cases "list_all visible_ascii ov \<and> (\<exists>org. origin_from_str ov = Inr org)")
  case True
  then obtain org where org: "origin_from_str ov = Inr org" "list_all visible_ascii ov" by blast
  then have sch: "scheme org = HTTP \<or> scheme org = HTTPS" using origin_from_str_Inr by blast
  have "origin_from_str (scheme org @ ''://'' @ trim hv) = Inr org \<longleftrightarrow>
      normalize_authority (trim hv) (scheme org) (trim hv) = Inr (authority org)" if "list_all visible_ascii hv"
    using normalize_reads_origin [OF sch that, of "authority org" "trim hv"] by (cases org) simp
  then show ?thesis using org
    by (auto simp: origin_allowed_def to_str_def bind_eq_Some_conv split: option.splits sum.splits if_splits)
next
  case False
  then show ?thesis by (auto simp: origin_allowed_def to_str_def split: sum.splits option.splits)
qed

subsection \<open>Host names\<close>

definition name_char :: "char \<Rightarrow> bool" where
  "name_char c \<longleftrightarrow> is_ascii_alphanumeric c \<or> c \<in> {CHR ''-'', CHR ''.'', CHR ''_''}"

lemma name_char_graphic: "name_char c \<Longrightarrow> 32 < byte c \<and> byte c < 127 \<and> c \<noteq> CHR '':'' \<and> c \<noteq> CHR '']'' \<and> c \<noteq> CHR ''[''"
  by (auto simp: name_char_def is_ascii_alphanumeric_def is_ascii_digit_def)

lemma hostname_of_name:
  assumes "list_all name_char name" "port = [] \<or> hd port = CHR '':''" "CHR '']'' \<notin> set port"
  shows "hostname_of (name @ port) = name"
proof -
  have "CHR '']'' \<notin> set (name @ port)" "CHR '':'' \<notin> set name"
    using assms(1,3) name_char_graphic by (auto simp: list_all_iff)
  moreover have "hd (split_by (\<lambda>c. c = CHR '':'') (x @ port)) = x" if "CHR '':'' \<notin> set x" for x
    using that assms(2) by (induction x) (cases port; auto split: list.splits)+
  ultimately show ?thesis by (simp add: hostname_of_def rfind_char_def find_char_def)
qed

lemma lower_name_char: "list_all name_char s \<Longrightarrow> list_all name_char (to_ascii_lowercase s)"
  by (auto simp: list_all_iff to_ascii_lowercase_def ascii_lower_def name_char_def is_ascii_alphanumeric_def
      is_ascii_digit_def split: if_splits)

lemma ip_literal_name: "list_all name_char s \<Longrightarrow> is_ip_literal s \<longleftrightarrow> parse_ip_addr s \<noteq> None"
  using name_char_graphic
  by (cases s) (auto simp: is_ip_literal_def strip_prefix_def starts_with_def)

text \<open>
  C25. The guard against DNS rebinding: a browser that reaches RustMail by a host name, on
  whatever port and in whatever case, is answered exactly when the name is an IP address,
  \<open>localhost\<close> or a name below it, a configured host, or the host of a configured origin. A
  name an attacker points at the machine is none of these.
\<close>

theorem browser_is_answered_on_known_names_only:
  assumes "is_browser_request hs" "header_get hs ''host'' = Some (name @ port)"
    and "list_all name_char name" "name \<noteq> []" "port = [] \<or> (\<exists>n. port = '':'' @ show_nat n)"
  shows "guard_host allowed origins hs = None \<longleftrightarrow>
    (let host = to_ascii_lowercase name in
     parse_ip_addr host \<noteq> None \<or> host = ''localhost'' \<or> (\<exists>sub. host = sub @ ''.localhost'') \<or>
     host \<in> set allowed \<or> (\<exists>org \<in> set origins. hostname_of (authority org) = host))"
proof -
  have digits: "48 \<le> byte c \<and> byte c \<le> 57" if "c \<in> set (show_nat n)" for c n
    using show_nat_digits [OF that] by (simp add: is_ascii_digit_def)
  have g: "\<forall>c \<in> set (name @ port). 32 < byte c \<and> byte c < 127"
    using assms(3,5) name_char_graphic digits by (fastforce simp: list_all_iff)
  have vis: "list_all visible_ascii (name @ port)" using g graphic_visible by (simp add: list_all_iff)
  have "hd (name @ port) \<in> set (name @ port)" "last (name @ port) \<in> set (name @ port)"
    using assms(4) by (simp, intro last_in_set, simp)
  then have "trim (name @ port) = name @ port"
    using assms(4) g graphic_not_space visible_is_ascii [OF vis] by (intro trim_noop) blast+
  moreover have "CHR '']'' \<notin> set port" using assms(5) digits by fastforce
  then have "hostname_of (name @ port) = name" using hostname_of_name [OF assms(3)] assms(5) by auto
  ultimately show ?thesis using assms(1,2,4) vis ip_literal_name [OF lower_name_char [OF assms(3)]]
    by (auto simp: guard_host_def host_allowed_def to_str_def Let_def LOCALHOST_def LOCALHOST_SUFFIX_def
        ends_with_iff list_ex_iff to_ascii_lowercase_def)
qed

theorem browser_is_answered_on_known_names_only_witness:
  "guard_host [''mail.test''] [] [(''host'', ''Other.test:80''), (''origin'', ''http://other.test:80'')] \<noteq> None"
proof -
  have p: "'':80'' = '':'' @ show_nat 80" by code_simp
  have "parse_ip_addr ''other.test'' = None"
    by (rule parse_ip_addr_first) (simp_all add: hex_digit_def is_ascii_digit_def)
  moreover have "to_ascii_lowercase ''Other.test'' = ''other.test''" by code_simp
  moreover have "is_browser_request [(''host'', ''Other.test:80''), (''origin'', ''http://other.test:80'')]" by code_simp
  moreover have "list_all name_char ''Other.test''" by code_simp
  ultimately show ?thesis
    using browser_is_answered_on_known_names_only
      [of "[(''host'', ''Other.test:80''), (''origin'', ''http://other.test:80'')]" "''Other.test''" "'':80''"
        "[''mail.test'']" "[]"] p
    by (auto simp: header_get_def Cons_eq_append_conv append_eq_Cons_conv)
qed

end
