(* ===== verification/Api_Handlers.thy ===== *)
theory Api_Handlers
  imports Storage_Query Storage_Reclaim
begin

text \<open>
  The REST handlers (\<open>rustmail-api/src/handlers.rs\<close>) on the shared state of
  \<open>rustmail-api/src/state.rs\<close>. A handler is a call on the state that answers with a response
  or an error; \<open>into_response\<close> turns the error into the response the client sees. Extracting
  path, query and body is the framework's; handlers take them as arguments.
\<close>

subsection \<open>State, events and responses\<close>

datatype ws_event =
    MessageNew message_summary
  | MessageDelete bytes
  | MessageRead bytes bool
  | MessageStarred bytes bool
  | MessageTags bytes "bytes list"
  | MessagesClear

datatype relay_security = ImplicitTls | RequiredStartTls

record relayed =
  rl_host :: bytes
  rl_port :: nat
  rl_security :: relay_security
  rl_from :: "bytes option"
  rl_to :: "bytes list"
  rl_raw :: bytes

datatype relay_answer = RelayTakes | RelaySetupFails | RelayRefuses

text \<open>The application state; \<open>sent\<close> is what reached a relay, \<open>relay\<close> how relays answer.\<close>

record app =
  app_repo :: pager
  events :: "ws_event list"
  release_host :: "bytes option"
  release_port :: "nat option"
  server_info :: "(bytes \<times> nat) option"
  sent :: "relayed list"
  relay :: "relay_answer list"

datatype header_name = OtherName bytes | ArcAuthenticationResults | DkimSignature | KnownName

record mail_header =
  mh_name :: header_name
  mh_spelled :: bytes
  mh_text :: "bytes option"
  mh_start :: nat
  mh_end :: nat

text \<open>The libraries the handlers use: storage's, header parsing, JSON and lettre's addresses.\<close>

record api_lib =
  sql :: sql_lib
  zst :: zstd
  mime :: mime_lib
  unicode_alnum :: "bytes \<Rightarrow> bool"
  unicode_lower :: "bytes \<Rightarrow> bytes"
  parse_headers :: "bytes \<Rightarrow> mail_header list"
  json_strings :: "bytes \<Rightarrow> bytes list option"
  address_ok :: "bytes \<Rightarrow> bool"
  envelope_error :: "bytes list \<Rightarrow> bytes option"
  encodes :: "ws_event \<Rightarrow> bool"

datatype app_error = Storage storage_error | BadRequest bytes | UnknownCursor | TimedOut

record list_page_body =
  lp_messages :: "message_summary list"
  lp_total :: int
  lp_next_cursor :: "bytes option"
  lp_limit :: int

record auth_check =
  ac_status :: bytes
  ac_details :: bytes

record auth_results =
  dkim :: "auth_check list"
  spf :: "auth_check list"
  dmarc :: "auth_check list"
  arc :: "auth_check list"

datatype body =
    NoBody | RawBody bytes | ErrorBody bytes | ErrorCodeBody bytes bytes
  | ListBody list_page_body | MessageBody full_message | AttachmentsBody "attachment_summary list"
  | HeadersBody "(bytes \<times> bytes) list" | AssertBody bool int "(int \<times> int) option"
  | DeletedBody nat | ReleasedBody | AuthBody auth_results | InfoBody bytes nat

record response =
  status :: nat
  headers :: "(bytes \<times> bytes) list"
  rbody :: body

type_synonym 'a api = "(app, app_error, 'a) call"

definition on_repo :: "'a sql \<Rightarrow> 'a api" where
  "on_repo op a = (case on_store op (app_repo a) of (r, p) \<Rightarrow> (map_err Storage r, a\<lparr>app_repo := p\<rparr>))"

definition broadcast :: "api_lib \<Rightarrow> ws_event \<Rightarrow> app \<Rightarrow> app" where
  "broadcast L ev a = (if encodes L ev then a\<lparr>events := events a @ [ev]\<rparr> else a)"

definition respond :: "nat \<Rightarrow> (bytes \<times> bytes) list \<Rightarrow> body \<Rightarrow> response" where
  "respond st hs b = \<lparr>status = st, headers = hs, rbody = b\<rparr>"

definition IMMUTABLE_MESSAGE_CACHE :: bytes where
  "IMMUTABLE_MESSAGE_CACHE = ''private, max-age=31536000, immutable''"
definition MUTABLE_MESSAGE_CACHE :: bytes where "MUTABLE_MESSAGE_CACHE = ''no-store''"
definition DOWNLOAD_CONTENT_TYPE :: bytes where "DOWNLOAD_CONTENT_TYPE = ''application/octet-stream''"
definition CACHE_CONTROL :: bytes where "CACHE_CONTROL = ''cache-control''"
definition CONTENT_TYPE :: bytes where "CONTENT_TYPE = ''content-type''"
definition CONTENT_DISPOSITION :: bytes where "CONTENT_DISPOSITION = ''content-disposition''"

text \<open>\<open>AppError::into_response\<close>.\<close>

definition UNKNOWN_CURSOR :: bytes where
  "UNKNOWN_CURSOR = ''before does not name a stored message; it may have been deleted, so restart from the first page''"
definition UNKNOWN_CURSOR_CODE :: bytes where "UNKNOWN_CURSOR_CODE = ''unknown_cursor''"
definition READ_TIMED_OUT :: bytes where
  "READ_TIMED_OUT = ''the request ran past the server's time limit; retry it, or narrow it with limit or filters''"

definition into_response :: "app_error \<Rightarrow> response" where
  "into_response e =
     (case e of
        UnknownCursor \<Rightarrow> respond 400 [] (ErrorCodeBody UNKNOWN_CURSOR UNKNOWN_CURSOR_CODE)
      | BadRequest reason \<Rightarrow> respond 400 [] (ErrorBody reason)
      | TimedOut \<Rightarrow> respond 503 [] (ErrorBody READ_TIMED_OUT)
      | Storage (NotFound _) \<Rightarrow> respond 404 [] (ErrorBody ''Resource not found'')
      | Storage _ \<Rightarrow> respond 500 [] (ErrorBody ''Internal server error''))"

subsection \<open>Listing\<close>

definition DEFAULT_PAGE_LIMIT :: int where "DEFAULT_PAGE_LIMIT = 50"
definition MAX_PAGE_LIMIT :: int where "MAX_PAGE_LIMIT = 200"
definition MAX_TAGS :: nat where "MAX_TAGS = 20"
definition MAX_TAG_LEN :: nat where "MAX_TAG_LEN = 50"

record list_params =
  q :: "bytes option"
  lim :: "int option"
  offset :: "int option"
  before :: "bytes option"
  flt :: message_filter

definition parse_integer :: "bytes \<Rightarrow> bytes \<Rightarrow> (app_error, int) result" where
  "parse_integer key v = map_err (\<lambda>_. BadRequest (key @ '' must be an integer'')) (parse_i64 v)"

definition parse_flag :: "bytes \<Rightarrow> bytes \<Rightarrow> (app_error, bool) result" where
  "parse_flag key v =
     (if v = ''true'' then Inr True else if v = ''false'' then Inr False
      else Inl (BadRequest (key @ '' must be true or false'')))"

definition list_param :: "bytes \<Rightarrow> bytes \<Rightarrow> list_params \<Rightarrow> (app_error, list_params) result" where
  "list_param key v ps =
     (if key = ''q'' then Inr (ps\<lparr>q := Some v\<rparr>)
      else if key = ''limit'' then and_then (parse_integer key v) (\<lambda>n. Inr (ps\<lparr>lim := Some n\<rparr>))
      else if key = ''offset'' then and_then (parse_integer key v) (\<lambda>n. Inr (ps\<lparr>offset := Some n\<rparr>))
      else if key = ''before'' then Inr (ps\<lparr>before := Some v\<rparr>)
      else if key = ''starred'' then and_then (parse_flag key v) (\<lambda>b. Inr (ps\<lparr>flt := (flt ps)\<lparr>f_starred := b\<rparr>\<rparr>))
      else if key = ''unread'' then and_then (parse_flag key v) (\<lambda>b. Inr (ps\<lparr>flt := (flt ps)\<lparr>f_unread := b\<rparr>\<rparr>))
      else if key = ''has_attachments'' then
        and_then (parse_flag key v) (\<lambda>b. Inr (ps\<lparr>flt := (flt ps)\<lparr>f_has_attachments := b\<rparr>\<rparr>))
      else if key = ''tag'' then Inr (ps\<lparr>flt := (flt ps)\<lparr>f_tags := f_tags (flt ps) @ [v]\<rparr>\<rparr>)
      else Inr ps)"

fun list_params_loop :: "(bytes \<times> bytes) list \<Rightarrow> list_params \<Rightarrow> (app_error, list_params) result" where
  "list_params_loop [] ps = Inr ps"
| "list_params_loop ((key, v) # pairs) ps = and_then (list_param key v ps) (list_params_loop pairs)"

definition no_params :: list_params where
  "no_params = \<lparr>q = None, lim = None, offset = None, before = None, flt = default_filter\<rparr>"

definition list_params_parse :: "(bytes \<times> bytes) list \<Rightarrow> (app_error, list_params) result" where
  "list_params_parse pairs =
     and_then (list_params_loop pairs no_params) (\<lambda>ps.
       if MAX_TAGS < length (f_tags (flt ps)) then Inl (BadRequest (''Too many tag filters (max '' @ show_nat MAX_TAGS @ '')''))
       else Inr ps)"

definition CURSOR_WITH_OFFSET :: bytes where
  "CURSOR_WITH_OFFSET = ''before and offset cannot be combined; page with next_cursor or with offset, not both''"

definition of_res :: "(app_error, 'a) result \<Rightarrow> 'a api" where
  "of_res r = (case r of Inl e \<Rightarrow> sfail e | Inr a \<Rightarrow> sret a)"

text \<open>The page start a list request asks for.\<close>

definition list_start :: "list_params \<Rightarrow> page_start api" where
  "list_start ps =
     (case (before ps, offset ps) of
        (Some _, Some _) \<Rightarrow> sfail (BadRequest CURSOR_WITH_OFFSET)
      | (Some i, None) \<Rightarrow> (\<lambda>a. case on_repo (cursor i) a of
            (Inl (Storage (NotFound _)), a') \<Rightarrow> (Inl UnknownCursor, a')
          | (Inl e, a') \<Rightarrow> (Inl e, a')
          | (Inr seq, a') \<Rightarrow> (Inr (Before seq), a'))
      | (None, off) \<Rightarrow> sret (Offset (max 0 (case off of None \<Rightarrow> 0 | Some n \<Rightarrow> n))))"

definition list_fetch :: "api_lib \<Rightarrow> list_params \<Rightarrow> page_start \<Rightarrow> int \<Rightarrow> (message_summary list \<times> int) api" where
  "list_fetch L ps start lookahead =
     (case q ps of
        Some query \<Rightarrow>
          sbind (on_repo (search_page (sql L) (unicode_alnum L) query (flt ps) start lookahead)) (\<lambda>msgs.
          sbind (on_repo (search_count_filtered (sql L) (unicode_alnum L) query (flt ps))) (\<lambda>total. sret (msgs, total)))
      | None \<Rightarrow>
          sbind (on_repo (list_page (flt ps) start lookahead)) (\<lambda>msgs.
          sbind (on_repo (count_filtered (flt ps))) (\<lambda>total. sret (msgs, total))))"

definition list_messages :: "api_lib \<Rightarrow> (bytes \<times> bytes) list \<Rightarrow> response api" where
  "list_messages L pairs =
     sbind (of_res (list_params_parse pairs)) (\<lambda>ps.
     let limit = max 1 (min MAX_PAGE_LIMIT (case lim ps of None \<Rightarrow> DEFAULT_PAGE_LIMIT | Some n \<Rightarrow> n)) in
     sbind (list_start ps) (\<lambda>start.
     sbind (list_fetch L ps start (limit + 1)) (\<lambda>(msgs, total).
       let has_more = int (length msgs) > limit;
           shown = take (nat limit) msgs;
           next_cursor = (if has_more \<and> shown \<noteq> [] then Some (ms_id (last shown)) else None)
       in sret (respond 200 [(CACHE_CONTROL, MUTABLE_MESSAGE_CACHE)]
            (ListBody \<lparr>lp_messages = shown, lp_total = total, lp_next_cursor = next_cursor, lp_limit = limit\<rparr>)))))"

subsection \<open>Single messages\<close>

definition get_message_handler :: "api_lib \<Rightarrow> bytes \<Rightarrow> response api" where
  "get_message_handler L i =
     sbind (on_repo (get_message (zst L) (mime L) i)) (\<lambda>m.
       sret (respond 200 [(CACHE_CONTROL, MUTABLE_MESSAGE_CACHE)] (MessageBody m)))"

fun validate_each_tag :: "bytes list \<Rightarrow> bytes option" where
  "validate_each_tag [] = None"
| "validate_each_tag (tag # tags) =
     (if MAX_TAG_LEN < length tag then Some (''Tag too long (max '' @ show_nat MAX_TAG_LEN @ '' chars)'')
      else if tag = [] \<or> list_ex is_control (chars tag)
      then Some ''Tags must be non-empty and contain no control characters''
      else validate_each_tag tags)"

definition validate_tags :: "bytes list \<Rightarrow> bytes option" where
  "validate_tags tags =
     (if MAX_TAGS < length tags then Some (''Too many tags (max '' @ show_nat MAX_TAGS @ '')'')
      else validate_each_tag tags)"

definition update_message_handler ::
  "api_lib \<Rightarrow> bytes \<Rightarrow> bool option \<Rightarrow> bool option \<Rightarrow> bytes list option \<Rightarrow> response api" where
  "update_message_handler L i is_read is_starred tags =
     (case Option.bind tags validate_tags of
        Some reason \<Rightarrow> sret (respond 400 [] (ErrorBody reason))
      | None \<Rightarrow>
          sthen (on_repo (update_message (sql L) (mime L) i is_read is_starred tags))
          (sthen (modify (\<lambda>a. case is_read of None \<Rightarrow> a | Some b \<Rightarrow> broadcast L (MessageRead i b) a))
          (sthen (modify (\<lambda>a. case is_starred of None \<Rightarrow> a | Some b \<Rightarrow> broadcast L (MessageStarred i b) a))
          (sthen (modify (\<lambda>a. case tags of None \<Rightarrow> a | Some ts \<Rightarrow> broadcast L (MessageTags i ts) a))
          (sret (respond 204 [] NoBody))))))"

definition delete_message_handler :: "api_lib \<Rightarrow> bytes \<Rightarrow> response api" where
  "delete_message_handler L i =
     sthen (on_repo (delete_message i))
     (sthen (modify (broadcast L (MessageDelete i))) (sret (respond 204 [] NoBody)))"

definition delete_all_messages :: "api_lib \<Rightarrow> response api" where
  "delete_all_messages L =
     sbind (on_repo delete_all) (\<lambda>n.
     sthen (modify (broadcast L MessagesClear))
     (sthen (modify (\<lambda>a. a\<lparr>app_repo := reclaim_after_delete_all (app_repo a)\<rparr>))
     (sret (respond 200 [] (DeletedBody n)))))"

subsection \<open>Attachments and sources\<close>

definition sanitize_filename :: "bytes \<Rightarrow> bytes" where
  "sanitize_filename name =
     map (\<lambda>ch. case ch of
        [c] \<Rightarrow> if is_ascii_alphanumeric c \<or> c \<in> {CHR ''.'', CHR ''_'', CHR ''-''} then c else CHR ''_''
      | _ \<Rightarrow> CHR ''_'') (chars name)"

definition quoted_filename :: "bytes \<Rightarrow> bytes" where
  "quoted_filename name = ''attachment; filename='' @ [CHR 0x22] @ name @ [CHR 0x22]"

definition list_attachments :: "bytes \<Rightarrow> response api" where
  "list_attachments i =
     sbind (on_repo (get_attachments i)) (\<lambda>as.
       sret (respond 200 [(CACHE_CONTROL, IMMUTABLE_MESSAGE_CACHE)] (AttachmentsBody as)))"

definition get_attachment_handler :: "api_lib \<Rightarrow> bytes \<Rightarrow> bytes \<Rightarrow> response api" where
  "get_attachment_handler L message_id attachment_id =
     sbind (on_repo (get_attachment (zst L) (mime L) message_id attachment_id)) (\<lambda>att.
       let filename = sanitize_filename (case att_filename att of None \<Rightarrow> ''attachment'' | Some n \<Rightarrow> n) in
       sret (respond 200
         [(CONTENT_TYPE, DOWNLOAD_CONTENT_TYPE), (CONTENT_DISPOSITION, quoted_filename filename),
          (CACHE_CONTROL, IMMUTABLE_MESSAGE_CACHE), (''x-content-type-options'', ''nosniff'')]
         (RawBody (att_content att))))"

definition SAFE_IMAGE_TYPES :: "bytes list" where
  "SAFE_IMAGE_TYPES = [''image/png'', ''image/jpeg'', ''image/gif'', ''image/webp'', ''image/avif'', ''image/bmp'']"

definition inline_content_type :: "bytes option \<Rightarrow> bytes" where
  "inline_content_type ct =
     (case ct of
        None \<Rightarrow> ''application/octet-stream''
      | Some t \<Rightarrow> if list_ex (eq_ignore_ascii_case t) SAFE_IMAGE_TYPES then t else ''application/octet-stream'')"

definition get_inline_attachment :: "api_lib \<Rightarrow> bytes \<Rightarrow> bytes \<Rightarrow> response api" where
  "get_inline_attachment L message_id content_id =
     sbind (on_repo (get_attachment_by_content_id (zst L) (mime L) message_id content_id)) (\<lambda>att.
       sret (respond 200
         [(CONTENT_TYPE, inline_content_type (att_content_type att)), (CACHE_CONTROL, IMMUTABLE_MESSAGE_CACHE),
          (''x-content-type-options'', ''nosniff''),
          (''content-security-policy'', ''default-src '' @ [CHR 0x27] @ ''none'' @ [CHR 0x27])]
         (RawBody (att_content att))))"

definition RAW_LIMIT_ERROR :: bytes where "RAW_LIMIT_ERROR = ''limit must be a positive number of bytes''"

text \<open>The limit of a raw request: absent, a positive number, or refused.\<close>

definition raw_limit :: "bytes option \<Rightarrow> (unit, int option) result" where
  "raw_limit txt =
     (case txt of
        None \<Rightarrow> Inr None
      | Some t \<Rightarrow> (case parse_i64 t of Inr n \<Rightarrow> if 0 < n then Inr (Some n) else Inl () | Inl _ \<Rightarrow> Inl ()))"

definition get_raw_message :: "api_lib \<Rightarrow> bytes \<Rightarrow> bytes option \<Rightarrow> response api" where
  "get_raw_message L i txt =
     (case raw_limit txt of
        Inl _ \<Rightarrow> sret (respond 400 [] (ErrorBody RAW_LIMIT_ERROR))
      | Inr limit \<Rightarrow>
          sbind (on_repo (case limit of Some n \<Rightarrow> get_raw_prefix (zst L) i n | None \<Rightarrow> get_raw (zst L) i)) (\<lambda>raw.
            sret (respond 200 [(CONTENT_TYPE, ''message/rfc822''), (CACHE_CONTROL, IMMUTABLE_MESSAGE_CACHE)] (RawBody raw))))"

subsection \<open>Headers\<close>

definition HEADER_SECTION_PREFIX_BYTES :: int where "HEADER_SECTION_PREFIX_BYTES = 64 * 1024"

definition ends_header_section :: "bytes \<Rightarrow> bool" where
  "ends_header_section raw \<longleftrightarrow> sublist [CR, LF, CR, LF] raw \<or> sublist [LF, LF] raw"

definition read_header_section :: "api_lib \<Rightarrow> bytes \<Rightarrow> bytes sql" where
  "read_header_section L i =
     sbind (get_raw_prefix (zst L) i HEADER_SECTION_PREFIX_BYTES) (\<lambda>prefix.
       if int (length prefix) < HEADER_SECTION_PREFIX_BYTES \<or> ends_header_section prefix then sret prefix
       else get_raw (zst L) i)"

definition unfold_header_value :: "bytes \<Rightarrow> bytes" where
  "unfold_header_value v =
     join '' '' (filter (\<lambda>l. l \<noteq> []) (map trim (split_by (\<lambda>c. c = CR \<or> c = LF) (from_utf8_lossy v))))"

text \<open>\<open>raw.get(a..b)\<close>, empty when out of range.\<close>

definition header_slice :: "bytes \<Rightarrow> mail_header \<Rightarrow> bytes" where
  "header_slice raw h =
     (if mh_start h \<le> mh_end h \<and> mh_end h \<le> length raw then take (mh_end h - mh_start h) (drop (mh_start h) raw) else [])"

definition get_headers :: "api_lib \<Rightarrow> bytes \<Rightarrow> response api" where
  "get_headers L i =
     sbind (on_repo (read_header_section L i)) (\<lambda>raw.
       sret (respond 200 [(CACHE_CONTROL, IMMUTABLE_MESSAGE_CACHE)]
         (HeadersBody (map (\<lambda>h. (mh_spelled h, unfold_header_value (header_slice raw h))) (parse_headers L raw)))))"

definition parse_method_result :: "bytes \<Rightarrow> bytes \<times> bytes \<times> bytes" where
  "parse_method_result segment =
     (let seg = trim segment;
          (meth, rest) = (case split_once (CHR ''='') seg of Some p \<Rightarrow> p | None \<Rightarrow> ([], seg));
          st = (case split_whitespace rest of [] \<Rightarrow> ''unknown'' | w # _ \<Rightarrow> w)
      in (trim meth, st, seg))"

fun auth_segments :: "bytes list \<Rightarrow> auth_results \<Rightarrow> auth_results" where
  "auth_segments [] acc = acc"
| "auth_segments (segment # rest) acc =
     (let seg = trim segment in
      if seg = [] then auth_segments rest acc
      else (case parse_method_result seg of
        (meth, st, det) \<Rightarrow>
          let check = \<lparr>ac_status = st, ac_details = det\<rparr> in
          auth_segments rest
            (if meth = ''dkim'' then acc\<lparr>dkim := dkim acc @ [check]\<rparr>
             else if meth = ''spf'' then acc\<lparr>spf := spf acc @ [check]\<rparr>
             else if meth = ''dmarc'' then acc\<lparr>dmarc := dmarc acc @ [check]\<rparr>
             else acc)))"

definition parse_auth_results_header :: "bytes \<Rightarrow> auth_results \<Rightarrow> auth_results" where
  "parse_auth_results_header v acc =
     (case split_once (CHR '';'') v of
        None \<Rightarrow> acc
      | Some (_, rest) \<Rightarrow> auth_segments (split_by (\<lambda>c. c = CHR '';'') rest) acc)"

fun dkim_tags :: "bytes list \<Rightarrow> bytes \<times> bytes \<times> bytes \<Rightarrow> bytes \<times> bytes \<times> bytes" where
  "dkim_tags [] acc = acc"
| "dkim_tags (part # rest) (domain, selector, algorithm) =
     dkim_tags rest
       (case split_once (CHR ''='') (trim part) of
          None \<Rightarrow> (domain, selector, algorithm)
        | Some (tag, val) \<Rightarrow>
            if trim tag = ''d'' then (trim val, selector, algorithm)
            else if trim tag = ''s'' then (domain, trim val, algorithm)
            else if trim tag = ''a'' then (domain, selector, trim val)
            else (domain, selector, algorithm))"

definition parse_dkim_signature :: "bytes \<Rightarrow> auth_check" where
  "parse_dkim_signature v =
     (case dkim_tags (split_by (\<lambda>c. c = CHR '';'') v) ([], [], []) of
        (domain, selector, algorithm) \<Rightarrow>
          \<lparr>ac_status = ''info'', ac_details = ''d='' @ domain @ '' s='' @ selector @ '' a='' @ algorithm\<rparr>)"

definition parse_received_spf :: "bytes \<Rightarrow> auth_check" where
  "parse_received_spf v =
     \<lparr>ac_status = to_ascii_lowercase (case split_whitespace v of [] \<Rightarrow> ''unknown'' | w # _ \<Rightarrow> w), ac_details = v\<rparr>"

definition no_auth :: auth_results where
  "no_auth = \<lparr>dkim = [], spf = [], dmarc = [], arc = []\<rparr>"

definition auth_header :: "mail_header \<Rightarrow> auth_results \<Rightarrow> auth_results" where
  "auth_header h acc =
     (case mh_text h of
        None \<Rightarrow> acc
      | Some v \<Rightarrow>
          (case mh_name h of
             OtherName name \<Rightarrow>
               if eq_ignore_ascii_case name ''Authentication-Results'' then parse_auth_results_header v acc
               else if eq_ignore_ascii_case name ''Received-SPF'' then acc\<lparr>spf := spf acc @ [parse_received_spf v]\<rparr>
               else acc
           | ArcAuthenticationResults \<Rightarrow>
               (let found = parse_auth_results_header v no_auth in
                acc\<lparr>arc := arc acc @ map (\<lambda>c. c\<lparr>ac_status := ''arc:'' @ ac_status c\<rparr>) (dkim found @ spf found @ dmarc found)\<rparr>)
           | DkimSignature \<Rightarrow> acc\<lparr>dkim := dkim acc @ [parse_dkim_signature v]\<rparr>
           | KnownName \<Rightarrow> acc))"

definition get_auth_results :: "api_lib \<Rightarrow> bytes \<Rightarrow> response api" where
  "get_auth_results L i =
     sbind (on_repo (read_header_section L i)) (\<lambda>raw.
       sret (respond 200 [(CACHE_CONTROL, IMMUTABLE_MESSAGE_CACHE)]
         (AuthBody (fold auth_header (parse_headers L raw) no_auth))))"

subsection \<open>Assertions, exports, info\<close>

definition assert_count ::
  "api_lib \<Rightarrow> int option \<Rightarrow> int option \<Rightarrow> bytes option \<Rightarrow> bytes option \<Rightarrow> bytes option \<Rightarrow> response api" where
  "assert_count L mn mx subject sender recipient =
     sbind (on_repo (count_matching (sql L) (unicode_lower L) subject sender recipient)) (\<lambda>n.
       let lo = (case mn of None \<Rightarrow> 1 | Some x \<Rightarrow> x); hi = (case mx of None \<Rightarrow> i64_max | Some x \<Rightarrow> x) in
       if lo \<le> n \<and> n \<le> hi then sret (respond 200 [] (AssertBody True n None))
       else sret (respond 417 [] (AssertBody False n (Some (lo, hi)))))"

definition get_info :: "response api" where
  "get_info a =
     (case server_info a of
        Some (version, port) \<Rightarrow> (Inr (respond 200 [] (InfoBody version port)), a)
      | None \<Rightarrow> (Inr (respond 404 [] (ErrorBody ''Server info is not configured'')), a))"

text \<open>Exporting a message as JSON cannot fail to serialize: it has strings, flags and numbers only.\<close>

definition export_message :: "api_lib \<Rightarrow> bytes \<Rightarrow> bytes option \<Rightarrow> response api" where
  "export_message L i fmt =
     (let f = (case fmt of None \<Rightarrow> ''eml'' | Some x \<Rightarrow> x) in
      if f = ''eml'' then
        sbind (on_repo (get_raw (zst L) i)) (\<lambda>raw.
          sret (respond 200
            [(CONTENT_TYPE, ''message/rfc822''), (CONTENT_DISPOSITION, quoted_filename (sanitize_filename i @ ''.eml'')),
             (CACHE_CONTROL, IMMUTABLE_MESSAGE_CACHE)] (RawBody raw)))
      else if f = ''json'' then
        sbind (on_repo (get_message (zst L) (mime L) i)) (\<lambda>m.
          sret (respond 200
            [(CONTENT_TYPE, ''application/json''), (CONTENT_DISPOSITION, quoted_filename (sanitize_filename i @ ''.json'')),
             (CACHE_CONTROL, MUTABLE_MESSAGE_CACHE)] (MessageBody m)))
      else sret (respond 400 [] (ErrorBody
        (''format must be '' @ [CHR 0x27] @ ''eml'' @ [CHR 0x27] @ '' or '' @ [CHR 0x27] @ ''json'' @ [CHR 0x27]))))"

subsection \<open>Releasing a message to a relay\<close>

definition ALLOWED_SMTP_PORTS :: "nat list" where "ALLOWED_SMTP_PORTS = [25, 465, 587, 2525]"
definition IMPLICIT_TLS_SMTP_PORT :: nat where "IMPLICIT_TLS_SMTP_PORT = 465"

definition for_port :: "nat \<Rightarrow> relay_security" where
  "for_port port = (if port = IMPLICIT_TLS_SMTP_PORT then ImplicitTls else RequiredStartTls)"

definition release_envelope :: "api_lib \<Rightarrow> bytes \<Rightarrow> bytes \<Rightarrow> (bytes, bytes option \<times> bytes list) result" where
  "release_envelope L sender recipients =
     (if sender \<noteq> [] \<and> \<not> address_ok L sender then Inl ''the captured sender is not an address a relay accepts''
      else case json_strings L recipients of
        None \<Rightarrow> Inl ''the captured recipients could not be read''
      | Some to_list \<Rightarrow>
          if \<not> list_all (address_ok L) to_list then Inl ''a captured recipient is not an address a relay accepts''
          else (case envelope_error L to_list of
            Some e \<Rightarrow> Inl e
          | None \<Rightarrow> Inr (if sender = [] then None else Some sender, to_list)))"

definition next_relay :: "app \<Rightarrow> relay_answer \<times> app" where
  "next_relay a = (case relay a of [] \<Rightarrow> (RelayTakes, a) | r # rest \<Rightarrow> (r, a\<lparr>relay := rest\<rparr>))"

definition send_release :: "bytes \<Rightarrow> nat \<Rightarrow> bytes option \<times> bytes list \<Rightarrow> bytes \<Rightarrow> response api" where
  "send_release host port env raw a =
     (case next_relay a of
        (RelaySetupFails, a') \<Rightarrow> (Inr (respond 502 [] (ErrorBody ''Failed to establish TLS connection to relay host'')), a')
      | (RelayRefuses, a') \<Rightarrow> (Inr (respond 502 [] (ErrorBody ''SMTP delivery failed'')), a')
      | (RelayTakes, a') \<Rightarrow>
          (Inr (respond 200 [] ReleasedBody),
           a'\<lparr>sent := sent a' @ [\<lparr>rl_host = host, rl_port = port, rl_security = for_port port,
                                rl_from = fst env, rl_to = snd env, rl_raw = raw\<rparr>]\<rparr>))"

text \<open>The checks of \<open>release_message\<close> before the message is read: a refusal, or the port.\<close>

definition release_target :: "bytes \<Rightarrow> nat option \<Rightarrow> app \<Rightarrow> (response, nat) result" where
  "release_target host port a =
     (case release_host a of
        None \<Rightarrow> Inl (respond 403 [] (ErrorBody ''Email release is disabled. Configure --release-host to enable.''))
      | Some allowed_host \<Rightarrow>
          if host \<noteq> allowed_host then
            Inl (respond 403 [] (ErrorBody (''Release only allowed to configured host: '' @ allowed_host)))
          else
            let p = (case port of Some n \<Rightarrow> n | None \<Rightarrow> (case release_port a of Some n \<Rightarrow> n | None \<Rightarrow> 587)) in
            if release_port a \<noteq> None \<and> Some p \<noteq> release_port a then
              Inl (respond 403 [] (ErrorBody (''Release only allowed on configured port: '' @
                show_nat (case release_port a of Some n \<Rightarrow> n | None \<Rightarrow> 587))))
            else if \<not> List.member ALLOWED_SMTP_PORTS p then
              Inl (respond 400 [] (ErrorBody (''Port '' @ show_nat p @ '' is not an allowed SMTP port (25, 465, 587, 2525)'')))
            else Inr p)"

definition release_message :: "api_lib \<Rightarrow> bytes \<Rightarrow> bytes \<Rightarrow> nat option \<Rightarrow> response api" where
  "release_message L i host port a =
     (case release_target host port a of
        Inl refusal \<Rightarrow> (Inr refusal, a)
      | Inr p \<Rightarrow>
          sbind (on_repo (get_raw (zst L) i)) (\<lambda>raw.
          sbind (on_repo (get_message (zst L) (mime L) i)) (\<lambda>m.
            (case release_envelope L (ms_sender (fm_summary m)) (ms_recipients (fm_summary m)) of
               Inl reason \<Rightarrow> sret (respond 400 [] (ErrorBody (''Invalid envelope: '' @ reason)))
             | Inr env \<Rightarrow> send_release host p env raw))) a)"

subsection \<open>The time limit on reads\<close>

definition is_read_method :: "bytes \<Rightarrow> bool" where
  "is_read_method m \<longleftrightarrow> m = ''GET'' \<or> m = ''HEAD''"

text \<open>The answer of a request: a read that ran out of time is cut, a write never is.\<close>

definition time_out_reads :: "bytes \<Rightarrow> bool \<Rightarrow> response api \<Rightarrow> app \<Rightarrow> response \<times> app" where
  "time_out_reads m timed_out handler a =
     (case handler a of
        (r, a') \<Rightarrow>
          (if is_read_method m \<and> timed_out then into_response TimedOut
           else (case r of Inl e \<Rightarrow> into_response e | Inr resp \<Rightarrow> resp), a'))"

end
