(* ===== verification/Api_Listing.thy ===== *)
theory Api_Listing
  imports Api_Handlers
begin

text \<open>
  Listing through the API: what a page of \<open>list_messages\<close> holds, and what a client that follows
  \<open>next_cursor\<close> collects.
\<close>

subsection \<open>Following the cursor\<close>

lemma list_params_loop_append:
  "list_params_loop (xs @ ys) ps = and_then (list_params_loop xs ps) (list_params_loop ys)"
proof (induction xs arbitrary: ps)
  case (Cons x xs)
  show ?case by (cases x; cases "list_param (fst x) (snd x) ps") (use Cons in auto)
qed simp

lemma parse_before:
  "list_params_parse pairs = Inr ps \<Longrightarrow> list_params_parse (pairs @ [(''before'', c)]) = Inr (ps\<lparr>before := Some c\<rparr>)"
  by (cases "list_params_loop pairs no_params")
    (auto simp: list_params_parse_def list_params_loop_append list_param_def split: if_splits)

lemma extend_truncate [simp]: "store.extend (store.truncate p) (store.more p) = p"
  by (simp add: store.defs)

lemma truncate_faults [simp]: "faults (store.truncate p) = faults p"
  by (simp add: store.defs)

lemma select_quiet: "faults st = [] \<Longrightarrow> select f st = (Inr (f (tables st)), st)"
  by (cases st) (simp add: select_def stmt_def)

lemma on_repo_select:
  "faults (app_repo a) = [] \<Longrightarrow> on_repo (select f) a = (Inr (f (tables (app_repo a))), a)"
  by (simp add: on_repo_def on_store_def select_quiet)

lemma on_repo_result:
  assumes "on_repo op a = (r, a')"
  obtains x st where "op (store.truncate (app_repo a)) = (x, st)" "r = map_err Storage x"
    "tables (app_repo a') = tables st" "events a' = events a" "sent a' = sent a"
  using assms by (auto simp: on_repo_def on_store_def store.defs split: prod.splits)

lemma on_repo_sret: "on_repo (sret x) a = (Inr x, a)"
  by (simp add: on_repo_def on_store_def sret_def)

lemma on_repo_cursor:
  assumes "faults (app_repo a) = []" "messages_wf (tables (app_repo a))" "m \<in> set (messages (tables (app_repo a)))"
  shows "on_repo (cursor (mr_id m)) a = (Inr (mr_seq m), a)"
  using assms(1) find_message_id [OF assms(2,3)]
  by (simp add: cursor_def on_repo_def on_store_def select_quiet sbind_def sret_def)

text \<open>The rows a list request asks for, oldest first.\<close>

definition matching_rows :: "api_lib \<Rightarrow> list_params \<Rightarrow> tables \<Rightarrow> message_row list" where
  "matching_rows L ps t =
     (case q ps of
        None \<Rightarrow> filter (passes (flt ps) t) (messages t)
      | Some query \<Rightarrow> (case sanitize_fts_query (unicode_alnum L) query of
            None \<Rightarrow> []
          | Some quoted \<Rightarrow> filter (passes (flt ps) t) (fts_join (sql L) quoted t)))"

lemma matching_rows_sorted: "db_wf (sql L) t \<Longrightarrow> sorted_wrt (<) (map mr_seq (matching_rows L ps t))"
  using sorted_filter_seq [of t] fts_join_sorted
  by (auto simp: matching_rows_def db_wf_def split: option.splits)

lemma fts_join_subset: "set (fts_join S quoted t) \<subseteq> set (messages t)"
  by (auto simp: fts_join_def)

lemma matching_rows_subset: "set (matching_rows L ps t) \<subseteq> set (messages t)"
  using fts_join_subset by (fastforce simp: matching_rows_def split: option.splits)

lemma list_fetch_quiet:
  assumes "faults (app_repo a) = []" "db_wf (sql L) (tables (app_repo a))"
  shows "list_fetch L ps start n a =
    (Inr (map summary_of (page mr_seq start n (matching_rows L ps (tables (app_repo a)))),
          int (length (matching_rows L ps (tables (app_repo a))))), a)"
  using assms
  by (auto simp: list_fetch_def matching_rows_def list_page_def list_statement_def count_filtered_def count_def
      count_statement_def search_page_def search_statement_def search_count_filtered_def search_count_def
      search_count_statement_def filter_is_empty_def on_repo_select on_repo_sret fts_join_length page_def window_def
      sbind_def sret_def [of "(_, _)"] split: option.splits page_start.splits)


definition page_limit :: "list_params \<Rightarrow> int" where
  "page_limit ps = max 1 (min MAX_PAGE_LIMIT (case lim ps of None \<Rightarrow> DEFAULT_PAGE_LIMIT | Some n \<Rightarrow> n))"

text \<open>The page a request shows from the \<open>k\<close>th of the rows it asks for, newest first.\<close>

definition page_body :: "list_params \<Rightarrow> message_row list \<Rightarrow> nat \<Rightarrow> list_page_body" where
  "page_body ps rows k =
     (let n = nat (page_limit ps); shown = take n (drop k rows) in
      \<lparr>lp_messages = map summary_of shown, lp_total = int (length rows),
       lp_next_cursor = (if k + n < length rows then Some (mr_id (rows ! (k + n - 1))) else None),
       lp_limit = page_limit ps\<rparr>)"

lemma page_shown:
  assumes "list_params_parse pairs = Inr ps" "list_start ps a = (Inr start, a)"
    and "faults (app_repo a) = []" "db_wf (sql L) (tables (app_repo a))"
    and "\<And>n. page mr_seq start n (matching_rows L ps (tables (app_repo a))) =
      window n 0 (drop k (rev (matching_rows L ps (tables (app_repo a)))))"
    and "k \<le> length (matching_rows L ps (tables (app_repo a)))"
  shows "list_messages L pairs a =
    (Inr (respond 200 [(CACHE_CONTROL, MUTABLE_MESSAGE_CACHE)]
       (ListBody (page_body ps (rev (matching_rows L ps (tables (app_repo a)))) k))), a)"
proof -
  let ?R = "rev (matching_rows L ps (tables (app_repo a)))" and ?n = "nat (page_limit ps)"
  have n: "1 \<le> page_limit ps" "0 < ?n" by (simp_all add: page_limit_def)
  have w: "window (page_limit ps + 1) 0 (drop k ?R) = take (Suc ?n) (drop k ?R)"
    using n by (simp add: window_def nat_add_distrib)
  have more: "int (length (take (Suc ?n) (drop k ?R))) > page_limit ps \<longleftrightarrow> k + ?n < length ?R"
    using n assms(6) by auto
  have last: "take ?n (drop k ?R) \<noteq> [] \<and> last (take ?n (drop k ?R)) = ?R ! (k + ?n - 1)" if "k + ?n < length ?R"
    using that n by (simp add: last_conv_nth)
  have ln: "ms_id (last (map summary_of (take ?n (drop k ?R)))) = mr_id (?R ! (k + ?n - 1))" if "k + ?n < length ?R"
    using last [OF that] by (simp add: last_map summary_of_def)
  have "take ?n (map summary_of (take (Suc ?n) (drop k ?R))) = map summary_of (take ?n (drop k ?R))"
    by (simp add: take_map)
  then show ?thesis
    using list_fetch_quiet [OF assms(3,4), of ps start "page_limit ps + 1"] assms(1,2,5) w more last ln
    unfolding list_messages_def page_limit_def [symmetric] Let_def
    by (simp add: sbind_def of_res_def sret_def page_body_def Let_def del: length_take)
qed

lemma first_page:
  assumes "list_params_parse pairs = Inr ps" "before ps = None" "offset ps = None"
    and "faults (app_repo a) = []" "db_wf (sql L) (tables (app_repo a))"
  shows "list_messages L pairs a =
    (Inr (respond 200 [(CACHE_CONTROL, MUTABLE_MESSAGE_CACHE)]
       (ListBody (page_body ps (rev (matching_rows L ps (tables (app_repo a)))) 0))), a)"
  using assms by (intro page_shown [where start = "Offset 0"])
    (auto simp: list_start_def sret_def page_Offset matching_rows_sorted)

lemma matching_rows_before [simp]: "matching_rows L (ps\<lparr>before := b\<rparr>) t = matching_rows L ps t"
  by (simp add: matching_rows_def split: option.splits)

lemma page_body_before [simp]: "page_body (ps\<lparr>before := b\<rparr>) rows k = page_body ps rows k"
  by (simp add: page_body_def page_limit_def)

lemma next_page:
  assumes "list_params_parse pairs = Inr ps" "before ps = None" "offset ps = None"
    and "faults (app_repo a) = []" "db_wf (sql L) (tables (app_repo a))"
    and "R = rev (matching_rows L ps (tables (app_repo a)))" "k < length R"
  shows "list_messages L (pairs @ [(''before'', mr_id (R ! k))]) a =
    (Inr (respond 200 [(CACHE_CONTROL, MUTABLE_MESSAGE_CACHE)] (ListBody (page_body ps R (Suc k)))), a)"
proof -
  let ?t = "tables (app_repo a)" and ?ps = "ps\<lparr>before := Some (mr_id (R ! k))\<rparr>"
  have s: "sorted_wrt (<) (map mr_seq (matching_rows L ps ?t))" using assms(5) by (rule matching_rows_sorted)
  then have d: "sorted_wrt (\<lambda>x y. mr_seq x > mr_seq y) R" using assms(6) by (simp add: sorted_wrt_rev sorted_wrt_map)
  have "R ! k \<in> set (messages ?t)" using matching_rows_subset [of L ps ?t] assms(6) nth_mem [OF assms(7)] by auto
  then have "list_start ?ps a = (Inr (Before (mr_seq (R ! k))), a)"
    using on_repo_cursor [of a] assms(3-5) by (simp add: list_start_def db_wf_def)
  moreover have "page mr_seq (Before (mr_seq (R ! k))) n (matching_rows L ps ?t) = window n 0 (drop (Suc k) R)" for n
    using page_Before [OF s] dropWhile_nth_desc [OF d assms(7)] assms(6) by simp
  ultimately show ?thesis
    using page_shown [OF parse_before [OF assms(1)], of "mr_id (R ! k)" a "Before (mr_seq (R ! k))" L "Suc k"] assms(4-7)
    by simp
qed

text \<open>A client that follows \<open>next_cursor\<close>; \<open>fuel\<close> bounds the requests it makes.\<close>

fun follow :: "api_lib \<Rightarrow> (bytes \<times> bytes) list \<Rightarrow> nat \<Rightarrow> (bytes \<times> bytes) list \<Rightarrow> app \<Rightarrow> message_summary list option" where
  "follow L pairs 0 at a = None"
| "follow L pairs (Suc fuel) at a =
     (case list_messages L (pairs @ at) a of
        (Inr resp, a') \<Rightarrow> (case rbody resp of
            ListBody p \<Rightarrow> (case lp_next_cursor p of
                None \<Rightarrow> Some (lp_messages p)
              | Some c \<Rightarrow> map_option (\<lambda>rest. lp_messages p @ rest) (follow L pairs fuel [(''before'', c)] a'))
          | _ \<Rightarrow> None)
      | _ \<Rightarrow> None)"

lemma follow_step:
  assumes "list_messages L (pairs @ at) a = (Inr (respond st hs (ListBody (page_body ps R k))), a)"
    and "\<And>j. k \<le> j \<Longrightarrow> j < length R \<Longrightarrow>
      follow L pairs fuel [(''before'', mr_id (R ! j))] a = Some (map summary_of (drop (Suc j) R))"
  shows "follow L pairs (Suc fuel) at a = Some (map summary_of (drop k R))"
proof -
  let ?n = "nat (page_limit ps)"
  have n: "0 < ?n" by (simp add: page_limit_def)
  have "map summary_of (take ?n (drop k R)) @ map summary_of (drop (?n + k) R) = map summary_of (drop k R)"
    by (metis append_take_drop_id drop_drop map_append)
  then show ?thesis using assms(1) assms(2) [of "k + ?n - 1"] n
    by (simp add: page_body_def respond_def Let_def add.commute)
qed

lemma follow_from:
  assumes "list_params_parse pairs = Inr ps" "before ps = None" "offset ps = None"
    and "faults (app_repo a) = []" "db_wf (sql L) (tables (app_repo a))"
    and "R = rev (matching_rows L ps (tables (app_repo a)))"
  shows "k < length R \<Longrightarrow> length R - k \<le> fuel \<Longrightarrow>
    follow L pairs fuel [(''before'', mr_id (R ! k))] a = Some (map summary_of (drop (Suc k) R))"
proof (induction fuel arbitrary: k)
  case (Suc fuel)
  show ?case by (rule follow_step [OF next_page [OF assms Suc.prems(1)]]) (use Suc in auto)
qed simp

text \<open>
  C24. A client that lists (or searches) messages and follows \<open>next_cursor\<close> gets every message
  that passes the filter and the query, once each, newest first, and then no further cursor;
  it needs at most one request more than there are messages.
\<close>

theorem following_the_cursor_lists_everything_once:
  assumes "list_params_parse pairs = Inr ps" "before ps = None" "offset ps = None"
    and "faults (app_repo a) = []" "db_wf (sql L) (tables (app_repo a))"
    and "length (matching_rows L ps (tables (app_repo a))) \<le> fuel"
  shows "follow L pairs (Suc fuel) [] a = Some (map summary_of (rev (matching_rows L ps (tables (app_repo a)))))"
proof -
  let ?R = "rev (matching_rows L ps (tables (app_repo a)))"
  have "list_messages L (pairs @ []) a =
      (Inr (respond 200 [(CACHE_CONTROL, MUTABLE_MESSAGE_CACHE)] (ListBody (page_body ps ?R 0))), a)"
    using first_page [OF assms(1-5)] by simp
  then have "follow L pairs (Suc fuel) [] a = Some (map summary_of (drop 0 ?R))"
    by (rule follow_step) (use follow_from [OF assms(1-5) refl] assms(6) in simp)
  then show ?thesis by simp
qed

definition plain_api :: api_lib where
  "plain_api = \<lparr>sql = plain_sql, zst = plain_zstd, mime = plain_mime, unicode_alnum = (\<lambda>_. False),
     unicode_lower = to_ascii_lowercase, parse_headers = (\<lambda>_. []), json_strings = (\<lambda>_. Some [''b'']),
     address_ok = (\<lambda>_. True), envelope_error = (\<lambda>_. None), encodes = (\<lambda>_. True)\<rparr>"

definition one_app :: app where
  "one_app = \<lparr>app_repo = (plain_pager 0)\<lparr>tables := one_message\<rparr>, events = [], release_host = Some ''relay'',
     release_port = None, server_info = None, sent = [], relay = []\<rparr>"

lemma one_app_ready:
  "faults (app_repo one_app) = []" "tables (app_repo one_app) = one_message"
  "db_wf (sql plain_api) (tables (app_repo one_app))"
  using one_message_wf
  by (simp_all add: one_app_def plain_pager_def plain_store_def store.defs plain_api_def one_store_def)

theorem following_the_cursor_lists_everything_once_witness:
  "follow plain_api [(''limit'', ''1'')] (Suc 1) [] one_app = Some [summary_of one_row]"
proof -
  have "list_params_parse [(''limit'', ''1'')] = Inr (no_params\<lparr>lim := Some 1\<rparr>)"
    by (simp add: list_params_parse_def list_param_def parse_integer_def parse_signed_def to_digit_def is_ascii_digit_def
        no_params_def default_filter_def MAX_TAGS_def)
  then show ?thesis
    using following_the_cursor_lists_everything_once [of "[(''limit'', ''1'')]" "no_params\<lparr>lim := Some 1\<rparr>" one_app plain_api 1]
      one_app_ready
    by (simp add: no_params_def matching_rows_def one_message_def del: follow.simps)
qed

end
