(* ===== verification/Api_Responses.thy ===== *)
theory Api_Responses
  imports Api_Listing
begin

text \<open>
  What the handlers let out of the store: where a release may go and what it carries, and the
  headers that files of captured mail are served with.
\<close>

subsection \<open>Reads leave the store alone\<close>

lemma of_result_state [simp]: "of_result x st = (x, st)"
  by (cases x) (simp_all add: of_result_def sess_defs)

lemma fetch_result:
  assumes "fetch i st = (r, st')"
  shows "tables st' = tables st \<and> (\<forall>x. r = Inr x \<longrightarrow> content_join i (tables st) = Some x)"
proof -
  obtain y st1 where y: "select (content_join i) st = (y, st1)" by fastforce
  note s = select_tables [OF y]
  show ?thesis using assms y s by (cases y) (auto simp: fetch_def sess_defs split: option.splits)
qed

lemma get_raw_result:
  assumes "get_raw Z i st = (r, st')"
  shows "tables st' = tables st \<and> (\<forall>raw. r = Inr raw \<longrightarrow>
    (\<exists>m frame. content_join i (tables st) = Some (m, frame) \<and> decompress Z frame (mr_size m) i = Inr raw))"
proof -
  obtain y st1 where y: "fetch i st = (y, st1)" by fastforce
  note f = fetch_result [OF y]
  show ?thesis using assms y f by (cases y) (auto simp: get_raw_def sess_defs)
qed

lemma get_message_result:
  assumes "get_message Z M i st = (r, st')"
  shows "tables st' = tables st \<and> (\<forall>fm. r = Inr fm \<longrightarrow>
    (\<exists>m frame. content_join i (tables st) = Some (m, frame) \<and> fm_summary fm = summary_of m))"
proof -
  obtain y st1 where y: "fetch i st = (y, st1)" by fastforce
  note f = fetch_result [OF y]
  have "into_message Z M m frame = Inr fm \<Longrightarrow> fm_summary fm = summary_of m" for m frame fm
    by (cases "decompress Z frame (mr_size m) (mr_id m)") (auto simp: into_message_def Let_def)
  then show ?thesis using assms y f by (cases y) (auto simp: get_message_def sess_defs)
qed

subsection \<open>Releases\<close>

text \<open>What a release of the message \<open>i\<close> to a relay may consist of.\<close>

definition faithful_release :: "api_lib \<Rightarrow> bytes \<Rightarrow> app \<Rightarrow> relayed \<Rightarrow> bool" where
  "faithful_release L i a rl \<longleftrightarrow>
     release_host a = Some (rl_host rl) \<and> release_port a \<in> {None, Some (rl_port rl)} \<and>
     rl_port rl \<in> {25, 465, 587, 2525} \<and> (rl_security rl = ImplicitTls \<longleftrightarrow> rl_port rl = 465) \<and>
     (\<exists>m frame. content_join i (tables (app_repo a)) = Some (m, frame) \<and>
        decompress (zst L) frame (mr_size m) i = Inr (rl_raw rl) \<and>
        rl_from rl = (if mr_sender m = [] then None else Some (mr_sender m)) \<and>
        json_strings L (mr_recipients m) = Some (rl_to rl) \<and> list_all (address_ok L) (rl_to rl))"

lemma release_target_Inr:
  "release_target host port a = Inr p \<Longrightarrow>
     release_host a = Some host \<and> release_port a \<in> {None, Some p} \<and> p \<in> {25, 465, 587, 2525}"
  by (auto simp: release_target_def ALLOWED_SMTP_PORTS_def Let_def split: option.splits if_splits)

lemma release_envelope_Inr:
  "release_envelope L s r = Inr env \<Longrightarrow>
     fst env = (if s = [] then None else Some s) \<and> json_strings L r = Some (snd env) \<and> list_all (address_ok L) (snd env)"
  by (auto simp: release_envelope_def split: if_splits option.splits)

lemma send_release_cases:
  assumes "send_release host p env raw a = (r, a')"
  shows "app_repo a' = app_repo a \<and> events a' = events a \<and>
    ((\<exists>resp. r = Inr resp \<and> status resp \<noteq> 200) \<and> sent a' = sent a \<or>
     r = Inr (respond 200 [] ReleasedBody) \<and> sent a' = sent a @
       [\<lparr>rl_host = host, rl_port = p, rl_security = for_port p, rl_from = fst env, rl_to = snd env, rl_raw = raw\<rparr>])"
  using assms by (auto simp: send_release_def next_relay_def respond_def split: list.splits relay_answer.splits)

text \<open>
  C29. A release reaches only the configured host, on the configured port if there is one and on
  one of the four SMTP ports, with TLS from the first byte exactly on 465, and carries the
  captured source to the captured recipients from the captured sender, whatever the request
  says. The answer is 200 exactly when one message was handed to a relay; storage and clients
  are not touched.
\<close>

theorem release_goes_only_where_configured:
  assumes "release_message L i host port a = (r, a')"
  shows "tables (app_repo a') = tables (app_repo a) \<and> events a' = events a \<and>
    ((\<exists>rl. sent a' = sent a @ [rl] \<and> faithful_release L i a rl \<and> r = Inr (respond 200 [] ReleasedBody)) \<or>
     sent a' = sent a \<and> (case r of Inl _ \<Rightarrow> True | Inr resp \<Rightarrow> status resp \<noteq> 200))"
proof (cases "release_target host port a")
  case (Inl refusal)
  then have "status refusal \<noteq> 200"
    by (auto simp: release_target_def respond_def Let_def split: option.splits if_splits)
  then show ?thesis using assms Inl by (auto simp: release_message_def)
next
  case (Inr p)
  obtain x a1 where x: "on_repo (get_raw (zst L) i) a = (x, a1)" by fastforce
  obtain y a2 where y: "on_repo (get_message (zst L) (mime L) i) a1 = (y, a2)" by fastforce
  from x obtain x' st where x': "get_raw (zst L) i (store.truncate (app_repo a)) = (x', st)"
    "x = map_err Storage x'" "tables (app_repo a1) = tables st" "events a1 = events a" "sent a1 = sent a"
    by (rule on_repo_result)
  from y obtain y' st' where y': "get_message (zst L) (mime L) i (store.truncate (app_repo a1)) = (y', st')"
    "y = map_err Storage y'" "tables (app_repo a2) = tables st'" "events a2 = events a1" "sent a2 = sent a1"
    by (rule on_repo_result)
  note raw = get_raw_result [OF x'(1)] and msg = get_message_result [OF y'(1)]
  have same: "tables (app_repo a1) = tables (app_repo a)" "tables (app_repo a2) = tables (app_repo a)"
    using raw msg x'(3) y'(3) by simp_all
  show ?thesis
  proof (cases "\<exists>src fm env. x' = Inr src \<and> y' = Inr fm \<and>
      release_envelope L (ms_sender (fm_summary fm)) (ms_recipients (fm_summary fm)) = Inr env")
    case True
    then obtain src fm env where ok: "x' = Inr src" "y' = Inr fm"
      "release_envelope L (ms_sender (fm_summary fm)) (ms_recipients (fm_summary fm)) = Inr env" by blast
    let ?rl = "\<lparr>rl_host = host, rl_port = p, rl_security = for_port p, rl_from = fst env, rl_to = snd env, rl_raw = src\<rparr>"
    obtain m frame where m: "content_join i (tables (app_repo a)) = Some (m, frame)"
      "decompress (zst L) frame (mr_size m) i = Inr src" "fm_summary fm = summary_of m"
      using raw msg ok(1,2) same(1) by auto
    have "faithful_release L i a ?rl"
      using release_target_Inr [OF Inr] release_envelope_Inr [OF ok(3)] m
      by (auto simp: faithful_release_def for_port_def IMPLICIT_TLS_SMTP_PORT_def summary_of_def)
    moreover have "send_release host p env src a2 = (r, a')"
      using assms Inr x y x'(2) y'(2) ok by (simp add: release_message_def sbind_def)
    ultimately show ?thesis
      using send_release_cases [of host p env src a2 r a'] same x'(4,5) y'(4,5) by (auto split: sum.split)
  next
    case False
    then have "(a' = a1 \<or> a' = a2) \<and> (case r of Inl _ \<Rightarrow> True | Inr resp \<Rightarrow> status resp \<noteq> 200)"
      using assms Inr x y x'(2) y'(2)
      by (cases x'; cases y') (auto simp: release_message_def sess_defs respond_def split: sum.splits)
    then show ?thesis using same x'(4,5) y'(4,5) by auto
  qed
qed

theorem release_goes_only_where_configured_witness:
  "\<exists>rl. sent (snd (release_message plain_api ''i'' ''relay'' (Some 465) one_app)) = [rl] \<and> rl_host rl = ''relay''"
proof -
  have "fst (release_message plain_api ''i'' ''relay'' (Some 465) one_app) = Inr (respond 200 [] ReleasedBody)"
    by code_simp
  then show ?thesis
    using release_goes_only_where_configured [OF prod.collapse [symmetric], of plain_api "''i''" "''relay''" "Some 465" one_app]
    by (auto simp: one_app_def respond_def faithful_release_def)
qed

subsection \<open>Files of captured mail\<close>

definition printable :: "bytes \<Rightarrow> bool" where
  "printable s \<longleftrightarrow> list_all (\<lambda>c. 0x20 \<le> byte c \<and> byte c < 0x7F) s"

definition filename_char :: "char \<Rightarrow> bool" where
  "filename_char c \<longleftrightarrow> is_ascii_alphanumeric c \<or> c \<in> {CHR ''.'', CHR ''_'', CHR ''-''}"

lemma sanitize_filename_chars: "list_all filename_char (sanitize_filename name)"
  by (auto simp: sanitize_filename_def filename_char_def list_all_iff split: list.splits)

lemma filename_printable: "list_all filename_char s \<Longrightarrow> printable s"
  by (auto simp: printable_def list_all_iff filename_char_def is_ascii_alphanumeric_def is_ascii_digit_def)

lemma printable_lower: "printable (to_ascii_lowercase s) = printable s"
proof -
  have "(0x20 \<le> byte (ascii_lower c) \<and> byte (ascii_lower c) < 0x7F) = (0x20 \<le> byte c \<and> byte c < 0x7F)" for c
    by (simp add: ascii_lower_def)
  then show ?thesis by (simp add: printable_def to_ascii_lowercase_def list.pred_map o_def)
qed

text \<open>The content types captured bytes are served with.\<close>

definition inert_type :: "bytes \<Rightarrow> bool" where
  "inert_type ct \<longleftrightarrow>
     list_ex (eq_ignore_ascii_case ct) (SAFE_IMAGE_TYPES @ [DOWNLOAD_CONTENT_TYPE, ''message/rfc822'', ''application/json''])"

lemma inert_type_printable: "inert_type ct \<Longrightarrow> printable ct"
proof -
  assume "inert_type ct"
  then obtain safe where "safe \<in> set (SAFE_IMAGE_TYPES @ [DOWNLOAD_CONTENT_TYPE, ''message/rfc822'', ''application/json''])"
    "to_ascii_lowercase ct = to_ascii_lowercase safe"
    by (auto simp: inert_type_def eq_ignore_ascii_case_def list_ex_iff)
  moreover from this(1) have "printable safe"
    by (auto simp: SAFE_IMAGE_TYPES_def DOWNLOAD_CONTENT_TYPE_def printable_def)
  ultimately show ?thesis using printable_lower by metis
qed

lemma inline_content_type_inert: "inert_type (inline_content_type ct)"
  by (auto simp: inline_content_type_def inert_type_def DOWNLOAD_CONTENT_TYPE_def eq_ignore_ascii_case_def split: option.split)

text \<open>A set of headers that says what the bytes are, and cannot be broken out of.\<close>

definition inert_headers :: "(bytes \<times> bytes) list \<Rightarrow> bool" where
  "inert_headers hs \<longleftrightarrow>
     list_all (\<lambda>(k, v). printable v \<and> (k = CONTENT_TYPE \<longrightarrow> inert_type v) \<and>
       (k = CONTENT_DISPOSITION \<longrightarrow> (\<exists>name. v = quoted_filename name \<and> list_all filename_char name))) hs"

lemma inert_Nil: "inert_headers []"
  by (simp add: inert_headers_def)

lemma inert_type_header: "inert_type v \<Longrightarrow> inert_headers hs \<Longrightarrow> inert_headers ((CONTENT_TYPE, v) # hs)"
  by (simp add: inert_headers_def inert_type_printable CONTENT_TYPE_def CONTENT_DISPOSITION_def)

lemma inert_disposition:
  "list_all filename_char name \<Longrightarrow> inert_headers hs \<Longrightarrow> inert_headers ((CONTENT_DISPOSITION, quoted_filename name) # hs)"
  using filename_printable [of name]
  by (auto simp: inert_headers_def quoted_filename_def CONTENT_TYPE_def CONTENT_DISPOSITION_def printable_def)

lemma inert_other:
  "k \<noteq> CONTENT_TYPE \<Longrightarrow> k \<noteq> CONTENT_DISPOSITION \<Longrightarrow> printable v \<Longrightarrow> inert_headers hs \<Longrightarrow> inert_headers ((k, v) # hs)"
  by (simp add: inert_headers_def)

lemma known_headers:
  "inert_headers hs \<Longrightarrow> inert_headers ((CACHE_CONTROL, IMMUTABLE_MESSAGE_CACHE) # hs)"
  "inert_headers hs \<Longrightarrow> inert_headers ((CACHE_CONTROL, MUTABLE_MESSAGE_CACHE) # hs)"
  "inert_headers hs \<Longrightarrow> inert_headers ((''x-content-type-options'', ''nosniff'') # hs)"
  "inert_headers hs \<Longrightarrow>
     inert_headers ((''content-security-policy'', ''default-src '' @ [CHR 0x27] @ ''none'' @ [CHR 0x27]) # hs)"
  by (auto intro!: inert_other simp: CACHE_CONTROL_def CONTENT_TYPE_def CONTENT_DISPOSITION_def printable_def
      IMMUTABLE_MESSAGE_CACHE_def MUTABLE_MESSAGE_CACHE_def)

lemma known_types: "inert_type DOWNLOAD_CONTENT_TYPE" "inert_type ''message/rfc822''" "inert_type ''application/json''"
  by (auto simp: inert_type_def eq_ignore_ascii_case_def)

lemma exported_name: "list_all filename_char (sanitize_filename i @ ''.eml'')" "list_all filename_char (sanitize_filename i @ ''.json'')"
  using sanitize_filename_chars by (auto simp: filename_char_def is_ascii_alphanumeric_def)

lemmas inert_intros = inert_Nil inert_type_header inert_disposition known_headers known_types exported_name
  sanitize_filename_chars inline_content_type_inert

text \<open>A handler whose answer, if it has one, is built from what a read returned.\<close>

lemma bind_headers:
  assumes "sbind m (\<lambda>x. sret (respond 200 (hs x) (b x))) a = (Inr resp, a')" "\<And>x. inert_headers (hs x)"
  shows "inert_headers (headers resp)"
  using assms by (auto simp: sess_defs respond_def split: prod.splits sum.splits)

lemma refused_headers: "sret (respond st [] b) a = (Inr resp, a') \<Longrightarrow> inert_headers (headers resp)"
  by (auto simp: sret_def respond_def inert_Nil)

text \<open>
  C30. Captured mail is served as data: attachments, inline images, sources and exports carry
  one of the safe image types, \<open>application/octet-stream\<close>, \<open>message/rfc822\<close> or
  \<open>application/json\<close>, whatever type the message claims for them; file names are reduced to
  letters, digits, dots, dashes and underscores; every header value is printable ASCII, so that
  nothing in a message can end a header or start another.
\<close>

theorem captured_files_are_served_as_data:
  assumes "h \<in> {get_attachment_handler L i j, get_inline_attachment L i j, get_raw_message L i txt, export_message L i fmt}"
    and "h a = (Inr resp, a')"
  shows "inert_headers (headers resp)"
proof -
  consider "get_attachment_handler L i j a = (Inr resp, a')" | "get_inline_attachment L i j a = (Inr resp, a')"
    | "get_raw_message L i txt a = (Inr resp, a')" | "export_message L i fmt a = (Inr resp, a')"
    using assms by auto
  then show ?thesis
  proof cases
    case 1
    show ?thesis by (rule bind_headers [OF 1 [unfolded get_attachment_handler_def Let_def]]) (intro inert_intros)
  next
    case 2
    show ?thesis by (rule bind_headers [OF 2 [unfolded get_inline_attachment_def]]) (intro inert_intros)
  next
    case 3
    then show ?thesis unfolding get_raw_message_def
      by (cases "raw_limit txt") (auto intro: inert_intros elim!: bind_headers refused_headers)
  next
    case 4
    let ?f = "case fmt of None \<Rightarrow> ''eml'' | Some x \<Rightarrow> x"
    consider "?f = ''eml''" | "?f = ''json''" | "?f \<noteq> ''eml''" "?f \<noteq> ''json''" by blast
    then show ?thesis using 4 unfolding export_message_def Let_def
      by cases (auto intro: inert_intros elim!: bind_headers refused_headers)
  qed
qed

theorem captured_files_are_served_as_data_witness:
  "\<exists>resp a'. export_message plain_api ''i'' None one_app = (Inr resp, a') \<and> inert_headers (headers resp)"
proof -
  have "\<not> isl (fst (export_message plain_api ''i'' None one_app))" by code_simp
  then obtain resp a' where r: "export_message plain_api ''i'' None one_app = (Inr resp, a')"
    by (metis isl_def obj_sumE prod.collapse)
  then show ?thesis
    using captured_files_are_served_as_data [of "export_message plain_api ''i'' None" plain_api "''i''" "[]" None None one_app]
    by blast
qed

end
