(* ===== verification/Ws_Session.thy ===== *)
theory Ws_Session
  imports Api_Guard Api_Handlers
begin

text \<open>
  WebSocket connections (\<open>rustmail-api/src/ws.rs\<close>): the handshake, and the loop of one
  connection as a step relation. Which branch of the \<open>select!\<close> runs, when the peer speaks,
  how long each send takes and what is broadcast meanwhile are free. The broadcast channel is
  tokio's: it keeps the newest \<open>capacity\<close> frames, and a receiver that needs an older one is
  told how many it missed. Times are in seconds.
\<close>

definition WS_PING_INTERVAL :: nat where "WS_PING_INTERVAL = 30"
definition WS_IDLE_TIMEOUT :: nat where "WS_IDLE_TIMEOUT = 90"
definition WS_SEND_TIMEOUT :: nat where "WS_SEND_TIMEOUT = 10"
definition MAX_WS_CONNECTIONS :: nat where "MAX_WS_CONNECTIONS = 50"

record ws_timings =
  ping_interval :: nat
  idle_timeout :: nat
  send_timeout :: nat

definition default_timings :: ws_timings where
  "default_timings = \<lparr>ping_interval = WS_PING_INTERVAL, idle_timeout = WS_IDLE_TIMEOUT, send_timeout = WS_SEND_TIMEOUT\<rparr>"

subsection \<open>The handshake\<close>

text \<open>The status a handshake is refused with, or the permits left.\<close>

definition ws_handler :: "origin list \<Rightarrow> header_map \<Rightarrow> nat \<Rightarrow> (nat, nat) result" where
  "ws_handler allowed hs permits =
     (if (case header_get hs ''origin'' of None \<Rightarrow> False | Some o1 \<Rightarrow> \<not> origin_allowed o1 (header_get hs ''host'') allowed)
      then Inl 403
      else if permits = 0 then Inl 503 else Inr (permits - 1))"

subsection \<open>One connection\<close>

datatype ws_message = WsPing | WsText ws_event | WsClose

datatype send_fate = GoesOut nat | SendError nat

datatype peer_message = PeerFrame | PeerClose | PeerGone | PeerError

datatype recv_result = RecvOk ws_event | Lagged nat | RecvClosed

record ws_conn =
  feed_log :: "ws_event list"
  feed_capacity :: nat
  feed_closed :: bool
  rx_next :: nat
  ws_now :: nat
  idle_deadline :: nat
  next_ping :: nat
  outgoing :: "ws_message list"
  fates :: "send_fate list"
  ws_open :: bool

text \<open>\<open>subscribe\<close>, the idle deadline and the ping interval, whose first tick is at once.\<close>

definition ws_connect :: "ws_timings \<Rightarrow> ws_event list \<Rightarrow> nat \<Rightarrow> send_fate list \<Rightarrow> ws_conn" where
  "ws_connect T log capacity fs =
     \<lparr>feed_log = log, feed_capacity = capacity, feed_closed = False, rx_next = length log, ws_now = 0,
      idle_deadline = idle_timeout T, next_ping = 0, outgoing = [], fates = fs, ws_open = True\<rparr>"

definition send_within :: "ws_message \<Rightarrow> nat \<Rightarrow> ws_conn \<Rightarrow> bool \<times> ws_conn" where
  "send_within m limit c =
     (let c' = c\<lparr>fates := tl (fates c)\<rparr> in
      case (case fates c of [] \<Rightarrow> GoesOut 0 | f # _ \<Rightarrow> f) of
        GoesOut d \<Rightarrow>
          if d \<le> limit then (True, c'\<lparr>outgoing := outgoing c @ [m], ws_now := ws_now c + d\<rparr>)
          else (False, c'\<lparr>ws_now := ws_now c + limit\<rparr>)
      | SendError d \<Rightarrow> (False, c'\<lparr>ws_now := ws_now c + min d limit\<rparr>))"

text \<open>\<open>rx.recv()\<close> once it is ready.\<close>

definition rx_recv :: "ws_conn \<Rightarrow> recv_result \<times> ws_conn" where
  "rx_recv c =
     (let oldest = length (feed_log c) - feed_capacity c in
      if rx_next c < oldest then (Lagged (oldest - rx_next c), c\<lparr>rx_next := oldest\<rparr>)
      else if rx_next c < length (feed_log c) then (RecvOk (feed_log c ! rx_next c), c\<lparr>rx_next := Suc (rx_next c)\<rparr>)
      else (RecvClosed, c))"

definition send_or_break :: "ws_timings \<Rightarrow> ws_message \<Rightarrow> ws_conn \<Rightarrow> ws_conn" where
  "send_or_break T m c =
     (case send_within m (send_timeout T) c of (went_out, c') \<Rightarrow> if went_out then c' else c'\<lparr>ws_open := False\<rparr>)"

definition close_and_break :: "ws_timings \<Rightarrow> ws_conn \<Rightarrow> ws_conn" where
  "close_and_break T c = (snd (send_within WsClose (send_timeout T) c))\<lparr>ws_open := False\<rparr>"

definition on_ping :: "ws_timings \<Rightarrow> ws_conn \<Rightarrow> ws_conn" where
  "on_ping T c = send_or_break T WsPing (c\<lparr>next_ping := ws_now c + ping_interval T\<rparr>)"

definition on_event :: "ws_timings \<Rightarrow> ws_conn \<Rightarrow> ws_conn" where
  "on_event T c =
     (case rx_recv c of
        (RecvOk frame, c') \<Rightarrow> send_or_break T (WsText frame) c'
      | (Lagged n, c') \<Rightarrow> close_and_break T c'
      | (RecvClosed, c') \<Rightarrow> c'\<lparr>ws_open := False\<rparr>)"

definition on_peer :: "ws_timings \<Rightarrow> peer_message \<Rightarrow> ws_conn \<Rightarrow> ws_conn" where
  "on_peer T m c =
     (case m of
        PeerFrame \<Rightarrow> c\<lparr>idle_deadline := ws_now c + idle_timeout T\<rparr>
      | _ \<Rightarrow> c\<lparr>ws_open := False\<rparr>)"

definition on_idle :: "ws_timings \<Rightarrow> ws_conn \<Rightarrow> ws_conn" where
  "on_idle T c = close_and_break T c"

text \<open>The loop of \<open>handle_socket\<close>, and what others do between its turns.\<close>

inductive ws_step :: "ws_timings \<Rightarrow> ws_conn \<Rightarrow> ws_conn \<Rightarrow> bool" for T where
  ping: "ws_open c \<Longrightarrow> next_ping c \<le> ws_now c \<Longrightarrow> ws_step T c (on_ping T c)"
| event: "ws_open c \<Longrightarrow> rx_next c < length (feed_log c) \<or> feed_closed c \<Longrightarrow> ws_step T c (on_event T c)"
| peer: "ws_open c \<Longrightarrow> ws_step T c (on_peer T m c)"
| idle: "ws_open c \<Longrightarrow> idle_deadline c \<le> ws_now c \<Longrightarrow> ws_step T c (on_idle T c)"
| broadcast: "\<not> feed_closed c \<Longrightarrow> ws_step T c (c\<lparr>feed_log := feed_log c @ [ev]\<rparr>)"
| last_sender: "ws_step T c (c\<lparr>feed_closed := True\<rparr>)"
| wait: "ws_step T c (c\<lparr>ws_now := ws_now c + d\<rparr>)"

inductive ws_run :: "ws_timings \<Rightarrow> ws_conn \<Rightarrow> ws_conn \<Rightarrow> bool" for T where
  here: "ws_run T c c"
| later: "ws_run T c c' \<Longrightarrow> ws_step T c' c'' \<Longrightarrow> ws_run T c c''"

inductive_cases ws_stepE: "ws_step T c c'"

subsection \<open>What a client has been sent\<close>

fun text_of :: "ws_message \<Rightarrow> ws_event list" where
  "text_of (WsText ev) = [ev]"
| "text_of _ = []"

definition texts :: "ws_conn \<Rightarrow> ws_event list" where
  "texts c = concat (map text_of (outgoing c))"

text \<open>The frames sent are the events since the connection began, none skipped.\<close>

definition gapless :: "nat \<Rightarrow> ws_conn \<Rightarrow> bool" where
  "gapless start c \<longleftrightarrow>
     start + length (texts c) \<le> length (feed_log c) \<and>
     texts c = take (length (texts c)) (drop start (feed_log c)) \<and>
     (ws_open c \<longrightarrow> rx_next c = start + length (texts c))"

lemma send_within_cases:
  assumes "send_within m limit c = (went_out, c')"
  shows "outgoing c' = (if went_out then outgoing c @ [m] else outgoing c) \<and> feed_log c' = feed_log c \<and>
    rx_next c' = rx_next c \<and> ws_open c' = ws_open c"
  using assms by (auto simp: send_within_def Let_def split: list.splits send_fate.splits if_splits)

lemma close_gapless:
  assumes "start + length (texts c) \<le> length (feed_log c)" "texts c = take (length (texts c)) (drop start (feed_log c))"
  shows "gapless start (close_and_break T c)"
proof -
  obtain went_out c' where s: "send_within WsClose (send_timeout T) c = (went_out, c')" by fastforce
  then have "texts c' = texts c" using send_within_cases [OF s] by (simp add: texts_def)
  then show ?thesis using assms s send_within_cases [OF s] by (simp add: gapless_def close_and_break_def texts_def)
qed

lemma ping_gapless: "gapless start c \<Longrightarrow> gapless start (on_ping T c)"
proof -
  assume g: "gapless start c"
  let ?c = "c\<lparr>next_ping := ws_now c + ping_interval T\<rparr>"
  obtain went_out c' where s: "send_within WsPing (send_timeout T) ?c = (went_out, c')" by fastforce
  then show ?thesis using g send_within_cases [OF s]
    by (auto simp: gapless_def on_ping_def send_or_break_def texts_def)
qed

lemma event_gapless:
  assumes "gapless start c" "ws_open c"
  shows "gapless start (on_event T c)"
proof -
  let ?n = "length (texts c)"
  have g: "start + ?n \<le> length (feed_log c)" "texts c = take ?n (drop start (feed_log c))" "rx_next c = start + ?n"
    using assms by (auto simp: gapless_def)
  consider (lag) "rx_next c < length (feed_log c) - feed_capacity c"
    | (ok) "\<not> rx_next c < length (feed_log c) - feed_capacity c" "rx_next c < length (feed_log c)"
    | (over) "\<not> rx_next c < length (feed_log c) - feed_capacity c" "\<not> rx_next c < length (feed_log c)" by blast
  then show ?thesis
  proof cases
    case lag
    then show ?thesis using g by (auto simp: on_event_def rx_recv_def Let_def texts_def intro!: close_gapless)
  next
    case over
    then show ?thesis using g by (simp add: on_event_def rx_recv_def Let_def gapless_def texts_def)
  next
    case ok
    let ?frame = "feed_log c ! rx_next c" and ?c = "c\<lparr>rx_next := Suc (rx_next c)\<rparr>"
    obtain went_out c' where s: "send_within (WsText ?frame) (send_timeout T) ?c = (went_out, c')" by fastforce
    have "take (Suc ?n) (drop start (feed_log c)) = texts c @ [?frame]"
      using g ok(2) by (simp add: take_Suc_conv_app_nth)
    then show ?thesis using s send_within_cases [OF s] ok g assms(2)
      by (auto simp: on_event_def rx_recv_def Let_def send_or_break_def gapless_def texts_def)
  qed
qed

lemma step_gapless: "ws_step T c c' \<Longrightarrow> gapless start c \<Longrightarrow> gapless start c'"
proof (induction rule: ws_step.induct)
  case (idle c)
  then show ?case unfolding on_idle_def by (intro close_gapless) (auto simp: gapless_def)
next
  case (peer c m)
  then show ?case by (cases m) (auto simp: on_peer_def gapless_def texts_def)
qed (auto simp: ping_gapless event_gapless, auto simp: gapless_def texts_def)

lemma run_gapless: "ws_run T c c' \<Longrightarrow> gapless start c \<Longrightarrow> gapless start c'"
  by (induction rule: ws_run.induct) (auto dest: step_gapless)

lemma connect_gapless: "gapless (length log) (ws_connect T log capacity fs)"
  by (simp add: gapless_def ws_connect_def texts_def)

text \<open>
  However slowly a client reads, however long sends take and whatever is broadcast
  meanwhile, the text frames a connection sends are the events broadcast since it was opened,
  in order and without a gap, from the first on; while the connection is open the next frame is
  the next event. A client that fell behind the channel's capacity is closed, never served what
  is left.
\<close>

theorem websocket_clients_see_no_gap:
  assumes "ws_run T (ws_connect T log capacity fs) c"
  shows "texts c = take (length (texts c)) (drop (length log) (feed_log c)) \<and>
    (ws_open c \<longrightarrow> rx_next c = length log + length (texts c)) \<and>
    (rx_next c + feed_capacity c < length (feed_log c) \<longrightarrow> \<not> ws_open (on_event T c))"
proof -
  have "gapless (length log) c" using run_gapless [OF assms connect_gapless] .
  moreover have "\<not> ws_open (on_event T c)" if "rx_next c + feed_capacity c < length (feed_log c)"
    using that by (auto simp: on_event_def rx_recv_def close_and_break_def Let_def)
  ultimately show ?thesis by (simp add: gapless_def)
qed

definition one_event_conn :: ws_conn where
  "one_event_conn = (ws_connect default_timings [] 16 [])\<lparr>feed_log := [MessagesClear]\<rparr>"

lemma one_event_run: "ws_run default_timings (ws_connect default_timings [] 16 []) (on_event default_timings one_event_conn)"
proof -
  let ?c = "ws_connect default_timings [] 16 []"
  have "ws_step default_timings ?c one_event_conn"
    using ws_step.broadcast [of ?c default_timings MessagesClear] by (simp add: ws_connect_def one_event_conn_def)
  moreover have "ws_step default_timings one_event_conn (on_event default_timings one_event_conn)"
    by (rule ws_step.event) (simp_all add: ws_connect_def one_event_conn_def)
  ultimately show ?thesis by (blast intro: ws_run.intros)
qed

theorem websocket_clients_see_no_gap_witness:
  "texts (on_event default_timings one_event_conn) = [MessagesClear] \<and>
   rx_next (on_event default_timings one_event_conn) = 1"
proof -
  have "texts (on_event default_timings one_event_conn) = [MessagesClear]" "ws_open (on_event default_timings one_event_conn)"
    by code_simp+
  then show ?thesis using websocket_clients_see_no_gap [OF one_event_run] by simp
qed

end
