(* ===== verification/Server_Sync.thy ===== *)
theory Server_Sync
  imports Ingest Api_Listing
begin

text \<open>
  The retention sweep of \<open>rustmail-server/src/main.rs\<close>, and what ties storage, API, message
  processor and sweep together: a client that applies the events it is sent to the list it
  has keeps the list the database holds.
\<close>

subsection \<open>The retention sweep\<close>

text \<open>\<open>as i64\<close> on a \<open>u64\<close> keeps the bits.\<close>

definition as_i64 :: "nat \<Rightarrow> int" where
  "as_i64 n = (if int n \<le> i64_max then int n else int n - 2 ^ 64)"

definition broadcast_deletes :: "api_lib \<Rightarrow> bytes list \<Rightarrow> app \<Rightarrow> app" where
  "broadcast_deletes L ids a = foldl (\<lambda>a i. broadcast L (MessageDelete i) a) a ids"

text \<open>One of the two deletions of the sweep: an error is only logged.\<close>

definition sweep :: "api_lib \<Rightarrow> bytes list sql \<Rightarrow> app \<Rightarrow> app" where
  "sweep L op a =
     (case on_repo op a of
        (Inr ids, a') \<Rightarrow> broadcast_deletes L ids a'
      | (Inl _, a') \<Rightarrow> a')"

text \<open>
  \<open>minus_hours h\<close> is the formatted time \<open>h\<close> hours before now, \<open>None\<close> where the
  subtraction leaves the range of times and panics. \<open>None\<close> is the panic of the task.
\<close>

definition run_retention_tick :: "api_lib \<Rightarrow> (int \<Rightarrow> bytes option) \<Rightarrow> nat \<Rightarrow> int \<Rightarrow> app \<Rightarrow> app option" where
  "run_retention_tick L minus_hours retention_hours max_messages a =
     (if retention_hours = 0 \<and> max_messages = 0 then Some a
      else
        case (if 0 < retention_hours
              then map_option (\<lambda>cutoff. sweep L (delete_older_than cutoff) a) (minus_hours (as_i64 retention_hours))
              else Some a) of
          None \<Rightarrow> None
        | Some a1 \<Rightarrow>
            let a2 = (if 0 < max_messages then sweep L (trim_to_max max_messages) a1 else a1)
            in Some (a2\<lparr>app_repo := snd (reclaim_after_retention (app_repo a2))\<rparr>))"

subsection \<open>A client's copy\<close>

fun mirror_event :: "mime_lib \<Rightarrow> message_summary list \<Rightarrow> ws_event \<Rightarrow> message_summary list" where
  "mirror_event M v (MessageNew sm) = v @ [sm]"
| "mirror_event M v (MessageDelete i) = filter (\<lambda>m. ms_id m \<noteq> i) v"
| "mirror_event M v (MessageRead i b) = map (\<lambda>m. if ms_id m = i then m\<lparr>ms_is_read := b\<rparr> else m) v"
| "mirror_event M v (MessageStarred i b) = map (\<lambda>m. if ms_id m = i then m\<lparr>ms_is_starred := b\<rparr> else m) v"
| "mirror_event M v (MessageTags i ts) = map (\<lambda>m. if ms_id m = i then m\<lparr>ms_tags := to_json M ts\<rparr> else m) v"
| "mirror_event M v MessagesClear = []"

definition listed :: "app \<Rightarrow> message_summary list" where
  "listed a = map summary_of (messages (tables (app_repo a)))"

text \<open>From one state to a later one: the events in between take the one list to the other.\<close>

definition keeps_pace :: "api_lib \<Rightarrow> app \<Rightarrow> app \<Rightarrow> bool" where
  "keeps_pace L a a' \<longleftrightarrow>
     (db_wf (sql L) (tables (app_repo a)) \<longrightarrow>
        db_wf (sql L) (tables (app_repo a')) \<and>
        (\<exists>evs. events a' = events a @ evs \<and> foldl (mirror_event (mime L)) (listed a) evs = listed a'))"

lemma keeps_pace_trans: "keeps_pace L a b \<Longrightarrow> keeps_pace L b c \<Longrightarrow> keeps_pace L a c"
  by (fastforce simp: keeps_pace_def)

lemma keeps_pace_same: "tables (app_repo a') = tables (app_repo a) \<Longrightarrow> events a' = events a \<Longrightarrow> keeps_pace L a a'"
  by (simp add: keeps_pace_def listed_def)

lemma mirror_deletes:
  "foldl (mirror_event M) v (map MessageDelete ids) = filter (\<lambda>m. ms_id m \<notin> set ids) v"
  by (induction ids arbitrary: v) (auto intro: filter_cong)

lemma broadcast_deletes_events:
  assumes "\<And>ev. encodes L ev"
  shows "broadcast_deletes L ids a = a\<lparr>events := events a @ map MessageDelete ids\<rparr>"
  unfolding broadcast_deletes_def
proof (induction ids arbitrary: a)
  case (Cons i ids)
  show ?case using assms Cons [of "broadcast L (MessageDelete i) a"] by (simp add: broadcast_def)
qed simp

lemma mirror_deleted_ids:
  assumes "deleted_ids p t ids t'" "messages_wf t"
  shows "foldl (mirror_event M) (map summary_of (messages t)) (map MessageDelete ids) = map summary_of (messages t')"
proof -
  obtain gone where g: "ids = map mr_id gone" "deleted p t gone t'" using assms(1) by (auto simp: deleted_ids_def)
  then have m: "messages t' = filter (\<lambda>m. \<not> p m) (messages t)" "set ids = mr_id ` {m \<in> set (messages t). p m}"
    by (simp_all add: deleted_messages) (simp add: deleted_def)
  have "inj_on mr_id (set (messages t))" using assms(2) by (simp add: messages_wf_def distinct_map)
  then have "ms_id (summary_of m) \<notin> set ids \<longleftrightarrow> \<not> p m" if "m \<in> set (messages t)" for m
    using that unfolding m(2) by (auto simp: summary_of_def dest: inj_onD)
  then have "filter ((\<lambda>m. ms_id m \<notin> set ids) \<circ> summary_of) (messages t) = filter (\<lambda>m. \<not> p m) (messages t)"
    by (intro filter_cong) simp_all
  then show ?thesis by (simp add: mirror_deletes m(1) filter_map)
qed

lemma sweep_keeps_pace:
  assumes enc: "\<And>ev. encodes L ev" and op: "atomic_write op Q"
    and Q: "\<And>t ids t'. Q t ids t' \<Longrightarrow> \<exists>p. deleted_ids p t ids t'"
  shows "keeps_pace L a (sweep L op a)"
proof -
  obtain r a' where r: "on_repo op a = (r, a')" by fastforce
  then obtain x st where x: "op (store.truncate (app_repo a)) = (x, st)" "r = map_err Storage x"
    "tables (app_repo a') = tables st" "events a' = events a" by (rule on_repo_result)
  show ?thesis
  proof (cases x)
    case (Inl e)
    then have "tables st = tables (app_repo a)" using atomic_write.fails_clean [OF op] x(1) by fastforce
    then show ?thesis using r x Inl by (simp add: sweep_def keeps_pace_same)
  next
    case (Inr ids)
    then have "Q (tables (app_repo a)) ids (tables st)" using atomic_write.succeeds [OF op] x(1) by fastforce
    then obtain p where d: "deleted_ids p (tables (app_repo a)) ids (tables (app_repo a'))"
      using Q x(3) by metis
    have "sweep L op a = a'\<lparr>events := events a @ map MessageDelete ids\<rparr>"
      using r x(2,4) Inr by (simp add: sweep_def broadcast_deletes_events [OF enc])
    then show ?thesis
      using mirror_deleted_ids [OF d] deleted_ids_wf [OF d]
      by (auto simp: keeps_pace_def listed_def db_wf_def [of "sql L" "tables (app_repo a)"])
  qed
qed

lemma retention_keeps_pace:
  assumes enc: "\<And>ev. encodes L ev" and tick: "run_retention_tick L minus_hours h mx a = Some a'"
  shows "keeps_pace L a a'"
proof -
  have older: "keeps_pace L b (sweep L (delete_older_than c) b)" for b c
    unfolding delete_older_than_def by (rule sweep_keeps_pace [OF enc retried(4)]) blast
  have trim: "keeps_pace L b (sweep L (trim_to_max mx) b)" for b
    unfolding trim_to_max_def
    using delete_none [of "\<lambda>_. False"]
    by (intro sweep_keeps_pace [OF enc retried(5)]) (fastforce simp: trimmed_def split: option.splits)
  have reclaim: "keeps_pace L b (b\<lparr>app_repo := snd (reclaim_after_retention (app_repo b))\<rparr>)" for b
    using reclaim_after_retention_tables [OF prod.collapse [symmetric]] by (intro keeps_pace_same) simp_all
  have none: "keeps_pace L b b" for b by (simp add: keeps_pace_same)
  consider "a' = a"
    | a1 a2 where "a1 = a \<or> (\<exists>c. a1 = sweep L (delete_older_than c) a)" "a2 = a1 \<or> a2 = sweep L (trim_to_max mx) a1"
      "a' = a2\<lparr>app_repo := snd (reclaim_after_retention (app_repo a2))\<rparr>"
    using tick by (auto simp: run_retention_tick_def Let_def split: if_splits option.splits)
  then show ?thesis
  proof cases
    case 2
    then have "keeps_pace L a a1" "keeps_pace L a1 a2" using older trim none by auto
    then show ?thesis using 2(3) reclaim keeps_pace_trans by blast
  qed (simp add: none)
qed

lemma delete_keeps_pace:
  assumes enc: "\<And>ev. encodes L ev"
  shows "keeps_pace L a (snd (delete_message_handler L i a))"
proof -
  obtain r a' where r: "on_repo (delete_message i) a = (r, a')" by fastforce
  then obtain x st where x: "delete_message i (store.truncate (app_repo a)) = (x, st)" "r = map_err Storage x"
    "tables (app_repo a') = tables st" "events a' = events a" by (rule on_repo_result)
  show ?thesis
  proof (cases x)
    case (Inl e)
    then have "tables st = tables (app_repo a)" using del.fails_clean x(1) by fastforce
    then show ?thesis using r x Inl by (simp add: delete_message_handler_def sess_defs keeps_pace_same)
  next
    case (Inr u)
    then obtain gone where g: "deleted (\<lambda>m. mr_id m = i) (tables (app_repo a)) gone (tables (app_repo a'))"
      using del.succeeds [of i "store.truncate (app_repo a)" u st] x by auto
    have "snd (delete_message_handler L i a) = a'\<lparr>events := events a @ [MessageDelete i]\<rparr>"
      using r x(2,4) Inr enc by (simp add: delete_message_handler_def sess_defs broadcast_def)
    then show ?thesis using deleted_messages [OF g] deleted_wf [OF g]
      by (auto simp: keeps_pace_def listed_def filter_map o_def summary_of_def)
  qed
qed

lemma delete_all_keeps_pace:
  assumes enc: "\<And>ev. encodes L ev"
  shows "keeps_pace L a (snd (delete_all_messages L a))"
proof -
  obtain r a' where r: "on_repo delete_all a = (r, a')" by fastforce
  then obtain x st where x: "delete_all (store.truncate (app_repo a)) = (x, st)" "r = map_err Storage x"
    "tables (app_repo a') = tables st" "events a' = events a" by (rule on_repo_result)
  show ?thesis
  proof (cases x)
    case (Inl e)
    then have "tables st = tables (app_repo a)"
      using atomic_write.fails_clean [OF retried(3)] x(1) unfolding delete_all_def by fastforce
    then show ?thesis using r x Inl by (simp add: delete_all_messages_def sess_defs keeps_pace_same)
  next
    case (Inr n)
    then have "tables (app_repo a') = no_tables"
      using atomic_write.succeeds [OF retried(3)] x unfolding delete_all_def by fastforce
    moreover have "tables (reclaim_after_delete_all p) = tables p" for p
      using reclaim_tables [OF prod.collapse [symmetric]] by (simp add: reclaim_after_delete_all_def)
    ultimately show ?thesis using r x(2,4) Inr enc empty_wf [of "sql L"]
      by (auto simp: delete_all_messages_def sess_defs broadcast_def keeps_pace_def listed_def no_tables_def)
  qed
qed

text \<open>The events of an update, and what they do to a copy.\<close>

definition update_events :: "bytes \<Rightarrow> bool option \<Rightarrow> bool option \<Rightarrow> bytes list option \<Rightarrow> ws_event list" where
  "update_events i r s tags =
     (case r of None \<Rightarrow> [] | Some b \<Rightarrow> [MessageRead i b]) @
     (case s of None \<Rightarrow> [] | Some b \<Rightarrow> [MessageStarred i b]) @
     (case tags of None \<Rightarrow> [] | Some ts \<Rightarrow> [MessageTags i ts])"

lemma mirror_update:
  "foldl (mirror_event M) (map summary_of ms) (update_events i r s tags) =
   map summary_of (map (\<lambda>m. if mr_id m = i then set_flags r s (map_option (to_json M) tags) m else m) ms)"
  by (auto simp: update_events_def summary_of_def set_flags_def coalesce_def split: option.splits)

lemma update_message_Inr:
  assumes "update_message S M i r s tags st = (Inr u, st')"
  shows "tables st' = snd (update_where S (\<lambda>m. mr_id m = i) (set_flags r s (map_option (to_json M) tags)) (tables st))"
proof -
  let ?op = "exec (update_where S (\<lambda>m. mr_id m = i) (set_flags r s (map_option (to_json M) tags)))"
  obtain y where y: "retry_on_lock ?op st = (Inr y, st')"
    using assms by (auto simp: update_message_def sess_defs split: prod.splits sum.splits if_splits)
  show ?thesis using atomic_write.succeeds [OF retried_atomic [OF exec_atomic] y] by simp
qed

lemma update_message_Inl:
  assumes "update_message S M i r s tags st = (Inl e, st')"
  shows "map summary_of (messages (tables st')) = map summary_of (messages (tables st)) \<and>
    (db_wf S (tables st) \<longrightarrow> db_wf S (tables st'))"
proof -
  let ?f = "set_flags r s (map_option (to_json M) tags)"
  let ?op = "exec (update_where S (\<lambda>m. mr_id m = i) ?f)"
  obtain y where y: "retry_on_lock ?op st = (y, st')"
    using assms by (auto simp: update_message_def sess_defs split: prod.splits sum.splits if_splits)
  have at: "atomic_write (retry_on_lock ?op) (\<lambda>t a t'. update_where S (\<lambda>m. mr_id m = i) ?f t = (a, t'))"
    by (rule retried_atomic [OF exec_atomic])
  show ?thesis
  proof (cases y)
    case (Inl e')
    then show ?thesis using atomic_write.fails_clean [OF at] y by metis
  next
    case (Inr n)
    then have n: "update_where S (\<lambda>m. mr_id m = i) ?f (tables st) = (n, tables st')" "n = 0"
      using atomic_write.succeeds [OF at] y assms by (auto simp: update_message_def sess_defs split: if_splits)
    then have "map (\<lambda>m. if mr_id m = i then ?f m else m) (messages (tables st)) = messages (tables st)"
      by (auto simp: update_where_def filter_empty_conv intro: map_idI)
    then have "messages (snd (update_where S (\<lambda>m. mr_id m = i) ?f (tables st))) = messages (tables st)"
      by (simp add: update_where_def)
    then have "messages (tables st') = messages (tables st)" using n(1) by simp
    then show ?thesis using update_wf [of S "tables st" ?f i] set_flags_update n(1) by (metis snd_conv)
  qed
qed

lemma update_keeps_pace:
  assumes enc: "\<And>ev. encodes L ev"
  shows "keeps_pace L a (snd (update_message_handler L i r s tags a))"
proof (cases "Option.bind tags validate_tags")
  case (Some reason)
  then show ?thesis by (simp add: update_message_handler_def sret_def keeps_pace_same)
next
  case None
  obtain x a' where r: "on_repo (update_message (sql L) (mime L) i r s tags) a = (x, a')" by fastforce
  then obtain y st where y: "update_message (sql L) (mime L) i r s tags (store.truncate (app_repo a)) = (y, st)"
    "x = map_err Storage y" "tables (app_repo a') = tables st" "events a' = events a" by (rule on_repo_result)
  show ?thesis
  proof (cases y)
    case (Inl e)
    then show ?thesis using update_message_Inl [of "sql L" "mime L" i r s tags "store.truncate (app_repo a)" e st] None r y
      by (auto simp: update_message_handler_def sess_defs keeps_pace_def listed_def)
  next
    case (Inr u)
    let ?f = "set_flags r s (map_option (to_json (mime L)) tags)"
    have t: "tables (app_repo a') = snd (update_where (sql L) (\<lambda>m. mr_id m = i) ?f (tables (app_repo a)))"
      using update_message_Inr y Inr by fastforce
    have e: "snd (update_message_handler L i r s tags a) = a'\<lparr>events := events a @ update_events i r s tags\<rparr>"
      using None r y(2,4) Inr enc
      by (auto simp: update_message_handler_def sess_defs broadcast_def update_events_def split: option.splits)
    have wf: "db_wf (sql L) (tables (app_repo a)) \<Longrightarrow> db_wf (sql L) (tables (app_repo a'))"
      unfolding t by (rule update_wf [OF _ set_flags_update])
    show ?thesis unfolding e using wf mirror_update [of "mime L" "messages (tables (app_repo a))" i r s tags]
      by (auto simp: keeps_pace_def listed_def t update_where_def)
  qed
qed

subsection \<open>The whole server, one step at a time\<close>

text \<open>
  What changes the database while the server runs: the message processor stores a batch (the
  sessions that leave and the fallback deadline are as in \<open>Ingest\<close>), a client updates or
  deletes, the sweep runs. A tick that panics changes nothing.
\<close>

datatype server_action =
    StoreBatch "received_message list" "handle list list" "bool list"
  | Update bytes "bool option" "bool option" "bytes list option"
  | Delete bytes
  | DeleteAllMessages
  | Tick "int \<Rightarrow> bytes option" nat int

definition store_step :: "api_lib \<Rightarrow> received_message list \<Rightarrow> handle list list \<Rightarrow> bool list \<Rightarrow> app \<Rightarrow> app" where
  "store_step L rms lvs lates a =
     (case store_and_announce (zst L) (mime L) (insert_batch (sql L)) (insert_prepared (sql L))
         (zip rms [0..<length rms])
         \<lparr>repo = store.truncate (app_repo a), channels = (\<lambda>_. Waiting), announced = [], leaving = lvs,
          fallback_late = lates\<rparr> of
        (_, g) \<Rightarrow> foldl (\<lambda>a sm. broadcast L (MessageNew sm) a)
                   (a\<lparr>app_repo := store.extend (repo g) (store.more (app_repo a))\<rparr>) (announced g))"

fun server_step :: "api_lib \<Rightarrow> app \<Rightarrow> server_action \<Rightarrow> app" where
  "server_step L a (StoreBatch rms lvs lates) = store_step L rms lvs lates a"
| "server_step L a (Update i r s tags) = snd (update_message_handler L i r s tags a)"
| "server_step L a (Delete i) = snd (delete_message_handler L i a)"
| "server_step L a DeleteAllMessages = snd (delete_all_messages L a)"
| "server_step L a (Tick minus_hours h mx) =
     (case run_retention_tick L minus_hours h mx a of None \<Rightarrow> a | Some a' \<Rightarrow> a')"

lemma mirror_news: "foldl (mirror_event M) v (map MessageNew sms) = v @ sms"
  by (induction sms arbitrary: v) auto

lemma broadcast_news:
  assumes "\<And>ev. encodes L ev"
  shows "foldl (\<lambda>a sm. broadcast L (MessageNew sm) a) a sms = a\<lparr>events := events a @ map MessageNew sms\<rparr>"
proof (induction sms arbitrary: a)
  case (Cons sm sms)
  show ?case using assms Cons [of "broadcast L (MessageNew sm) a"] by (simp add: broadcast_def)
qed simp

lemma batch_stored_summaries:
  "batch_stored pms t sms t' \<Longrightarrow> map summary_of (messages t') = map summary_of (messages t) @ sms"
  by (auto simp: batch_stored_def appended_def)

lemma store_keeps_pace:
  assumes enc: "\<And>ev. encodes L ev" and js: "json_each (sql L) ''[]'' = []"
  shows "keeps_pace L a (store_step L rms lvs lates a)"
proof -
  let ?ds = "zip rms [0..<length rms]"
  let ?g = "\<lparr>repo = store.truncate (app_repo a), channels = (\<lambda>_. Waiting), announced = [], leaving = lvs,
          fallback_late = lates\<rparr>"
  obtain sms g where run: "store_and_announce (zst L) (mime L) (insert_batch (sql L)) (insert_prepared (sql L)) ?ds ?g = (sms, g)"
    by fastforce
  have ds: "concat (transactions ?ds) = ?ds"
    using transactions_loop_spec [of "[]" 0 ?ds] by (simp add: transactions_def)
  then obtain sel where "outcome repo_grows (snd ` set ?ds) sel sms ?g g"
    using repository.store_groups_outcome [OF run [unfolded store_and_announce_def]] by (auto simp: is_open_def)
  then have o: "batch_stored (map fst sel) (tables (app_repo a)) sms (tables (repo g))" "announced g = sms"
    by (simp_all add: outcome_def repo_grows_def)
  have "store_step L rms lvs lates a =
      a\<lparr>app_repo := store.extend (repo g) (store.more (app_repo a)), events := events a @ map MessageNew sms\<rparr>"
    using run o(2) by (simp add: store_step_def broadcast_news [OF enc])
  then show ?thesis
    using batch_stored_summaries [OF o(1)] batch_stored_wf [OF o(1) _ js] mirror_news
    by (auto simp: keeps_pace_def listed_def store.defs)
qed

lemma server_step_keeps_pace:
  assumes "\<And>ev. encodes L ev" "json_each (sql L) ''[]'' = []"
  shows "keeps_pace L a (server_step L a st)"
  using assms
  by (cases st) (auto intro: store_keeps_pace update_keeps_pace delete_keeps_pace delete_all_keeps_pace
      retention_keeps_pace keeps_pace_same split: option.split)

interpretation pace: kept_invariant "server_step L"
  "\<lambda>a. (\<forall>ev. encodes L ev) \<and> json_each (sql L) ''[]'' = [] \<longrightarrow> keeps_pace L a0 a" for L a0
  by unfold_locales (blast intro: keeps_pace_trans server_step_keeps_pace)

lemma steps_keep_pace:
  assumes "\<And>ev. encodes L ev" "json_each (sql L) ''[]'' = []"
  shows "keeps_pace L a (foldl (server_step L) a steps)"
  using pace.run_keeps [of L a a steps] assms keeps_pace_same [OF refl refl] by blast

text \<open>
  C12. Whatever the server does step by step (batches stored, updates and deletions by clients,
  retention sweeps, whichever of their statements fail and however sessions come and go), a
  client that had the list of messages before and applies every event broadcast since, in
  order, has exactly the list the database holds afterwards, in the same order: no change is
  unannounced, and nothing is announced that did not happen.
\<close>

theorem clients_keep_the_list:
  assumes "\<And>ev. encodes L ev" and "json_each (sql L) ''[]'' = []" and "db_wf (sql L) (tables (app_repo a))"
  shows "\<exists>evs. events (foldl (server_step L) a steps) = events a @ evs \<and>
    foldl (mirror_event (mime L)) (listed a) evs = listed (foldl (server_step L) a steps)"
  using steps_keep_pace [OF assms(1,2), of a steps] assms(3) by (simp add: keeps_pace_def)

theorem clients_keep_the_list_witness:
  "\<exists>evs. events (foldl (server_step plain_api) one_app [Delete ''i'', DeleteAllMessages]) = evs \<and>
     foldl (mirror_event plain_mime) [summary_of one_row] evs =
     listed (foldl (server_step plain_api) one_app [Delete ''i'', DeleteAllMessages])"
  using clients_keep_the_list [of plain_api one_app "[Delete ''i'', DeleteAllMessages]"] one_app_ready
  by (simp add: plain_api_def plain_sql_def one_app_def listed_def one_message_def)

subsection \<open>What a sweep keeps\<close>

definition quiet :: "'a sql \<Rightarrow> bool" where
  "quiet op \<longleftrightarrow> (\<forall>st. faults st = [] \<longrightarrow> (\<exists>a st'. op st = (Inr a, st') \<and> faults st' = []))"

lemma quiet_exec: "quiet (exec f)"
  by (auto simp: quiet_def exec_def stmt_def split: prod.splits)

lemma quiet_select: "quiet (select f)"
  by (simp add: quiet_def select_quiet)

lemma quiet_sret: "quiet (sret a)"
  by (simp add: quiet_def sret_def)

lemma quiet_sbind: "quiet m \<Longrightarrow> (\<And>a. quiet (f a)) \<Longrightarrow> quiet (sbind m f)"
  by (fastforce simp: quiet_def sbind_def)

lemma quiet_transaction: "quiet body \<Longrightarrow> quiet (transaction body)"
  unfolding quiet_def transaction_def
  by (fastforce simp: select_quiet split: bool.splits)

lemma quiet_retry: "quiet op \<Longrightarrow> quiet (retry_on_lock op)"
  by (fastforce simp: quiet_def retry_on_lock_def retry_loop.simps)

lemma quiet_if: "quiet x \<Longrightarrow> quiet y \<Longrightarrow> quiet (if b then x else y)"
  by simp

lemmas quiet_lems = quiet_exec quiet_select quiet_sret quiet_sbind quiet_transaction quiet_retry quiet_if

lemma quiet_delete_older_than: "quiet (delete_older_than cutoff)"
  unfolding delete_older_than_def delete_older_than_once_def delete_older_txn_def delete_indexed_def commit_def sthen_def
  by (intro quiet_lems)

lemma quiet_trim_to_max: "quiet (trim_to_max mx)"
proof -
  have "quiet (case x of None \<Rightarrow> sret (False, [])
       | Some s \<Rightarrow> sthen (exec (\<lambda>t. ((), delete_fts_where (\<lambda>r. r \<le> s) t)))
           (sbind (exec (delete_where (\<lambda>m. mr_seq m \<le> s))) (\<lambda>gone. commit (map mr_id gone))))" for x
    unfolding commit_def sthen_def by (cases x) (simp_all add: quiet_lems)
  then show ?thesis unfolding trim_to_max_def trim_to_max_once_def trim_txn_def by (intro quiet_lems)
qed

lemma sweep_quiet:
  assumes "\<And>ev. encodes L ev" "quiet op" "faults (app_repo a) = []"
  obtains ids st where "op (store.truncate (app_repo a)) = (Inr ids, st)"
    "tables (app_repo (sweep L op a)) = tables st" "faults (app_repo (sweep L op a)) = []"
    "events (sweep L op a) = events a @ map MessageDelete ids"
proof -
  obtain ids st where o: "op (store.truncate (app_repo a)) = (Inr ids, st)" "faults st = []"
    using assms(2,3) unfolding quiet_def by (metis truncate_faults)
  then have "sweep L op a = a\<lparr>app_repo := store.extend st (store.more (app_repo a)),
      events := events a @ map MessageDelete ids\<rparr>"
    by (simp add: sweep_def on_repo_def on_store_def broadcast_deletes_events [OF assms(1)])
  then show ?thesis using that o by (simp add: store.defs)
qed

lemma reclaim_after_retention_snd: "tables (snd (reclaim_after_retention p)) = tables p"
  by (rule reclaim_after_retention_tables) (rule prod.collapse [symmetric])

definition older_than :: "bytes \<Rightarrow> message_row \<Rightarrow> bool" where
  "older_than cutoff m \<longleftrightarrow> bytes_less (mr_created_at m) cutoff"

lemma sweep_older:
  assumes "\<And>ev. encodes L ev" "faults (app_repo a) = []" "db_wf (sql L) (tables (app_repo a))"
    and "a' = sweep L (delete_older_than cutoff) a"
  shows "messages (tables (app_repo a')) = filter (\<lambda>m. \<not> older_than cutoff m) (messages (tables (app_repo a))) \<and>
    events a' = events a @ map MessageDelete (map mr_id (filter (older_than cutoff) (messages (tables (app_repo a))))) \<and>
    faults (app_repo a') = [] \<and> db_wf (sql L) (tables (app_repo a'))"
proof -
  obtain ids st where o: "delete_older_than cutoff (store.truncate (app_repo a)) = (Inr ids, st)"
    "tables (app_repo a') = tables st" "faults (app_repo a') = []" "events a' = events a @ map MessageDelete ids"
    using sweep_quiet [OF assms(1) quiet_delete_older_than assms(2), of cutoff] assms(4) by metis
  then have d: "deleted_ids (\<lambda>m. bytes_less (mr_created_at m) cutoff) (tables (app_repo a)) ids (tables st)"
    using older.retry_succeeds unfolding delete_older_than_def by fastforce
  then obtain gone where g: "ids = map mr_id gone" "deleted (older_than cutoff) (tables (app_repo a)) gone (tables st)"
    by (auto simp: deleted_ids_def older_than_def [abs_def])
  have "gone = filter (older_than cutoff) (messages (tables (app_repo a)))" using g(2) by (simp add: deleted_def)
  then show ?thesis using o g(1) deleted_messages [OF g(2)] deleted_wf [OF g(2) assms(3)] by simp
qed

lemma sweep_trim:
  assumes "\<And>ev. encodes L ev" "faults (app_repo a) = []" "db_wf (sql L) (tables (app_repo a))" "0 \<le> mx"
    and "a' = sweep L (trim_to_max mx) a" "ms = messages (tables (app_repo a))"
  shows "messages (tables (app_repo a')) = drop (length ms - nat mx) ms \<and>
    events a' = events a @ map MessageDelete (map mr_id (take (length ms - nat mx) ms))"
proof -
  obtain ids st where o: "trim_to_max mx (store.truncate (app_repo a)) = (Inr ids, st)"
    "tables (app_repo a') = tables st" "events a' = events a @ map MessageDelete ids"
    using sweep_quiet [OF assms(1) quiet_trim_to_max assms(2), of mx] assms(5) by metis
  then have "trimmed mx (tables (app_repo a)) ids (tables st)"
    using trim.retry_succeeds unfolding trim_to_max_def by fastforce
  then show ?thesis using trimmed_exact o assms(3,4,6) by (auto simp: db_wf_def)
qed

text \<open>
  C28. With no failing statement a retention sweep keeps exactly the newest \<open>max_messages\<close> of
  the messages not older than the cutoff (each limit counts only when set), and announces the
  deletion of exactly the others, oldest first.
\<close>

theorem retention_sweep_exact:
  assumes "\<And>ev. encodes L ev" and "faults (app_repo a) = []" and "db_wf (sql L) (tables (app_repo a))"
    and "0 \<le> max_messages" and "0 < hours \<longrightarrow> minus_hours (as_i64 hours) = Some cutoff"
    and "ms = messages (tables (app_repo a))"
    and "fresh = (if hours = 0 then ms else filter (\<lambda>m. \<not> older_than cutoff m) ms)"
    and "excess = (if max_messages = 0 then 0 else length fresh - nat max_messages)"
  shows "\<exists>a'. run_retention_tick L minus_hours hours max_messages a = Some a' \<and>
    messages (tables (app_repo a')) = drop excess fresh \<and>
    events a' = events a @ map MessageDelete (map mr_id
      ((if hours = 0 then [] else filter (older_than cutoff) ms) @ take excess fresh))"
proof -
  let ?a1 = "if hours = 0 then a else sweep L (delete_older_than cutoff) a"
  let ?a2 = "if max_messages = 0 then ?a1 else sweep L (trim_to_max max_messages) ?a1"
  let ?fin = "\<lambda>b. b\<lparr>app_repo := snd (reclaim_after_retention (app_repo b))\<rparr>"
  have one: "messages (tables (app_repo ?a1)) = fresh \<and>
      events ?a1 = events a @ map MessageDelete (map mr_id (if hours = 0 then [] else filter (older_than cutoff) ms)) \<and>
      faults (app_repo ?a1) = [] \<and> db_wf (sql L) (tables (app_repo ?a1))"
    using sweep_older [OF assms(1-3) refl] assms(2,3,6,7) by simp
  have two: "messages (tables (app_repo ?a2)) = drop excess fresh \<and>
      events ?a2 = events ?a1 @ map MessageDelete (map mr_id (take excess fresh))"
    using sweep_trim [OF assms(1) _ _ assms(4) refl refl, of ?a1] one assms(8) by simp
  have tick: "run_retention_tick L minus_hours hours max_messages a =
      Some (if hours = 0 \<and> max_messages = 0 then a else ?fin ?a2)"
    using assms(4,5) by (simp add: run_retention_tick_def Let_def)
  have "tables (app_repo (if hours = 0 \<and> max_messages = 0 then a else ?fin ?a2)) = tables (app_repo ?a2) \<and>
      events (if hours = 0 \<and> max_messages = 0 then a else ?fin ?a2) = events ?a2"
    by (simp add: reclaim_after_retention_snd)
  then show ?thesis using tick one two by (intro exI conjI) (assumption, simp_all)
qed

theorem retention_sweep_exact_witness:
  "\<exists>a'. run_retention_tick plain_api (\<lambda>_. Some ''u'') 24 5 one_app = Some a' \<and> messages (tables (app_repo a')) = [] \<and>
     events a' = [MessageDelete ''i'']"
proof -
  have "older_than ''u'' one_row" "mr_id one_row = ''i''" by (simp_all add: older_than_def one_row_def new_row_def)
  then show ?thesis
    using retention_sweep_exact [of plain_api one_app 5 24 "\<lambda>_. Some ''u''" "''u''", OF _ _ _ _ _ refl refl refl] one_app_ready
    by (auto simp: plain_api_def one_message_def one_app_def)
qed



end
