(* ===== verification/Server_Config.thy ===== *)
theory Server_Config
  imports Api_Guard Ingest "HOL-Library.Word"
begin

text \<open>
  Startup and the command line of \<open>rustmail-server/src/main.rs\<close>: the TOML file and the
  environment, durations, TLS files, webhook addresses, allowed origins and hosts, the release
  host, and the checker of \<open>rustmail assert\<close>. Reading files, TOML, certificates and URLs are
  parameters.
\<close>

unbundle bit_operations_syntax

datatype startup_error =
    ConfigUnreadable bytes
  | ConfigMalformed
  | Panicked
  | BadDuration int_error_kind
  | TlsNeedsBoth
  | TlsUnusable
  | WebhookInvalid bytes
  | WebhookScheme bytes
  | WebhookNoHost
  | WebhookLocalhost bytes
  | WebhookPrivate bytes
  | BadOrigin origin_error
  | BadHost hostname_error
  | BadBind bytes

subsection \<open>The TOML file under the environment\<close>

record toml_config =
  tc_bind :: "bytes option"
  tc_smtp_port :: "nat option"
  tc_http_port :: "nat option"
  tc_db_path :: "bytes option"
  tc_ephemeral :: "bool option"
  tc_max_message_size :: "nat option"
  tc_smtp_tls_cert :: "bytes option"
  tc_smtp_tls_key :: "bytes option"
  tc_retention :: "nat option"
  tc_max_messages :: "int option"
  tc_log_level :: "bytes option"
  tc_webhook_url :: "bytes option"
  tc_release_host :: "bytes option"
  tc_allowed_origins :: "bytes list option"
  tc_allowed_hosts :: "bytes list option"
  tc_ws_buffer :: "nat option"

type_synonym env = "bytes \<Rightarrow> bytes option"

text \<open>\<open>std::env::var\<close>: a value that is not UTF-8 is an error too.\<close>

definition env_var :: "env \<Rightarrow> bytes \<Rightarrow> bytes option" where
  "env_var E key = (case E key of None \<Rightarrow> None | Some v \<Rightarrow> if utf8_valid v then Some v else None)"

text \<open>\<open>set_var\<close> panics on a value with a zero byte.\<close>

definition set_var :: "bytes \<Rightarrow> bytes \<Rightarrow> env \<Rightarrow> env option" where
  "set_var key v E = (if CHR 0x00 \<in> set v then None else Some (E(key := Some v)))"

definition set_if_absent :: "bytes \<Rightarrow> bytes option \<Rightarrow> env \<Rightarrow> env option" where
  "set_if_absent key setting E =
     (case setting of
        None \<Rightarrow> Some E
      | Some v \<Rightarrow> if env_var E key = None then set_var key v E else Some E)"

definition show_bool :: "bool \<Rightarrow> bytes" where
  "show_bool b = (if b then ''true'' else ''false'')"

text \<open>The variables \<open>apply_toml_to_env\<close> sets, in its order.\<close>

definition toml_settings :: "toml_config \<Rightarrow> (bytes \<times> bytes option) list" where
  "toml_settings c =
     [(''RUSTMAIL_BIND'', tc_bind c),
      (''RUSTMAIL_SMTP_PORT'', map_option show_nat (tc_smtp_port c)),
      (''RUSTMAIL_HTTP_PORT'', map_option show_nat (tc_http_port c)),
      (''RUSTMAIL_DB_PATH'', tc_db_path c),
      (''RUSTMAIL_EPHEMERAL'', map_option show_bool (tc_ephemeral c)),
      (''RUSTMAIL_MAX_MESSAGE_SIZE'', map_option show_nat (tc_max_message_size c)),
      (''RUSTMAIL_SMTP_TLS_CERT'', tc_smtp_tls_cert c),
      (''RUSTMAIL_SMTP_TLS_KEY'', tc_smtp_tls_key c),
      (''RUSTMAIL_RETENTION'', map_option show_nat (tc_retention c)),
      (''RUSTMAIL_MAX_MESSAGES'', map_option show_int (tc_max_messages c)),
      (''RUSTMAIL_LOG_LEVEL'', tc_log_level c),
      (''RUSTMAIL_WEBHOOK_URL'', tc_webhook_url c),
      (''RUSTMAIL_RELEASE_HOST'', tc_release_host c),
      (''RUSTMAIL_ALLOWED_ORIGINS'', map_option (join '','') (tc_allowed_origins c)),
      (''RUSTMAIL_ALLOWED_HOSTS'', map_option (join '','') (tc_allowed_hosts c)),
      (''RUSTMAIL_WS_BUFFER'', map_option show_nat (tc_ws_buffer c))]"

fun apply_settings :: "(bytes \<times> bytes option) list \<Rightarrow> env \<Rightarrow> env option" where
  "apply_settings [] E = Some E"
| "apply_settings ((key, setting) # rest) E =
     (case set_if_absent key setting E of None \<Rightarrow> None | Some E' \<Rightarrow> apply_settings rest E')"

definition apply_toml_to_env :: "toml_config \<Rightarrow> env \<Rightarrow> env option" where
  "apply_toml_to_env c E = apply_settings (toml_settings c) E"

fun config_flag :: "bytes list \<Rightarrow> bytes option" where
  "config_flag (a # b # rest) = (if a = ''--config'' then Some b else config_flag (b # rest))"
| "config_flag _ = None"

fun config_equals :: "bytes list \<Rightarrow> bytes option" where
  "config_equals [] = None"
| "config_equals (a # rest) = (case strip_prefix a ''--config='' of Some p \<Rightarrow> Some p | None \<Rightarrow> config_equals rest)"

definition pre_load_toml_config ::
  "(bytes \<Rightarrow> bytes option) \<Rightarrow> (bytes \<Rightarrow> toml_config option) \<Rightarrow> bytes list \<Rightarrow> env \<Rightarrow> (startup_error, env) result" where
  "pre_load_toml_config read_to_string toml_from_str args E =
     (case (case config_flag args of Some p \<Rightarrow> Some p | None \<Rightarrow> config_equals args) of
        None \<Rightarrow> Inr E
      | Some path \<Rightarrow>
          (case read_to_string path of
             None \<Rightarrow> Inl (ConfigUnreadable path)
           | Some contents \<Rightarrow>
               (case toml_from_str contents of
                  None \<Rightarrow> Inl ConfigMalformed
                | Some c \<Rightarrow> ok_or Panicked (apply_toml_to_env c E))))"

subsection \<open>Values of flags\<close>

text \<open>The product with 60 wraps: release builds do not check it.\<close>

definition parse_duration :: "bytes \<Rightarrow> (startup_error, nat) result" where
  "parse_duration txt =
     (let s = trim txt in
      case strip_suffix s ''s'' of
        Some secs \<Rightarrow> map_err BadDuration (parse_u64 secs)
      | None \<Rightarrow>
          (case strip_suffix s ''m'' of
             Some mins \<Rightarrow> map_sum BadDuration (\<lambda>n. n * 60 mod 2 ^ 64) (parse_u64 mins)
           | None \<Rightarrow> map_err BadDuration (parse_u64 s)))"

definition build_smtp_tls_config ::
  "(bytes \<Rightarrow> bytes \<Rightarrow> 'tls option) \<Rightarrow> bytes option \<Rightarrow> bytes option \<Rightarrow> (startup_error, 'tls option) result" where
  "build_smtp_tls_config load_smtp_tls_config cert key =
     (case (cert, key) of
        (Some c, Some k) \<Rightarrow> map_sum id Some (ok_or TlsUnusable (load_smtp_tls_config c k))
      | (None, None) \<Rightarrow> Inr None
      | _ \<Rightarrow> Inl TlsNeedsBoth)"

definition v4_is_broadcast :: "nat \<Rightarrow> nat \<Rightarrow> nat \<Rightarrow> nat \<Rightarrow> bool" where
  "v4_is_broadcast a b c d \<longleftrightarrow> [a, b, c, d] = [255, 255, 255, 255]"

definition is_private_v4 :: "nat \<Rightarrow> nat \<Rightarrow> nat \<Rightarrow> nat \<Rightarrow> bool" where
  "is_private_v4 a b c d \<longleftrightarrow>
     v4_is_private a b \<or> v4_is_loopback a \<or> v4_is_link_local a b \<or> v4_is_broadcast a b c d \<or>
     [a, b, c, d] = [0, 0, 0, 0] \<or> a = 100 \<and> b AND 0xC0 = 64"

definition is_private_ip :: "ip_addr \<Rightarrow> bool" where
  "is_private_ip ip =
     (case ip of
        V4 a b c d \<Rightarrow> is_private_v4 a b c d
      | V6 segs \<Rightarrow>
          (case to_ipv4_mapped segs of
             Some (a, b, c, d) \<Rightarrow> is_private_v4 a b c d
           | None \<Rightarrow>
               is_loopback ip \<or> segs = replicate 8 0 \<or>
               segs ! 0 AND 0xFE00 = 0xFC00 \<or> segs ! 0 AND 0xFFC0 = 0xFE80))"

text \<open>A parsed URL is its scheme and what \<open>host_str\<close> returns of it.\<close>

definition validate_webhook_url ::
  "(bytes \<Rightarrow> (bytes \<times> bytes option) option) \<Rightarrow> bytes \<Rightarrow> (startup_error, unit) result" where
  "validate_webhook_url parse_url url =
     (case parse_url url of
        None \<Rightarrow> Inl (WebhookInvalid url)
      | Some (url_scheme, host_str) \<Rightarrow>
          if url_scheme \<noteq> ''http'' \<and> url_scheme \<noteq> ''https'' then Inl (WebhookScheme url_scheme)
          else (case host_str of
            None \<Rightarrow> Inl WebhookNoHost
          | Some host \<Rightarrow>
              if host = ''localhost'' \<or> host = ''127.0.0.1'' \<or> host = ''::1'' \<or> host = ''[::1]''
              then Inl (WebhookLocalhost url)
              else (case parse_ip_addr host of
                Some ip \<Rightarrow> if is_private_ip ip then Inl (WebhookPrivate url) else Inr ()
              | None \<Rightarrow> Inr ())))"

definition parse_allowed_origins :: "bytes list \<Rightarrow> (startup_error, origin list) result" where
  "parse_allowed_origins values =
     collect_results (map (\<lambda>v. map_err BadOrigin (origin_from_str v)) (filter (\<lambda>v. v \<noteq> []) (map trim values)))"

definition parse_allowed_hosts :: "bytes list \<Rightarrow> (startup_error, bytes list) result" where
  "parse_allowed_hosts values =
     collect_results (map (\<lambda>v. map_err BadHost (hostname_from_str v)) (filter (\<lambda>v. v \<noteq> []) (map trim values)))"

definition parse_bind_addr :: "bytes \<Rightarrow> (startup_error, ip_addr) result" where
  "parse_bind_addr bind = ok_or (BadBind bind) (parse_ip_addr bind)"

text \<open>\<open>rsplit_once\<close>: at the last occurrence.\<close>

definition rsplit_once :: "char \<Rightarrow> bytes \<Rightarrow> (bytes \<times> bytes) option" where
  "rsplit_once c s = map_option (\<lambda>(after, before). (rev before, rev after)) (split_once c (rev s))"

definition parse_release_host :: "bytes \<Rightarrow> bytes \<times> nat option" where
  "parse_release_host s =
     (case rsplit_once CHR '':'' s of
        Some (host, port_str) \<Rightarrow>
          (case parse_u16 port_str of Inr port \<Rightarrow> (host, Some port) | Inl _ \<Rightarrow> (s, None))
      | None \<Rightarrow> (s, None))"

subsection \<open>The assert command\<close>

definition as_u64 :: "int \<Rightarrow> nat" where
  "as_u64 n = nat (n mod 2 ^ 64)"

text \<open>
  The checker task of \<open>run_assert\<close>: batches are stored, and after each that stored something
  the matching messages are counted. Its queue has no stop signal. The flag is whether the
  criteria were met before no sender was left.
\<close>

function assert_checker ::
  "((received_message \<times> handle) list \<Rightarrow> 's ingest \<Rightarrow> message_summary list \<times> 's ingest) \<Rightarrow>
   ('s, storage_error, int) call \<Rightarrow> nat \<Rightarrow> inbox \<Rightarrow> 's ingest \<Rightarrow> bool \<times> inbox \<times> 's ingest" where
  "assert_checker store_batch count_stored min_count ib g =
     (case next_batch ib of
        (batch, ib1) \<Rightarrow>
          if batch = [] then (False, ib1, g)
          else (case store_batch batch g of
            (stored, g1) \<Rightarrow>
              if stored = [] then assert_checker store_batch count_stored min_count ib1 g1
              else (case count_stored (repo g1) of
                (r, s) \<Rightarrow>
                  if min_count \<le> as_u64 (case r of Inl _ \<Rightarrow> 0 | Inr n \<Rightarrow> n)
                  then (True, ib1, g1\<lparr>repo := s\<rparr>)
                  else assert_checker store_batch count_stored min_count ib1 (g1\<lparr>repo := s\<rparr>))))"
  by pat_completeness auto

termination
proof (relation "measure (\<lambda>(store_batch, count_stored, min_count, ib, g). length (queued ib @ concat (arriving ib)))", goal_cases)
  case (2 store_batch count_stored min_count ib g nb batch ib1)
  from next_batch_shrinks [of ib nb batch] 2 show ?case by simp
next
  case (3 store_batch count_stored min_count ib g nb batch ib1)
  from next_batch_shrinks [of ib nb batch] 3 show ?case by simp
qed simp

declare assert_checker.simps [simp del]

subsection \<open>What the environment says goes\<close>

lemma set_if_absent_Some:
  "set_if_absent key setting E = Some E' \<Longrightarrow>
     E' = (case setting of None \<Rightarrow> E | Some v \<Rightarrow> if env_var E key = None then E(key := Some v) else E)"
  by (auto simp: set_if_absent_def set_var_def split: option.splits if_splits)

lemma apply_settings_Some:
  assumes "apply_settings settings E = Some E'" "distinct (map fst settings)"
  shows "E' k = (case map_of settings k of
      Some (Some v) \<Rightarrow> if env_var E k = None then Some v else E k
    | _ \<Rightarrow> E k)"
  using assms
proof (induction settings arbitrary: E)
  case (Cons p settings)
  obtain key setting where p: "p = (key, setting)" by fastforce
  obtain E1 where E1: "set_if_absent key setting E = Some E1" "apply_settings settings E1 = Some E'"
    using Cons.prems(1) p by (auto split: option.splits)
  note eq = set_if_absent_Some [OF E1(1)]
  have other: "k \<noteq> key \<Longrightarrow> E1 k = E k \<and> env_var E1 k = env_var E k" for k
    using eq by (auto simp: env_var_def split: option.splits)
  have IH: "E' k = (case map_of settings k of Some (Some v) \<Rightarrow> if env_var E1 k = None then Some v else E1 k | _ \<Rightarrow> E1 k)"
    using Cons.IH [OF E1(2)] Cons.prems(2) by simp
  show ?case
  proof (cases "k = key")
    case True
    then have "map_of settings k = None" using Cons.prems(2) p by (auto simp: map_of_eq_None_iff)
    then show ?thesis using IH eq True p by (auto split: option.splits)
  next
    case False
    then show ?thesis using IH other [OF False] p by (auto split: option.splits)
  qed
qed simp

lemma apply_settings_total:
  "\<forall>(key, setting) \<in> set settings. \<forall>v. setting = Some v \<longrightarrow> CHR 0x00 \<notin> set v \<Longrightarrow> \<exists>E'. apply_settings settings E = Some E'"
proof (induction settings arbitrary: E)
  case (Cons p settings)
  obtain key setting where p: "p = (key, setting)" by fastforce
  have "\<exists>E1. set_if_absent key setting E = Some E1"
    using Cons.prems p by (auto simp: set_if_absent_def set_var_def split: option.splits)
  then show ?case using Cons p by auto
qed simp

lemma toml_keys_distinct: "distinct (map fst (toml_settings c))"
  by (simp add: toml_settings_def)

text \<open>
  Loading a TOML file never overrides the environment: every variable that has a readable
  value keeps it, every other one named by a key of the file takes the file's value, and all
  others stay as they are. Without zero bytes in the file's values, loading succeeds.
\<close>

theorem environment_wins_over_the_file:
  assumes "config_flag args = Some path" "read_to_string path = Some contents" "toml_from_str contents = Some c"
    and "\<forall>(key, setting) \<in> set (toml_settings c). \<forall>v. setting = Some v \<longrightarrow> CHR 0x00 \<notin> set v"
  shows "\<exists>E'. pre_load_toml_config read_to_string toml_from_str args E = Inr E' \<and>
    (\<forall>k. E' k = (case map_of (toml_settings c) k of
        Some (Some v) \<Rightarrow> if env_var E k = None then Some v else E k
      | _ \<Rightarrow> E k))"
proof -
  obtain E' where "apply_settings (toml_settings c) E = Some E'" using apply_settings_total [OF assms(4)] by blast
  then show ?thesis using assms(1-3) apply_settings_Some [OF _ toml_keys_distinct]
    by (auto simp: pre_load_toml_config_def apply_toml_to_env_def ok_or_def)
qed

definition ports_only :: toml_config where
  "ports_only = \<lparr>tc_bind = None, tc_smtp_port = Some 26, tc_http_port = Some 80, tc_db_path = None, tc_ephemeral = None,
     tc_max_message_size = None, tc_smtp_tls_cert = None, tc_smtp_tls_key = None, tc_retention = None,
     tc_max_messages = None, tc_log_level = None, tc_webhook_url = None, tc_release_host = None,
     tc_allowed_origins = None, tc_allowed_hosts = None, tc_ws_buffer = None\<rparr>"

theorem environment_wins_over_the_file_witness:
  "\<exists>E'. pre_load_toml_config (\<lambda>_. Some ''x'') (\<lambda>_. Some ports_only) [''rustmail'', ''--config'', ''f'']
       (\<lambda>k. if k = ''RUSTMAIL_SMTP_PORT'' then Some ''25'' else None) = Inr E' \<and>
     E' ''RUSTMAIL_SMTP_PORT'' = Some ''25'' \<and> E' ''RUSTMAIL_HTTP_PORT'' = Some ''80''"
proof -
  let ?E = "\<lambda>k. if k = ''RUSTMAIL_SMTP_PORT'' then Some ''25'' else None"
  have "show_nat 26 = ''26''" "show_nat 80 = ''80''" by code_simp+
  moreover have "env_var ?E ''RUSTMAIL_SMTP_PORT'' = Some ''25''" by code_simp
  moreover have "env_var ?E ''RUSTMAIL_HTTP_PORT'' = None" by (simp add: env_var_def)
  ultimately show ?thesis
    using environment_wins_over_the_file [of "[''rustmail'', ''--config'', ''f'']" "''f''" "\<lambda>_. Some ''x''" "''x''"
        "\<lambda>_. Some ports_only" ports_only ?E]
    by (auto simp: toml_settings_def ports_only_def)
qed

subsection \<open>Addresses a webhook may not have\<close>

text \<open>The reserved blocks, as base address and prefix length.\<close>

definition reserved_blocks :: "((nat \<times> nat \<times> nat \<times> nat) \<times> nat) list" where
  "reserved_blocks =
     [((10, 0, 0, 0), 8), ((172, 16, 0, 0), 12), ((192, 168, 0, 0), 16), ((127, 0, 0, 0), 8), ((169, 254, 0, 0), 16),
      ((255, 255, 255, 255), 32), ((0, 0, 0, 0), 32), ((100, 64, 0, 0), 10)]"

definition v4_value :: "nat \<times> nat \<times> nat \<times> nat \<Rightarrow> nat" where
  "v4_value = (\<lambda>(a, b, c, d). ((a * 256 + b) * 256 + c) * 256 + d)"

definition in_block :: "nat \<times> nat \<times> nat \<times> nat \<Rightarrow> (nat \<times> nat \<times> nat \<times> nat) \<times> nat \<Rightarrow> bool" where
  "in_block ip = (\<lambda>(base, len). v4_value ip div 2 ^ (32 - len) = v4_value base div 2 ^ (32 - len))"

lemma and_high_bits:
  assumes "x < 2 ^ w" "n \<le> w"
  shows "x AND (2 ^ w - 2 ^ n) = x div 2 ^ n * (2 ^ n :: nat)"
proof -
  have "(2 ^ w - 2 ^ n :: nat) = push_bit n (mask (w - n))"
    using assms(2) by (simp add: push_bit_eq_mult mask_eq_exp_minus_1 algebra_simps flip: power_add)
  moreover have "x AND push_bit n (mask (w - n)) = push_bit n (drop_bit n x)"
  proof (rule bit_eqI)
    fix k
    have "w \<le> k \<Longrightarrow> \<not> bit x k" using assms(1) by (metis bit_take_bit_iff not_le take_bit_nat_eq_self)
    then show "bit (x AND push_bit n (mask (w - n))) k = bit (push_bit n (drop_bit n x)) k"
      using assms(2) by (cases "w \<le> k") (auto simp: bit_simps)
  qed
  ultimately show ?thesis by (simp add: push_bit_eq_mult drop_bit_eq_div)
qed

lemma and_top_two: "b < 256 \<Longrightarrow> b AND 0xC0 = 64 \<longleftrightarrow> b div 64 = (1 :: nat)"
  using and_high_bits [of b 8 6] by simp

lemma is_private_v4_blocks:
  assumes "a < 256" "b < 256" "c < 256" "d < 256"
  shows "is_private_v4 a b c d \<longleftrightarrow> list_ex (in_block (a, b, c, d)) reserved_blocks"
proof -
  let ?n = "v4_value (a, b, c, d)"
  have d8: "?n div 2 ^ 24 = a" using assms by (simp add: v4_value_def)
  have d10: "?n div 2 ^ 22 = a * 4 + b div 64" using assms by (simp add: v4_value_def)
  have d12: "?n div 2 ^ 20 = a * 16 + b div 16" using assms by (simp add: v4_value_def)
  have d16: "?n div 2 ^ 16 = a * 256 + b" using assms by (simp add: v4_value_def)
  have b: "in_block (a, b, c, d) ((10, 0, 0, 0), 8) \<longleftrightarrow> a = 10" "in_block (a, b, c, d) ((127, 0, 0, 0), 8) \<longleftrightarrow> a = 127"
    "in_block (a, b, c, d) ((100, 64, 0, 0), 10) \<longleftrightarrow> a * 4 + b div 64 = 401"
    "in_block (a, b, c, d) ((172, 16, 0, 0), 12) \<longleftrightarrow> a * 16 + b div 16 = 2753"
    "in_block (a, b, c, d) ((192, 168, 0, 0), 16) \<longleftrightarrow> a * 256 + b = 49320"
    "in_block (a, b, c, d) ((169, 254, 0, 0), 16) \<longleftrightarrow> a * 256 + b = 43518"
    using d8 d10 d12 d16 by (simp_all add: in_block_def) (simp_all add: v4_value_def)
  have whole: "in_block (a, b, c, d) ((255, 255, 255, 255), 32) \<longleftrightarrow> a = 255 \<and> b = 255 \<and> c = 255 \<and> d = 255"
    "in_block (a, b, c, d) ((0, 0, 0, 0), 32) \<longleftrightarrow> a = 0 \<and> b = 0 \<and> c = 0 \<and> d = 0"
    using assms by (simp_all add: in_block_def v4_value_def) linarith
  have q: "b div 64 < 4" "b div 16 < 16" "b div 16 = 1 \<longleftrightarrow> 16 \<le> b \<and> b \<le> 31" using assms(2) by auto
  have split: "a * n + x = k \<longleftrightarrow> a = k div n \<and> x = k mod n" if "x < n" for n x k :: nat
    using that by (auto simp: div_mult_mod_eq)
  have pair: "a * 4 + b div 64 = 401 \<longleftrightarrow> a = 100 \<and> b div 64 = 1"
    "a * 16 + b div 16 = 2753 \<longleftrightarrow> a = 172 \<and> 16 \<le> b \<and> b \<le> 31"
    "a * 256 + b = 49320 \<longleftrightarrow> a = 192 \<and> b = 168" "a * 256 + b = 43518 \<longleftrightarrow> a = 169 \<and> b = 254"
    using split [OF q(1), of 401] split [OF q(2), of 2753] split [OF assms(2), of 49320] split [OF assms(2), of 43518] q(3)
    by simp_all
  show ?thesis
    by (auto simp: reserved_blocks_def b whole pair is_private_v4_def and_top_two [OF assms(2)] v4_is_private_def
        v4_is_loopback_def v4_is_link_local_def v4_is_broadcast_def)
qed

lemma eight_zeros: "replicate 8 (0 :: nat) = [0, 0, 0, 0, 0, 0, 0, 0]"
  by (simp add: numeral_eq_Suc)

text \<open>
  The addresses a webhook may not be sent to, as the code tests them byte by byte and bit
  by bit, are exactly the reserved blocks: \<open>10/8\<close>, \<open>172.16/12\<close>, \<open>192.168/16\<close>, \<open>127/8\<close>,
  \<open>169.254/16\<close>, \<open>100.64/10\<close> and the two all-ones and all-zeros addresses for IPv4 (also when
  mapped into IPv6); loopback, unspecified, \<open>fc00::/7\<close> and \<open>fe80::/10\<close> for IPv6.
\<close>

theorem private_addresses_are_the_reserved_blocks:
  assumes "a < 256" "b < 256" "c < 256" "d < 256"
    and "length segs = 8" "list_all (\<lambda>s. s < 2 ^ 16) segs" "take 6 segs \<noteq> [0, 0, 0, 0, 0, 65535]"
  shows "is_private_ip (V4 a b c d) = list_ex (in_block (a, b, c, d)) reserved_blocks \<and>
    is_private_ip (V6 [0, 0, 0, 0, 0, 65535, a * 256 + b, c * 256 + d]) = list_ex (in_block (a, b, c, d)) reserved_blocks \<and>
    is_private_ip (V6 segs) = (segs = [0, 0, 0, 0, 0, 0, 0, 0] \<or> segs = [0, 0, 0, 0, 0, 0, 0, 1] \<or>
      hd segs div 2 ^ 9 = 0xFC00 div 2 ^ 9 \<or> hd segs div 2 ^ 6 = 0xFE80 div 2 ^ 6)"
proof -
  have s: "hd segs = segs ! 0" "segs ! 0 < 2 ^ 16" using assms(5,6) by (cases segs; simp)+
  have "segs ! 0 AND 0xFE00 = segs ! 0 div 2 ^ 9 * 2 ^ 9" using and_high_bits [OF s(2), of 9] by simp
  moreover have "segs ! 0 AND 0xFFC0 = segs ! 0 div 2 ^ 6 * 2 ^ 6" using and_high_bits [OF s(2), of 6] by simp
  ultimately have "is_private_ip (V6 segs) = (segs = [0, 0, 0, 0, 0, 0, 0, 0] \<or> segs = [0, 0, 0, 0, 0, 0, 0, 1] \<or>
      hd segs div 2 ^ 9 = 0xFC00 div 2 ^ 9 \<or> hd segs div 2 ^ 6 = 0xFE80 div 2 ^ 6)"
    using assms(7) s(1) by (auto simp: eight_zeros is_private_ip_def to_ipv4_mapped_def is_loopback_def)
  then show ?thesis
    using assms(1-4) is_private_v4_blocks [OF assms(1-4)]
    by (simp add: is_private_ip_def to_ipv4_mapped_def)
qed

theorem private_addresses_are_the_reserved_blocks_witness:
  "is_private_ip (V4 100 100 1 2) \<and> is_private_ip (V6 [0xFD12, 0, 0, 0, 0, 0, 0, 1])"
  using private_addresses_are_the_reserved_blocks [of 100 100 1 2 "[0xFD12, 0, 0, 0, 0, 0, 0, 1]"]
  by (simp add: in_block_def reserved_blocks_def v4_value_def)



subsection \<open>Durations and the release host\<close>

lemma trim_digits:
  assumes "c \<in> {CHR ''s'', CHR ''m''}"
  shows "trim (show_nat n @ [c]) = show_nat n @ [c]"
proof -
  have "is_ascii_digit x \<or> x = c" if "x \<in> set (show_nat n @ [c])" for x using that show_nat_digits by auto
  then have good: "byte x < 128 \<and> \<not> is_whitespace [x]" if "x \<in> set (show_nat n @ [c])" for x
    using that assms by (fastforce simp: is_ascii_digit_def is_whitespace_def white_space_def)
  then have "is_ascii (show_nat n @ [c])" by (auto simp: is_ascii_def)
  moreover have "\<not> is_whitespace [hd (show_nat n @ [c])]" by (rule conjunct2 [OF good]) (rule hd_in_set, simp)
  moreover have "\<not> is_whitespace [last (show_nat n @ [c])]" using good [of c] by simp
  ultimately show ?thesis by (intro trim_noop) simp_all
qed

text \<open>
  A timeout in seconds or minutes is read as that many seconds, as long as the seconds fit
  64 bits; a number of minutes beyond that is not refused but wraps.
\<close>

theorem durations_are_read_in_seconds:
  assumes "n \<le> u64_max"
  shows "parse_duration (show_nat n @ ''s'') = Inr n \<and>
    parse_duration (show_nat n @ ''m'') = Inr (if 60 * n \<le> u64_max then 60 * n else 60 * n mod 2 ^ 64)"
proof -
  have m: "strip_suffix (show_nat n @ ''m'') ''s'' = None" by (auto simp: strip_suffix_None)
  have "parse_unsigned u64_max (show_nat n) = Inr n" using assms by (rule parse_unsigned_show_nat)
  moreover have "strip_suffix (show_nat n @ ''s'') ''s'' = Some (show_nat n)" "strip_suffix (show_nat n @ ''m'') ''m'' = Some (show_nat n)"
    by (simp_all add: strip_suffix_Some)
  ultimately show ?thesis using m trim_digits [of "CHR ''s''" n] trim_digits [of "CHR ''m''" n]
    by (simp add: parse_duration_def u64_max_def mult.commute)
qed

theorem durations_are_read_in_seconds_witness:
  "parse_duration (show_nat 307445734561825861 @ ''m'') = Inr 44"
  using durations_are_read_in_seconds [of 307445734561825861] by (simp add: u64_max_def)

text \<open>
  A release host given with a port is read as that host and that port, whatever else the
  host is made of.
\<close>

theorem release_host_reads_host_and_port:
  assumes "p \<le> u16_max"
  shows "parse_release_host (host @ '':'' @ show_nat p) = (host, Some p)"
proof -
  have "CHR '':'' \<notin> set (rev (show_nat p))" using show_nat_digits [of "CHR '':''" p] by (auto simp: is_ascii_digit_def)
  then have "split_once CHR '':'' (rev (show_nat p) @ CHR '':'' # rev host) = Some (rev (show_nat p), rev host)"
    by (rule split_once_append)
  then show ?thesis using parse_unsigned_show_nat [OF assms] by (simp add: parse_release_host_def rsplit_once_def)
qed

theorem release_host_reads_host_and_port_witness:
  "parse_release_host (''smtp.example.com'' @ '':'' @ show_nat 587) = (''smtp.example.com'', Some 587)"
  using release_host_reads_host_and_port [of 587 "''smtp.example.com''"] by (simp add: u16_max_def)

subsection \<open>What an assert promises\<close>

lemma count_matching_result:
  assumes "count_matching S lower subject sender recipient st = (r, st')"
  shows "tables st' = tables st \<and>
    (\<forall>n. r = Inr n \<longrightarrow> n = int (length (filter (matches S lower subject sender recipient) (messages (tables st)))))"
  using select_tables [OF assms [unfolded count_matching_def]] by blast

lemma as_u64_le: "0 \<le> n \<Longrightarrow> as_u64 n \<le> nat n"
  by (simp add: as_u64_def nat_mono zmod_le_nonneg_dividend)

text \<open>
  \<open>rustmail assert\<close> passes only when the store holds as many matching messages as asked
  for: whatever is delivered and whichever statements fail, a checker that reports success
  leaves at least \<open>min_count\<close> stored messages that match every given filter.
\<close>

theorem assert_passes_only_with_enough_messages:
  assumes "assert_checker store_batch (count_matching S lower subject sender recipient) min_count ib g = (True, ib', g')"
  shows "min_count \<le> length (filter (matches S lower subject sender recipient) (messages (tables (repo g'))))"
  using assms
proof (induction store_batch "count_matching S lower subject sender recipient" min_count ib g
    rule: assert_checker.induct)
  case (1 store_batch min_count ib g)
  obtain batch ib1 where nb: "next_batch ib = (batch, ib1)" by fastforce
  have ne: "batch \<noteq> []" using "1.prems" nb by (auto simp: assert_checker.simps [of _ _ _ ib])
  obtain stored g1 where st: "store_batch batch g = (stored, g1)" by fastforce
  obtain r s where r: "count_matching S lower subject sender recipient (repo g1) = (r, s)" by fastforce
  let ?n = "case r of Inl _ \<Rightarrow> 0 | Inr n \<Rightarrow> n"
  consider (empty) "stored = []" | (met) "stored \<noteq> []" "min_count \<le> as_u64 ?n"
    | (more) "stored \<noteq> []" "\<not> min_count \<le> as_u64 ?n" by blast
  then show ?case
  proof cases
    case empty
    then have "assert_checker store_batch (count_matching S lower subject sender recipient) min_count ib1 g1 = (True, ib', g')"
      using "1.prems" nb ne st by (simp add: assert_checker.simps [of _ _ _ ib])
    then show ?thesis using "1.hyps"(1) [OF nb [symmetric] ne st [symmetric] empty] by simp
  next
    case met
    then have g': "g' = g1\<lparr>repo := s\<rparr>"
      using "1.prems" nb ne st r by (simp add: assert_checker.simps [of _ _ _ ib])
    have n: "?n \<ge> 0" "nat ?n \<le> length (filter (matches S lower subject sender recipient) (messages (tables (repo g1))))"
      using count_matching_result [OF r] by (cases r; simp)+
    then have "min_count \<le> nat ?n" using met(2) as_u64_le le_trans by blast
    then show ?thesis using g' n(2) count_matching_result [OF r] by simp
  next
    case more
    then have "assert_checker store_batch (count_matching S lower subject sender recipient) min_count ib1 (g1\<lparr>repo := s\<rparr>) =
        (True, ib', g')"
      using "1.prems" nb ne st r by (simp add: assert_checker.simps [of _ _ _ ib])
    then show ?thesis using "1.hyps"(2) [OF nb [symmetric] ne st [symmetric] more(1) r [symmetric] more(2)] by simp
  qed
qed

text \<open>A store that keeps one message per batch, for the witness.\<close>

definition store_first :: "(received_message \<times> handle) list \<Rightarrow> store ingest \<Rightarrow> message_summary list \<times> store ingest" where
  "store_first batch g =
     (case insert_prepared plain_sql (plain_prepared (rm_raw (fst (hd batch)))) (repo g) of
        (Inr sm, s) \<Rightarrow> ([sm], g\<lparr>repo := s\<rparr>)
      | (Inl _, s) \<Rightarrow> ([], g\<lparr>repo := s\<rparr>))"

theorem assert_passes_only_with_enough_messages_witness:
  "\<exists>ib' g'. assert_checker store_first (count_matching plain_sql to_ascii_lowercase None None None) 1
       (plain_inbox\<lparr>arriving := [], stop_armed := False\<rparr>) plain_ingest = (True, ib', g') \<and>
     1 \<le> length (messages (tables (repo g')))"
proof -
  let ?run = "assert_checker store_first (count_matching plain_sql to_ascii_lowercase None None None) 1
       (plain_inbox\<lparr>arriving := [], stop_armed := False\<rparr>) plain_ingest"
  let ?batch = "[plain_delivery 0, plain_delivery 1]"
  have "fst (next_batch (plain_inbox\<lparr>arriving := [], stop_armed := False\<rparr>)) = ?batch"
    "fst (store_first ?batch plain_ingest) \<noteq> []"
    "fst (count_matching plain_sql to_ascii_lowercase None None None (repo (snd (store_first ?batch plain_ingest)))) = Inr 1"
    by code_simp+
  then have "fst ?run" by (subst assert_checker.simps) (simp add: case_prod_unfold as_u64_def)
  then obtain ib' g' where r: "?run = (True, ib', g')" by (metis prod.collapse)
  from assert_passes_only_with_enough_messages [OF this] have "1 \<le> length (messages (tables (repo g')))"
    using length_filter_le le_trans by blast
  with r show ?thesis by blast
qed

end
