(* ===== verification/Tui_Api.thy ===== *)
theory Tui_Api
  imports Rust_Str
begin

text \<open>
  The terminal client's data and requests: the wire types and \<open>ApiClient\<close> of
  \<open>rustmail-tui/src/api.rs\<close>, and the text helpers of \<open>ui/util.rs\<close>. A request is a value (method,
  URL, query pairs and JSON body); sending it, and decoding the answer, is the HTTP library's work
  and stays outside. Display widths come from the Unicode tables of a library and are
  arguments.
\<close>

section \<open>Wire types\<close>

record summary =
  ts_id :: bytes
  ts_sender :: bytes
  ts_recipients :: "bytes list"
  ts_subject :: "bytes option"
  ts_size :: int
  ts_has_attachments :: bool
  ts_is_read :: bool
  ts_is_starred :: bool
  ts_tags :: "bytes list"
  ts_created_at :: bytes

record detail =
  tm_id :: bytes
  tm_sender :: bytes
  tm_recipients :: "bytes list"
  tm_subject :: "bytes option"
  tm_text_body :: "bytes option"
  tm_html_body :: "bytes option"
  tm_size :: int
  tm_has_attachments :: bool
  tm_is_read :: bool
  tm_is_starred :: bool
  tm_tags :: "bytes list"
  tm_created_at :: bytes

record list_response =
  lr_messages :: "summary list"
  lr_total :: int

datatype delta =
    MessageNew summary
  | MessageDelete bytes
  | MessageRead bytes bool
  | MessageStarred bytes bool
  | MessageTags bytes "bytes list"
  | MessagesClear

section \<open>Requests\<close>

definition RAW_PREVIEW_LIMIT_BYTES :: int where "RAW_PREVIEW_LIMIT_BYTES = 128 * 1024"

datatype http_method = GET | DELETE | PATCH

record http_request =
  hr_method :: http_method
  hr_url :: bytes
  hr_query :: "(bytes \<times> bytes) list"
  hr_body :: "(bytes \<times> bool) list option"

definition request :: "http_method \<Rightarrow> bytes \<Rightarrow> http_request" where
  "request m u = \<lparr>hr_method = m, hr_url = u, hr_query = [], hr_body = None\<rparr>"

definition list_messages :: "bytes \<Rightarrow> bytes option \<Rightarrow> int \<Rightarrow> int \<Rightarrow> http_request" where
  "list_messages base_url query lim off =
     (let req = (request GET (base_url @ ''/api/v1/messages''))
                  \<lparr>hr_query := [(''limit'', show_int lim), (''offset'', show_int off)]\<rparr>
      in case query of
           Some q \<Rightarrow> req\<lparr>hr_query := hr_query req @ [(''q'', q)]\<rparr>
         | None \<Rightarrow> req)"

definition message_url :: "bytes \<Rightarrow> bytes \<Rightarrow> bytes" where
  "message_url base_url ident = base_url @ ''/api/v1/messages/'' @ ident"

definition get_message :: "bytes \<Rightarrow> bytes \<Rightarrow> http_request" where
  "get_message base_url ident = request GET (message_url base_url ident)"

definition delete_message :: "bytes \<Rightarrow> bytes \<Rightarrow> http_request" where
  "delete_message base_url ident = request DELETE (message_url base_url ident)"

definition delete_all_messages :: "bytes \<Rightarrow> http_request" where
  "delete_all_messages base_url = request DELETE (base_url @ ''/api/v1/messages'')"

text \<open>
  \<open>serde_json::Map\<close> holds each key once; the two keys are inserted in alphabetical order, so the
  order is the same whichever of the library's two maps is built.
\<close>

definition update_message :: "bytes \<Rightarrow> bytes \<Rightarrow> bool option \<Rightarrow> bool option \<Rightarrow> http_request" where
  "update_message base_url ident is_read is_starred =
     (request PATCH (message_url base_url ident))
       \<lparr>hr_body := Some ((case is_read of Some v \<Rightarrow> [(''is_read'', v)] | None \<Rightarrow> [])
                     @ (case is_starred of Some v \<Rightarrow> [(''is_starred'', v)] | None \<Rightarrow> []))\<rparr>"

definition export_url :: "bytes \<Rightarrow> bytes \<Rightarrow> bytes" where
  "export_url base_url ident = message_url base_url ident @ ''/export''"

definition get_raw_message :: "bytes \<Rightarrow> bytes \<Rightarrow> int \<Rightarrow> http_request" where
  "get_raw_message base_url ident lim =
     (request GET (message_url base_url ident @ ''/raw''))\<lparr>hr_query := [(''limit'', show_int lim)]\<rparr>"

section \<open>Text helpers\<close>

text \<open>
  \<open>{:.1}\<close> of a quotient by a power of two: the quotient is exact in binary, and the decimal is
  rounded to the nearest tenth, ties to even. Sizes are below \<open>2 ^ 53\<close>, where \<open>i64 as f64\<close> is exact.
\<close>

definition round_half_even :: "int \<Rightarrow> int \<Rightarrow> int" where
  "round_half_even n d =
     (let k = n div d; r = n mod d
      in if 2 * r < d then k else if 2 * r > d then k + 1 else if even k then k else k + 1)"

definition show_tenths :: "int \<Rightarrow> bytes" where
  "show_tenths t = show_int (t div 10) @ ''.'' @ show_int (t mod 10)"

definition format_size :: "int \<Rightarrow> bytes" where
  "format_size n =
     (if n < 1024 then show_int n @ ''B''
      else if n < 1024 * 1024 then show_tenths (round_half_even (10 * n) 1024) @ ''K''
      else show_tenths (round_half_even (10 * n) (1024 * 1024)) @ ''M'')"

text \<open>\<open>str::get\<close> of a byte range: \<open>None\<close> unless both ends are in range and between characters.\<close>

definition char_boundary :: "bytes \<Rightarrow> nat \<Rightarrow> bool" where
  "char_boundary s i \<longleftrightarrow> i = 0 \<or> i = length s \<or> i < length s \<and> \<not> cont_byte (s ! i)"

definition str_get :: "nat \<Rightarrow> nat \<Rightarrow> bytes \<Rightarrow> bytes option" where
  "str_get a b s =
     (if a \<le> b \<and> b \<le> length s \<and> char_boundary s a \<and> char_boundary s b
      then Some (take (b - a) (drop a s)) else None)"

definition format_date :: "bytes \<Rightarrow> bytes" where
  "format_date stamp =
     (case str_get 5 16 stamp of
        Some s \<Rightarrow> map (\<lambda>c. if c = CHR ''T'' then CHR '' '' else c) s
      | None \<Rightarrow> stamp)"

text \<open>
  The widths of \<open>unicode_width\<close>: \<open>sw\<close> of a string and \<open>cw\<close> of a character. \<open>take_width\<close> is the
  \<open>take_while\<close> whose closure keeps the running width \<open>w\<close>.
\<close>

definition char_width :: "(bytes \<Rightarrow> nat option) \<Rightarrow> bytes \<Rightarrow> nat" where
  "char_width cw c = (case cw c of Some n \<Rightarrow> n | None \<Rightarrow> 0)"

fun take_width :: "(bytes \<Rightarrow> nat option) \<Rightarrow> nat \<Rightarrow> nat \<Rightarrow> bytes list \<Rightarrow> bytes list" where
  "take_width cw w lim [] = []"
| "take_width cw w lim (c # cs) =
     (if w + char_width cw c \<le> lim then c # take_width cw (w + char_width cw c) lim cs else [])"

definition truncate :: "(bytes \<Rightarrow> nat) \<Rightarrow> (bytes \<Rightarrow> nat option) \<Rightarrow> bytes \<Rightarrow> nat \<Rightarrow> bytes" where
  "truncate sw cw s lim =
     (if sw s \<le> lim then s
      else if lim > 2 then concat (take_width cw 0 (lim - 2) (chars s)) @ ''..''
      else concat (take_width cw 0 lim (chars s)))"

definition trim_end_char :: "char \<Rightarrow> bytes \<Rightarrow> bytes" where
  "trim_end_char c s = rev (dropWhile (\<lambda>x. x = c) (rev s))"

definition trim_char :: "char \<Rightarrow> bytes \<Rightarrow> bytes" where
  "trim_char c s = trim_end_char c (dropWhile (\<lambda>x. x = c) s)"

definition parse_sender :: "bytes \<Rightarrow> bytes" where
  "parse_sender sender =
     (case find_char (CHR ''<'') sender of
        Some start \<Rightarrow>
          (let name = trim_char (CHR 0x22) (trim (take start sender))
           in if name = []
              then trim_end_char (CHR ''>'')
                     (case str_get (start + 1) (length sender) sender of Some s \<Rightarrow> s | None \<Rightarrow> sender)
              else name)
      | None \<Rightarrow> sender)"

end
