(* ===== verification/Tui_App.thy ===== *)
theory Tui_App
  imports Tui_Api "HOL-Library.Word"
begin

text \<open>
  The terminal client's state machine (\<open>rustmail-tui/src/app.rs\<close>, events of \<open>event.rs\<close>): the
  \<open>App\<close> struct, and one definition for each handler that \<open>dispatch\<close> calls. A background request
  is a value in \<open>tasks\<close>; its answer comes back as an event. The clock, the outcomes of finished
  tasks and the areas of the last drawing are fields the environment fills.
\<close>

section \<open>State\<close>

definition STALE_VIEW_REFETCH_INTERVAL :: nat where "STALE_VIEW_REFETCH_INTERVAL = 2000"
definition PENDING_DELTA_CAPACITY :: nat where "PENDING_DELTA_CAPACITY = 256"
definition SPINNER_FRAMES :: nat where "SPINNER_FRAMES = 10"

datatype mode = Normal | Search | RawView | Confirm | Help
datatype focus = FocusList | FocusPreview
datatype preview_tab = TabText | TabHeaders | TabRaw
datatype raw_target = RawPreview | RawFullView

record pending_deltas =
  pd_events :: "delta list"
  overflowed :: bool

definition record_delta :: "delta \<Rightarrow> pending_deltas \<Rightarrow> pending_deltas" where
  "record_delta d p =
     (if overflowed p then p
      else if PENDING_DELTA_CAPACITY \<le> length (pd_events p) then p\<lparr>pd_events := [], overflowed := True\<rparr>
      else p\<lparr>pd_events := pd_events p @ [d]\<rparr>)"

definition no_deltas :: pending_deltas where
  "no_deltas = \<lparr>pd_events = [], overflowed = False\<rparr>"

record anchor =
  an_ids :: "bytes list"
  an_index :: nat

record rect =
  rx :: nat
  ry :: nat
  rwidth :: nat
  rheight :: nat

text \<open>The futures the app spawns, with what each of them captured.\<close>

datatype task =
    ConnectWebsocket
  | ListMessages "64 word" "bytes option" int int
  | GetMessage "64 word" bytes bool
  | GetRaw raw_target "64 word" bytes int int
  | UpdateMessage bytes "bool option" "bool option"
  | DeleteMessage bytes
  | DeleteAll

datatype join_outcome = Joined | Cancelled | Panicked bytes

record tui =
  running :: bool
  mode :: mode
  focus :: focus
  base_url :: bytes
  tasks :: "task list"
  joined :: "join_outcome list"
  clock :: nat
  fetch_generation :: "64 word"
  last_request_id :: "64 word"
  pending :: pending_deltas
  messages :: "summary list"
  total :: int
  selected :: nat
  offset :: int
  page_size :: int
  list_selected :: "nat option"
  list_offset :: nat
  list_scroll_length :: nat
  list_scroll_position :: nat
  preview :: "detail option"
  preview_scroll :: nat
  preview_loading :: bool
  preview_tab :: preview_tab
  preview_raw :: "bytes option"
  preview_raw_notice :: "bytes option"
  last_preview_id :: "bytes option"
  pending_preview :: "64 word option"
  raw_content :: "bytes option"
  raw_notice :: "bytes option"
  raw_scroll :: nat
  pending_raw :: "(raw_target \<times> 64 word) option"
  search_query :: bytes
  search_input :: bytes
  confirm_action :: "bytes option"
  error :: "bytes option"
  error_ticks :: nat
  loading :: bool
  view_stale :: bool
  view_changed :: bool
  last_fetch_at :: "nat option"
  ws_connected :: bool
  ws_ever_connected :: bool
  spinner_frame :: nat
  list_area :: rect
  list_table_area :: rect
  preview_area :: rect
  tab_area :: rect
  tab_ranges :: "(nat \<times> nat) list"

definition no_rect :: rect where
  "no_rect = \<lparr>rx = 0, ry = 0, rwidth = 0, rheight = 0\<rparr>"

definition new_app :: "bytes \<Rightarrow> tui" where
  "new_app url =
     \<lparr>running = True, mode = Normal, focus = FocusList, base_url = url, tasks = [], joined = [],
      clock = 0, fetch_generation = 0, last_request_id = 0, pending = no_deltas,
      messages = [], total = 0, selected = 0, offset = 0, page_size = 50,
      list_selected = Some 0, list_offset = 0, list_scroll_length = 0, list_scroll_position = 0,
      preview = None, preview_scroll = 0, preview_loading = False, preview_tab = TabText,
      preview_raw = None, preview_raw_notice = None, last_preview_id = None, pending_preview = None,
      raw_content = None, raw_notice = None, raw_scroll = 0, pending_raw = None,
      search_query = [], search_input = [], confirm_action = None, error = None, error_ticks = 0,
      loading = False, view_stale = False, view_changed = False, last_fetch_at = None,
      ws_connected = False, ws_ever_connected = False, spinner_frame = 0,
      list_area = no_rect, list_table_area = no_rect, preview_area = no_rect, tab_area = no_rect,
      tab_ranges = [(0, 0), (0, 0), (0, 0)]\<rparr>"

section \<open>Tasks\<close>

definition set_error :: "bytes \<Rightarrow> tui \<Rightarrow> tui" where
  "set_error msg s = s\<lparr>error := Some msg, error_ticks := 0\<rparr>"

definition next_request_id :: "tui \<Rightarrow> 64 word \<times> tui" where
  "next_request_id s =
     (let s = s\<lparr>last_request_id := last_request_id s + 1\<rparr> in (last_request_id s, s))"

fun reap_outcomes :: "join_outcome list \<Rightarrow> tui \<Rightarrow> tui" where
  "reap_outcomes [] s = s"
| "reap_outcomes (Panicked e # os) s = reap_outcomes os (set_error (''Background task failed: '' @ e) s)"
| "reap_outcomes (_ # os) s = reap_outcomes os s"

definition reap_finished_tasks :: "tui \<Rightarrow> tui" where
  "reap_finished_tasks s = reap_outcomes (joined s) (s\<lparr>joined := []\<rparr>)"

definition spawn_owned :: "task \<Rightarrow> tui \<Rightarrow> tui" where
  "spawn_owned t s = (let s = reap_finished_tasks s in s\<lparr>tasks := tasks s @ [t]\<rparr>)"

definition shutdown_tasks :: "tui \<Rightarrow> tui" where
  "shutdown_tasks s = s\<lparr>tasks := [], joined := []\<rparr>"

definition connect_websocket :: "tui \<Rightarrow> tui" where
  "connect_websocket s = spawn_owned ConnectWebsocket s"

text \<open>What a task sends, for the tasks that are one request.\<close>

fun task_request :: "bytes \<Rightarrow> task \<Rightarrow> http_request option" where
  "task_request url ConnectWebsocket = None"
| "task_request url (ListMessages g q lim off) = Some (list_messages url q lim off)"
| "task_request url (GetMessage r ident unread) = Some (get_message url ident)"
| "task_request url (GetRaw t r ident sz lim) = Some (get_raw_message url ident lim)"
| "task_request url (UpdateMessage ident rd st) = Some (update_message url ident rd st)"
| "task_request url (DeleteMessage ident) = Some (delete_message url ident)"
| "task_request url DeleteAll = Some (delete_all_messages url)"

section \<open>Selection\<close>

text \<open>Iterator searches: \<open>position\<close>, \<open>rposition\<close> and \<open>find_map\<close>.\<close>

fun position :: "('a \<Rightarrow> bool) \<Rightarrow> 'a list \<Rightarrow> nat option" where
  "position P [] = None"
| "position P (x # xs) = (if P x then Some 0 else map_option Suc (position P xs))"

fun rposition :: "('a \<Rightarrow> bool) \<Rightarrow> 'a list \<Rightarrow> nat option" where
  "rposition P [] = None"
| "rposition P (x # xs) =
     (case rposition P xs of Some i \<Rightarrow> Some (Suc i) | None \<Rightarrow> if P x then Some 0 else None)"

fun find_map :: "('a \<Rightarrow> 'b option) \<Rightarrow> 'a list \<Rightarrow> 'b option" where
  "find_map f [] = None"
| "find_map f (x # xs) = (case f x of Some y \<Rightarrow> Some y | None \<Rightarrow> find_map f xs)"

definition sync_list_state :: "tui \<Rightarrow> tui" where
  "sync_list_state s =
     s\<lparr>list_selected := Some (selected s), list_scroll_length := length (messages s),
       list_scroll_position := selected s\<rparr>"

definition select_message :: "nat \<Rightarrow> tui \<Rightarrow> bool \<times> tui" where
  "select_message idx s =
     (if idx < length (messages s) \<and> idx \<noteq> selected s
      then (True, sync_list_state (s\<lparr>selected := idx\<rparr>)) else (False, s))"

definition select_next :: "tui \<Rightarrow> bool \<times> tui" where
  "select_next s =
     (if messages s = [] then (False, s)
      else select_message (min (selected s + 1) (length (messages s) - 1)) s)"

definition select_prev :: "tui \<Rightarrow> bool \<times> tui" where
  "select_prev s = (if messages s = [] then (False, s) else select_message (selected s - 1) s)"

definition selected_message :: "tui \<Rightarrow> summary option" where
  "selected_message s =
     (if selected s < length (messages s) then Some (messages s ! selected s) else None)"

definition capture_selection :: "tui \<Rightarrow> anchor" where
  "capture_selection s = \<lparr>an_ids = map ts_id (messages s), an_index = selected s\<rparr>"

definition capture_selected_only :: "tui \<Rightarrow> anchor" where
  "capture_selected_only s =
     \<lparr>an_ids = (case selected_message s of Some m \<Rightarrow> [ts_id m] | None \<Rightarrow> []), an_index = 0\<rparr>"

text \<open>
  The map of \<open>resolve_selection\<close> is filled in list order, so the last row of an id is the one it
  keeps.
\<close>

definition resolve_selection :: "bytes list \<Rightarrow> nat \<Rightarrow> summary list \<Rightarrow> nat" where
  "resolve_selection old index new =
     (let position_of = (\<lambda>ident. rposition (\<lambda>m. ts_id m = ident) new);
          above = take (min index (length old)) old;
          from_anchor = drop (min index (length old)) old
      in case find_map position_of from_anchor of
           Some i \<Rightarrow> i
         | None \<Rightarrow>
             (case find_map position_of (rev above) of
                Some i \<Rightarrow> i
              | None \<Rightarrow> min index (length new - 1)))"

definition reanchor_selection :: "anchor \<Rightarrow> tui \<Rightarrow> bool \<times> tui" where
  "reanchor_selection a s =
     (let previous = (if an_index a < length (an_ids a) then Some (an_ids a ! an_index a) else None);
          s = sync_list_state (s\<lparr>selected := resolve_selection (an_ids a) (an_index a) (messages s)\<rparr>)
      in (map_option ts_id (selected_message s) \<noteq> previous, s))"

definition is_selected :: "bytes \<Rightarrow> tui \<Rightarrow> bool" where
  "is_selected ident s = (case selected_message s of Some m \<Rightarrow> ts_id m = ident | None \<Rightarrow> False)"

definition preview_matches_selection :: "tui \<Rightarrow> bool" where
  "preview_matches_selection s \<longleftrightarrow> last_preview_id s = map_option ts_id (selected_message s)"

definition is_listed :: "bytes \<Rightarrow> tui \<Rightarrow> bool" where
  "is_listed ident s \<longleftrightarrow> (\<exists>m \<in> set (messages s). ts_id m = ident)"

section \<open>Fetching and previewing\<close>

definition fetch_messages :: "tui \<Rightarrow> tui" where
  "fetch_messages s =
     (let s = s\<lparr>loading := True, last_fetch_at := Some (clock s),
                fetch_generation := fetch_generation s + 1\<rparr>;
          query = (if search_query s = [] then None else Some (search_query s))
      in spawn_owned (ListMessages (fetch_generation s) query (page_size s) (offset s)) s)"

definition clear_preview :: "tui \<Rightarrow> tui" where
  "clear_preview s =
     s\<lparr>preview := None, last_preview_id := None, pending_preview := None, preview_raw := None,
       preview_raw_notice := None, pending_raw := None\<rparr>"

definition load_preview :: "tui \<Rightarrow> tui" where
  "load_preview s =
     (case selected_message s of
        None \<Rightarrow> clear_preview s
      | Some msg \<Rightarrow>
          if last_preview_id s = Some (ts_id msg)
          then s\<lparr>pending_preview := None, preview_loading := False\<rparr>
          else
            (let s = s\<lparr>preview_loading := True, preview_scroll := 0, preview_raw := None,
                       preview_raw_notice := None, preview_tab := TabText\<rparr>;
                 (req, s) = next_request_id s;
                 s = s\<lparr>pending_preview := Some req, pending_raw := None\<rparr>
             in spawn_owned (GetMessage req (ts_id msg) (\<not> ts_is_read msg)) s))"

definition retarget_preview :: "tui \<Rightarrow> tui" where
  "retarget_preview s = load_preview (clear_preview s)"

definition restore_selection :: "anchor \<Rightarrow> tui \<Rightarrow> tui" where
  "restore_selection a s =
     (let (moved, s) = reanchor_selection a s
      in if moved \<and> \<not> loading s then retarget_preview s else s)"

definition spawn_patch :: "bytes \<Rightarrow> bool option \<Rightarrow> bool option \<Rightarrow> tui \<Rightarrow> tui" where
  "spawn_patch ident is_read is_starred s = spawn_owned (UpdateMessage ident is_read is_starred) s"

definition handle_preview_loaded ::
  "64 word \<Rightarrow> bytes \<Rightarrow> bool \<Rightarrow> (bytes, detail) result \<Rightarrow> tui \<Rightarrow> tui" where
  "handle_preview_loaded req ident was_unread res s =
     (if pending_preview s \<noteq> Some req \<or> \<not> is_selected ident s then s
      else
        (let s = s\<lparr>pending_preview := None, preview_loading := False\<rparr>
         in case res of
              Inr d \<Rightarrow>
                (let s = s\<lparr>last_preview_id := Some ident, preview := Some d\<rparr>
                 in if was_unread then spawn_patch ident (Some True) None s else s)
            | Inl e \<Rightarrow> set_error (''Failed to load message: '' @ e) s))"

definition toggle_read :: "tui \<Rightarrow> tui" where
  "toggle_read s =
     (case selected_message s of
        None \<Rightarrow> s
      | Some m \<Rightarrow> spawn_patch (ts_id m) (Some (\<not> ts_is_read m)) None s)"

definition toggle_star :: "tui \<Rightarrow> tui" where
  "toggle_star s =
     (case selected_message s of
        None \<Rightarrow> s
      | Some m \<Rightarrow> spawn_patch (ts_id m) None (Some (\<not> ts_is_starred m)) s)"

text \<open>\<open>iter_mut().find\<close>: the first row of the id is the one that changes.\<close>

fun update_first :: "bytes \<Rightarrow> (summary \<Rightarrow> summary) \<Rightarrow> summary list \<Rightarrow> summary list" where
  "update_first ident f [] = []"
| "update_first ident f (m # ms) = (if ts_id m = ident then f m # ms else m # update_first ident f ms)"

definition handle_patched ::
  "bytes \<Rightarrow> bool option \<Rightarrow> bool option \<Rightarrow> (bytes, unit) result \<Rightarrow> tui \<Rightarrow> tui" where
  "handle_patched ident is_read is_starred res s =
     (case res of
        Inl _ \<Rightarrow> s
      | Inr _ \<Rightarrow>
          s\<lparr>messages := update_first ident
              (\<lambda>m. let m = (case is_read of Some v \<Rightarrow> m\<lparr>ts_is_read := v\<rparr> | None \<Rightarrow> m)
                   in case is_starred of Some v \<Rightarrow> m\<lparr>ts_is_starred := v\<rparr> | None \<Rightarrow> m)
              (messages s)\<rparr>)"

definition delete_selected :: "tui \<Rightarrow> tui" where
  "delete_selected s =
     (case selected_message s of None \<Rightarrow> s | Some m \<Rightarrow> spawn_owned (DeleteMessage (ts_id m)) s)"

definition handle_deleted :: "bytes \<Rightarrow> (bytes, unit) result \<Rightarrow> tui \<Rightarrow> tui" where
  "handle_deleted ident res s =
     (case res of
        Inl _ \<Rightarrow> s
      | Inr _ \<Rightarrow>
          restore_selection (capture_selection s)
            (s\<lparr>messages := filter (\<lambda>m. ts_id m \<noteq> ident) (messages s)\<rparr>))"

definition delete_all :: "tui \<Rightarrow> tui" where
  "delete_all s = spawn_owned DeleteAll s"

definition handle_all_deleted :: "(bytes, unit) result \<Rightarrow> tui \<Rightarrow> tui" where
  "handle_all_deleted res s =
     (case res of
        Inl _ \<Rightarrow> s
      | Inr _ \<Rightarrow> restore_selection (capture_selection s) (s\<lparr>messages := []\<rparr>))"

subsection \<open>The raw source\<close>

definition request_raw :: "raw_target \<Rightarrow> summary \<Rightarrow> tui \<Rightarrow> tui" where
  "request_raw target msg s =
     (let (req, s) = next_request_id s
      in spawn_owned (GetRaw target req (ts_id msg) (ts_size msg) RAW_PREVIEW_LIMIT_BYTES)
           (s\<lparr>pending_raw := Some (target, req)\<rparr>))"

definition show_raw :: "tui \<Rightarrow> tui" where
  "show_raw s = (case selected_message s of None \<Rightarrow> s | Some msg \<Rightarrow> request_raw RawFullView msg s)"

definition ensure_raw_loaded :: "tui \<Rightarrow> tui" where
  "ensure_raw_loaded s =
     (if preview_raw s \<noteq> None then s
      else case selected_message s of None \<Rightarrow> s | Some msg \<Rightarrow> request_raw RawPreview msg s)"

definition raw_truncation_notice :: "int \<Rightarrow> bytes \<Rightarrow> bytes option" where
  "raw_truncation_notice sz url =
     (if sz > RAW_PREVIEW_LIMIT_BYTES
      then Some (''Showing the first '' @ format_size RAW_PREVIEW_LIMIT_BYTES @ '' of ''
                 @ format_size sz @ ''. Full source: '' @ url)
      else None)"

definition handle_raw_loaded ::
  "raw_target \<Rightarrow> 64 word \<Rightarrow> bytes \<Rightarrow> int \<Rightarrow> (bytes, bytes) result \<Rightarrow> tui \<Rightarrow> tui" where
  "handle_raw_loaded target req ident sz res s =
     (let for_another_message = (target = RawPreview \<and> \<not> is_selected ident s)
      in if pending_raw s \<noteq> Some (target, req) \<or> for_another_message then s
         else
           (let s = s\<lparr>pending_raw := None\<rparr>
            in case res of
                 Inr raw \<Rightarrow>
                   (let notice = raw_truncation_notice sz (export_url (base_url s) ident)
                    in case target of
                         RawFullView \<Rightarrow>
                           s\<lparr>raw_content := Some raw, raw_notice := notice, raw_scroll := 0,
                             mode := RawView\<rparr>
                       | RawPreview \<Rightarrow> s\<lparr>preview_raw := Some raw, preview_raw_notice := notice\<rparr>)
               | Inl e \<Rightarrow>
                   set_error (case target of
                                RawFullView \<Rightarrow> ''Failed to load raw message: '' @ e
                              | RawPreview \<Rightarrow> ''Failed to load raw: '' @ e) s))"

subsection \<open>Pages\<close>

definition next_page :: "tui \<Rightarrow> tui" where
  "next_page s =
     (let new_offset = offset s + page_size s
      in if new_offset < total s then fetch_messages (s\<lparr>offset := new_offset, view_changed := True\<rparr>)
         else s)"

definition prev_page :: "tui \<Rightarrow> tui" where
  "prev_page s =
     (if offset s > 0
      then fetch_messages (s\<lparr>offset := max (offset s - page_size s) 0, view_changed := True\<rparr>)
      else s)"

definition current_page :: "tui \<Rightarrow> int" where
  "current_page s = offset s div page_size s + 1"

definition unread_count :: "tui \<Rightarrow> nat" where
  "unread_count s = length (filter (\<lambda>m. \<not> ts_is_read m) (messages s))"

section \<open>Live updates\<close>

fun update_row :: "delta \<Rightarrow> summary \<Rightarrow> summary" where
  "update_row (MessageRead ident v) m = m\<lparr>ts_is_read := v\<rparr>"
| "update_row (MessageStarred ident v) m = m\<lparr>ts_is_starred := v\<rparr>"
| "update_row (MessageTags ident v) m = m\<lparr>ts_tags := v\<rparr>"
| "update_row _ m = m"

fun apply_update :: "delta \<Rightarrow> tui \<Rightarrow> tui" where
  "apply_update (MessageRead ident v) s =
     s\<lparr>messages := update_first ident (update_row (MessageRead ident v)) (messages s)\<rparr>"
| "apply_update (MessageStarred ident v) s =
     s\<lparr>messages := update_first ident (update_row (MessageStarred ident v)) (messages s)\<rparr>"
| "apply_update (MessageTags ident v) s =
     s\<lparr>messages := update_first ident (update_row (MessageTags ident v)) (messages s)\<rparr>"
| "apply_update _ s = s"

definition remove_at :: "nat \<Rightarrow> 'a list \<Rightarrow> 'a list" where
  "remove_at i xs = take i xs @ drop (Suc i) xs"

definition insert_newest :: "summary \<Rightarrow> tui \<Rightarrow> tui" where
  "insert_newest m s = s\<lparr>messages := take (nat (page_size s)) (m # messages s)\<rparr>"

fun apply_live :: "delta \<Rightarrow> tui \<Rightarrow> tui" where
  "apply_live (MessageNew m) s =
     (if is_listed (ts_id m) s then s
      else if search_query s \<noteq> [] then s\<lparr>view_stale := True\<rparr>
      else
        (let s = s\<lparr>total := total s + 1\<rparr>
         in if offset s = 0 then restore_selection (capture_selection s) (insert_newest m s) else s))"
| "apply_live (MessageDelete ident) s =
     (let pos = position (\<lambda>m. ts_id m = ident) (messages s);
          s = (if pos \<noteq> None \<or> search_query s = [] then s\<lparr>total := max (total s - 1) 0\<rparr>
               else s\<lparr>view_stale := True\<rparr>)
      in case pos of
           Some i \<Rightarrow> restore_selection (capture_selection s) (s\<lparr>messages := remove_at i (messages s)\<rparr>)
         | None \<Rightarrow> s)"
| "apply_live MessagesClear s =
     restore_selection (capture_selection s) (s\<lparr>messages := [], total := 0\<rparr>)"
| "apply_live d s = apply_update d s"

definition handle_ws_message :: "(bytes \<Rightarrow> delta option) \<Rightarrow> bytes \<Rightarrow> tui \<Rightarrow> tui" where
  "handle_ws_message decode text s =
     (case decode text of
        None \<Rightarrow> s
      | Some d \<Rightarrow>
          apply_live d (if loading s then s\<lparr>pending := record_delta d (pending s)\<rparr> else s))"

fun replay_delta :: "delta \<Rightarrow> tui \<Rightarrow> tui" where
  "replay_delta (MessageNew m) s =
     (if is_listed (ts_id m) s then s
      else if search_query s \<noteq> [] \<or> offset s \<noteq> 0 then s\<lparr>view_stale := True\<rparr>
      else insert_newest m (s\<lparr>total := total s + 1\<rparr>))"
| "replay_delta (MessageDelete ident) s =
     (case position (\<lambda>m. ts_id m = ident) (messages s) of
        Some i \<Rightarrow> s\<lparr>messages := remove_at i (messages s), total := max (total s - 1) 0\<rparr>
      | None \<Rightarrow> s\<lparr>view_stale := True\<rparr>)"
| "replay_delta MessagesClear s = s\<lparr>messages := [], total := 0\<rparr>"
| "replay_delta d s = apply_update d s"

fun is_arrival :: "delta \<Rightarrow> bool" where
  "is_arrival (MessageNew _) = True"
| "is_arrival _ = False"

fun listed_arrival :: "tui \<Rightarrow> delta \<Rightarrow> bool" where
  "listed_arrival s (MessageNew m) = is_listed (ts_id m) s"
| "listed_arrival s _ = False"

fun replay_from :: "nat option \<Rightarrow> nat \<Rightarrow> delta list \<Rightarrow> tui \<Rightarrow> tui" where
  "replay_from through i [] s = s"
| "replay_from through i (d # ds) s =
     (let in_snapshot = (case through of Some l \<Rightarrow> i \<le> l | None \<Rightarrow> False)
      in replay_from through (Suc i) ds (if in_snapshot \<and> is_arrival d then s else replay_delta d s))"

definition replay_deltas :: "delta list \<Rightarrow> tui \<Rightarrow> tui" where
  "replay_deltas ds s = replay_from (rposition (listed_arrival s) ds) 0 ds s"

definition handle_messages_fetched ::
  "64 word \<Rightarrow> (bytes, list_response) result \<Rightarrow> tui \<Rightarrow> tui" where
  "handle_messages_fetched generation res s =
     (if generation \<noteq> fetch_generation s then s
      else
        (let p = pending s; changed = view_changed s;
             s = s\<lparr>loading := False, pending := no_deltas, view_changed := False\<rparr>
         in case res of
              Inr resp \<Rightarrow>
                (let a = (if changed then capture_selected_only s else capture_selection s);
                     s = s\<lparr>messages := lr_messages resp, total := lr_total resp,
                            view_stale := overflowed p\<rparr>;
                     s = replay_deltas (pd_events p) s;
                     s = s\<lparr>error := None, error_ticks := 0\<rparr>;
                     (moved, s) = reanchor_selection a s
                 in if moved \<or> \<not> preview_matches_selection s then retarget_preview s else s)
            | Inl e \<Rightarrow> set_error (''Failed to fetch messages: '' @ e) s))"

definition handle_ws_overflow :: "tui \<Rightarrow> tui" where
  "handle_ws_overflow s =
     (let s = s\<lparr>view_stale := True\<rparr>
      in if loading s then s\<lparr>pending := (pending s)\<lparr>overflowed := True\<rparr>\<rparr> else s)"

definition handle_ws_status :: "bool \<Rightarrow> tui \<Rightarrow> tui" where
  "handle_ws_status connected s =
     (let reconnected = (connected \<and> \<not> ws_connected s \<and> ws_ever_connected s);
          s = s\<lparr>ws_connected := connected, ws_ever_connected := ws_ever_connected s \<or> connected\<rparr>
      in if reconnected then fetch_messages s else s)"

section \<open>Ticks\<close>

definition on_tick :: "tui \<Rightarrow> tui" where
  "on_tick s =
     (let s = (if error s \<noteq> None then
                 (let s = s\<lparr>error_ticks := error_ticks s + 1\<rparr>
                  in if error_ticks s \<ge> 50 then s\<lparr>error := None, error_ticks := 0\<rparr> else s)
               else s)
      in if loading s \<or> preview_loading s
         then s\<lparr>spinner_frame := (spinner_frame s + 1) mod SPINNER_FRAMES\<rparr> else s)"

definition refetch_if_stale :: "tui \<Rightarrow> tui" where
  "refetch_if_stale s =
     (let throttle_elapsed =
            (case last_fetch_at s of
               None \<Rightarrow> True
             | Some at \<Rightarrow> clock s - at \<ge> STALE_VIEW_REFETCH_INTERVAL)
      in if view_stale s \<and> \<not> loading s \<and> throttle_elapsed then fetch_messages s else s)"

section \<open>Keys and mouse\<close>

text \<open>A key's character is its UTF-8 encoding; keys no handler names are \<open>OtherKey\<close>.\<close>

datatype key_code =
    Char bytes | Down | Up | Left | Right | Enter | Tab | BackTab | Esc | Backspace | OtherKey

record key_event =
  code :: key_code
  control :: bool

datatype mouse_kind = DownLeft | ScrollDown | ScrollUp | OtherMouse

record mouse_event =
  kind :: mouse_kind
  column :: nat
  row :: nat

definition when_moved :: "bool \<times> tui \<Rightarrow> tui" where
  "when_moved r = (if fst r then load_preview (snd r) else snd r)"

definition saturating_add16 :: "nat \<Rightarrow> nat \<Rightarrow> nat" where
  "saturating_add16 a b = min (a + b) u16_max"

definition switch_preview_tab :: "preview_tab \<Rightarrow> tui \<Rightarrow> tui" where
  "switch_preview_tab t s = s\<lparr>preview_tab := t, preview_scroll := 0\<rparr>"

definition handle_list_key :: "key_event \<Rightarrow> tui \<Rightarrow> tui" where
  "handle_list_key key s =
     (let k = code key in
      if k = Char ''q'' then s\<lparr>running := False\<rparr>
      else if k = Char ''j'' \<or> k = Down then when_moved (select_next s)
      else if k = Char ''k'' \<or> k = Up then when_moved (select_prev s)
      else if k = Char ''g'' then when_moved (select_message 0 s)
      else if k = Char ''G'' then when_moved (select_message (length (messages s) - 1) s)
      else if k = Enter \<or> k = Char ''l'' \<or> k = Right then s\<lparr>focus := FocusPreview\<rparr>
      else if k = Tab then s\<lparr>focus := FocusPreview\<rparr>
      else if k = Char ''/'' then s\<lparr>mode := Search, search_input := search_query s\<rparr>
      else if k = Char ''r'' then toggle_read s
      else if k = Char ''s'' then toggle_star s
      else if k = Char ''d'' then delete_selected s
      else if k = Char ''D'' then s\<lparr>mode := Confirm, confirm_action := Some ''delete_all''\<rparr>
      else if k = Char ''R'' then show_raw s
      else if k = Char '']'' then next_page s
      else if k = Char ''['' then prev_page s
      else if k = Char ''?'' then s\<lparr>mode := Help\<rparr>
      else s)"

definition handle_preview_key :: "key_event \<Rightarrow> tui \<Rightarrow> tui" where
  "handle_preview_key key s =
     (let k = code key in
      if k = Char ''q'' then s\<lparr>running := False\<rparr>
      else if k = Esc \<or> k = Char ''h'' \<or> k = Left \<or> k = Tab \<or> k = BackTab then s\<lparr>focus := FocusList\<rparr>
      else if k = Char ''j'' \<or> k = Down then s\<lparr>preview_scroll := saturating_add16 (preview_scroll s) 1\<rparr>
      else if k = Char ''k'' \<or> k = Up then s\<lparr>preview_scroll := preview_scroll s - 1\<rparr>
      else if k = Char ''1'' then switch_preview_tab TabText s
      else if k = Char ''2'' then switch_preview_tab TabHeaders s
      else if k = Char ''3'' then ensure_raw_loaded (switch_preview_tab TabRaw s)
      else if k = Char ''r'' then toggle_read s
      else if k = Char ''s'' then toggle_star s
      else if k = Char ''d'' then delete_selected s
      else if k = Char ''R'' then show_raw s
      else s)"

definition handle_normal_key :: "key_event \<Rightarrow> tui \<Rightarrow> tui" where
  "handle_normal_key key s =
     (case focus s of FocusList \<Rightarrow> handle_list_key key s | FocusPreview \<Rightarrow> handle_preview_key key s)"

definition handle_search_key :: "key_event \<Rightarrow> tui \<Rightarrow> tui" where
  "handle_search_key key s =
     (case code key of
        Enter \<Rightarrow>
          fetch_messages
            (s\<lparr>search_query := search_input s, mode := Normal, offset := 0, view_changed := True\<rparr>)
      | Esc \<Rightarrow>
          if search_input s = [] \<and> search_query s \<noteq> []
          then fetch_messages (s\<lparr>search_query := [], mode := Normal, offset := 0, view_changed := True\<rparr>)
          else s\<lparr>mode := Normal\<rparr>
      | Backspace \<Rightarrow> s\<lparr>search_input := concat (butlast (chars (search_input s)))\<rparr>
      | Char c \<Rightarrow> s\<lparr>search_input := search_input s @ c\<rparr>
      | _ \<Rightarrow> s)"

definition handle_raw_view_key :: "key_event \<Rightarrow> tui \<Rightarrow> tui" where
  "handle_raw_view_key key s =
     (let k = code key in
      if k = Char ''q'' \<or> k = Esc
      then s\<lparr>mode := Normal, raw_content := None, raw_notice := None, raw_scroll := 0\<rparr>
      else if k = Char ''j'' \<or> k = Down then s\<lparr>raw_scroll := saturating_add16 (raw_scroll s) 1\<rparr>
      else if k = Char ''k'' \<or> k = Up then s\<lparr>raw_scroll := raw_scroll s - 1\<rparr>
      else s)"

definition handle_confirm_key :: "key_event \<Rightarrow> tui \<Rightarrow> tui" where
  "handle_confirm_key key s =
     (if code key = Char ''y'' \<or> code key = Char ''Y''
      then
        (let s = (if confirm_action s = Some ''delete_all'' then delete_all s else s)
         in s\<lparr>mode := Normal, confirm_action := None\<rparr>)
      else s\<lparr>mode := Normal, confirm_action := None\<rparr>)"

definition handle_help_key :: "key_event \<Rightarrow> tui \<Rightarrow> tui" where
  "handle_help_key key s =
     (if code key \<in> {Esc, Char ''q'', Char ''?'', Enter} then s\<lparr>mode := Normal\<rparr> else s)"

definition handle_key :: "key_event \<Rightarrow> tui \<Rightarrow> tui" where
  "handle_key key s =
     (if code key = Char ''c'' \<and> control key then s\<lparr>running := False\<rparr>
      else case mode s of
             Search \<Rightarrow> handle_search_key key s
           | RawView \<Rightarrow> handle_raw_view_key key s
           | Confirm \<Rightarrow> handle_confirm_key key s
           | Help \<Rightarrow> handle_help_key key s
           | Normal \<Rightarrow> handle_normal_key key s)"

text \<open>
  \<open>Rect::contains\<close> is the drawing library's; it is the argument \<open>hit\<close>. The additions of \<open>u16\<close>
  coordinates wrap.
\<close>

fun click_tabs :: "nat \<Rightarrow> (preview_tab \<times> nat \<times> nat) list \<Rightarrow> tui \<Rightarrow> tui" where
  "click_tabs x [] s = s"
| "click_tabs x ((tab, start, stop) # ts) s =
     (let tab_start = (rx (tab_area s) + start) mod 2 ^ 16;
          tab_stop = (rx (tab_area s) + stop) mod 2 ^ 16
      in if x \<ge> tab_start \<and> x < tab_stop
         then (if tab = TabRaw then ensure_raw_loaded (switch_preview_tab TabRaw s)
               else switch_preview_tab tab s)
         else click_tabs x ts s)"

definition handle_mouse :: "(rect \<Rightarrow> nat \<times> nat \<Rightarrow> bool) \<Rightarrow> mouse_event \<Rightarrow> tui \<Rightarrow> tui" where
  "handle_mouse hit ev s =
     (let pos = (column ev, row ev) in
      case kind ev of
        DownLeft \<Rightarrow>
          if hit (tab_area s) pos then
            (click_tabs (column ev) (zip [TabText, TabHeaders, TabRaw] (tab_ranges s)) s)
              \<lparr>focus := FocusPreview\<rparr>
          else if hit (list_table_area s) pos then
            (let s = s\<lparr>focus := FocusList\<rparr>;
                 row_offset = row ev - ry (list_table_area s);
                 idx = list_offset s + row_offset div 2
             in if idx < length (messages s) \<and> idx \<noteq> selected s
                then load_preview (sync_list_state (s\<lparr>selected := idx\<rparr>)) else s)
          else if hit (list_area s) pos then s\<lparr>focus := FocusList\<rparr>
          else if hit (preview_area s) pos then s\<lparr>focus := FocusPreview\<rparr>
          else s
      | ScrollDown \<Rightarrow>
          if hit (list_area s) pos then when_moved (select_next s)
          else if hit (preview_area s) pos
          then s\<lparr>preview_scroll := saturating_add16 (preview_scroll s) 3\<rparr>
          else s
      | ScrollUp \<Rightarrow>
          if hit (list_area s) pos then when_moved (select_prev s)
          else if hit (preview_area s) pos then s\<lparr>preview_scroll := preview_scroll s - 3\<rparr>
          else s
      | OtherMouse \<Rightarrow> s)"

section \<open>The event loop\<close>

datatype event =
    Key key_event
  | Mouse mouse_event
  | Resize
  | Tick
  | WsMessage bytes
  | WsStatus bool
  | WsOverflow
  | MessagesFetched "64 word" "(bytes, list_response) result"
  | PreviewLoaded "64 word" bytes bool "(bytes, detail) result"
  | RawLoaded raw_target "64 word" bytes int "(bytes, bytes) result"
  | Patched bytes "bool option" "bool option" "(bytes, unit) result"
  | Deleted bytes "(bytes, unit) result"
  | AllDeleted "(bytes, unit) result"

text \<open>The libraries the loop relies on: JSON decoding and hit testing.\<close>

record tui_lib =
  decode_delta :: "bytes \<Rightarrow> delta option"
  contains :: "rect \<Rightarrow> nat \<times> nat \<Rightarrow> bool"

fun dispatch :: "tui_lib \<Rightarrow> event \<Rightarrow> tui \<Rightarrow> tui" where
  "dispatch L (Key k) s = handle_key k s"
| "dispatch L (Mouse m) s = handle_mouse (contains L) m s"
| "dispatch L Resize s = s"
| "dispatch L Tick s = refetch_if_stale (on_tick s)"
| "dispatch L (WsMessage t) s = handle_ws_message (decode_delta L) t s"
| "dispatch L (WsStatus c) s = handle_ws_status c s"
| "dispatch L WsOverflow s = handle_ws_overflow s"
| "dispatch L (MessagesFetched g r) s = handle_messages_fetched g r s"
| "dispatch L (PreviewLoaded r i u d) s = handle_preview_loaded r i u d s"
| "dispatch L (RawLoaded t r i z x) s = handle_raw_loaded t r i z x s"
| "dispatch L (Patched i rd st r) s = handle_patched i rd st r s"
| "dispatch L (Deleted i r) s = handle_deleted i r s"
| "dispatch L (AllDeleted r) s = handle_all_deleted r s"

text \<open>
  Between two events the environment moves on: time passes, tasks end, and a drawing sets the
  areas, the scroll offset of the list and a preview scroll that is never larger than before.
\<close>

record outside =
  passes :: nat
  ended :: "join_outcome list"
  drawn :: "(nat \<times> nat \<times> rect \<times> rect \<times> rect \<times> rect \<times> (nat \<times> nat) list) option"

definition outside_step :: "outside \<Rightarrow> tui \<Rightarrow> tui" where
  "outside_step u s =
     (let s = s\<lparr>clock := clock s + passes u, joined := joined s @ ended u\<rparr>
      in case drawn u of
           None \<Rightarrow> s
         | Some (lo, ps, la, lt, pa, ta, tr) \<Rightarrow>
             s\<lparr>list_offset := lo, preview_scroll := min ps (preview_scroll s), list_area := la,
               list_table_area := lt, preview_area := pa, tab_area := ta, tab_ranges := tr\<rparr>)"

definition turn :: "tui_lib \<Rightarrow> tui \<Rightarrow> outside \<times> event \<Rightarrow> tui" where
  "turn L s e = (if running s then dispatch L (snd e) (outside_step (fst e) s) else s)"

definition start_app :: "bytes \<Rightarrow> tui" where
  "start_app url = fetch_messages (connect_websocket (new_app url))"

text \<open>The loop over the events that come; a closed queue ends it with an error.\<close>

definition run_app :: "tui_lib \<Rightarrow> bytes \<Rightarrow> (outside \<times> event) list \<Rightarrow> (bytes, unit) result \<times> tui" where
  "run_app L url es =
     (let s = foldl (turn L) (start_app url) es
      in (if running s then Inl ''Event channel closed'' else Inr (), shutdown_tasks s))"

end
