(* ===== verification/Tui_Keep.thy ===== *)
theory Tui_Keep
  imports Tui_App
begin

text \<open>
  What every event of the terminal client keeps: the cursor names a row of the list, the list
  widget shows that cursor, the page arithmetic stays aligned, the delta buffer and the counters
  stay within their bounds, and each mode has what it draws. The handlers of \<open>Tui_App\<close> are the
  step of the shared invariant interface.
\<close>

section \<open>What spawning leaves alone\<close>

fun last_panic :: "join_outcome list \<Rightarrow> bytes option" where
  "last_panic [] = None"
| "last_panic (Panicked e # os) = (case last_panic os of None \<Rightarrow> Some e | Some e' \<Rightarrow> Some e')"
| "last_panic (_ # os) = last_panic os"

text \<open>Reaping shows the last panic and changes nothing else.\<close>

lemma reap_outcomes_eq:
  "reap_outcomes os s =
     (case last_panic os of None \<Rightarrow> s | Some e \<Rightarrow> set_error (''Background task failed: '' @ e) s)"
  by (induction os s rule: reap_outcomes.induct) (simp_all add: set_error_def split: option.splits)

lemmas spawn_owned_eq = spawn_owned_def reap_finished_tasks_def reap_outcomes_eq set_error_def Let_def

lemma spawn_owned_frame [simp]:
  "running (spawn_owned k s) = running s"
  "mode (spawn_owned k s) = mode s"
  "focus (spawn_owned k s) = focus s"
  "tasks (spawn_owned k s) = tasks s @ [k]"
  "clock (spawn_owned k s) = clock s"
  "fetch_generation (spawn_owned k s) = fetch_generation s"
  "last_request_id (spawn_owned k s) = last_request_id s"
  "pending (spawn_owned k s) = pending s"
  "messages (spawn_owned k s) = messages s"
  "total (spawn_owned k s) = total s"
  "selected (spawn_owned k s) = selected s"
  "offset (spawn_owned k s) = offset s"
  "page_size (spawn_owned k s) = page_size s"
  "list_selected (spawn_owned k s) = list_selected s"
  "preview (spawn_owned k s) = preview s"
  "preview_scroll (spawn_owned k s) = preview_scroll s"
  "preview_loading (spawn_owned k s) = preview_loading s"
  "preview_raw (spawn_owned k s) = preview_raw s"
  "last_preview_id (spawn_owned k s) = last_preview_id s"
  "pending_preview (spawn_owned k s) = pending_preview s"
  "raw_content (spawn_owned k s) = raw_content s"
  "raw_scroll (spawn_owned k s) = raw_scroll s"
  "pending_raw (spawn_owned k s) = pending_raw s"
  "search_query (spawn_owned k s) = search_query s"
  "search_input (spawn_owned k s) = search_input s"
  "confirm_action (spawn_owned k s) = confirm_action s"
  "loading (spawn_owned k s) = loading s"
  "view_stale (spawn_owned k s) = view_stale s"
  "view_changed (spawn_owned k s) = view_changed s"
  "last_fetch_at (spawn_owned k s) = last_fetch_at s"
  "spinner_frame (spawn_owned k s) = spinner_frame s"
  by (simp_all add: spawn_owned_eq split: option.split)

lemma spawn_owned_error [simp]:
  "error (spawn_owned k s) =
     (case last_panic (joined s) of None \<Rightarrow> error s | Some e \<Rightarrow> Some (''Background task failed: '' @ e))"
  "error_ticks (spawn_owned k s) = (if last_panic (joined s) = None then error_ticks s else 0)"
  "joined (spawn_owned k s) = []"
  by (simp_all add: spawn_owned_eq split: option.split)

section \<open>The invariant\<close>

definition cursor_ok :: "tui \<Rightarrow> bool" where
  "cursor_ok s \<longleftrightarrow>
     (selected s < length (messages s) \<or> messages s = [] \<and> selected s = 0)
     \<and> list_selected s = Some (selected s)"

definition paging_ok :: "tui \<Rightarrow> bool" where
  "paging_ok s \<longleftrightarrow> page_size s = 50 \<and> 0 \<le> offset s \<and> offset s mod 50 = 0"

definition counters_ok :: "tui \<Rightarrow> bool" where
  "counters_ok s \<longleftrightarrow>
     error_ticks s < 50 \<and> (error s = None \<longrightarrow> error_ticks s = 0) \<and> spinner_frame s < SPINNER_FRAMES
     \<and> preview_scroll s \<le> u16_max \<and> raw_scroll s \<le> u16_max"

definition buffer_ok :: "tui \<Rightarrow> bool" where
  "buffer_ok s \<longleftrightarrow>
     length (pd_events (pending s)) \<le> PENDING_DELTA_CAPACITY
     \<and> (\<not> loading s \<longrightarrow> pending s = no_deltas)"

definition panes_ok :: "tui \<Rightarrow> bool" where
  "panes_ok s \<longleftrightarrow>
     (preview s = None \<longleftrightarrow> last_preview_id s = None)
     \<and> (pending_preview s \<noteq> None \<longrightarrow> preview_loading s)
     \<and> (mode s = RawView \<longrightarrow> raw_content s \<noteq> None)
     \<and> (mode s = Confirm \<longrightarrow> confirm_action s = Some ''delete_all'')"

definition tui_ok :: "tui \<Rightarrow> bool" where
  "tui_ok s \<longleftrightarrow> cursor_ok s \<and> paging_ok s \<and> counters_ok s \<and> buffer_ok s \<and> panes_ok s"

lemmas tui_ok_defs = cursor_ok_def paging_ok_def counters_ok_def buffer_ok_def panes_ok_def

lemma no_deltas_sel [simp]: "pd_events no_deltas = []" "\<not> overflowed no_deltas"
  by (simp_all add: no_deltas_def)

lemma record_delta_bounded:
  "length (pd_events p) \<le> PENDING_DELTA_CAPACITY \<Longrightarrow>
   length (pd_events (record_delta d p)) \<le> PENDING_DELTA_CAPACITY"
  by (auto simp: record_delta_def)

subsection \<open>Spawning and fetching\<close>

lemma spawn_owned_parts [simp]:
  "cursor_ok (spawn_owned k s) = cursor_ok s"
  "paging_ok (spawn_owned k s) = paging_ok s"
  "buffer_ok (spawn_owned k s) = buffer_ok s"
  "panes_ok (spawn_owned k s) = panes_ok s"
  by (simp_all add: tui_ok_defs)

lemma spawn_owned_counters [simp]: "counters_ok s \<Longrightarrow> counters_ok (spawn_owned k s)"
  by (simp add: counters_ok_def split: option.splits)

lemma set_error_parts [simp]:
  "cursor_ok (set_error e s) = cursor_ok s"
  "paging_ok (set_error e s) = paging_ok s"
  "buffer_ok (set_error e s) = buffer_ok s"
  "panes_ok (set_error e s) = panes_ok s"
  "counters_ok s \<Longrightarrow> counters_ok (set_error e s)"
  by (simp_all add: tui_ok_defs set_error_def)

lemma fetch_messages_parts [simp]:
  "cursor_ok (fetch_messages s) = cursor_ok s"
  "paging_ok (fetch_messages s) = paging_ok s"
  "counters_ok s \<Longrightarrow> counters_ok (fetch_messages s)"
  "buffer_ok s \<Longrightarrow> buffer_ok (fetch_messages s)"
  "panes_ok (fetch_messages s) = panes_ok s"
  by (simp_all add: fetch_messages_def Let_def tui_ok_defs split: option.splits)

lemma load_preview_parts [simp]:
  "cursor_ok (load_preview s) = cursor_ok s"
  "paging_ok (load_preview s) = paging_ok s"
  "counters_ok s \<Longrightarrow> counters_ok (load_preview s)"
  "buffer_ok (load_preview s) = buffer_ok s"
  "panes_ok s \<Longrightarrow> panes_ok (load_preview s)"
  by (simp_all add: load_preview_def clear_preview_def next_request_id_def Let_def tui_ok_defs
      split: option.splits)


subsection \<open>The cursor\<close>

lemma rposition_less: "rposition P xs = Some i \<Longrightarrow> i < length xs"
  by (induction xs arbitrary: i) (auto split: option.splits if_splits)

lemma rposition_holds: "rposition P xs = Some i \<Longrightarrow> P (xs ! i)"
  by (induction xs arbitrary: i) (auto split: option.splits if_splits)

lemma rposition_None: "rposition P xs = None \<longleftrightarrow> (\<forall>x \<in> set xs. \<not> P x)"
  by (induction xs) (auto split: option.splits)

lemma find_map_from: "find_map f xs = Some y \<Longrightarrow> \<exists>x \<in> set xs. f x = Some y"
  by (induction xs) (auto split: option.splits)

lemma resolve_selection_in_list:
  "resolve_selection old i new < length new \<or> new = [] \<and> resolve_selection old i new = 0"
proof (cases "new = []")
  case True
  then have "find_map (\<lambda>ident. rposition (\<lambda>m. ts_id m = ident) new) xs = None" for xs
    by (induction xs) simp_all
  with True show ?thesis by (simp add: resolve_selection_def Let_def)
next
  case False
  then have "min i (length new - 1) < length new" by (simp add: min_less_iff_disj)
  then show ?thesis
    by (auto simp: resolve_selection_def Let_def split: option.splits
        dest!: find_map_from intro: rposition_less)
qed

lemma reanchor_parts [simp]:
  "cursor_ok (snd (reanchor_selection a s))"
  "paging_ok (snd (reanchor_selection a s)) = paging_ok s"
  "counters_ok (snd (reanchor_selection a s)) = counters_ok s"
  "buffer_ok (snd (reanchor_selection a s)) = buffer_ok s"
  "panes_ok (snd (reanchor_selection a s)) = panes_ok s"
  using resolve_selection_in_list [of "an_ids a" "an_index a" "messages s"]
  by (simp_all add: reanchor_selection_def sync_list_state_def Let_def tui_ok_defs)

lemma retarget_parts [simp]:
  "cursor_ok (retarget_preview s) = cursor_ok s"
  "paging_ok (retarget_preview s) = paging_ok s"
  "counters_ok s \<Longrightarrow> counters_ok (retarget_preview s)"
  "buffer_ok (retarget_preview s) = buffer_ok s"
  "panes_ok s \<Longrightarrow> panes_ok (retarget_preview s)"
  by (simp_all add: retarget_preview_def load_preview_def clear_preview_def next_request_id_def
      Let_def tui_ok_defs split: option.splits)

lemma restore_parts [simp]:
  "cursor_ok (restore_selection a s)"
  "paging_ok (restore_selection a s) = paging_ok s"
  "counters_ok s \<Longrightarrow> counters_ok (restore_selection a s)"
  "buffer_ok (restore_selection a s) = buffer_ok s"
  "panes_ok s \<Longrightarrow> panes_ok (restore_selection a s)"
  by (simp_all add: restore_selection_def Let_def case_prod_beta)

lemma select_message_parts:
  assumes "tui_ok s" shows "tui_ok (snd (select_message i s))"
  using assms by (simp add: select_message_def sync_list_state_def tui_ok_def tui_ok_defs)

lemma load_preview_ok [simp]: "tui_ok s \<Longrightarrow> tui_ok (load_preview s)"
  by (simp add: tui_ok_def)

lemma fetch_messages_ok [simp]: "tui_ok s \<Longrightarrow> tui_ok (fetch_messages s)"
  by (simp add: tui_ok_def)

lemma spawn_owned_ok [simp]: "tui_ok s \<Longrightarrow> tui_ok (spawn_owned k s)"
  by (simp add: tui_ok_def)

lemma set_error_ok [simp]: "tui_ok s \<Longrightarrow> tui_ok (set_error e s)"
  by (simp add: tui_ok_def)

lemma when_moved_ok [simp]: "tui_ok (snd r) \<Longrightarrow> tui_ok (when_moved r)"
  by (simp add: when_moved_def)

lemma moves_ok [simp]:
  assumes "tui_ok s"
  shows "tui_ok (snd (select_message i s))" "tui_ok (snd (select_next s))" "tui_ok (snd (select_prev s))"
  using assms by (simp_all add: select_next_def select_prev_def select_message_parts)

subsection \<open>Each handler\<close>

text \<open>Requests the user asks for.\<close>

lemma request_raw_ok [simp]: "tui_ok s \<Longrightarrow> tui_ok (request_raw t m s)"
  by (simp add: request_raw_def next_request_id_def Let_def tui_ok_def tui_ok_defs split: option.splits)

lemma actions_ok [simp]:
  assumes "tui_ok s"
  shows "tui_ok (toggle_read s)" "tui_ok (toggle_star s)" "tui_ok (delete_selected s)"
    "tui_ok (delete_all s)" "tui_ok (show_raw s)" "tui_ok (ensure_raw_loaded s)"
  using assms
  by (simp_all add: toggle_read_def toggle_star_def delete_selected_def delete_all_def show_raw_def
      ensure_raw_loaded_def spawn_patch_def split: option.split)

lemma move_page_ok [simp]:
  "tui_ok s \<Longrightarrow> 0 \<le> new \<Longrightarrow> new mod 50 = 0 \<Longrightarrow> tui_ok (s\<lparr>offset := new, view_changed := True\<rparr>)"
  by (simp add: tui_ok_def tui_ok_defs)

lemma pages_ok [simp]:
  assumes "tui_ok s" shows "tui_ok (next_page s)" "tui_ok (prev_page s)"
proof -
  have p: "page_size s = 50" "0 \<le> offset s" "offset s mod 50 = 0"
    using assms by (simp_all add: tui_ok_def paging_ok_def)
  then have "(offset s - 50) mod 50 = 0" "(offset s + 50) mod 50 = 0" by presburger+
  with p assms show "tui_ok (next_page s)" "tui_ok (prev_page s)"
    by (simp_all add: next_page_def prev_page_def Let_def max_def)
qed

lemma switch_tab_ok [simp]: "tui_ok s \<Longrightarrow> tui_ok (switch_preview_tab t s)"
  by (simp add: switch_preview_tab_def tui_ok_def tui_ok_defs)

lemma plain_updates_ok [simp]:
  assumes "tui_ok s"
  shows "tui_ok (s\<lparr>running := b\<rparr>)" "tui_ok (s\<lparr>focus := f\<rparr>)" "tui_ok (s\<lparr>search_input := t\<rparr>)"
    "tui_ok (s\<lparr>mode := Normal\<rparr>)" "tui_ok (s\<lparr>mode := Help\<rparr>)"
    "tui_ok (s\<lparr>mode := Search, search_input := t\<rparr>)"
    "tui_ok (s\<lparr>mode := Confirm, confirm_action := Some ''delete_all''\<rparr>)"
    "tui_ok (s\<lparr>mode := Normal, confirm_action := a\<rparr>)"
    "tui_ok (s\<lparr>mode := Normal, raw_content := None, raw_notice := None, raw_scroll := 0\<rparr>)"
    "tui_ok (s\<lparr>preview_scroll := preview_scroll s - n\<rparr>)" "tui_ok (s\<lparr>raw_scroll := raw_scroll s - n\<rparr>)"
    "tui_ok (s\<lparr>preview_scroll := saturating_add16 (preview_scroll s) n\<rparr>)"
    "tui_ok (s\<lparr>raw_scroll := saturating_add16 (raw_scroll s) n\<rparr>)"
    "tui_ok (s\<lparr>search_query := t, mode := Normal, offset := 0, view_changed := True\<rparr>)"
  using assms by (simp_all add: tui_ok_def tui_ok_defs saturating_add16_def le_diff_conv trans_le_add1)

lemma handle_key_ok: "tui_ok s \<Longrightarrow> tui_ok (handle_key k s)"
proof -
  assume s: "tui_ok s"
  have "tui_ok (handle_normal_key k s)"
    using s by (simp add: handle_normal_key_def handle_list_key_def handle_preview_key_def Let_def
        split: focus.split)
  moreover have "tui_ok (handle_search_key k s)"
    using s by (simp add: handle_search_key_def split: key_code.split)
  moreover have "tui_ok (handle_confirm_key k s)"
    using s by (simp add: handle_confirm_key_def Let_def)
  ultimately show ?thesis
    using s by (simp add: handle_key_def handle_raw_view_key_def handle_help_key_def Let_def
        split: mode.split)
qed

lemma click_tabs_ok [simp]: "tui_ok s \<Longrightarrow> tui_ok (click_tabs x ts s)"
  by (induction x ts s rule: click_tabs.induct) (simp_all add: Let_def)

lemma click_row_ok:
  "tui_ok s \<Longrightarrow> i < length (messages s) \<Longrightarrow> tui_ok (sync_list_state (s\<lparr>selected := i\<rparr>))"
  by (simp add: sync_list_state_def tui_ok_def tui_ok_defs)

lemma handle_mouse_ok:
  assumes "tui_ok s" shows "tui_ok (handle_mouse hit ev s)"
proof -
  let ?f = "s\<lparr>focus := FocusList\<rparr>"
  have "tui_ok (load_preview (sync_list_state (?f\<lparr>selected := i\<rparr>)))" if "i < length (messages s)" for i
    using assms that by (simp add: click_row_ok)
  then show ?thesis using assms by (simp add: handle_mouse_def Let_def split: mouse_kind.split)
qed

text \<open>Answers and live updates.\<close>

lemma handle_preview_loaded_ok: "tui_ok s \<Longrightarrow> tui_ok (handle_preview_loaded r i u d s)"
  by (simp add: handle_preview_loaded_def spawn_patch_def set_error_def Let_def tui_ok_def tui_ok_defs
      split: sum.split option.split)

lemma handle_raw_loaded_ok: "tui_ok s \<Longrightarrow> tui_ok (handle_raw_loaded t r i z x s)"
  by (simp add: handle_raw_loaded_def set_error_def Let_def tui_ok_def tui_ok_defs
      split: sum.split raw_target.split)

lemma update_first_length [simp]: "length (update_first i f ms) = length ms"
  by (induction ms) auto

lemma update_first_Nil [simp]: "update_first i f ms = [] \<longleftrightarrow> ms = []"
  by (metis length_0_conv update_first_length)

lemma update_first_ok [simp]: "tui_ok s \<Longrightarrow> tui_ok (s\<lparr>messages := update_first i f (messages s)\<rparr>)"
  by (simp add: tui_ok_def tui_ok_defs)

lemma restore_ok:
  assumes "paging_ok s" "counters_ok s" "buffer_ok s" "panes_ok s"
  shows "tui_ok (restore_selection a s)"
  using assms by (simp add: tui_ok_def)

lemma list_changes_ok [simp]:
  assumes "tui_ok s"
  shows "tui_ok (restore_selection a (s\<lparr>messages := ms\<rparr>))"
    "tui_ok (restore_selection a (s\<lparr>messages := ms, total := n\<rparr>))"
    "tui_ok (restore_selection a (insert_newest m s))"
  by (rule restore_ok; use assms in \<open>simp add: insert_newest_def tui_ok_def tui_ok_defs\<close>)+

lemma view_marks_ok [simp]:
  assumes "tui_ok s" shows "tui_ok (s\<lparr>total := n\<rparr>)" "tui_ok (s\<lparr>view_stale := b\<rparr>)"
  using assms by (simp_all add: tui_ok_def tui_ok_defs)

lemma apply_live_ok: "tui_ok s \<Longrightarrow> tui_ok (apply_live d s)"
  by (cases d) (simp_all add: Let_def split: option.split)

lemma record_ok [simp]:
  "tui_ok s \<Longrightarrow> loading s \<Longrightarrow> tui_ok (s\<lparr>pending := record_delta d (pending s)\<rparr>)"
  by (simp add: tui_ok_def tui_ok_defs record_delta_bounded)

lemma handle_ws_message_ok: "tui_ok s \<Longrightarrow> tui_ok (handle_ws_message f t s)"
  by (simp add: handle_ws_message_def apply_live_ok split: option.split)

text \<open>A landing page: only the rows, the total and the stale mark are open to the replay.\<close>

definition same_but_view :: "tui \<Rightarrow> tui \<Rightarrow> bool" where
  "same_but_view s s' \<longleftrightarrow>
     s' = s\<lparr>messages := messages s', total := total s', view_stale := view_stale s'\<rparr>"

lemma same_but_view_refl: "same_but_view s s"
  by (simp add: same_but_view_def)

lemma same_but_view_trans: "same_but_view s t \<Longrightarrow> same_but_view t u \<Longrightarrow> same_but_view s u"
proof -
  assume "same_but_view s t" "same_but_view t u"
  then have t: "t = s\<lparr>messages := messages t, total := total t, view_stale := view_stale t\<rparr>"
    and u: "u = t\<lparr>messages := messages u, total := total u, view_stale := view_stale u\<rparr>"
    by (simp_all only: same_but_view_def)
  have "u = (s\<lparr>messages := messages t, total := total t, view_stale := view_stale t\<rparr>)
              \<lparr>messages := messages u, total := total u, view_stale := view_stale u\<rparr>"
    using u t by (rule subst [rotated])
  then show ?thesis by (simp add: same_but_view_def)
qed

lemma replay_delta_frame: "same_but_view s (replay_delta d s)"
  by (cases d) (simp_all add: same_but_view_def insert_newest_def split: option.split)

lemma replay_from_frame: "same_but_view s (replay_from l i ds s)"
proof (induction l i ds s rule: replay_from.induct)
  case (2 l i d ds s)
  then show ?case
    by (auto simp: Let_def split: option.splits
        intro: same_but_view_trans [OF replay_delta_frame] same_but_view_trans [OF same_but_view_refl])
qed (simp add: same_but_view_refl)

lemma replay_frame [simp]:
  "running (replay_deltas ds s) = running s"
  "tasks (replay_deltas ds s) = tasks s"
  "loading (replay_deltas ds s) = loading s"
  "search_query (replay_deltas ds s) = search_query s"
  "offset (replay_deltas ds s) = offset s"
  "page_size (replay_deltas ds s) = page_size s"
  "fetch_generation (replay_deltas ds s) = fetch_generation s"
  "last_preview_id (replay_deltas ds s) = last_preview_id s"
  "paging_ok (replay_deltas ds s) = paging_ok s"
  "counters_ok (replay_deltas ds s) = counters_ok s"
  "buffer_ok (replay_deltas ds s) = buffer_ok s"
  "panes_ok (replay_deltas ds s) = panes_ok s"
proof -
  have "same_but_view s (replay_deltas ds s)" by (simp add: replay_deltas_def replay_from_frame)
  then obtain ms n b where r: "replay_deltas ds s = s\<lparr>messages := ms, total := n, view_stale := b\<rparr>"
    unfolding same_but_view_def by blast
  show "running (replay_deltas ds s) = running s" "tasks (replay_deltas ds s) = tasks s" "loading (replay_deltas ds s) = loading s"
    "search_query (replay_deltas ds s) = search_query s" "offset (replay_deltas ds s) = offset s"
    "page_size (replay_deltas ds s) = page_size s"
    "fetch_generation (replay_deltas ds s) = fetch_generation s"
    "last_preview_id (replay_deltas ds s) = last_preview_id s"
    "paging_ok (replay_deltas ds s) = paging_ok s" "counters_ok (replay_deltas ds s) = counters_ok s"
    "buffer_ok (replay_deltas ds s) = buffer_ok s" "panes_ok (replay_deltas ds s) = panes_ok s"
    unfolding r by (simp_all add: tui_ok_defs)
qed

lemma landed_ok:
  assumes "paging_ok s" "counters_ok s" "buffer_ok s" "panes_ok s"
  shows "tui_ok (snd (reanchor_selection a s))" "tui_ok (retarget_preview (snd (reanchor_selection a s)))"
  using assms by (simp_all add: tui_ok_def)

lemma handle_messages_fetched_ok:
  assumes "tui_ok s" shows "tui_ok (handle_messages_fetched g r s)"
proof -
  let ?s = "s\<lparr>loading := False, pending := no_deltas, view_changed := False\<rparr>"
  have base: "tui_ok ?s"
    using assms by (simp add: tui_ok_def tui_ok_defs no_deltas_def)
  have "tui_ok (snd (reanchor_selection a t)) \<and> tui_ok (retarget_preview (snd (reanchor_selection a t)))"
    if "t = (replay_deltas ds (?s\<lparr>messages := ms, total := n, view_stale := b\<rparr>))
              \<lparr>error := None, error_ticks := 0\<rparr>" for a t ds ms n b
  proof (intro conjI landed_ok)
    let ?r = "replay_deltas ds (?s\<lparr>messages := ms, total := n, view_stale := b\<rparr>)"
    have r: "paging_ok ?r" "counters_ok ?r" "buffer_ok ?r" "panes_ok ?r"
      using base by (simp_all add: tui_ok_def, simp_all add: tui_ok_defs)
    then show "paging_ok t" "counters_ok t" "buffer_ok t" "panes_ok t"
      "paging_ok t" "counters_ok t" "buffer_ok t" "panes_ok t"
      unfolding that by (simp_all add: tui_ok_defs)
  qed
  with assms base show ?thesis
    by (simp add: handle_messages_fetched_def Let_def case_prod_beta split: sum.split)
qed

lemma socket_ok:
  assumes "tui_ok s" shows "tui_ok (handle_ws_overflow s)" "tui_ok (handle_ws_status c s)"
proof -
  show "tui_ok (handle_ws_overflow s)"
    using assms by (simp add: handle_ws_overflow_def Let_def tui_ok_def tui_ok_defs)
  have "tui_ok (s\<lparr>ws_connected := c', ws_ever_connected := e\<rparr>)" for c' e
    using assms by (simp add: tui_ok_def tui_ok_defs)
  then show "tui_ok (handle_ws_status c s)" by (simp add: handle_ws_status_def Let_def)
qed

lemma answers_ok:
  assumes "tui_ok s"
  shows "tui_ok (handle_patched i rd st r1 s)" "tui_ok (handle_deleted i r1 s)"
    "tui_ok (handle_all_deleted r1 s)"
  using assms by (simp_all add: handle_patched_def handle_deleted_def handle_all_deleted_def split: sum.split)

lemma on_tick_ok: "tui_ok s \<Longrightarrow> tui_ok (on_tick s)"
  by (simp add: on_tick_def Let_def tui_ok_def tui_ok_defs SPINNER_FRAMES_def) auto

lemma refetch_ok: "tui_ok s \<Longrightarrow> tui_ok (refetch_if_stale s)"
  by (simp add: refetch_if_stale_def Let_def)

lemma dispatch_ok: "tui_ok s \<Longrightarrow> tui_ok (dispatch L e s)"
  by (cases e) (simp_all add: handle_key_ok handle_mouse_ok refetch_ok on_tick_ok handle_ws_message_ok
      socket_ok handle_messages_fetched_ok handle_preview_loaded_ok handle_raw_loaded_ok answers_ok)

lemma outside_step_ok: "tui_ok s \<Longrightarrow> tui_ok (outside_step u s)"
  by (simp add: outside_step_def Let_def tui_ok_def tui_ok_defs min.coboundedI2 split: option.split)

interpretation tui: kept_invariant "turn L" tui_ok for L
  by unfold_locales (simp add: turn_def dispatch_ok outside_step_ok)

lemma start_app_ok: "tui_ok (start_app url)"
proof -
  have "tui_ok (new_app url)"
    by (simp add: new_app_def tui_ok_def tui_ok_defs no_deltas_def SPINNER_FRAMES_def)
  then show ?thesis by (simp add: start_app_def connect_websocket_def)
qed

end
