(* ===== verification/Tui_Sync.thy ===== *)
theory Tui_Sync
  imports Tui_Keep "HOL-Library.Sublist"
begin

text \<open>
  How the client's list follows the server's. The specification is the server's list, newest
  first, changed by each delta the server announces; the client's first page, with no filter,
  shows a prefix of it and its length. \<open>apply_live\<close> keeps that relation delta by delta, and a
  landing page with the deltas recorded while it was on its way restores it, or marks the view
  stale.
\<close>

section \<open>The server's list\<close>

fun target :: "delta \<Rightarrow> bytes option" where
  "target (MessageRead i _) = Some i"
| "target (MessageStarred i _) = Some i"
| "target (MessageTags i _) = Some i"
| "target _ = None"

definition touch :: "delta \<Rightarrow> summary \<Rightarrow> summary" where
  "touch d m = (if target d = Some (ts_id m) then update_row d m else m)"

fun serve :: "delta \<Rightarrow> summary list \<Rightarrow> summary list" where
  "serve (MessageNew m) L = m # L"
| "serve (MessageDelete i) L = filter (\<lambda>m. ts_id m \<noteq> i) L"
| "serve MessagesClear L = []"
| "serve d L = map (touch d) L"

definition serve_all :: "delta list \<Rightarrow> summary list \<Rightarrow> summary list" where
  "serve_all ds L = fold serve ds L"

abbreviation ids :: "summary list \<Rightarrow> bytes set" where
  "ids L \<equiv> ts_id ` set L"

text \<open>
  What the server announces: arrivals have identifiers never used before, deletions name a stored
  message, updates an identifier that was announced. \<open>U\<close> holds the identifiers used so far.
\<close>

fun announced :: "bytes set \<Rightarrow> summary list \<Rightarrow> delta \<Rightarrow> bool" where
  "announced U L (MessageNew m) \<longleftrightarrow> ts_id m \<notin> U"
| "announced U L (MessageDelete i) \<longleftrightarrow> i \<in> ids L"
| "announced U L MessagesClear \<longleftrightarrow> True"
| "announced U L d \<longleftrightarrow> the (target d) \<in> U"

fun used :: "delta \<Rightarrow> bytes set \<Rightarrow> bytes set" where
  "used (MessageNew m) U = insert (ts_id m) U"
| "used _ U = U"

fun announced_all :: "bytes set \<Rightarrow> summary list \<Rightarrow> delta list \<Rightarrow> bool" where
  "announced_all U L [] \<longleftrightarrow> True"
| "announced_all U L (d # ds) \<longleftrightarrow> announced U L d \<and> announced_all (used d U) (serve d L) ds"

definition stored_ok :: "bytes set \<Rightarrow> summary list \<Rightarrow> bool" where
  "stored_ok U L \<longleftrightarrow> distinct (map ts_id L) \<and> ids L \<subseteq> U"

definition shows_prefix :: "tui \<Rightarrow> summary list \<Rightarrow> bool" where
  "shows_prefix s L \<longleftrightarrow> prefix (messages s) L \<and> total s = int (length L)"

definition first_page :: "tui \<Rightarrow> bool" where
  "first_page s \<longleftrightarrow> search_query s = [] \<and> offset s = 0 \<and> page_size s = 50"

subsection \<open>Laws of the server's list\<close>

lemma update_row_id [simp]: "ts_id (update_row d m) = ts_id m"
  by (cases d) simp_all

lemma touch_id [simp]: "ts_id (touch d m) = ts_id m"
  by (simp add: touch_def)

lemma map_touch_ids [simp]: "map ts_id (map (touch d) L) = map ts_id L" "ids (map (touch d) L) = ids L"
  by (simp_all add: image_image comp_def)

lemma stored_ok_serve: "stored_ok U L \<Longrightarrow> announced U L d \<Longrightarrow> stored_ok (used d U) (serve d L)"
  by (cases d) (auto simp: stored_ok_def comp_def image_image distinct_map_filter)

lemma update_first_touch:
  assumes "distinct (map ts_id L)" "target d = Some i"
  shows "update_first i (update_row d) L = map (touch d) L"
  using assms
proof (induction L)
  case (Cons m L)
  have "map (touch d) L = L" if "ts_id m = i"
    using Cons.prems that by (intro map_idI) (auto simp: touch_def)
  with Cons show ?case by (cases "ts_id m = i") (simp_all add: touch_def [of d m])
qed simp

lemma apply_update_touch:
  assumes "distinct (map ts_id (messages s))" "target d \<noteq> None"
  shows "apply_update d s = s\<lparr>messages := map (touch d) (messages s)\<rparr>"
  using assms by (cases d) (simp_all add: update_first_touch)

lemma position_filter:
  assumes "distinct (map ts_id L)"
  shows "case position (\<lambda>m. ts_id m = i) L of
           Some k \<Rightarrow> i \<in> ids L \<and> k < length L \<and> remove_at k L = filter (\<lambda>m. ts_id m \<noteq> i) L
         | None \<Rightarrow> i \<notin> ids L"
  using assms
proof (induction L)
  case (Cons m L)
  have "filter (\<lambda>x. ts_id x \<noteq> i) L = L" if "ts_id m = i"
    using Cons.prems that by (intro filter_True) (auto simp: rev_image_eqI)
  with Cons show ?case by (auto simp: remove_at_def split: option.splits)
qed simp

lemma prefix_filter: "prefix xs ys \<Longrightarrow> prefix (filter P xs) (filter P ys)"
  by (auto simp: prefix_def)

lemma prefix_take: "prefix xs ys \<Longrightarrow> prefix (take n xs) ys"
  by (metis prefix_order.trans take_is_prefix)

lemma prefix_distinct: "prefix xs ys \<Longrightarrow> distinct (map f ys) \<Longrightarrow> distinct (map f xs)"
  by (auto simp: prefix_def)

lemma prefix_ids: "prefix xs ys \<Longrightarrow> ids xs \<subseteq> ids ys"
  by (auto dest: set_mono_prefix)

section \<open>Live deltas\<close>

lemma load_preview_frame [simp]:
  "messages (load_preview s) = messages s" "total (load_preview s) = total s"
  "selected (load_preview s) = selected s"
  "view_stale (load_preview s) = view_stale s" "search_query (load_preview s) = search_query s"
  "offset (load_preview s) = offset s" "page_size (load_preview s) = page_size s"
  "loading (load_preview s) = loading s" "fetch_generation (load_preview s) = fetch_generation s"
  "pending (load_preview s) = pending s"
  by (simp_all add: load_preview_def clear_preview_def next_request_id_def Let_def split: option.split)

lemma retarget_frame [simp]:
  "messages (retarget_preview s) = messages s" "total (retarget_preview s) = total s"
  "selected (retarget_preview s) = selected s"
  "view_stale (retarget_preview s) = view_stale s" "search_query (retarget_preview s) = search_query s"
  "offset (retarget_preview s) = offset s" "page_size (retarget_preview s) = page_size s"
  "loading (retarget_preview s) = loading s" "fetch_generation (retarget_preview s) = fetch_generation s"
  "pending (retarget_preview s) = pending s"
  by (simp_all add: retarget_preview_def) (simp_all add: clear_preview_def)

lemma reanchor_frame [simp]:
  "messages (snd (reanchor_selection a s)) = messages s" "total (snd (reanchor_selection a s)) = total s"
  "view_stale (snd (reanchor_selection a s)) = view_stale s"
  "search_query (snd (reanchor_selection a s)) = search_query s"
  "offset (snd (reanchor_selection a s)) = offset s"
  "page_size (snd (reanchor_selection a s)) = page_size s"
  "loading (snd (reanchor_selection a s)) = loading s"
  "fetch_generation (snd (reanchor_selection a s)) = fetch_generation s"
  "pending (snd (reanchor_selection a s)) = pending s"
  "selected (snd (reanchor_selection a s)) = resolve_selection (an_ids a) (an_index a) (messages s)"
  by (simp_all add: reanchor_selection_def sync_list_state_def Let_def)

lemma restore_frame [simp]:
  "messages (restore_selection a s) = messages s" "total (restore_selection a s) = total s"
  "view_stale (restore_selection a s) = view_stale s"
  "search_query (restore_selection a s) = search_query s"
  "offset (restore_selection a s) = offset s" "page_size (restore_selection a s) = page_size s"
  "loading (restore_selection a s) = loading s" "pending (restore_selection a s) = pending s"
  "fetch_generation (restore_selection a s) = fetch_generation s"
  "selected (restore_selection a s) = resolve_selection (an_ids a) (an_index a) (messages s)"
  by (simp_all add: restore_selection_def Let_def case_prod_beta)

lemma is_listed_prefix: "prefix (messages s) L \<Longrightarrow> i \<notin> ids L \<Longrightarrow> \<not> is_listed i s"
  using prefix_ids [of "messages s" L] by (auto simp: is_listed_def)

lemma filter_id_length:
  "distinct (map ts_id L) \<Longrightarrow> i \<in> ids L \<Longrightarrow>
   int (length (filter (\<lambda>m. ts_id m \<noteq> i) L)) = int (length L) - 1"
proof (induction L)
  case (Cons m L)
  have "filter (\<lambda>x. ts_id x \<noteq> i) L = L" if "ts_id m = i"
    using Cons.prems that by (intro filter_True) (auto simp: rev_image_eqI)
  with Cons show ?case by auto
qed simp

lemma filter_id_total:
  "distinct (map ts_id L) \<Longrightarrow> i \<in> ids L \<Longrightarrow>
   max (int (length L) - 1) 0 = int (length (filter (\<lambda>m. ts_id m \<noteq> i) L))"
  by (simp add: filter_id_length) (cases L; simp)

lemma apply_live_first_page: "first_page s \<Longrightarrow> first_page (apply_live d s)"
  by (cases d) (simp_all add: first_page_def insert_newest_def Let_def split: option.split)

lemma apply_live_shows:
  assumes st: "stored_ok U L" and d: "announced U L d" and fp: "first_page s" and v: "shows_prefix s L"
  shows "shows_prefix (apply_live d s) (serve d L)"
proof -
  have pre: "prefix (messages s) L" and tot: "total s = int (length L)"
    and dis: "distinct (map ts_id L)" and sub: "ids L \<subseteq> U"
    using st v by (auto simp: shows_prefix_def stored_ok_def)
  have dm: "distinct (map ts_id (messages s))" using prefix_distinct [OF pre dis] .
  show ?thesis
  proof (cases d)
    case (MessageNew m)
    then have "ts_id m \<notin> ids L" using d sub by auto
    then have "\<not> is_listed (ts_id m) s" by (rule is_listed_prefix [OF pre])
    then show ?thesis
      using MessageNew fp pre tot
      by (simp add: shows_prefix_def first_page_def insert_newest_def Let_def prefix_take)
  next
    case (MessageDelete i)
    have n: "max (total s - 1) 0 = int (length (filter (\<lambda>m. ts_id m \<noteq> i) L))"
      using filter_id_total [OF dis, of i] MessageDelete d tot by simp
    have "filter (\<lambda>m. ts_id m \<noteq> i) (messages s) = messages s" if "i \<notin> ids (messages s)"
      using that by (intro filter_True) auto
    then show ?thesis
      using MessageDelete fp n prefix_filter [OF pre, of "\<lambda>m. ts_id m \<noteq> i"] position_filter [OF dm, of i]
      by (auto simp: shows_prefix_def first_page_def Let_def split: option.splits)
  qed (use pre tot dm in \<open>auto simp: shows_prefix_def update_first_touch map_mono_prefix\<close>)
qed

lemma handle_ws_message_shows:
  assumes "stored_ok U L" "announced U L d" "first_page s" "shows_prefix s L" "decode t = Some d"
  shows "shows_prefix (handle_ws_message decode t s) (serve d L)"
    "first_page (handle_ws_message decode t s)"
proof -
  let ?s = "if loading s then s\<lparr>pending := record_delta d (pending s)\<rparr> else s"
  have "first_page ?s" "shows_prefix ?s L" using assms by (simp_all add: first_page_def shows_prefix_def)
  then have "shows_prefix (apply_live d ?s) (serve d L)" "first_page (apply_live d ?s)"
    using assms by (blast intro: apply_live_shows apply_live_first_page)+
  then show "shows_prefix (handle_ws_message decode t s) (serve d L)"
    "first_page (handle_ws_message decode t s)"
    using assms by (simp_all add: handle_ws_message_def)
qed

text \<open>
  C14. The first page follows the server: when the client shows the newest messages of the
  server's list and its length, and the frames of any announced sequence of deltas come in, it
  then shows the newest messages and the length of the list those deltas produced.
\<close>

theorem live_view_follows_server:
  assumes "stored_ok U L" "announced_all U L ds" "first_page s" "shows_prefix s L"
    "map decode texts = map Some ds"
  shows "shows_prefix (fold (handle_ws_message decode) texts s) (serve_all ds L)"
  using assms
proof (induction ds arbitrary: U L s texts)
  case (Cons d ds)
  then obtain t ts where t: "texts = t # ts" "decode t = Some d" "map decode ts = map Some ds" by auto
  with Cons.prems show ?case
    by (auto simp: serve_all_def intro!: Cons.IH [of "used d U" "serve d L", unfolded serve_all_def]
        handle_ws_message_shows stored_ok_serve)
qed (simp add: serve_all_def)

definition row0 :: "bytes \<Rightarrow> summary" where
  "row0 i = \<lparr>ts_id = i, ts_sender = [], ts_recipients = [], ts_subject = None, ts_size = 1,
     ts_has_attachments = False, ts_is_read = False, ts_is_starred = False, ts_tags = [],
     ts_created_at = []\<rparr>"

definition decode0 :: "bytes \<Rightarrow> delta option" where
  "decode0 t = (if t = ''new b'' then Some (MessageNew (row0 ''b''))
                else if t = ''del a'' then Some (MessageDelete ''a'') else None)"

theorem live_view_follows_server_witness:
  "shows_prefix
     (fold (handle_ws_message decode0) [''new b'', ''del a'']
       ((new_app [])\<lparr>messages := [row0 ''a''], total := 1\<rparr>)) [row0 ''b'']"
  using live_view_follows_server
    [of "{''a''}" "[row0 ''a'']" "[MessageNew (row0 ''b''), MessageDelete ''a'']"
        "(new_app [])\<lparr>messages := [row0 ''a''], total := 1\<rparr>" decode0 "[''new b'', ''del a'']"]
  by (simp add: stored_ok_def first_page_def shows_prefix_def serve_all_def new_app_def row0_def decode0_def)

section \<open>Deltas that arrive while a page is on its way\<close>

text \<open>Replaying on a list the deltas come after.\<close>

lemma replay_delta_shows:
  assumes st: "stored_ok U L" and d: "announced U L d" and fp: "first_page s" and v: "shows_prefix s L"
  shows "view_stale (replay_delta d s) \<or> shows_prefix (replay_delta d s) (serve d L)"
proof -
  have pre: "prefix (messages s) L" and tot: "total s = int (length L)"
    and dis: "distinct (map ts_id L)" and sub: "ids L \<subseteq> U"
    using st v by (auto simp: shows_prefix_def stored_ok_def)
  have dm: "distinct (map ts_id (messages s))" using prefix_distinct [OF pre dis] .
  show ?thesis
  proof (cases d)
    case (MessageNew m)
    then have "ts_id m \<notin> ids L" using d sub by auto
    then have "\<not> is_listed (ts_id m) s" by (rule is_listed_prefix [OF pre])
    then show ?thesis
      using MessageNew fp pre tot
      by (simp add: shows_prefix_def first_page_def insert_newest_def prefix_take)
  next
    case (MessageDelete i)
    then show ?thesis
      using fp d tot filter_id_total [OF dis, of i] prefix_filter [OF pre, of "\<lambda>m. ts_id m \<noteq> i"]
        position_filter [OF dm, of i]
      by (auto simp: shows_prefix_def split: option.splits)
  qed (use pre tot dm in \<open>auto simp: shows_prefix_def update_first_touch map_mono_prefix\<close>)
qed

lemma replay_delta_stale: "view_stale s \<Longrightarrow> view_stale (replay_delta d s)"
  by (cases d) (simp_all add: insert_newest_def split: option.split)

lemma replay_delta_first_page: "first_page s \<Longrightarrow> first_page (replay_delta d s)"
  by (cases d) (simp_all add: first_page_def insert_newest_def split: option.split)

text \<open>Past the last listed arrival every delta is replayed.\<close>

lemma replay_from_past:
  "(case l of Some j \<Rightarrow> j < i | None \<Rightarrow> True) \<Longrightarrow> replay_from l i ds s = fold replay_delta ds s"
  by (induction l i ds s rule: replay_from.induct) (auto split: option.splits)

lemma replay_all_shows:
  assumes "stored_ok U L" "announced_all U L ds" "first_page s" "view_stale s \<or> shows_prefix s L"
  shows "view_stale (fold replay_delta ds s) \<or> shows_prefix (fold replay_delta ds s) (serve_all ds L)"
  using assms
proof (induction ds arbitrary: U L s)
  case (Cons d ds)
  then have "view_stale (replay_delta d s) \<or> shows_prefix (replay_delta d s) (serve d L)"
    using replay_delta_shows replay_delta_stale by (metis announced_all.simps(2))
  with Cons show ?case
    by (auto simp: serve_all_def intro!: Cons.IH [unfolded serve_all_def] stored_ok_serve
        replay_delta_first_page)
qed (simp add: serve_all_def)

subsection \<open>Deltas the page already has\<close>

lemma serve_all_simps [simp]:
  "serve_all [] L = L" "serve_all (d # ds) L = serve_all ds (serve d L)"
  "serve_all (ds @ es) L = serve_all es (serve_all ds L)"
  by (simp_all add: serve_all_def)

lemma announced_all_append:
  "announced_all U L (ds @ es) \<longleftrightarrow> announced_all U L ds \<and> announced_all (fold used ds U) (serve_all ds L) es"
  by (induction ds arbitrary: U L) simp_all

lemma stored_ok_serve_all: "stored_ok U L \<Longrightarrow> announced_all U L ds \<Longrightarrow> stored_ok (fold used ds U) (serve_all ds L)"
  by (induction ds arbitrary: U L) (auto intro: stored_ok_serve)

lemma used_mono: "U \<subseteq> fold used ds U"
proof (induction ds arbitrary: U)
  case (Cons d ds)
  have "U \<subseteq> used d U" by (cases d) auto
  with Cons show ?case by fastforce
qed simp

lemma fold_touch_id [simp]: "ts_id (fold touch ds m) = ts_id m"
  by (induction ds arbitrary: m) simp_all

lemma touch_twice: "touch e (touch d m) = touch e m \<or> touch e (touch d m) = touch d (touch e m)"
  by (cases e; cases d) (auto simp: touch_def)

lemma touch_idem: "touch d (touch d m) = touch d m"
  by (cases d) (auto simp: touch_def)

lemma touch_absorbs: "touch d (fold touch ds (touch d m)) = touch d (fold touch ds m)"
proof (induction ds arbitrary: m)
  case (Cons e ds)
  show ?case using touch_twice [of e d m] Cons [of "touch e m"] by auto
qed (simp add: touch_idem)

lemma targets_used: "announced_all U L ds \<Longrightarrow> d \<in> set ds \<Longrightarrow> target d = Some i \<Longrightarrow> i \<in> fold used ds U"
proof (induction ds arbitrary: U L)
  case (Cons e ds)
  have "i \<in> used e U" if "d = e" using that Cons.prems by (cases e) auto
  then show ?case using Cons used_mono [of "used e U" ds] by auto
qed simp

lemma untouched: "(\<And>d. d \<in> set ds \<Longrightarrow> target d \<noteq> Some (ts_id m)) \<Longrightarrow> fold touch ds m = m"
  by (induction ds) (simp_all add: touch_def)

text \<open>What the page holds already reflects every update it was read after.\<close>

lemma page_absorbs:
  assumes "stored_ok U L" "announced_all U L ds" "m \<in> set (serve_all ds L)"
  shows "fold touch ds m = m"
  using assms(2,3)
proof (induction ds arbitrary: m rule: rev_induct)
  case (snoc d ds)
  note a = snoc.prems(1) [unfolded announced_all_append]
  have ih: "fold touch ds x = x" if "x \<in> set (serve_all ds L)" for x
    using snoc.IH a that by blast
  have upd: "fold touch (ds @ [d]) (touch d x) = touch d x" if "x \<in> set (serve_all ds L)" for x
    using ih [OF that] by (simp add: touch_absorbs)
  show ?case
  proof (cases d)
    case (MessageNew x)
    then have "m = x \<Longrightarrow> fold touch ds m = m"
      using a targets_used [of U L ds] by (intro untouched) auto
    with MessageNew snoc.prems(2) ih show ?thesis by (auto simp: touch_def [of "MessageNew _"])
  qed (use snoc.prems(2) ih upd in \<open>auto simp: touch_def [of "MessageDelete _"]\<close>)
qed simp

lemma gone_stays_gone:
  assumes "i \<in> U" "i \<notin> ids L" "announced_all U L ds"
  shows "i \<notin> ids (serve_all ds L)"
  using assms
proof (induction ds arbitrary: U L)
  case (Cons d ds)
  have "i \<notin> ids (serve d L)" "i \<in> used d U"
    using Cons.prems by (cases d; auto simp: image_image)+
  then show ?case using Cons by simp
qed simp

text \<open>The newest stored message is an arrival at or after any arrival that is still stored.\<close>

lemma newest_on_top:
  "\<exists>A' B'. serve_all ds (A @ B) = A' @ B' \<and> ids B' \<subseteq> ids B
     \<and> ids A' \<subseteq> ids A \<union> {ts_id m |m. MessageNew m \<in> set ds}"
proof (induction ds arbitrary: A B)
  case (Cons d ds)
  obtain A1 B1 where s: "serve d (A @ B) = A1 @ B1" "ids B1 \<subseteq> ids B"
    "ids A1 \<subseteq> ids A \<union> {ts_id m |m. MessageNew m = d}"
  proof (cases d)
    case (MessageNew m)
    show ?thesis by (rule that [of "m # A" B]) (auto simp: MessageNew)
  next
    case (MessageDelete i)
    show ?thesis
      by (rule that [of "filter (\<lambda>m. ts_id m \<noteq> i) A" "filter (\<lambda>m. ts_id m \<noteq> i) B"]) (auto simp: MessageDelete)
  next
    case MessagesClear
    show ?thesis by (rule that [of "[]" "[]"]) (auto simp: MessagesClear)
  qed (rule that [of "map (touch d) A" "map (touch d) B"]; auto simp: image_image)+
  from Cons [of A1 B1] obtain A' B' where r: "serve_all ds (A1 @ B1) = A' @ B'" "ids B' \<subseteq> ids B1"
    "ids A' \<subseteq> ids A1 \<union> {ts_id m |m. MessageNew m \<in> set ds}" by blast
  have k: "{ts_id m |m. MessageNew m \<in> set (d # ds)}
    = {ts_id m |m. MessageNew m = d} \<union> {ts_id m |m. MessageNew m \<in> set ds}" by auto
  have "ids A' \<subseteq> ids A \<union> {ts_id m |m. MessageNew m \<in> set (d # ds)}"
    unfolding k Un_assoc [symmetric] by (rule order_trans [OF r(3) Un_mono [OF s(3) order_refl]])
  moreover have "ids B' \<subseteq> ids B" by (rule order_trans [OF r(2) s(2)])
  moreover have "serve_all (d # ds) (A @ B) = A' @ B'" using r(1) s(1) by simp
  ultimately show ?case by blast
qed auto

text \<open>
  Half way through the deltas \<open>p\<close> that the page \<open>F\<close> was read after, the replayed list starts with
  rows \<open>Z\<close> of messages the page no longer has (their deletions are still to come) and goes on with
  the page, on which the updates of \<open>p\<close> have been repeated.
\<close>

definition catching_up :: "summary list \<Rightarrow> delta list \<Rightarrow> summary list \<Rightarrow> tui \<Rightarrow> bool" where
  "catching_up F p L s \<longleftrightarrow>
     view_stale s \<or>
     (\<exists>Z. prefix (messages s) (Z @ map (fold touch p) F) \<and> total s = int (length Z + length F)
        \<and> distinct (map ts_id Z) \<and> ids Z \<subseteq> ids (serve_all p L) \<and> ids Z \<inter> ids F = {})"

lemma catching_upI:
  assumes "prefix (messages s) (Z @ map (fold touch p) F)" "total s = int (length Z + length F)"
    "distinct (map ts_id Z)" "ids Z \<subseteq> ids (serve_all p L)" "ids Z \<inter> ids F = {}"
  shows "catching_up F p L s"
  using assms unfolding catching_up_def by blast

lemma replay_delete_eq:
  assumes "distinct (map ts_id (messages s))"
  shows "replay_delta (MessageDelete i) s =
    (if i \<in> ids (messages s)
     then s\<lparr>messages := filter (\<lambda>m. ts_id m \<noteq> i) (messages s), total := max (total s - 1) 0\<rparr>
     else s\<lparr>view_stale := True\<rparr>)"
  using position_filter [OF assms, of i] by (cases "position (\<lambda>m. ts_id m = i) (messages s)") simp_all

lemma catch_up_update:
  assumes Z: "prefix (messages s) (Z @ map (fold touch p) F)" "total s = int (length Z + length F)"
    "distinct (map ts_id Z)" "ids Z \<subseteq> ids (serve_all p L)" "ids Z \<inter> ids F = {}"
    and dm: "distinct (map ts_id (messages s))" and t: "target d = Some i"
  shows "catching_up F (p @ [d]) L (replay_delta d s)"
proof (rule catching_upI [of _ "map (touch d) Z"])
  have r: "replay_delta d s = s\<lparr>messages := map (touch d) (messages s)\<rparr>"
    using dm t by (cases d) (simp_all add: update_first_touch)
  show "prefix (messages (replay_delta d s)) (map (touch d) Z @ map (fold touch (p @ [d])) F)"
    using map_mono_prefix [OF Z(1), of "touch d"] by (simp add: r comp_def)
  show "total (replay_delta d s) = int (length (map (touch d) Z) + length F)"
    using Z(2) by (simp add: r)
  have "ids (serve d L') = ids L'" for L' using t by (cases d) (simp_all add: image_image)
  then show "ids (map (touch d) Z) \<subseteq> ids (serve_all (p @ [d]) L)"
    using Z(4) by (simp add: image_image)
qed (use Z in \<open>simp_all add: comp_def image_image\<close>)

lemma catch_up_step:
  assumes st: "stored_ok U L" and ann: "announced_all U L (p @ d # r)"
    and F: "F = serve_all (p @ d # r) L" and fp: "first_page s" and nc: "d \<noteq> MessagesClear"
    and inv: "catching_up F p L s" and skip: "skip \<Longrightarrow> is_arrival d"
    and fresh: "\<And>m. d = MessageNew m \<Longrightarrow> \<not> skip \<Longrightarrow> ts_id m \<notin> ids F"
  shows "catching_up F (p @ [d]) L (if skip then s else replay_delta d s)"
proof (cases "view_stale s")
  case True
  then show ?thesis by (simp add: catching_up_def replay_delta_stale)
next
  case False
  let ?P = "map (fold touch p) F"
  obtain Z where Z: "prefix (messages s) (Z @ ?P)" "total s = int (length Z + length F)"
    "distinct (map ts_id Z)" "ids Z \<subseteq> ids (serve_all p L)" "ids Z \<inter> ids F = {}"
    using inv False by (auto simp: catching_up_def)
  have ad: "announced (fold used p U) (serve_all p L) d" using ann by (simp add: announced_all_append)
  have stp: "stored_ok (fold used p U) (serve_all p L)"
    using st ann by (simp add: announced_all_append stored_ok_serve_all)
  have disF: "distinct (map ts_id F)"
    using stored_ok_serve_all [OF st ann] F by (simp add: stored_ok_def)
  have idsP: "ids ?P = ids F" "map ts_id ?P = map ts_id F" by (simp_all add: image_image comp_def)
  have dis: "distinct (map ts_id (Z @ ?P))"
    using Z(3,5) disF by (simp only: map_append distinct_append set_map idsP)
  have dm: "distinct (map ts_id (messages s))" by (rule prefix_distinct [OF Z(1) dis])
  have same: "fold touch (p @ [d]) = fold touch p" if "target d = None"
    using that by (auto simp: touch_def)
  show ?thesis
  proof (cases d)
    case (MessageNew m)
    show ?thesis
    proof (cases skip)
      case True
      then show ?thesis using Z MessageNew same by (intro catching_upI [of _ Z]) auto
    next
      case False
      have m: "ts_id m \<notin> ids F" "ts_id m \<notin> ids Z"
        using fresh [OF MessageNew False] ad MessageNew Z(4) stp by (auto simp: stored_ok_def)
      then have "\<not> is_listed (ts_id m) s"
        by (intro is_listed_prefix [OF Z(1)]) (simp only: set_append image_Un idsP(1) Un_iff simp_thms)
      then have "replay_delta d s = insert_newest m (s\<lparr>total := total s + 1\<rparr>)"
        using fp MessageNew by (simp add: first_page_def)
      then show ?thesis
        using False fp Z m MessageNew same
        by (intro catching_upI [of _ "m # Z"]) (auto simp: insert_newest_def first_page_def prefix_take)
    qed
  next
    case (MessageDelete i)
    let ?f = "filter (\<lambda>m. ts_id m \<noteq> i)"
    have iU: "i \<in> fold used p U" using ad MessageDelete stp by (auto simp: stored_ok_def)
    have ar: "announced_all (fold used p U) (?f (serve_all p L)) r"
      using ann MessageDelete by (simp add: announced_all_append)
    have "i \<notin> ids (?f (serve_all p L))" by auto
    then have "i \<notin> ids (serve_all r (?f (serve_all p L)))" by (rule gone_stays_gone [OF iU _ ar])
    then have iF: "i \<notin> ids F" using MessageDelete by (simp add: F)
    have fP: "?f ?P = ?P" using iF by (intro filter_True) auto
    have ns: "\<not> skip" using skip MessageDelete by auto
    show ?thesis
    proof (cases "i \<in> ids (messages s)")
      case True
      then have iZ: "i \<in> ids Z" using prefix_ids [OF Z(1)] iF idsP(1) by auto
      have "replay_delta d s = s\<lparr>messages := ?f (messages s), total := max (total s - 1) 0\<rparr>"
        using replay_delete_eq [OF dm, of i] True MessageDelete by simp
      moreover have "prefix (?f (messages s)) (?f Z @ ?P)"
        using prefix_filter [OF Z(1), of "\<lambda>m. ts_id m \<noteq> i"] fP by simp
      moreover have "max (total s - 1) 0 = int (length (?f Z) + length F)"
        using filter_id_length [OF Z(3) iZ] Z(2) by simp
      ultimately show ?thesis
        using ns Z MessageDelete same by (intro catching_upI [of _ "?f Z"]) (auto simp: distinct_map_filter)
    next
      case False
      then show ?thesis
        using replay_delete_eq [OF dm, of i] MessageDelete ns by (simp add: catching_up_def)
    qed
  next
    case MessagesClear
    with nc show ?thesis by simp
  qed (use skip in \<open>auto intro!: catch_up_update [OF Z dm] simp del: replay_delta.simps\<close>)
qed

lemma rposition_at_or_after:
  "j < length xs \<Longrightarrow> P (xs ! j) \<Longrightarrow> \<exists>l. rposition P xs = Some l \<and> j \<le> l"
proof (induction xs arbitrary: j)
  case (Cons x xs)
  show ?case
  proof (cases j)
    case 0
    then show ?thesis using Cons.prems by (cases "rposition P xs") auto
  next
    case (Suc k)
    then show ?thesis using Cons.IH [of k] Cons.prems by auto
  qed
qed simp

text \<open>An arrival the page still stores is at or before the last arrival the page lists.\<close>

lemma stored_arrival_covered:
  assumes st: "stored_ok U L" and ann: "announced_all U L (p @ MessageNew m # r)"
    and F: "F = serve_all (p @ MessageNew m # r) L" and m: "ts_id m \<in> ids F"
    and page: "messages s = take 50 F"
  shows "\<exists>l. rposition (listed_arrival s) (p @ MessageNew m # r @ post) = Some l \<and> length p \<le> l"
proof -
  obtain A B where AB: "serve_all r ([m] @ serve_all p L) = A @ B" "ids B \<subseteq> ids (serve_all p L)"
    "ids A \<subseteq> ids [m] \<union> {ts_id x |x. MessageNew x \<in> set r}"
    using newest_on_top [of r "[m]" "serve_all p L"] by blast
  have "ts_id m \<notin> ids (serve_all p L)"
    using ann stored_ok_serve_all [OF st, of p] by (auto simp: announced_all_append stored_ok_def)
  with AB(1,2) m F have "A \<noteq> []" by auto
  then obtain a A' where A: "A = a # A'" by (cases A) auto
  then have hd: "a \<in> set (messages s)" using AB(1) F page by simp
  obtain x where x: "ts_id x = ts_id a" "MessageNew x \<in> set (MessageNew m # r)"
    using AB(3) A by auto
  then obtain k where k: "k < length (MessageNew m # r)" "(MessageNew m # r) ! k = MessageNew x"
    by (metis in_set_conv_nth)
  let ?ds = "p @ MessageNew m # r @ post"
  have nth: "?ds ! (length p + k) = MessageNew x"
    using k by (simp add: nth_append) (cases k; simp add: nth_append)
  have "listed_arrival s (?ds ! (length p + k))" unfolding nth using hd x(1) by (auto simp: is_listed_def)
  then show ?thesis
    using rposition_at_or_after [of "length p + k" ?ds "listed_arrival s"] k(1) by force
qed

lemma replay_catches_up:
  assumes st: "stored_ok U L" and ann: "announced_all U L (p @ r)" and F: "F = serve_all (p @ r) L"
    and nc: "MessagesClear \<notin> set r" and page: "messages s0 = take 50 F"
    and l: "l = rposition (listed_arrival s0) (p @ r @ post)"
    and fp: "first_page s" and inv: "catching_up F p L s"
  shows "\<exists>s'. replay_from l (length p) (r @ post) s = replay_from l (length p + length r) post s'
           \<and> first_page s' \<and> catching_up F (p @ r) L s'"
  using ann F nc l fp inv
proof (induction r arbitrary: p s)
  case (Cons d r)
  let ?skip = "(case l of Some j \<Rightarrow> length p \<le> j | None \<Rightarrow> False) \<and> is_arrival d"
  let ?s = "if ?skip then s else replay_delta d s"
  have fresh: "ts_id m \<notin> ids F" if d: "d = MessageNew m" and "\<not> ?skip" for m
  proof
    assume "ts_id m \<in> ids F"
    with Cons.prems(1,2) d have "\<exists>j. l = Some j \<and> length p \<le> j"
      using stored_arrival_covered [OF st, of p m r F s0 post] page Cons.prems(4) by simp
    with that show False by auto
  qed
  have "catching_up F (p @ [d]) L ?s"
    using Cons.prems fresh by (intro catch_up_step [OF st, of p d r]) auto
  moreover have "first_page ?s" using Cons.prems by (simp add: replay_delta_first_page)
  ultimately obtain s' where
    "replay_from l (length (p @ [d])) (r @ post) ?s = replay_from l (length (p @ [d]) + length r) post s'"
    "first_page s'" "catching_up F ((p @ [d]) @ r) L s'"
    using Cons.IH [of "p @ [d]" ?s] Cons.prems by auto
  then show ?case by (auto simp: Let_def)
qed auto

lemma caught_up:
  assumes "stored_ok U L" "announced_all U L ds" "F = serve_all ds L" "catching_up F ds L s"
  shows "view_stale s \<or> shows_prefix s F"
proof (cases "view_stale s")
  case False
  then obtain Z where Z: "prefix (messages s) (Z @ map (fold touch ds) F)"
    "total s = int (length Z + length F)" "ids Z \<subseteq> ids F" "ids Z \<inter> ids F = {}"
    using assms(3,4) by (auto simp: catching_up_def)
  then have "Z = []" by (cases Z) auto
  moreover have "map (fold touch ds) F = F"
    using page_absorbs [OF assms(1,2)] assms(3) by (intro map_idI) simp
  ultimately show ?thesis using Z by (simp add: shows_prefix_def)
qed simp

lemma arrivals_are_fresh: "announced_all U L ds \<Longrightarrow> MessageNew m \<in> set ds \<Longrightarrow> ts_id m \<notin> U"
proof (induction ds arbitrary: U L)
  case (Cons d ds)
  then show ?case
  proof (cases "d = MessageNew m")
    case False
    then have "ts_id m \<notin> used d U" using Cons by auto
    then show ?thesis using used_mono [of U "[d]"] by auto
  qed auto
qed simp

lemma last_listed_before:
  assumes st: "stored_ok U L" and ann: "announced_all U L (pre @ post)"
    and page: "messages s = take 50 (serve_all pre L)"
    and l: "rposition (listed_arrival s) (pre @ post) = Some l"
  shows "l < length pre"
proof (rule ccontr)
  assume "\<not> l < length pre"
  then have post: "(pre @ post) ! l \<in> set post"
    using rposition_less [OF l] by (auto simp: nth_append)
  obtain m where m: "(pre @ post) ! l = MessageNew m" "ts_id m \<in> ids (messages s)"
    using rposition_holds [OF l] by (cases "(pre @ post) ! l") (auto simp: is_listed_def rev_image_eqI)
  have "ts_id m \<in> fold used pre U"
    using m(2) page stored_ok_serve_all [OF st, of pre] ann
    by (auto simp: announced_all_append stored_ok_def dest: in_set_takeD)
  with arrivals_are_fresh post m(1) ann show False by (fastforce simp: announced_all_append)
qed

lemma replay_deltas_shows:
  assumes st: "stored_ok U L" and ann: "announced_all U L (pre @ post)" and nc: "MessagesClear \<notin> set pre"
    and page: "messages s = take 50 (serve_all pre L)" and tot: "total s = int (length (serve_all pre L))"
    and fp: "first_page s"
  shows "view_stale (replay_deltas (pre @ post) s)
         \<or> shows_prefix (replay_deltas (pre @ post) s) (serve_all (pre @ post) L)"
proof -
  let ?F = "serve_all pre L" and ?l = "rposition (listed_arrival s) (pre @ post)"
  have a: "announced_all U L pre" "announced_all (fold used pre U) ?F post"
    using ann by (simp_all add: announced_all_append)
  have "catching_up ?F [] L s"
    using page tot by (intro catching_upI [of _ "[]"]) (simp_all add: take_is_prefix)
  then obtain s' where s': "replay_from ?l 0 (pre @ post) s = replay_from ?l (length pre) post s'"
    "first_page s'" "catching_up ?F pre L s'"
    using replay_catches_up [OF st, of "[]" pre ?F s ?l post s] a nc page fp by auto
  have "replay_from ?l (length pre) post s' = fold replay_delta post s'"
    using last_listed_before [OF st ann page] by (intro replay_from_past) (auto split: option.splits)
  moreover have "view_stale s' \<or> shows_prefix s' ?F" using caught_up [OF st a(1) refl s'(3)] .
  ultimately show ?thesis
    using replay_all_shows [OF stored_ok_serve_all [OF st a(1)] a(2) s'(2)] s'(1)
    by (simp add: replay_deltas_def)
qed

text \<open>
  C13. A page that lands catches up with what happened on its way: the server answered after some
  of the recorded deltas (\<open>pre\<close>, with no clearing among them) and before the others (\<open>post\<close>).
  After the replay the client shows the newest messages and the length of the server's current
  list, or it has marked the view stale, which makes the next tick fetch again.
\<close>

theorem landing_page_catches_up:
  assumes "stored_ok U L" "announced_all U L (pre @ post)" "MessagesClear \<notin> set pre"
    and "first_page s" "pd_events (pending s) = pre @ post"
    and "resp = \<lparr>lr_messages = take 50 (serve_all pre L), lr_total = int (length (serve_all pre L))\<rparr>"
  shows "view_stale (handle_messages_fetched (fetch_generation s) (Inr resp) s)
         \<or> shows_prefix (handle_messages_fetched (fetch_generation s) (Inr resp) s) (serve_all (pre @ post) L)"
proof -
  let ?s = "s\<lparr>loading := False, pending := no_deltas, view_changed := False,
              messages := lr_messages resp, total := lr_total resp, view_stale := overflowed (pending s)\<rparr>"
  have "view_stale (replay_deltas (pre @ post) ?s)
        \<or> shows_prefix (replay_deltas (pre @ post) ?s) (serve_all (pre @ post) L)"
    using assms by (intro replay_deltas_shows) (simp_all add: first_page_def)
  then show ?thesis
    using assms(5) by (simp add: handle_messages_fetched_def Let_def case_prod_beta shows_prefix_def)
qed

definition landing0 :: tui where
  "landing0 = (new_app [])\<lparr>loading := True,
     pending := \<lparr>pd_events = [MessageNew (row0 ''b''), MessageDelete ''a''], overflowed = False\<rparr>\<rparr>"

theorem landing_page_catches_up_witness:
  "view_stale (handle_messages_fetched 0
       (Inr \<lparr>lr_messages = [row0 ''b'', row0 ''a''], lr_total = 2\<rparr>) landing0)
   \<or> shows_prefix (handle_messages_fetched 0
       (Inr \<lparr>lr_messages = [row0 ''b'', row0 ''a''], lr_total = 2\<rparr>) landing0) [row0 ''b'']"
  using landing_page_catches_up
    [of "{''a''}" "[row0 ''a'']" "[MessageNew (row0 ''b'')]" "[MessageDelete ''a'']" landing0
        "\<lparr>lr_messages = [row0 ''b'', row0 ''a''], lr_total = 2\<rparr>"]
  by (simp add: stored_ok_def first_page_def landing0_def new_app_def row0_def)

text \<open>
  C37. A clearing the page was read after undoes the page: when the recorded deltas are a clearing
  and then an arrival, and the page was read after both, the replay empties the list and skips the
  arrival as one the page already has. The client shows no message and a total of 0 while the
  server holds the new message, and the view is not marked stale.
\<close>

theorem arrival_after_clear_is_lost:
  assumes "first_page s" "pending s = \<lparr>pd_events = [MessagesClear, MessageNew m], overflowed = False\<rparr>"
  shows "let resp = \<lparr>lr_messages = serve_all [MessagesClear, MessageNew m] L, lr_total = 1\<rparr>;
             s' = handle_messages_fetched (fetch_generation s) (Inr resp) s
         in serve_all [MessagesClear, MessageNew m] L = [m] \<and> messages s' = [] \<and> total s' = 0
            \<and> \<not> view_stale s'"
  using assms
  by (simp add: handle_messages_fetched_def replay_deltas_def is_listed_def Let_def case_prod_beta)

theorem arrival_after_clear_is_lost_witness:
  "messages (handle_messages_fetched 0 (Inr \<lparr>lr_messages = [row0 ''b''], lr_total = 1\<rparr>)
     (landing0\<lparr>pending := \<lparr>pd_events = [MessagesClear, MessageNew (row0 ''b'')], overflowed = False\<rparr>\<rparr>)) = []"
  using arrival_after_clear_is_lost
    [of "landing0\<lparr>pending := \<lparr>pd_events = [MessagesClear, MessageNew (row0 ''b'')], overflowed = False\<rparr>\<rparr>"
        "row0 ''b''" "[]"]
  by (simp add: first_page_def landing0_def new_app_def Let_def)

section \<open>The cursor across changes of the list\<close>

lemma find_map_find:
  assumes "\<And>x. f x = None \<longleftrightarrow> \<not> P x"
  shows "find_map f xs = (case find P xs of Some x \<Rightarrow> f x | None \<Rightarrow> None)"
proof (induction xs)
  case (Cons x xs)
  then show ?case using assms [of x] by (cases "f x") auto
qed simp

lemma find_map_rposition:
  "find_map (\<lambda>i. rposition (\<lambda>m. ts_id m = i) new) xs =
     (case find (\<lambda>i. i \<in> ids new) xs of
        Some i \<Rightarrow> rposition (\<lambda>m. ts_id m = i) new | None \<Rightarrow> None)"
  by (rule find_map_find) (auto simp: rposition_None)

lemma rposition_found:
  assumes "find (\<lambda>i. i \<in> ids new) xs = Some i"
  shows "\<exists>k. rposition (\<lambda>m. ts_id m = i) new = Some k \<and> k < length new \<and> ts_id (new ! k) = i"
proof -
  have "i \<in> ids new" using assms by (auto simp: find_Some_iff)
  then have "rposition (\<lambda>m. ts_id m = i) new \<noteq> None" by (auto simp: rposition_None)
  then show ?thesis
    using rposition_less [of _ new] rposition_holds [of "\<lambda>m. ts_id m = i" new] by blast
qed

lemma resolve_first:
  "find (\<lambda>i. i \<in> ids new) (drop index old) = Some i \<Longrightarrow>
   resolve_selection old index new < length new \<and> ts_id (new ! resolve_selection old index new) = i"
  using rposition_found [of new "drop index old" i]
  by (auto simp: resolve_selection_def find_map_rposition min_def)

lemma resolve_above:
  "find (\<lambda>i. i \<in> ids new) (drop index old) = None \<Longrightarrow>
   find (\<lambda>i. i \<in> ids new) (rev (take index old)) = Some i \<Longrightarrow>
   resolve_selection old index new < length new \<and> ts_id (new ! resolve_selection old index new) = i"
  using rposition_found [of new "rev (take index old)" i]
  by (auto simp: resolve_selection_def find_map_rposition min_def)

lemma resolve_none:
  "find (\<lambda>i. i \<in> ids new) (drop index old) = None \<Longrightarrow>
   find (\<lambda>i. i \<in> ids new) (rev (take index old)) = None \<Longrightarrow>
   resolve_selection old index new = min index (length new - 1)"
  by (auto simp: resolve_selection_def find_map_rposition min_def)

text \<open>
  Where the cursor goes: to the selected message if the new list still has it, otherwise to the
  first message after it in the old list that survived, otherwise to the nearest one above it that
  did, and otherwise to the old row clamped to the new list.
\<close>

theorem resolve_selection_spec:
  "case find (\<lambda>i. i \<in> ids new) (drop index old) of
     Some i \<Rightarrow> resolve_selection old index new < length new
               \<and> ts_id (new ! resolve_selection old index new) = i
   | None \<Rightarrow>
       (case find (\<lambda>i. i \<in> ids new) (rev (take index old)) of
          Some i \<Rightarrow> resolve_selection old index new < length new
                    \<and> ts_id (new ! resolve_selection old index new) = i
        | None \<Rightarrow> resolve_selection old index new = min index (length new - 1))"
  using resolve_first resolve_above resolve_none by (simp split: option.split)

lemma resolve_keeps:
  assumes "index < length old" "old ! index \<in> ids new"
  shows "resolve_selection old index new < length new
         \<and> ts_id (new ! resolve_selection old index new) = old ! index"
  using assms by (intro resolve_first) (simp add: Cons_nth_drop_Suc [symmetric])

end
