(* ===== verification/Tui_Runs.thy ===== *)
theory Tui_Runs
  imports Tui_Sync
begin

text \<open>
  The terminal client over whole runs: the invariant of \<open>Tui_Keep\<close> in every reachable state, the
  cursor across everything that happens in the background, the answers a run accepts, and the
  repair of a view that lost frames.
\<close>

text \<open>
  C15. In every state of a run, whatever the events and whenever they come: the cursor is on a row of
  the list (or 0 on an empty list) and the list widget shows it; the offset is a page boundary; the
  error banner's tick count stays below 50 and the spinner within its frames; the scroll positions
  fit 16 bits; at most 256 deltas are buffered, and none unless a page is on its way; a raw view has
  its text and a confirmation its action.
\<close>

theorem tui_runs_keep_invariant: "tui_ok (foldl (turn L) (start_app url) es)"
  by (rule tui.run_keeps [OF start_app_ok])

section \<open>The cursor\<close>

definition on_message :: "bytes \<Rightarrow> tui \<Rightarrow> bool" where
  "on_message i s \<longleftrightarrow> selected s < length (messages s) \<and> ts_id (messages s ! selected s) = i"

lemma on_message_iff: "on_message i s \<longleftrightarrow> map_option ts_id (selected_message s) = Some i"
  by (auto simp: on_message_def selected_message_def)

lemma restore_on_message:
  assumes "on_message i s" "i \<in> ids (messages t)"
  shows "on_message i (restore_selection (capture_selection s) t)"
  using assms resolve_keeps [of "selected s" "map ts_id (messages s)" "messages t"]
  by (auto simp: on_message_def capture_selection_def)

lemma reanchor_on_message:
  assumes "on_message i s" "i \<in> ids (messages t)" "a = capture_selection s \<or> a = capture_selected_only s"
  shows "on_message i (snd (reanchor_selection a t))"
  using assms resolve_keeps [of "selected s" "map ts_id (messages s)" "messages t"]
    resolve_keeps [of 0 "[i]" "messages t"]
  by (auto simp: on_message_def capture_selection_def capture_selected_only_def selected_message_def)

lemma on_message_retarget [simp]: "on_message i (retarget_preview s) = on_message i s"
  by (simp add: on_message_def)

lemma update_first_ids [simp]:
  "(\<And>m. ts_id (f m) = ts_id m) \<Longrightarrow> map ts_id (update_first j f ms) = map ts_id ms"
  by (induction ms) auto

lemma update_first_nth_id [simp]:
  assumes "\<And>m. ts_id (f m) = ts_id m" "k < length ms"
  shows "ts_id (update_first j f ms ! k) = ts_id (ms ! k)"
  using update_first_ids [of f j ms, OF assms(1)] assms(2)
  by (metis nth_map update_first_length)

lemma on_message_marks [simp]:
  "on_message i (s\<lparr>total := n\<rparr>) = on_message i s" "on_message i (s\<lparr>view_stale := b\<rparr>) = on_message i s"
  "on_message i (s\<lparr>pending := p\<rparr>) = on_message i s"
  by (simp_all add: on_message_def)

lemma apply_live_on_message:
  assumes "on_message i s" "i \<in> ids (messages (apply_live d s))"
  shows "on_message i (apply_live d s)"
proof (cases d)
  case (MessageNew m)
  with assms show ?thesis by (auto simp: Let_def intro: restore_on_message)
next
  case (MessageDelete j)
  with assms show ?thesis by (auto simp: Let_def split: option.splits intro: restore_on_message)
next
  case MessagesClear
  then show ?thesis using assms by simp
qed (use assms in \<open>simp_all add: on_message_def\<close>)

text \<open>Events that are not the user's.\<close>

fun background :: "event \<Rightarrow> bool" where
  "background (Key _) = False"
| "background (Mouse _) = False"
| "background _ = True"

lemma still_on_message:
  "on_message i s \<Longrightarrow> messages t = messages s \<Longrightarrow> selected t = selected s \<Longrightarrow> on_message i t"
  by (simp add: on_message_def)

lemma fetch_frame [simp]:
  "messages (fetch_messages s) = messages s" "selected (fetch_messages s) = selected s"
  "total (fetch_messages s) = total s" "view_stale (fetch_messages s) = view_stale s"
  "search_query (fetch_messages s) = search_query s" "offset (fetch_messages s) = offset s"
  "page_size (fetch_messages s) = page_size s" "pending (fetch_messages s) = pending s"
  "fetch_generation (fetch_messages s) = fetch_generation s + 1" "loading (fetch_messages s)"
  by (simp_all add: fetch_messages_def Let_def)

lemma on_tick_frame [simp]:
  "messages (on_tick s) = messages s" "selected (on_tick s) = selected s"
  "search_query (on_tick s) = search_query s" "offset (on_tick s) = offset s"
  "page_size (on_tick s) = page_size s" "view_stale (on_tick s) = view_stale s"
  "loading (on_tick s) = loading s" "pending (on_tick s) = pending s"
  "fetch_generation (on_tick s) = fetch_generation s" "tasks (on_tick s) = tasks s"
  by (simp_all add: on_tick_def Let_def)

lemma preview_loaded_frame [simp]:
  "messages (handle_preview_loaded q j u d s) = messages s"
  "selected (handle_preview_loaded q j u d s) = selected s"
  "search_query (handle_preview_loaded q j u d s) = search_query s"
  "offset (handle_preview_loaded q j u d s) = offset s"
  "page_size (handle_preview_loaded q j u d s) = page_size s"
  "view_stale (handle_preview_loaded q j u d s) = view_stale s"
  "loading (handle_preview_loaded q j u d s) = loading s"
  "pending (handle_preview_loaded q j u d s) = pending s"
  "fetch_generation (handle_preview_loaded q j u d s) = fetch_generation s"
  by (simp_all add: handle_preview_loaded_def spawn_patch_def set_error_def Let_def split: sum.split)

lemma raw_loaded_frame [simp]:
  "messages (handle_raw_loaded t q j z x s) = messages s"
  "selected (handle_raw_loaded t q j z x s) = selected s"
  "search_query (handle_raw_loaded t q j z x s) = search_query s"
  "offset (handle_raw_loaded t q j z x s) = offset s"
  "page_size (handle_raw_loaded t q j z x s) = page_size s"
  "view_stale (handle_raw_loaded t q j z x s) = view_stale s"
  "loading (handle_raw_loaded t q j z x s) = loading s"
  "pending (handle_raw_loaded t q j z x s) = pending s"
  "fetch_generation (handle_raw_loaded t q j z x s) = fetch_generation s"
  by (simp_all add: handle_raw_loaded_def set_error_def Let_def split: sum.split raw_target.split)

lemma landed_on_message:
  assumes "on_message i s" "i \<in> ids (messages (handle_messages_fetched g r s))"
  shows "on_message i (handle_messages_fetched g r s)"
proof (cases "g = fetch_generation s")
  case False
  then show ?thesis using assms by (simp add: handle_messages_fetched_def)
next
  case g: True
  let ?b = "s\<lparr>loading := False, pending := no_deltas, view_changed := False\<rparr>"
  have b: "on_message i ?b" by (rule still_on_message [OF assms(1)]) simp_all
  show ?thesis
  proof (cases r)
    case (Inl e)
    then show ?thesis
      using g still_on_message [OF b] by (simp add: handle_messages_fetched_def set_error_def)
  next
    case (Inr resp)
    let ?a = "if view_changed s then capture_selected_only ?b else capture_selection ?b"
    let ?t = "(replay_deltas (pd_events (pending s))
      (?b\<lparr>messages := lr_messages resp, total := lr_total resp, view_stale := overflowed (pending s)\<rparr>))
      \<lparr>error := None, error_ticks := 0\<rparr>"
    have "messages (handle_messages_fetched g r s) = messages ?t"
      using g Inr by (simp add: handle_messages_fetched_def Let_def case_prod_beta)
    then have "on_message i (snd (reanchor_selection ?a ?t))"
      using assms(2) b by (intro reanchor_on_message [of i ?b]) simp_all
    then show ?thesis using g Inr by (simp add: handle_messages_fetched_def Let_def case_prod_beta)
  qed
qed

text \<open>
  C16. Nothing that happens in the background moves the cursor off its message: if a message is
  selected and, after a tick, a frame, a socket change or an answer to any request, it is still
  listed, then it is still the selected one. A key pressed for it acts on it.
\<close>

theorem background_keeps_selected_message:
  assumes "background e" "on_message i s" "i \<in> ids (messages (dispatch L e s))"
  shows "on_message i (dispatch L e s)"
proof (cases e)
  case (WsMessage t)
  then show ?thesis
    using assms by (auto simp: handle_ws_message_def intro!: apply_live_on_message split: option.splits if_splits)
next
  case (MessagesFetched g r)
  then show ?thesis using assms landed_on_message by simp
next
  case (Deleted j r)
  then show ?thesis
    using assms by (auto simp: handle_deleted_def intro: restore_on_message split: sum.splits)
next
  case (AllDeleted r)
  then show ?thesis
    using assms by (auto simp: handle_all_deleted_def split: sum.splits)
next
  case (Patched j rd st r)
  let ?f = "\<lambda>m. let m = (case rd of Some v \<Rightarrow> m\<lparr>ts_is_read := v\<rparr> | None \<Rightarrow> m)
               in case st of Some v \<Rightarrow> m\<lparr>ts_is_starred := v\<rparr> | None \<Rightarrow> m"
  have "ts_id (update_first j ?f (messages s) ! selected s) = ts_id (messages s ! selected s)"
    using assms(2) by (intro update_first_nth_id) (simp_all add: Let_def on_message_def split: option.split)
  with Patched assms show ?thesis
    by (simp add: handle_patched_def on_message_def split: sum.splits)
qed (use assms in \<open>simp_all add: refetch_if_stale_def handle_ws_status_def handle_ws_overflow_def
      on_message_def Let_def\<close>)

theorem background_keeps_selected_message_witness:
  "on_message ''a'' (dispatch \<lparr>decode_delta = decode0, contains = (\<lambda>_ _. False)\<rparr> (WsMessage ''new b'')
     ((new_app [])\<lparr>messages := [row0 ''a''], total := 1\<rparr>))"
  by (rule background_keeps_selected_message)
    (simp_all add: on_message_def new_app_def row0_def handle_ws_message_def decode0_def is_listed_def
      insert_newest_def Let_def)

section \<open>Fetches\<close>

fun is_fetch :: "task \<Rightarrow> bool" where
  "is_fetch (ListMessages _ _ _ _) = True"
| "is_fetch _ = False"

fun fetch_id :: "task \<Rightarrow> 64 word" where
  "fetch_id (ListMessages g _ _ _) = g"
| "fetch_id _ = 0"

definition fetches :: "tui \<Rightarrow> task list" where
  "fetches s = filter is_fetch (tasks s)"

definition view_request :: "tui \<Rightarrow> task" where
  "view_request s =
     ListMessages (fetch_generation s) (if search_query s = [] then None else Some (search_query s))
       (page_size s) (offset s)"

text \<open>What an event that neither starts nor lands a fetch leaves alone, or only adds to.\<close>

definition calm :: "tui \<Rightarrow> tui \<Rightarrow> bool" where
  "calm s t \<longleftrightarrow>
     fetches t = fetches s \<and> fetch_generation t = fetch_generation s \<and> loading t = loading s
     \<and> (overflowed (pending s) \<longrightarrow> overflowed (pending t)) \<and> (view_stale s \<longrightarrow> view_stale t)"

definition same_view :: "tui \<Rightarrow> tui \<Rightarrow> bool" where
  "same_view s t \<longleftrightarrow> search_query t = search_query s \<and> page_size t = page_size s \<and> offset t = offset s"

lemmas quiet_defs = calm_def same_view_def

lemma fetches_spawn [simp]:
  "fetches (spawn_owned k s) = (if is_fetch k then fetches s @ [k] else fetches s)"
  by (simp add: fetches_def)

lemma fetches_update [simp]:
  "fetches (s\<lparr>messages := ms\<rparr>) = fetches s" "fetches (s\<lparr>total := n\<rparr>) = fetches s"
  "fetches (s\<lparr>view_stale := b\<rparr>) = fetches s" "fetches (s\<lparr>pending := p\<rparr>) = fetches s"
  by (simp_all add: fetches_def)

lemma fetches_fetch: "fetches (fetch_messages s) = fetches s @ [view_request (fetch_messages s)]"
  by (simp add: fetch_messages_def view_request_def fetches_def Let_def)

lemma fetches_load_preview [simp]: "fetches (load_preview s) = fetches s"
  by (simp add: load_preview_def clear_preview_def next_request_id_def fetches_def Let_def split: option.split)

lemma fetches_retarget [simp]: "fetches (retarget_preview s) = fetches s"
  by (simp add: retarget_preview_def) (simp add: clear_preview_def fetches_def)

lemma fetches_reanchor [simp]: "fetches (snd (reanchor_selection a s)) = fetches s"
  by (simp add: reanchor_selection_def sync_list_state_def fetches_def Let_def)

lemma fetches_restore [simp]: "fetches (restore_selection a s) = fetches s"
  by (simp add: restore_selection_def Let_def case_prod_beta)

lemma record_delta_overflowed: "overflowed p \<Longrightarrow> overflowed (record_delta d p)"
  by (simp add: record_delta_def)

lemma quiet_trans:
  "calm s t \<Longrightarrow> calm t u \<Longrightarrow> calm s u" "same_view s t \<Longrightarrow> same_view t u \<Longrightarrow> same_view s u"
  by (simp_all add: quiet_defs)

lemma quiet_load_preview: "calm s (load_preview s)" "same_view s (load_preview s)"
  by (simp_all add: quiet_defs)

lemma quiet_moved:
  "calm s (when_moved (select_message k s))" "same_view s (when_moved (select_message k s))"
  "calm s (when_moved (select_next s))" "same_view s (when_moved (select_next s))"
  "calm s (when_moved (select_prev s))" "same_view s (when_moved (select_prev s))"
  by (simp_all add: quiet_defs when_moved_def select_next_def select_prev_def select_message_def
      sync_list_state_def fetches_def [of "_ \<lparr>list_scroll_position := _\<rparr>"] fetches_def [of s])

lemma quiet_actions:
  "calm s (toggle_read s)" "same_view s (toggle_read s)" "calm s (toggle_star s)" "same_view s (toggle_star s)"
  "calm s (delete_selected s)" "same_view s (delete_selected s)" "calm s (show_raw s)"
  "same_view s (show_raw s)" "calm s (ensure_raw_loaded s)" "same_view s (ensure_raw_loaded s)"
  by (simp_all add: quiet_defs toggle_read_def toggle_star_def delete_selected_def show_raw_def
      ensure_raw_loaded_def request_raw_def next_request_id_def spawn_patch_def fetches_def Let_def
      split: option.split)

definition quiet :: "tui \<Rightarrow> tui \<Rightarrow> bool" where
  "quiet s t \<longleftrightarrow> calm s t \<and> same_view s t"

definition starts_fetch :: "tui \<Rightarrow> tui \<Rightarrow> bool" where
  "starts_fetch s t \<longleftrightarrow> (\<exists>u. t = fetch_messages u \<and> calm s u)"

lemma quietI:
  assumes "tasks t = tasks s" "fetch_generation t = fetch_generation s" "loading t = loading s"
    "pending t = pending s" "view_stale t = view_stale s" "search_query t = search_query s"
    "page_size t = page_size s" "offset t = offset s"
  shows "quiet s t"
  using assms by (simp add: quiet_def quiet_defs fetches_def)

lemma startsI: "calm s u \<Longrightarrow> starts_fetch s (fetch_messages u)"
  by (auto simp: starts_fetch_def)

lemma calmI:
  assumes "tasks t = tasks s" "fetch_generation t = fetch_generation s" "loading t = loading s"
    "pending t = pending s" "view_stale t = view_stale s"
  shows "calm s t"
  using assms by (simp add: calm_def fetches_def)

lemmas quiet_moves = quiet_moved quiet_actions

lemma quiet_acts:
  "quiet s (when_moved (select_message k s))" "quiet s (when_moved (select_next s))"
  "quiet s (when_moved (select_prev s))" "quiet s (toggle_read s)" "quiet s (toggle_star s)"
  "quiet s (delete_selected s)" "quiet s (show_raw s)" "quiet s (ensure_raw_loaded s)"
  by (simp_all add: quiet_def quiet_moves)

lemma quiet_trans2: "quiet s t \<Longrightarrow> quiet t u \<Longrightarrow> quiet s u"
  by (auto simp: quiet_def intro: quiet_trans)

lemma quiet_switch: "quiet s (switch_preview_tab t s)"
  by (simp add: switch_preview_tab_def quietI)

lemma quiet_switch_raw: "quiet s (ensure_raw_loaded (switch_preview_tab t s))"
  by (rule quiet_trans2 [OF quiet_switch quiet_acts(8)])

lemma pages_class:
  "quiet s (next_page s) \<or> starts_fetch s (next_page s)" "quiet s (prev_page s) \<or> starts_fetch s (prev_page s)"
  by (simp_all add: next_page_def prev_page_def Let_def quietI startsI calmI)

lemma list_key_class: "quiet s (handle_list_key k s) \<or> starts_fetch s (handle_list_key k s)"
  by (simp add: handle_list_key_def Let_def quiet_acts pages_class quietI)

lemma preview_key_class: "quiet s (handle_preview_key k s)"
  by (simp add: handle_preview_key_def Let_def quiet_acts quiet_switch quiet_switch_raw quietI)

lemma search_key_class: "quiet s (handle_search_key k s) \<or> starts_fetch s (handle_search_key k s)"
  by (simp add: handle_search_key_def quietI startsI calmI split: key_code.split)

lemma quiet_delete_all: "quiet s ((delete_all s)\<lparr>mode := m, confirm_action := a\<rparr>)"
  by (simp add: quiet_def quiet_defs delete_all_def fetches_def)

lemma key_class: "quiet s (handle_key k s) \<or> starts_fetch s (handle_key k s)"
  using list_key_class [of s k] preview_key_class [of s k] search_key_class [of s k]
  by (simp add: handle_key_def handle_normal_key_def handle_raw_view_key_def handle_confirm_key_def
      handle_help_key_def Let_def quietI quiet_delete_all split: mode.split focus.split)

lemma click_tabs_quiet: "quiet s (click_tabs x ts s)"
  by (induction x ts s rule: click_tabs.induct)
    (simp_all add: Let_def quiet_switch_raw quiet_switch quietI)

lemma mouse_class: "quiet s (handle_mouse hit ev s)"
proof -
  have "quiet s ((click_tabs x ts s)\<lparr>focus := FocusPreview\<rparr>)" for x ts
    by (rule quiet_trans2 [OF click_tabs_quiet [of s x ts]]) (simp add: quietI)
  moreover have "quiet s (load_preview (sync_list_state (s\<lparr>focus := f, selected := j\<rparr>)))" for f j
    by (rule quiet_trans2 [of _ "sync_list_state (s\<lparr>focus := f, selected := j\<rparr>)"])
      (simp_all add: quiet_def quiet_load_preview, simp_all add: sync_list_state_def quiet_defs fetches_def)
  ultimately show ?thesis
    by (simp add: handle_mouse_def Let_def quiet_acts quietI split: mouse_kind.split)
qed

text \<open>Every event is quiet, starts a fetch, or is the answer to the latest fetch.\<close>

fun lands :: "event \<Rightarrow> tui \<Rightarrow> bool" where
  "lands (MessagesFetched g _) s = (g = fetch_generation s)"
| "lands _ s = False"

lemma live_quiet: "quiet s (apply_live d s)"
  by (cases d) (simp_all add: quiet_def quiet_defs insert_newest_def Let_def split: option.split)

lemma ws_message_quiet: "quiet s (handle_ws_message f t s)"
proof -
  have "quiet s (if loading s then s\<lparr>pending := record_delta d (pending s)\<rparr> else s)" for d
    by (simp add: quiet_def quiet_defs record_delta_overflowed)
  then show ?thesis
    by (auto simp: handle_ws_message_def quietI split: option.split intro: quiet_trans2 [OF _ live_quiet])
qed

lemma replies_quiet:
  "quiet s (handle_preview_loaded q j u d s)" "quiet s (handle_raw_loaded w q j z x s)"
  "quiet s (handle_patched j rd st r s)" "quiet s (handle_deleted j r s)" "quiet s (handle_all_deleted r s)"
  by (simp_all add: quiet_def quiet_defs)
    (simp_all add: handle_preview_loaded_def handle_raw_loaded_def handle_patched_def handle_deleted_def
      handle_all_deleted_def spawn_patch_def set_error_def fetches_def [of "_ \<lparr>preview := _\<rparr>"]
      fetches_def [of "_ \<lparr>error_ticks := _\<rparr>"] fetches_def [of "_ \<lparr>mode := _\<rparr>"]
      fetches_def [of "_ \<lparr>preview_raw_notice := _\<rparr>"] fetches_def [of s] Let_def
      split: sum.split raw_target.split)

lemma dispatch_class:
  assumes "\<not> lands e s" shows "quiet s (dispatch L e s) \<or> starts_fetch s (dispatch L e s)"
proof (cases e)
  case Tick
  have "quiet s (on_tick s)" by (rule quietI) simp_all
  then show ?thesis using Tick by (auto simp: refetch_if_stale_def Let_def quiet_def intro: startsI)
next
  case (WsStatus c)
  then show ?thesis by (simp add: handle_ws_status_def Let_def quietI startsI calmI)
next
  case WsOverflow
  then show ?thesis by (simp add: handle_ws_overflow_def Let_def quiet_def quiet_defs)
qed (use assms in \<open>simp_all add: key_class mouse_class ws_message_quiet replies_quiet quietI
      handle_messages_fetched_def\<close>)

lemma replay_stale: "view_stale s \<Longrightarrow> view_stale (replay_deltas ds s)"
proof -
  have "view_stale t \<Longrightarrow> view_stale (replay_from l i ds t)" for l i ds t
    by (induction l i ds t rule: replay_from.induct) (simp_all add: Let_def replay_delta_stale)
  then show "view_stale s \<Longrightarrow> ?thesis" by (simp add: replay_deltas_def)
qed

lemma landing_frame:
  "fetches (handle_messages_fetched g r s) = fetches s"
  "fetch_generation (handle_messages_fetched g r s) = fetch_generation s"
  "same_view s (handle_messages_fetched g r s)"
  by (simp_all add: handle_messages_fetched_def Let_def case_prod_beta same_view_def set_error_def
      split: sum.split) (simp_all add: fetches_def)

lemma landing_stale:
  assumes "view_stale s" "overflowed (pending s) \<or> (\<exists>x. r = Inl x)"
  shows "view_stale (handle_messages_fetched g r s)"
  using assms
  by (auto simp: handle_messages_fetched_def Let_def case_prod_beta set_error_def replay_stale split: sum.split)

lemma landing_loading: "\<not> loading (handle_messages_fetched (fetch_generation s) r s)"
  by (simp add: handle_messages_fetched_def Let_def case_prod_beta set_error_def split: sum.split)

subsection \<open>The page that lands is the page on the screen\<close>

text \<open>The fetches of a run are numbered in order and the latest asked for the current view.\<close>

definition fetch_log_ok :: "tui \<Rightarrow> bool" where
  "fetch_log_ok s \<longleftrightarrow>
     fetches s \<noteq> [] \<and> last (fetches s) = view_request s
     \<and> map fetch_id (fetches s) = map of_nat [1..<Suc (length (fetches s))]"

lemma view_request_cong:
  "same_view s t \<Longrightarrow> fetch_generation t = fetch_generation s \<Longrightarrow> view_request t = view_request s"
  by (simp add: view_request_def same_view_def)

lemma fetch_log_quiet:
  "fetch_log_ok s \<Longrightarrow> fetches t = fetches s \<Longrightarrow> fetch_generation t = fetch_generation s \<Longrightarrow> same_view s t
   \<Longrightarrow> fetch_log_ok t"
  by (simp add: fetch_log_ok_def view_request_cong)

lemma last_fetch_id:
  assumes "fetch_log_ok s" shows "fetch_generation s = of_nat (length (fetches s))"
proof -
  let ?fs = "fetches s"
  have fs: "?fs \<noteq> []" "last ?fs = view_request s" "map fetch_id ?fs = map of_nat [1..<Suc (length ?fs)]"
    using assms unfolding fetch_log_ok_def by blast+
  have "fetch_id (last ?fs) = last (map fetch_id ?fs)" using fs(1) by (simp add: last_map)
  also have "\<dots> = last (map of_nat [1..<Suc (length ?fs)])" by (simp only: fs(3))
  also have "\<dots> = of_nat (length ?fs)" using fs(1) by (cases ?fs) simp_all
  finally show ?thesis by (simp add: fs(2) view_request_def)
qed

lemma word_nat_inj:
  "(of_nat a :: 64 word) = of_nat b \<Longrightarrow> a < 2 ^ 64 \<Longrightarrow> b < 2 ^ 64 \<Longrightarrow> a = b"
  by (simp add: word_of_nat_eq_iff take_bit_nat_eq_self)

lemma fetch_log_starts: "fetch_log_ok s \<Longrightarrow> starts_fetch s t \<Longrightarrow> fetch_log_ok t"
proof -
  assume s: "fetch_log_ok s" and "starts_fetch s t"
  then obtain u where t: "t = fetch_messages u" "fetches u = fetches s" "fetch_generation u = fetch_generation s"
    by (auto simp: starts_fetch_def calm_def)
  have "fetch_id (view_request t) = of_nat (Suc (length (fetches s)))"
    using t last_fetch_id [OF s] by (simp add: view_request_def)
  with s t show ?thesis by (simp add: fetch_log_ok_def fetches_fetch)
qed

lemma dispatch_fetch_log: "fetch_log_ok s \<Longrightarrow> fetch_log_ok (dispatch L e s)"
proof (cases "lands e s")
  case True
  then obtain r where "e = MessagesFetched (fetch_generation s) r" by (cases e) auto
  moreover assume "fetch_log_ok s"
  ultimately show ?thesis using landing_frame by (auto intro: fetch_log_quiet)
next
  case False
  moreover assume "fetch_log_ok s"
  ultimately show ?thesis
    using dispatch_class [OF False, of L]
    by (auto simp: quiet_def calm_def intro: fetch_log_quiet fetch_log_starts)
qed

lemma quiet_outside: "quiet s (outside_step u s)"
  by (simp add: outside_step_def Let_def quietI split: option.split)

interpretation fetch_log: kept_invariant "turn L" fetch_log_ok for L
  using quiet_outside
  by unfold_locales (auto simp: turn_def quiet_def calm_def intro!: dispatch_fetch_log intro: fetch_log_quiet)

lemma start_fetch_log: "fetch_log_ok (start_app url)"
proof -
  have "fetches (connect_websocket (new_app url)) = []" by (simp add: connect_websocket_def fetches_def new_app_def)
  moreover have "fetch_generation (connect_websocket (new_app url)) = 0"
    by (simp add: connect_websocket_def new_app_def)
  ultimately show ?thesis
    by (simp add: start_app_def fetch_log_ok_def fetches_fetch view_request_def)
qed

text \<open>
  An accepted page is a page of the view on the screen: in every state of a run (of fewer than
  2^64 fetches), a list request that carries the current generation, the only one whose answer is
  taken, asked for the current filter, page size and offset. Answers to earlier filters or pages
  carry other generations, and change nothing.
\<close>

theorem accepted_page_is_current_view:
  assumes "s = foldl (turn L) (start_app url) es" "length (fetches s) < 2 ^ 64"
    and "ListMessages g query lim off \<in> set (tasks s)"
  shows "if g = fetch_generation s
         then query = (if search_query s = [] then None else Some (search_query s))
              \<and> lim = page_size s \<and> off = offset s
         else dispatch L (MessagesFetched g r) s = s"
proof (cases "g = fetch_generation s")
  case True
  let ?t = "ListMessages g query lim off" and ?n = "length (fetches s)"
  have log: "fetch_log_ok s" unfolding assms(1) by (rule fetch_log.run_keeps [OF start_fetch_log])
  have "?t \<in> set (fetches s)" using assms(3) by (simp add: fetches_def)
  then obtain k where k: "k < ?n" "fetches s ! k = ?t" by (auto simp: in_set_conv_nth)
  have "map fetch_id (fetches s) ! k = map of_nat [1..<Suc ?n] ! k" using log by (simp add: fetch_log_ok_def)
  then have "(of_nat (Suc k) :: 64 word) = of_nat ?n"
    using k True last_fetch_id [OF log] by (simp del: upt_Suc)
  then have "Suc k = ?n" using k(1) assms(2) by (intro word_nat_inj) simp_all
  then have "?t = view_request s"
    using k log by (metis diff_Suc_1 fetch_log_ok_def last_conv_nth)
  with True show ?thesis by (simp add: view_request_def)
next
  case False
  then show ?thesis by (simp add: handle_messages_fetched_def)
qed

definition tab_key :: "bytes \<Rightarrow> outside \<times> event" where
  "tab_key c = (\<lparr>passes = 0, ended = [], drawn = None\<rparr>, Key \<lparr>code = Char c, control = False\<rparr>)"

definition lib0 :: tui_lib where
  "lib0 = \<lparr>decode_delta = decode0, contains = (\<lambda>_ _. False)\<rparr>"

lemma start_app_tasks:
  "tasks (start_app url) = [ConnectWebsocket, ListMessages 1 None 50 0]"
  "fetch_generation (start_app url) = 1" "search_query (start_app url) = []"
  by (simp_all add: start_app_def fetch_messages_def connect_websocket_def new_app_def Let_def)

theorem accepted_page_is_current_view_witness:
  "(if (1 :: 64 word) = fetch_generation (start_app [])
    then None = (if search_query (start_app []) = [] then None else Some (search_query (start_app [])))
         \<and> 50 = page_size (start_app []) \<and> 0 = offset (start_app [])
    else dispatch lib0 (MessagesFetched 1 (Inl [])) (start_app []) = start_app [])"
  by (rule accepted_page_is_current_view [where es = "[]" and url = "[]"])
    (simp_all add: start_app_tasks fetches_def)

section \<open>Lost frames are made up for\<close>

text \<open>
  The view owes a resync since the moment the app had started \<open>c\<close> fetches: it is stale, and a
  fetch that was already on its way then will leave it stale.
\<close>

definition owes :: "nat \<Rightarrow> tui \<Rightarrow> bool" where
  "owes c s \<longleftrightarrow>
     view_stale s \<and> c \<le> length (fetches s)
     \<and> (loading s \<and> length (fetches s) = c \<longrightarrow> overflowed (pending s))"

lemma overflow_owes: "owes (length (fetches s)) (handle_ws_overflow s)"
  by (simp add: owes_def handle_ws_overflow_def Let_def)

lemma owes_quiet: "owes c s \<Longrightarrow> calm s t \<Longrightarrow> owes c t"
  by (simp add: owes_def calm_def)

lemma owes_starts: "owes c s \<Longrightarrow> starts_fetch s t \<Longrightarrow> owes c t"
  by (auto simp: owes_def starts_fetch_def calm_def fetches_fetch)

text \<open>The debt is paid by the answer to a fetch that began after it, and by nothing else.\<close>

fun repays :: "nat \<Rightarrow> event \<Rightarrow> tui \<Rightarrow> bool" where
  "repays c (MessagesFetched g (Inr _)) s = (g = fetch_generation s \<and> c < length (fetches s))"
| "repays c _ s = False"

lemma owes_step:
  assumes "owes c s" "lands e s \<longrightarrow> loading s" "\<not> repays c e s"
  shows "owes c (dispatch L e s)"
proof (cases "lands e s")
  case True
  then obtain r where e: "e = MessagesFetched (fetch_generation s) r" by (cases e) auto
  have "overflowed (pending s) \<or> (\<exists>x. r = Inl x)"
    using assms True e by (cases r) (auto simp: owes_def)
  then have "view_stale (dispatch L e s)" using assms(1) e landing_stale by (auto simp: owes_def)
  then show ?thesis
    using assms(1) e by (auto simp: owes_def landing_frame landing_loading)
next
  case False
  from dispatch_class [OF this, of L] show ?thesis
    using owes_quiet [OF assms(1)] owes_starts [OF assms(1)] unfolding quiet_def by blast
qed

text \<open>
  Each fetch is one task and answers once: an answer that carries the current generation comes
  while the app is still waiting for it.
\<close>

fun answers_once :: "tui_lib \<Rightarrow> tui \<Rightarrow> (outside \<times> event) list \<Rightarrow> bool" where
  "answers_once L s [] = True"
| "answers_once L s (e # es) =
     ((lands (snd e) s \<longrightarrow> loading s) \<and> answers_once L (turn L s e) es)"

fun repaid :: "tui_lib \<Rightarrow> nat \<Rightarrow> tui \<Rightarrow> (outside \<times> event) list \<Rightarrow> bool" where
  "repaid L c s [] = False"
| "repaid L c s (e # es) = (running s \<and> repays c (snd e) s \<or> repaid L c (turn L s e) es)"

lemma lands_outside: "lands e (outside_step u s) = lands e s"
  using quiet_outside [of s u] by (cases e) (simp_all add: quiet_def calm_def)

lemma repays_outside: "repays c e (outside_step u s) = repays c e s"
  using quiet_outside [of s u] by (cases "(c, e, s)" rule: repays.cases) (simp_all add: quiet_def calm_def)

lemma owes_turn:
  assumes "owes c s" "lands (snd e) s \<longrightarrow> loading s" "\<not> (running s \<and> repays c (snd e) s)"
  shows "owes c (turn L s e)"
proof (cases "running s")
  case True
  let ?o = "outside_step (fst e) s"
  have q: "calm s ?o" using quiet_outside by (simp add: quiet_def)
  have "owes c ?o" using owes_quiet [OF assms(1) q] .
  moreover have "lands (snd e) ?o \<longrightarrow> loading ?o"
    using assms(2) q lands_outside by (simp add: calm_def)
  moreover have "\<not> repays c (snd e) ?o" using assms(3) True repays_outside by simp
  ultimately show ?thesis using True owes_step by (simp add: turn_def)
qed (use assms in \<open>simp add: turn_def\<close>)

lemma owes_run:
  assumes "owes c s" "answers_once L s es" "\<not> repaid L c s es"
  shows "owes c (foldl (turn L) s es)"
  using assms by (induction es arbitrary: s) (auto intro!: owes_turn)

text \<open>
  C18. A dropped frame is made up for: after an overflow mark, through whatever events follow, the
  view stays stale until a page lands whose fetch started after the mark. In particular a page that
  was already on its way, and so may miss the dropped frame, does not clear it.
\<close>

theorem overflow_is_repaired:
  assumes "answers_once L (handle_ws_overflow s) es"
    and "\<not> repaid L (length (fetches s)) (handle_ws_overflow s) es"
  shows "view_stale (foldl (turn L) (handle_ws_overflow s) es)"
  using owes_run [OF overflow_owes assms] by (simp add: owes_def)

definition landing_event :: "64 word \<Rightarrow> outside \<times> event" where
  "landing_event g = (\<lparr>passes = 0, ended = [], drawn = None\<rparr>,
     MessagesFetched g (Inr \<lparr>lr_messages = [row0 ''a''], lr_total = 1\<rparr>))"

theorem overflow_is_repaired_witness:
  "view_stale (foldl (turn lib0) (handle_ws_overflow (start_app [])) [landing_event 1])"
proof (rule overflow_is_repaired)
  show "answers_once lib0 (handle_ws_overflow (start_app [])) [landing_event 1]"
    by (simp add: landing_event_def handle_ws_overflow_def start_app_def Let_def)
  show "\<not> repaid lib0 (length (fetches (start_app []))) (handle_ws_overflow (start_app [])) [landing_event 1]"
    by (simp add: landing_event_def handle_ws_overflow_def fetches_def start_app_tasks Let_def)
qed

text \<open>
  A stale view is fetched again: once no page is on its way and two seconds have passed since
  the last fetch, the next tick starts a fetch of the view on the screen, whatever filter or page
  that is, and a tick that comes earlier, or on a view that is not stale, starts none.
\<close>

theorem stale_view_is_refetched:
  "fetches (dispatch L Tick s) =
     (if view_stale s \<and> \<not> loading s
         \<and> (case last_fetch_at s of None \<Rightarrow> True | Some t \<Rightarrow> clock s - t \<ge> STALE_VIEW_REFETCH_INTERVAL)
      then fetches s @ [view_request (dispatch L Tick s)] else fetches s)
   \<and> (view_stale s \<longrightarrow> view_stale (dispatch L Tick s))"
proof -
  have t: "fetches (on_tick s) = fetches s" "last_fetch_at (on_tick s) = last_fetch_at s" "clock (on_tick s) = clock s"
    by (simp_all add: on_tick_def fetches_def Let_def)
  then show ?thesis by (simp add: refetch_if_stale_def fetches_fetch Let_def split: option.split)
qed

theorem stale_view_is_refetched_witness:
  "view_stale (dispatch lib0 Tick ((start_app [])\<lparr>view_stale := True, loading := False, clock := 2000\<rparr>))"
  using stale_view_is_refetched [of lib0 "(start_app [])\<lparr>view_stale := True, loading := False, clock := 2000\<rparr>"]
  by simp

section \<open>A preview that never ends\<close>

text \<open>
  Clearing the list under a preview that is still loading leaves the pane loading: the request
  is forgotten, so its answer is ignored, but the loading mark stays set. The pane shows the
  spinner, not the hint to select a message, until another message is previewed.
\<close>

theorem cleared_list_keeps_preview_loading:
  assumes "selected_message s \<noteq> None" "preview_loading s" "\<not> loading s"
    and "decode_delta L t = Some MessagesClear"
  shows "let s' = dispatch L (WsMessage t) s
         in messages s' = [] \<and> pending_preview s' = None \<and> preview_loading s'
            \<and> dispatch L (PreviewLoaded q i u d) s' = s'"
  using assms
  by (auto simp: handle_ws_message_def restore_selection_def reanchor_selection_def sync_list_state_def
      capture_selection_def selected_message_def retarget_preview_def load_preview_def clear_preview_def
      handle_preview_loaded_def Let_def split: if_splits)

definition lib_clear :: tui_lib where
  "lib_clear = \<lparr>decode_delta = (\<lambda>_. Some MessagesClear), contains = (\<lambda>_ _. False)\<rparr>"

theorem cleared_list_keeps_preview_loading_witness:
  "preview_loading (dispatch lib_clear (WsMessage [])
     ((new_app [])\<lparr>messages := [row0 ''a''], preview_loading := True, pending_preview := Some 1\<rparr>))"
  using cleared_list_keeps_preview_loading
    [of "(new_app [])\<lparr>messages := [row0 ''a''], preview_loading := True, pending_preview := Some 1\<rparr>"
        lib_clear "[]"]
  by (simp add: lib_clear_def selected_message_def new_app_def Let_def)

end
