(* ===== verification/Tui_Socket.thy ===== *)
theory Tui_Socket
  imports Tui_Runs
begin

text \<open>
  The socket side of the terminal client (\<open>connect_websocket\<close>, \<open>connect_ws\<close> and \<open>pump_ws_frames\<close> of
  \<open>app.rs\<close>): the reconnect delays, which frames of a socket are forwarded, and the forwarding loop
  as a step relation beside the consumer and the other producers of the bounded event queue.
\<close>

section \<open>Reconnecting\<close>

text \<open>One turn of the reconnect loop: the pause after an attempt and the delay it leaves, in seconds.\<close>

definition reconnect_turn :: "bool \<Rightarrow> nat \<Rightarrow> nat \<times> nat" where
  "reconnect_turn connected delay =
     (let delay = (if connected then 2 else delay) in (delay, min (delay * 2) 30))"

fun reconnect_pauses :: "bool list \<Rightarrow> nat \<Rightarrow> nat list" where
  "reconnect_pauses [] delay = []"
| "reconnect_pauses (c # cs) delay =
     (let (pause, delay) = reconnect_turn c delay in pause # reconnect_pauses cs delay)"

lemma reconnect_pauses_bounded:
  "2 \<le> delay \<Longrightarrow> delay \<le> 30 \<Longrightarrow> p \<in> set (reconnect_pauses cs delay) \<Longrightarrow> 2 \<le> p \<and> p \<le> 30"
  by (induction cs delay rule: reconnect_pauses.induct) (auto simp: reconnect_turn_def Let_def split: if_splits)

section \<open>Frames\<close>

datatype ws_item = TextFrame bytes | CloseFrame | FrameError | OtherFrame

fun ends_stream :: "ws_item \<Rightarrow> bool" where
  "ends_stream CloseFrame = True"
| "ends_stream FrameError = True"
| "ends_stream _ = False"

fun text_of :: "ws_item \<Rightarrow> bytes option" where
  "text_of (TextFrame t) = Some t"
| "text_of _ = None"

definition text_frames :: "ws_item list \<Rightarrow> bytes list" where
  "text_frames items = List.map_filter text_of (takeWhile (\<lambda>i. \<not> ends_stream i) items)"

section \<open>Forwarding\<close>

definition EVENT_QUEUE_CAPACITY :: nat where "EVENT_QUEUE_CAPACITY = 1024"

datatype pump_at = Pumping | Paying | Returned

text \<open>
  \<open>trail\<close> is what happened to the frames and marks, in order; \<open>handled\<close> is what the app took out of
  the queue.
\<close>

datatype fate = Sent event | Dropped bytes

record pump =
  stage :: pump_at
  frames :: "bytes list"
  overflow_owed :: bool
  queue :: "event list"
  handled :: "event list"
  closed :: bool
  trail :: "fate list"

definition has_room :: "pump \<Rightarrow> bool" where
  "has_room p \<longleftrightarrow> \<not> closed p \<and> length (queue p) < EVENT_QUEUE_CAPACITY"

definition push :: "event \<Rightarrow> pump \<Rightarrow> pump" where
  "push e p = p\<lparr>queue := queue p @ [e], trail := trail p @ [Sent e]\<rparr>"

definition try_send :: "event \<Rightarrow> pump \<Rightarrow> bool \<times> pump" where
  "try_send e p = (if has_room p then (True, push e p) else (False, p))"

text \<open>
  The arm of the loop that has a frame. The app may take events out of the queue between the two
  attempts: \<open>taken\<close> says how many.
\<close>

definition take_events :: "nat \<Rightarrow> pump \<Rightarrow> pump" where
  "take_events n p = p\<lparr>handled := handled p @ take n (queue p), queue := drop n (queue p)\<rparr>"

definition on_frame :: "nat \<Rightarrow> bytes \<Rightarrow> pump \<Rightarrow> pump" where
  "on_frame taken text p =
     (if overflow_owed p then p\<lparr>trail := trail p @ [Dropped text]\<rparr>
      else
        (case try_send (WsMessage text) p of
           (True, p) \<Rightarrow> p
         | (False, p) \<Rightarrow>
             (case try_send WsOverflow (take_events taken (p\<lparr>trail := trail p @ [Dropped text]\<rparr>)) of
                (sent, p) \<Rightarrow> p\<lparr>overflow_owed := \<not> sent\<rparr>)))"

inductive pump_step :: "pump \<Rightarrow> pump \<Rightarrow> bool" where
  pay: "\<lbrakk>stage p = Pumping; overflow_owed p; has_room p\<rbrakk>
        \<Longrightarrow> pump_step p ((push WsOverflow p)\<lparr>overflow_owed := False\<rparr>)"
| pay_closed: "\<lbrakk>stage p = Pumping; overflow_owed p; closed p\<rbrakk> \<Longrightarrow> pump_step p (p\<lparr>stage := Returned\<rparr>)"
| frame: "\<lbrakk>stage p = Pumping; frames p = t # ts\<rbrakk> \<Longrightarrow> pump_step p (on_frame n t (p\<lparr>frames := ts\<rparr>))"
| no_frame: "\<lbrakk>stage p = Pumping; frames p = []\<rbrakk>
        \<Longrightarrow> pump_step p (p\<lparr>stage := (if overflow_owed p then Paying else Returned)\<rparr>)"
| last_pay: "\<lbrakk>stage p = Paying; has_room p\<rbrakk>
        \<Longrightarrow> pump_step p ((push WsOverflow p)\<lparr>overflow_owed := False, stage := Returned\<rparr>)"
| last_closed: "\<lbrakk>stage p = Paying; closed p\<rbrakk> \<Longrightarrow> pump_step p (p\<lparr>stage := Returned\<rparr>)"

text \<open>The app taking an event, the app ending, and the other producers of the queue.\<close>

inductive queue_step :: "pump \<Rightarrow> pump \<Rightarrow> bool" where
  handle: "\<lbrakk>queue p \<noteq> []; \<not> closed p\<rbrakk> \<Longrightarrow> queue_step p (take_events 1 p)"
| produce: "\<lbrakk>has_room p; \<forall>t. e \<noteq> WsMessage t; e \<noteq> WsOverflow\<rbrakk> \<Longrightarrow> queue_step p (push e p)"
| close: "queue_step p (p\<lparr>closed := True\<rparr>)"

definition pump_start :: "bytes list \<Rightarrow> event list \<Rightarrow> pump" where
  "pump_start fs q =
     \<lparr>stage = Pumping, frames = fs, overflow_owed = False, queue = q, handled = [], closed = False,
      trail = map Sent q\<rparr>"

inductive pump_reach :: "pump \<Rightarrow> pump \<Rightarrow> bool" for p where
  here: "pump_reach p p"
| pumps: "pump_reach p q \<Longrightarrow> pump_step q r \<Longrightarrow> pump_reach p r"
| moves: "pump_reach p q \<Longrightarrow> queue_step q r \<Longrightarrow> pump_reach p r"

inductive_cases pump_stepE: "pump_step p q"
inductive_cases queue_stepE: "queue_step p q"

subsection \<open>No debt is lost\<close>

text \<open>Every dropped frame has a mark after it.\<close>

fun covered :: "fate list \<Rightarrow> bool" where
  "covered [] = True"
| "covered (Dropped _ # ns) = (Sent WsOverflow \<in> set ns \<and> covered ns)"
| "covered (Sent _ # ns) = covered ns"

fun sent_of :: "fate \<Rightarrow> event option" where
  "sent_of (Sent e) = Some e"
| "sent_of (Dropped _) = None"

definition pump_ok :: "pump \<Rightarrow> bool" where
  "pump_ok p \<longleftrightarrow>
     handled p @ queue p = List.map_filter sent_of (trail p)
     \<and> (\<not> closed p \<longrightarrow> overflow_owed p \<or> covered (trail p))
     \<and> (\<not> closed p \<longrightarrow> stage p = Returned \<longrightarrow> \<not> overflow_owed p)
     \<and> (stage p = Paying \<longrightarrow> overflow_owed p)"

lemma covered_mark: "covered (ns @ [Sent WsOverflow])"
  by (induction ns rule: covered.induct) auto

lemma covered_sent: "covered ns \<Longrightarrow> covered (ns @ [Sent e])"
  by (induction ns rule: covered.induct) auto

lemma covered_mark2: "covered (ns @ [Dropped t, Sent WsOverflow])"
  using covered_mark [of "ns @ [Dropped t]"] by simp

lemma map_filter_add [simp]: "List.map_filter f (xs @ ys) = List.map_filter f xs @ List.map_filter f ys"
  by (simp add: List.map_filter_def)

lemma take_drop_add [simp]: "take n xs @ drop n xs @ ys = xs @ ys"
  by (simp flip: append_assoc)

lemma pump_okD: "pump_ok p \<Longrightarrow> handled p @ queue p @ ys = List.map_filter sent_of (trail p) @ ys"
  by (simp add: pump_ok_def flip: append_assoc)

lemma on_frame_frame [simp]:
  "stage (on_frame n t p) = stage p" "frames (on_frame n t p) = frames p" "closed (on_frame n t p) = closed p"
  by (simp_all add: on_frame_def try_send_def push_def take_events_def)

lemma on_frame_ok:
  assumes "pump_ok p" "stage p = Pumping" shows "pump_ok (on_frame n t p)"
  using assms pump_okD [OF assms(1)]
  by (auto simp: on_frame_def try_send_def push_def take_events_def has_room_def pump_ok_def
      covered_mark2 covered_sent List.map_filter_simps)

lemma pump_step_ok:
  assumes "pump_ok p" "pump_step p q" shows "pump_ok q"
  using assms(2)
proof cases
  case (frame t ts n)
  have "pump_ok (p\<lparr>frames := ts\<rparr>)" using assms(1) by (simp add: pump_ok_def)
  then show ?thesis using frame by (simp add: on_frame_ok)
qed (use assms(1) pump_okD [OF assms(1)] in
    \<open>auto simp: pump_ok_def push_def has_room_def covered_mark List.map_filter_simps\<close>)

lemma queue_step_ok:
  assumes "pump_ok p" "queue_step p q" shows "pump_ok q"
  using assms(2)
  by cases (use assms(1) pump_okD [OF assms(1)] in
    \<open>auto simp: pump_ok_def push_def take_events_def covered_sent List.map_filter_simps\<close>)

lemma pump_start_ok: "pump_ok (pump_start fs q)"
proof -
  have "List.map_filter sent_of (map Sent q) = q" "covered (map Sent q)"
    by (induction q) (simp_all add: List.map_filter_simps)
  then show ?thesis by (simp add: pump_ok_def pump_start_def)
qed

lemma pump_reach_ok: "pump_reach p q \<Longrightarrow> pump_ok p \<Longrightarrow> pump_ok q"
  by (induction rule: pump_reach.induct) (auto intro: pump_step_ok queue_step_ok)

text \<open>
  C17. A dropped frame is never lost together with the mark that repairs it: whatever the app, the
  other producers and the socket do, as long as the app is there, every frame dropped so far has an
  overflow mark after it in the queue's history or the reader still owes one; once the reader has
  returned it owes none. The app gets exactly the history, in order.
\<close>

theorem dropped_frames_are_marked:
  assumes "pump_reach (pump_start fs evs) p" "\<not> closed p"
  shows "(overflow_owed p \<or> covered (trail p)) \<and> (stage p = Returned \<longrightarrow> covered (trail p))
         \<and> handled p @ queue p = List.map_filter sent_of (trail p)"
  using pump_reach_ok [OF assms(1) pump_start_ok] assms(2) by (auto simp: pump_ok_def)

definition full_pump :: pump where
  "full_pump = on_frame 0 ''x'' ((pump_start [''x''] (replicate 1024 Tick))\<lparr>frames := []\<rparr>)"

lemma full_pump_reached: "pump_reach (pump_start [''x''] (replicate 1024 Tick)) full_pump"
  unfolding full_pump_def
  by (intro pump_reach.pumps [OF pump_reach.here] pump_step.frame) (simp_all add: pump_start_def)

lemma full_pump_open: "\<not> closed full_pump"
  by (simp add: full_pump_def) (simp add: pump_start_def)

theorem dropped_frames_are_marked_witness:
  "overflow_owed full_pump \<or> covered (trail full_pump)"
  using dropped_frames_are_marked [OF full_pump_reached full_pump_open] by blast

subsection \<open>The reader returns\<close>

text \<open>With the app taking events, the reader gets through its frames and its debt.\<close>

lemma reach_trans: "pump_reach q r \<Longrightarrow> pump_reach p q \<Longrightarrow> pump_reach p r"
  by (induction rule: pump_reach.induct) (auto intro: pump_reach.intros)

lemma reach_empty_queue:
  "\<not> closed p \<Longrightarrow> \<exists>h. pump_reach p (p\<lparr>handled := h, queue := []\<rparr>)"
proof (induction "queue p" arbitrary: p)
  case Nil
  then have "p\<lparr>handled := handled p, queue := []\<rparr> = p" by simp
  then show ?case by (metis pump_reach.here)
next
  case (Cons e es)
  have q: "queue (take_events 1 p) = es" using Cons(2) by (simp add: take_events_def flip: Cons(2))
  have step: "pump_reach p (take_events 1 p)"
    using Cons by (intro pump_reach.moves [OF pump_reach.here] queue_step.handle) auto
  obtain h where "pump_reach (take_events 1 p) ((take_events 1 p)\<lparr>handled := h, queue := []\<rparr>)"
    using Cons(1) [of "take_events 1 p"] q Cons(3) by (auto simp: take_events_def)
  then have "pump_reach p ((take_events 1 p)\<lparr>handled := h, queue := []\<rparr>)" by (rule reach_trans [OF _ step])
  then show ?case by (auto simp: take_events_def)
qed

lemma reach_returned_from_paying:
  assumes "stage p = Paying" "\<not> closed p"
  shows "\<exists>q. pump_reach p q \<and> stage q = Returned \<and> \<not> closed q"
proof -
  obtain h where h: "pump_reach p (p\<lparr>handled := h, queue := []\<rparr>)" using reach_empty_queue assms by blast
  let ?q = "p\<lparr>handled := h, queue := []\<rparr>"
  have "pump_step ?q ((push WsOverflow ?q)\<lparr>overflow_owed := False, stage := Returned\<rparr>)"
    using assms by (intro pump_step.last_pay) (simp_all add: has_room_def EVENT_QUEUE_CAPACITY_def)
  then have "pump_reach p ((push WsOverflow ?q)\<lparr>overflow_owed := False, stage := Returned\<rparr>)"
    by (rule pump_reach.pumps [OF h])
  with assms(2) show ?thesis by (force simp: push_def)
qed

lemma reach_returned:
  "stage p = Pumping \<Longrightarrow> \<not> closed p \<Longrightarrow> \<exists>q. pump_reach p q \<and> stage q = Returned \<and> \<not> closed q"
proof (induction "frames p" arbitrary: p)
  case Nil
  let ?q = "p\<lparr>stage := (if overflow_owed p then Paying else Returned)\<rparr>"
  have r: "pump_reach p ?q" using Nil by (intro pump_reach.pumps [OF pump_reach.here] pump_step.no_frame) simp_all
  show ?case
  proof (cases "overflow_owed p")
    case True
    then show ?thesis using reach_returned_from_paying [of ?q] Nil r by (auto intro: reach_trans)
  next
    case False
    then show ?thesis using r Nil by (intro exI [of _ ?q]) simp
  qed
next
  case (Cons t ts)
  let ?q = "on_frame 0 t (p\<lparr>frames := ts\<rparr>)"
  have "pump_reach p ?q"
    using Cons by (intro pump_reach.pumps [OF pump_reach.here] pump_step.frame) simp_all
  then show ?case using Cons(1) [of ?q] Cons.prems by (auto intro: reach_trans)
qed

text \<open>
  The reader can always finish: from every reachable state in which it runs and the app is
  there, some continuation in which the app takes events leads it through its remaining frames to
  its return, with every dropped frame marked. No full queue and no debt can block it for good.
\<close>

theorem pump_can_finish:
  assumes "pump_reach (pump_start fs evs) p" "\<not> closed p"
  shows "\<exists>q. pump_reach p q \<and> stage q = Returned \<and> \<not> closed q \<and> covered (trail q)"
proof -
  have "\<exists>q. pump_reach p q \<and> stage q = Returned \<and> \<not> closed q"
    using reach_returned [OF _ assms(2)] reach_returned_from_paying [OF _ assms(2)] pump_reach.here [of p]
      assms(2) by (cases "stage p") blast+
  then obtain q where q: "pump_reach p q" "stage q = Returned" "\<not> closed q" by blast
  have "pump_ok q" using pump_reach_ok [OF reach_trans [OF q(1) assms(1)] pump_start_ok] .
  with q show ?thesis by (auto simp: pump_ok_def)
qed

theorem pump_can_finish_witness:
  "\<exists>q. pump_reach full_pump q \<and> stage q = Returned \<and> \<not> closed q \<and> covered (trail q)"
  by (rule pump_can_finish [OF full_pump_reached full_pump_open])

end
