(* ===== verification/Tui_Client.thy ===== *)
theory Tui_Client
  imports Tui_Socket Api_Handlers
begin

text \<open>
  The terminal client against the server: the query strings \<open>ApiClient\<close> builds are the ones the
  handlers of \<open>rustmail-api\<close> read back. Names that both sides use are qualified by their theory.
\<close>

lemma show_nat_Cons: "\<exists>c cs. show_nat n = c # cs \<and> is_ascii_digit c"
proof (induction n rule: show_nat.induct)
  case (1 n)
  show ?case
  proof (cases "n < 10")
    case True
    then show ?thesis by (simp add: show_nat.simps [of n] is_ascii_digit_def)
  next
    case False
    with 1 obtain c cs where "show_nat (n div 10) = c # cs" "is_ascii_digit c" by blast
    with False show ?thesis by (simp add: show_nat.simps [of n])
  qed
qed

lemma parse_i64_show_int:
  assumes "i64_min \<le> i" "i \<le> i64_max" shows "parse_i64 (show_int i) = Inr i"
proof (cases "i < 0")
  case True
  then have "nat (- i) \<le> 2 ^ 63" using assms by (simp add: i64_min_def)
  moreover obtain c cs where "show_nat (nat (- i)) = c # cs" using show_nat_Cons by blast
  ultimately show ?thesis
    using True parse_digits_show_nat [of "nat (- i)" "2 ^ 63"] by (simp add: parse_signed_def show_int_def)
next
  case False
  then have "nat i \<le> 2 ^ 63 - 1" using assms by (simp add: i64_max_def)
  moreover obtain c cs where "show_nat (nat i) = c # cs" "is_ascii_digit c" using show_nat_Cons by blast
  moreover from this have "c \<noteq> CHR ''+''" "c \<noteq> CHR ''-''" by (auto simp: is_ascii_digit_def)
  ultimately show ?thesis
    using False parse_digits_show_nat [of "nat i" "2 ^ 63 - 1"]
    by (auto simp: parse_signed_def show_int_def)
qed

text \<open>
  What the client asks is what the server reads: the query of a list request, for every filter
  text and every page size and offset of 64 bits, is parsed by the list handler to exactly that
  filter, page size and offset, with no cursor and no other filter; and the limit of a raw request
  is accepted as the client's preview limit.
\<close>

theorem client_queries_are_read_back:
  assumes "i64_min \<le> n" "n \<le> i64_max" "i64_min \<le> k" "k \<le> i64_max"
  shows "list_params_parse (hr_query (Tui_Api.list_messages url query n k)) =
           Inr (no_params\<lparr>lim := Some n, Api_Handlers.offset := Some k, q := query\<rparr>)
         \<and> raw_limit (map_of (hr_query (Tui_Api.get_raw_message url i RAW_PREVIEW_LIMIT_BYTES)) ''limit'') =
             Inr (Some RAW_PREVIEW_LIMIT_BYTES)"
proof -
  have raw: "parse_i64 (show_int RAW_PREVIEW_LIMIT_BYTES) = Inr RAW_PREVIEW_LIMIT_BYTES"
    by (rule parse_i64_show_int) (simp_all add: RAW_PREVIEW_LIMIT_BYTES_def i64_min_def i64_max_def)
  have "raw_limit (map_of (hr_query (Tui_Api.get_raw_message url i RAW_PREVIEW_LIMIT_BYTES)) ''limit'') =
      Inr (Some RAW_PREVIEW_LIMIT_BYTES)"
    by (simp add: raw_limit_def Tui_Api.get_raw_message_def request_def raw)
      (simp add: RAW_PREVIEW_LIMIT_BYTES_def)
  moreover have "parse_i64 (show_int n) = Inr n" "parse_i64 (show_int k) = Inr k"
    using assms by (simp_all add: parse_i64_show_int)
  ultimately show ?thesis
    by (simp add: Tui_Api.list_messages_def request_def list_params_parse_def list_param_def parse_integer_def
        no_params_def default_filter_def MAX_TAGS_def Let_def split: option.split)
qed

theorem client_queries_are_read_back_witness:
  "list_params_parse (hr_query (Tui_Api.list_messages ''http://localhost'' (Some ''invoice'') 50 100)) =
     Inr (no_params\<lparr>lim := Some 50, Api_Handlers.offset := Some 100, q := Some ''invoice''\<rparr>)"
  using client_queries_are_read_back [of 50 100] by (simp add: i64_min_def i64_max_def)

end
