(* ===== verification/Migrate_Print.thy ===== *)
theory Migrate_Print
  imports Storage_Tables "HOL-Library.Word"
begin

text \<open>
  Identifying an older database (\<open>migrate/fingerprint.rs\<close>, and the origin record of
  \<open>migrate/build.rs\<close>): the FNV-1a hash over a stream of typed fields, the two paged scans, the
  fingerprint text and its qualified form. A source database is the rows its queries read.
\<close>

unbundle bit_operations_syntax

section \<open>The hash\<close>

definition FNV_OFFSET_BASIS :: "64 word" where "FNV_OFFSET_BASIS = 0xcbf29ce484222325"
definition FNV_PRIME :: "64 word" where "FNV_PRIME = 0x00000100000001b3"
definition NULL_MARKER :: char where "NULL_MARKER = CHR 0x00"
definition VALUE_MARKER :: char where "VALUE_MARKER = CHR 0x01"
definition FINGERPRINT_PAGE_ROWS :: nat where "FINGERPRINT_PAGE_ROWS = 10000"

type_synonym fnv = "64 word"

definition hash_byte :: "fnv \<Rightarrow> char \<Rightarrow> fnv" where
  "hash_byte h c = (h XOR of_nat (of_char c)) * FNV_PRIME"

definition hash_bytes :: "bytes \<Rightarrow> fnv \<Rightarrow> fnv" where
  "hash_bytes bs h = foldl hash_byte h bs"

text \<open>\<open>i64::to_le_bytes\<close>: two's complement, least significant byte first.\<close>

definition le_bytes :: "int \<Rightarrow> bytes" where
  "le_bytes i = map (\<lambda>k. char_of (nat (i div 256 ^ k mod 256))) [0..<8]"

definition hash_int :: "int \<Rightarrow> fnv \<Rightarrow> fnv" where
  "hash_int i h = hash_bytes (le_bytes i) h"

definition len_i64 :: "nat \<Rightarrow> int" where
  "len_i64 n = (if int n \<le> i64_max then int n else i64_max)"

definition hash_text :: "bytes option \<Rightarrow> fnv \<Rightarrow> fnv" where
  "hash_text v h =
     (case v of
        Some text \<Rightarrow> hash_bytes text (hash_int (len_i64 (length text)) (hash_bytes [VALUE_MARKER] h))
      | None \<Rightarrow> hash_bytes [NULL_MARKER] h)"

definition hash_opt_int :: "int option \<Rightarrow> fnv \<Rightarrow> fnv" where
  "hash_opt_int v h =
     (case v of
        Some i \<Rightarrow> hash_int i (hash_bytes [VALUE_MARKER] h)
      | None \<Rightarrow> hash_bytes [NULL_MARKER] h)"

section \<open>Source databases\<close>

datatype source_schema = Legacy | Previous

definition PREVIOUS_SCHEMA_VERSION :: int where "PREVIOUS_SCHEMA_VERSION = 1"
definition SCHEMA_VERSION :: int where "SCHEMA_VERSION = 2"
definition LEGACY_SCHEMA_VERSION :: int where "LEGACY_SCHEMA_VERSION = 0"

fun version :: "source_schema \<Rightarrow> int" where
  "version Legacy = 0"
| "version Previous = PREVIOUS_SCHEMA_VERSION"

definition from_version :: "int \<Rightarrow> source_schema option" where
  "from_version v = find (\<lambda>s. version s = v) [Legacy, Previous]"

text \<open>\<open>MessageKey\<close> and \<open>AttachmentKey\<close>: what the scans read of a row.\<close>

record message_key =
  mk_seq :: int
  mk_id :: "bytes option"
  mk_is_read :: "int option"
  mk_is_starred :: "int option"
  mk_tags :: "bytes option"
  mk_raw_len :: "int option"

record attachment_key =
  ak_rowid :: int
  ak_id :: "bytes option"
  ak_parent :: "bytes option"
  ak_content_len :: "int option"

text \<open>
  The rows of a source file the fingerprint looks at, in the order of their keys;
  \<open>sk_attachments\<close> is \<open>None\<close> for a file without the table.
\<close>

record source_keys =
  sk_messages :: "message_key list"
  sk_attachments :: "attachment_key list option"

text \<open>
  A schema-0 file: one row per message, source included, in rowid order. The columns later
  versions added and the attachments table may be missing; then what the rows here carry
  for them is not read.
\<close>

record legacy_message_row =
  lm_rowid :: int
  lm_id :: bytes
  lm_sender :: bytes
  lm_recipients :: bytes
  lm_subject :: "bytes option"
  lm_text_body :: "bytes option"
  lm_raw :: bytes
  lm_has_attachments :: bool
  lm_is_read :: bool
  lm_is_starred :: bool
  lm_tags :: bytes
  lm_created_at :: bytes

record legacy_attachment_row =
  la_rowid :: int
  la_id :: bytes
  la_message_id :: bytes
  la_filename :: "bytes option"
  la_content_type :: "bytes option"
  la_content_id :: "bytes option"
  la_size :: "int option"
  la_content :: bytes

record legacy_db =
  ld_columns :: "bytes list"
  ld_messages :: "legacy_message_row list"
  ld_attachments :: "legacy_attachment_row list option"

text \<open>A schema-1 file: bodies and source uncompressed in \<open>message_content\<close>.\<close>

record previous_content_row =
  pc_seq :: int
  pc_text_body :: "bytes option"
  pc_html_body :: "bytes option"
  pc_raw :: bytes

record previous_db =
  pd_messages :: "message_row list"
  pd_content :: "previous_content_row list"
  pd_attachments :: "(int \<times> stored_attachment) list"
  pd_message_tags :: "(bytes \<times> int) list"

datatype source_db = LegacyDb legacy_db | PreviousDb previous_db

text \<open>\<open>LegacyColumns\<close>: whether the column is read, or its default.\<close>

record legacy_columns =
  lc_is_starred :: bool
  lc_tags :: bool
  has_attachments_table :: bool

definition legacy_columns_probe :: "legacy_db \<Rightarrow> legacy_columns" where
  "legacy_columns_probe d =
     (let has = (\<lambda>name. List.member (ld_columns d) name) in
      \<lparr>lc_is_starred = has ''is_starred'', lc_tags = has ''tags'',
       has_attachments_table = ld_attachments d \<noteq> None\<rparr>)"

definition starred_of :: "legacy_columns \<Rightarrow> legacy_message_row \<Rightarrow> bool" where
  "starred_of cols m = (lc_is_starred cols \<and> lm_is_starred m)"

definition tags_of :: "legacy_columns \<Rightarrow> legacy_message_row \<Rightarrow> bytes" where
  "tags_of cols m = (if lc_tags cols then lm_tags m else ''[]'')"

datatype source_layout = LegacyLayout legacy_columns | PreviousLayout

fun source_layout_probe :: "source_db \<Rightarrow> source_layout" where
  "source_layout_probe (LegacyDb d) = LegacyLayout (legacy_columns_probe d)"
| "source_layout_probe (PreviousDb d) = PreviousLayout"

definition flag_int :: "bool \<Rightarrow> int" where
  "flag_int b = (if b then 1 else 0)"

definition legacy_message_key :: "legacy_columns \<Rightarrow> legacy_message_row \<Rightarrow> message_key" where
  "legacy_message_key cols m =
     \<lparr>mk_seq = lm_rowid m, mk_id = Some (lm_id m), mk_is_read = Some (flag_int (lm_is_read m)),
      mk_is_starred = Some (flag_int (starred_of cols m)), mk_tags = Some (tags_of cols m),
      mk_raw_len = Some (int (length (lm_raw m)))\<rparr>"

definition previous_message_key :: "message_row \<Rightarrow> message_key" where
  "previous_message_key m =
     \<lparr>mk_seq = mr_seq m, mk_id = Some (mr_id m), mk_is_read = Some (flag_int (mr_is_read m)),
      mk_is_starred = Some (flag_int (mr_is_starred m)), mk_tags = Some (mr_tags m),
      mk_raw_len = Some (mr_size m)\<rparr>"

text \<open>The rows of \<open>message_page\<close> and \<open>attachment_page\<close>, all pages together.\<close>

fun message_page :: "source_db \<Rightarrow> message_key list" where
  "message_page (LegacyDb d) = map (legacy_message_key (legacy_columns_probe d)) (ld_messages d)"
| "message_page (PreviousDb d) = map previous_message_key (pd_messages d)"

definition legacy_attachment_key :: "legacy_attachment_row \<Rightarrow> attachment_key" where
  "legacy_attachment_key a =
     \<lparr>ak_rowid = la_rowid a, ak_id = Some (la_id a), ak_parent = Some (la_message_id a),
      ak_content_len = Some (int (length (la_content a)))\<rparr>"

definition previous_attachment_key :: "int \<times> stored_attachment \<Rightarrow> attachment_key" where
  "previous_attachment_key r =
     (case r of (rowid, a) \<Rightarrow>
        \<lparr>ak_rowid = rowid, ak_id = Some (sa_id a), ak_parent = Some (show_int (sa_message_seq a)),
         ak_content_len = map_option (\<lambda>c. int (length c)) (sa_content a)\<rparr>)"

fun attachment_page :: "source_db \<Rightarrow> attachment_key list option" where
  "attachment_page (LegacyDb d) = map_option (map legacy_attachment_key) (ld_attachments d)"
| "attachment_page (PreviousDb d) = Some (map previous_attachment_key (pd_attachments d))"

definition keys_of :: "source_db \<Rightarrow> source_keys" where
  "keys_of db = \<lparr>sk_messages = message_page db, sk_attachments = attachment_page db\<rparr>"

text \<open>One page: \<open>WHERE seq > ?1 ORDER BY seq LIMIT ?2\<close> of rows kept in that order.\<close>

definition page_after :: "('a \<Rightarrow> int) \<Rightarrow> 'a list \<Rightarrow> int \<Rightarrow> 'a list" where
  "page_after key rows after = take FINGERPRINT_PAGE_ROWS (filter (\<lambda>r. key r > after) rows)"

type_synonym scanned = "fnv \<times> nat \<times> nat"

definition hash_message :: "fnv \<Rightarrow> message_key \<Rightarrow> fnv" where
  "hash_message h m =
     hash_opt_int (mk_raw_len m) (hash_text (mk_tags m) (hash_opt_int (mk_is_starred m)
       (hash_opt_int (mk_is_read m) (hash_text (mk_id m) (hash_int (mk_seq m) h)))))"

definition raw_len_u64 :: "message_key \<Rightarrow> nat" where
  "raw_len_u64 m = (case mk_raw_len m of Some n \<Rightarrow> if 0 \<le> n then nat n else 0 | None \<Rightarrow> 0)"

definition on_message_page :: "scanned \<Rightarrow> message_key list \<Rightarrow> scanned" where
  "on_message_page st rows =
     (case st of (h, n, b) \<Rightarrow>
        (foldl hash_message h rows, n + length rows, b + sum_list (map raw_len_u64 rows)))"

definition hash_attachment :: "fnv \<Rightarrow> attachment_key \<Rightarrow> fnv" where
  "hash_attachment h a =
     hash_opt_int (ak_content_len a) (hash_text (ak_parent a) (hash_text (ak_id a) (hash_int (ak_rowid a) h)))"

definition on_attachment_page :: "fnv \<times> nat \<Rightarrow> attachment_key list \<Rightarrow> fnv \<times> nat" where
  "on_attachment_page st rows = (case st of (h, n) \<Rightarrow> (foldl hash_attachment h rows, n + length rows))"

lemma page_after_last:
  assumes "page_after key rows after \<noteq> []"
  shows "last (page_after key rows after) \<in> set rows \<and> after < key (last (page_after key rows after))"
proof -
  have "last (page_after key rows after) \<in> set (page_after key rows after)" using assms by simp
  then show ?thesis unfolding page_after_def by (auto dest: in_set_takeD)
qed

text \<open>The paged loop of both scans: an empty page ends it.\<close>

function scan :: "('a \<Rightarrow> int) \<Rightarrow> 'a list \<Rightarrow> ('s \<Rightarrow> 'a list \<Rightarrow> 's) \<Rightarrow> int \<Rightarrow> 's \<Rightarrow> 's" where
  "scan key rows on_page after st =
     (let page = page_after key rows after
      in if page = [] then st else scan key rows on_page (key (last page)) (on_page st page))"
  by pat_completeness auto

termination
proof (relation "measure (\<lambda>(key, rows, on_page, after, st). length (filter (\<lambda>r. key r > after) rows))")
  fix key :: "'a \<Rightarrow> int" and rows :: "'a list" and on_page :: "'s \<Rightarrow> 'a list \<Rightarrow> 's" and after st page
  assume p: "page = page_after key rows after" "page \<noteq> []"
  have l: "last page \<in> set rows" "after < key (last page)" using page_after_last [of key rows after] p by auto
  let ?left = "filter (\<lambda>r. key r > after) rows"
  have "filter (\<lambda>r. key r > key (last page)) rows = filter (\<lambda>r. key r > key (last page)) ?left"
    using l(2) by (auto intro!: filter_cong)
  moreover have "length (filter (\<lambda>r. key r > key (last page)) ?left) < length ?left"
    by (rule length_filter_less [of "last page"]) (use l in simp_all)
  ultimately show "((key, rows, on_page, key (last page), on_page st page), key, rows, on_page, after, st)
    \<in> measure (\<lambda>(key, rows, on_page, after, st). length (filter (\<lambda>r. key r > after) rows))"
    by simp
qed simp

declare scan.simps [simp del]

text \<open>\<open>{:016x}\<close>.\<close>

definition hex_digit :: "nat \<Rightarrow> char" where
  "hex_digit d = (if d < 10 then char_of (48 + d) else char_of (87 + d))"

definition show_hex16 :: "fnv \<Rightarrow> bytes" where
  "show_hex16 h = map (\<lambda>k. hex_digit (unat h div 16 ^ (15 - k) mod 16)) [0..<16]"

record source_print =
  sp_fingerprint :: bytes
  sp_messages :: nat
  sp_attachments :: nat
  sp_raw_bytes :: nat

definition fingerprint :: "source_keys \<Rightarrow> source_print" where
  "fingerprint src =
     (let (h, n, b) = scan mk_seq (sk_messages src) on_message_page i64_min (FNV_OFFSET_BASIS, 0, 0);
          (h, k) = (case sk_attachments src of
                      Some rows \<Rightarrow> scan ak_rowid rows on_attachment_page i64_min (h, 0)
                    | None \<Rightarrow> (h, 0));
          h = hash_int (len_i64 k) (hash_int (len_i64 n) h)
      in \<lparr>sp_fingerprint = show_hex16 h, sp_messages = n, sp_attachments = k, sp_raw_bytes = b\<rparr>)"

section \<open>The origin of a copy\<close>

record origin =
  or_fingerprint :: bytes
  or_last_source_seq :: int
  or_source_schema :: int
  or_target_schema :: int

definition qualified_fingerprint :: "bytes \<Rightarrow> int \<Rightarrow> bytes" where
  "qualified_fingerprint fp target_schema = ''schema'' @ show_int target_schema @ '':'' @ fp"

definition made_from :: "origin \<Rightarrow> bytes \<Rightarrow> bool" where
  "made_from org fp \<longleftrightarrow>
     or_fingerprint org = fp \<or> or_fingerprint org = qualified_fingerprint fp (or_target_schema org)"

section \<open>Paging reads every row once\<close>

lemma page_splits:
  assumes "sorted_wrt (\<lambda>a b. key a < key b) rows" "page_after key rows after \<noteq> []"
  shows "filter (\<lambda>r. key r > after) rows =
           page_after key rows after @ filter (\<lambda>r. key r > key (last (page_after key rows after))) rows"
proof -
  let ?left = "filter (\<lambda>r. key r > after) rows" and ?n = FINGERPRINT_PAGE_ROWS
  let ?page = "take ?n ?left" and ?rest = "drop ?n ?left"
  have ne: "?page \<noteq> []" using assms(2) by (simp add: page_after_def)
  have "sorted_wrt (\<lambda>a b. key a < key b) ?left" using assms(1) by (rule sorted_wrt_filter)
  then have sw: "sorted_wrt (\<lambda>a b. key a < key b) (?page @ ?rest)" by simp
  have rest: "key (last ?page) < key r" if "r \<in> set ?rest" for r
    using sw ne that unfolding sorted_wrt_append by (meson last_in_set)
  have page: "\<not> key (last ?page) < key r" if "r \<in> set ?page" for r
  proof -
    have "sorted_wrt (\<lambda>a b. key a < key b) (butlast ?page @ [last ?page])"
      using sw ne by (simp add: sorted_wrt_append)
    moreover have "r \<in> set (butlast ?page) \<or> r = last ?page"
      using that ne by (metis append_butlast_last_id in_set_conv_decomp rotate1.simps(2) set_ConsD set_rotate1)
    ultimately show ?thesis by (auto simp: sorted_wrt_append)
  qed
  have "filter (\<lambda>r. key r > key (last ?page)) rows = filter (\<lambda>r. key r > key (last ?page)) ?left"
    using page_after_last [of key rows after] assms(2) by (auto simp: page_after_def intro!: filter_cong)
  also have "\<dots> = filter (\<lambda>r. key r > key (last ?page)) ?page @ filter (\<lambda>r. key r > key (last ?page)) ?rest"
    by (metis append_take_drop_id filter_append)
  also have "\<dots> = ?rest" using page rest by (simp add: filter_empty_conv)
  finally show ?thesis by (simp add: page_after_def)
qed

text \<open>A page handler that does not care where the pages are cut.\<close>

definition cuts_freely :: "('s \<Rightarrow> 'a list \<Rightarrow> 's) \<Rightarrow> bool" where
  "cuts_freely f \<longleftrightarrow> (\<forall>s xs ys. f (f s xs) ys = f s (xs @ ys)) \<and> (\<forall>s. f s [] = s)"

lemma scan_once:
  assumes "sorted_wrt (\<lambda>a b. key a < key b) rows" "cuts_freely f"
  shows "scan key rows f after st = f st (filter (\<lambda>r. key r > after) rows)"
  using assms
proof (induction key rows f after st rule: scan.induct)
  case (1 key rows f after st)
  let ?page = "page_after key rows after"
  show ?case
  proof (cases "?page = []")
    case True
    then have "filter (\<lambda>r. key r > after) rows = []" by (simp add: page_after_def FINGERPRINT_PAGE_ROWS_def)
    with True 1(3) show ?thesis by (simp add: scan.simps [of key rows f after st] cuts_freely_def)
  next
    case False
    then have "scan key rows f after st =
      f (f st ?page) (filter (\<lambda>r. key r > key (last ?page)) rows)"
      using 1 by (simp add: scan.simps [of key rows f after st] Let_def)
    also have "\<dots> = f st (?page @ filter (\<lambda>r. key r > key (last ?page)) rows)"
      using 1(3) by (simp add: cuts_freely_def)
    finally show ?thesis using page_splits [OF 1(2) False] by simp
  qed
qed

lemma pages_cut_freely: "cuts_freely on_message_page" "cuts_freely on_attachment_page"
  by (auto simp: cuts_freely_def on_message_page_def on_attachment_page_def split: prod.split)

section \<open>The hashed stream\<close>

text \<open>The bytes the hash is fed, field by field.\<close>

definition enc_opt :: "('a \<Rightarrow> bytes) \<Rightarrow> 'a option \<Rightarrow> bytes" where
  "enc_opt f v = (case v of Some x \<Rightarrow> VALUE_MARKER # f x | None \<Rightarrow> [NULL_MARKER])"

definition enc_text :: "bytes \<Rightarrow> bytes" where
  "enc_text t = le_bytes (len_i64 (length t)) @ t"

definition enc_message :: "message_key \<Rightarrow> bytes" where
  "enc_message m =
     le_bytes (mk_seq m) @ enc_opt enc_text (mk_id m) @ enc_opt le_bytes (mk_is_read m)
     @ enc_opt le_bytes (mk_is_starred m) @ enc_opt enc_text (mk_tags m) @ enc_opt le_bytes (mk_raw_len m)"

definition enc_attachment :: "attachment_key \<Rightarrow> bytes" where
  "enc_attachment a =
     le_bytes (ak_rowid a) @ enc_opt enc_text (ak_id a) @ enc_opt enc_text (ak_parent a)
     @ enc_opt le_bytes (ak_content_len a)"

definition attachment_keys :: "source_keys \<Rightarrow> attachment_key list" where
  "attachment_keys src = (case sk_attachments src of Some rows \<Rightarrow> rows | None \<Rightarrow> [])"

definition print_stream :: "source_keys \<Rightarrow> bytes" where
  "print_stream src =
     concat (map enc_message (sk_messages src)) @ concat (map enc_attachment (attachment_keys src))
     @ le_bytes (len_i64 (length (sk_messages src))) @ le_bytes (len_i64 (length (attachment_keys src)))"

lemma hash_bytes_append: "hash_bytes (xs @ ys) h = hash_bytes ys (hash_bytes xs h)"
  by (simp add: hash_bytes_def)

lemma hash_bytes_Nil: "hash_bytes [] h = h"
  by (simp add: hash_bytes_def)

lemma hash_fields:
  "hash_text v h = hash_bytes (enc_opt enc_text v) h"
  "hash_opt_int w h = hash_bytes (enc_opt le_bytes w) h"
  by (simp_all add: hash_text_def hash_opt_int_def hash_int_def enc_opt_def enc_text_def hash_bytes_def
      split: option.split)

lemma hash_rows:
  "hash_message h m = hash_bytes (enc_message m) h"
  "hash_attachment h a = hash_bytes (enc_attachment a) h"
  by (simp_all add: hash_message_def hash_attachment_def enc_message_def enc_attachment_def hash_int_def
      hash_fields hash_bytes_append)

lemma hash_row_list:
  assumes "\<And>h x. f h x = hash_bytes (enc x) h"
  shows "foldl f h xs = hash_bytes (concat (map enc xs)) h"
  by (induction xs arbitrary: h) (simp_all add: assms hash_bytes_append hash_bytes_Nil)

lemmas hash_row_lists =
  hash_row_list [of hash_message enc_message, OF hash_rows(1)]
  hash_row_list [of hash_attachment enc_attachment, OF hash_rows(2)]

text \<open>Files as SQLite keeps them: rows in key order, integers of 64 bits.\<close>

definition i64 :: "int \<Rightarrow> bool" where
  "i64 i \<longleftrightarrow> i64_min \<le> i \<and> i \<le> i64_max"

definition opt_ok :: "('a \<Rightarrow> bool) \<Rightarrow> 'a option \<Rightarrow> bool" where
  "opt_ok P v \<longleftrightarrow> (case v of Some x \<Rightarrow> P x | None \<Rightarrow> True)"

definition text_ok :: "bytes \<Rightarrow> bool" where
  "text_ok t \<longleftrightarrow> int (length t) \<le> i64_max"

definition message_key_ok :: "message_key \<Rightarrow> bool" where
  "message_key_ok m \<longleftrightarrow>
     i64 (mk_seq m) \<and> opt_ok text_ok (mk_id m) \<and> opt_ok i64 (mk_is_read m) \<and> opt_ok i64 (mk_is_starred m)
     \<and> opt_ok text_ok (mk_tags m) \<and> opt_ok i64 (mk_raw_len m)"

definition attachment_key_ok :: "attachment_key \<Rightarrow> bool" where
  "attachment_key_ok a \<longleftrightarrow>
     i64 (ak_rowid a) \<and> opt_ok text_ok (ak_id a) \<and> opt_ok text_ok (ak_parent a) \<and> opt_ok i64 (ak_content_len a)"

definition source_ok :: "source_keys \<Rightarrow> bool" where
  "source_ok src \<longleftrightarrow>
     list_all message_key_ok (sk_messages src) \<and> list_all attachment_key_ok (attachment_keys src)
     \<and> list_all (\<lambda>m. i64_min < mk_seq m) (sk_messages src)
     \<and> list_all (\<lambda>a. i64_min < ak_rowid a) (attachment_keys src)
     \<and> sorted_wrt (\<lambda>a b. mk_seq a < mk_seq b) (sk_messages src)
     \<and> sorted_wrt (\<lambda>a b. ak_rowid a < ak_rowid b) (attachment_keys src)
     \<and> int (length (sk_messages src)) \<le> i64_max \<and> int (length (attachment_keys src)) \<le> i64_max"

lemma filter_all: "list_all P xs \<Longrightarrow> filter P xs = xs"
  by (simp add: filter_id_conv list_all_iff)

text \<open>The fingerprint is the hash of the stream, and its counts are the lengths.\<close>

lemma fingerprint_stream:
  assumes "source_ok src"
  shows "fingerprint src =
    \<lparr>sp_fingerprint = show_hex16 (hash_bytes (print_stream src) FNV_OFFSET_BASIS),
     sp_messages = length (sk_messages src), sp_attachments = length (attachment_keys src),
     sp_raw_bytes = sum_list (map raw_len_u64 (sk_messages src))\<rparr>"
proof -
  have m: "scan mk_seq (sk_messages src) on_message_page i64_min st = on_message_page st (sk_messages src)" for st
    using assms by (simp add: scan_once pages_cut_freely source_ok_def filter_all)
  have a: "scan ak_rowid rows on_attachment_page i64_min st = on_attachment_page st rows"
    if "sk_attachments src = Some rows" for rows st
    using assms that by (simp add: scan_once pages_cut_freely source_ok_def attachment_keys_def filter_all)
  show ?thesis
    by (simp add: fingerprint_def m a on_message_page_def on_attachment_page_def hash_row_lists print_stream_def
        hash_bytes_append hash_int_def attachment_keys_def hash_bytes_Nil split: option.split)
qed

section \<open>The stream determines the rows\<close>

text \<open>An encoding that shows where it ends: what follows it never matters for reading it.\<close>

locale self_delimiting =
  fixes enc :: "'a \<Rightarrow> bytes"
    and valid :: "'a \<Rightarrow> bool"
  assumes delimits: "valid x \<Longrightarrow> valid y \<Longrightarrow> enc x @ r = enc y @ s \<Longrightarrow> x = y \<and> r = s"
begin

lemma many:
  "length xs = length ys \<Longrightarrow> list_all valid xs \<Longrightarrow> list_all valid ys \<Longrightarrow>
     concat (map enc xs) @ r = concat (map enc ys) @ s \<Longrightarrow> xs = ys \<and> r = s"
  by (induction xs ys rule: list_induct2) (auto dest: delimits)

lemma optional: "self_delimiting (enc_opt enc) (opt_ok valid)"
proof
  fix x y :: "'a option" and r s
  assume "opt_ok valid x" "opt_ok valid y" "enc_opt enc x @ r = enc_opt enc y @ s"
  then show "x = y \<and> r = s"
    by (cases x; cases y) (auto simp: enc_opt_def opt_ok_def NULL_MARKER_def VALUE_MARKER_def dest: delimits)
qed

end

lemma mod_next_byte: "(i :: int) mod 256 ^ Suc k = i mod 256 ^ k + 256 ^ k * (i div 256 ^ k mod 256)"
proof -
  have "i mod (256 ^ k * 256) = 256 ^ k * (i div 256 ^ k mod 256) + i mod 256 ^ k"
    by (rule zmod_zmult2_eq) simp
  then show ?thesis by (simp add: mult.commute)
qed

lemma le_bytes_digit:
  assumes "le_bytes i = le_bytes j" "k < 8"
  shows "i div 256 ^ k mod 256 = j div 256 ^ k mod 256"
proof -
  let ?d = "\<lambda>i::int. nat (i div 256 ^ k mod 256)"
  have b: "?d i < 256" "?d j < 256" for i j by (simp_all add: nat_less_iff)
  have "le_bytes i ! k = le_bytes j ! k" using assms(1) by simp
  then have "(of_char (char_of (?d i) :: char) :: nat) = of_char (char_of (?d j) :: char)"
    using assms(2) by (simp add: le_bytes_def)
  then have "?d i = ?d j" using b by (simp add: of_char_of)
  then show ?thesis by (simp add: eq_nat_nat_iff)
qed

lemma le_bytes_inj:
  assumes "le_bytes i = le_bytes j" "i64 i" "i64 j"
  shows "i = j"
proof -
  have "k \<le> 8 \<Longrightarrow> i mod 256 ^ k = j mod 256 ^ k" for k
  proof (induction k)
    case (Suc k)
    then show ?case using le_bytes_digit [OF assms(1), of k] mod_next_byte [of i k] mod_next_byte [of j k]
      by (metis Suc_le_eq Suc_leD)
  qed simp
  from this [of 8] have "i mod 2 ^ 64 = j mod 2 ^ 64" by simp
  then have "(i + 2 ^ 63) mod 2 ^ 64 = (j + 2 ^ 63) mod 2 ^ 64" by (metis mod_add_left_eq)
  moreover have "0 \<le> i + 2 ^ 63" "i + 2 ^ 63 < 2 ^ 64" "0 \<le> j + 2 ^ 63" "j + 2 ^ 63 < 2 ^ 64"
    using assms(2,3) by (simp_all add: i64_def i64_min_def i64_max_def)
  ultimately show ?thesis by (simp add: mod_pos_pos_trivial)
qed

lemma length_le_bytes [simp]: "length (le_bytes i) = 8"
  by (simp add: le_bytes_def)

interpretation int8: self_delimiting le_bytes i64
  by unfold_locales (auto dest: le_bytes_inj)

interpretation text8: self_delimiting enc_text text_ok
proof
  fix x y r s
  assume ok: "text_ok x" "text_ok y" and "enc_text x @ r = enc_text y @ s"
  then have e: "le_bytes (len_i64 (length x)) @ x @ r = le_bytes (len_i64 (length y)) @ y @ s"
    by (simp add: enc_text_def)
  have "i64 (len_i64 (length x))" "i64 (len_i64 (length y))"
    by (auto simp: i64_def len_i64_def i64_min_def i64_max_def)
  from int8.delimits [OF this e] have l: "len_i64 (length x) = len_i64 (length y)" "x @ r = y @ s" by simp_all
  from l(1) ok have "length x = length y" by (simp add: len_i64_def text_ok_def)
  with l(2) show "x = y \<and> r = s" by simp
qed

interpretation opt_int8: self_delimiting "enc_opt le_bytes" "opt_ok i64" by (rule int8.optional)

interpretation opt_text8: self_delimiting "enc_opt enc_text" "opt_ok text_ok" by (rule text8.optional)

interpretation message8: self_delimiting enc_message message_key_ok
proof
  fix x y r s
  assume ok: "message_key_ok x" "message_key_ok y" and e: "enc_message x @ r = enc_message y @ s"
  note fields = ok [unfolded message_key_ok_def]
  from e have "le_bytes (mk_seq x) @ (enc_opt enc_text (mk_id x) @ enc_opt le_bytes (mk_is_read x)
      @ enc_opt le_bytes (mk_is_starred x) @ enc_opt enc_text (mk_tags x) @ enc_opt le_bytes (mk_raw_len x) @ r) =
    le_bytes (mk_seq y) @ (enc_opt enc_text (mk_id y) @ enc_opt le_bytes (mk_is_read y)
      @ enc_opt le_bytes (mk_is_starred y) @ enc_opt enc_text (mk_tags y) @ enc_opt le_bytes (mk_raw_len y) @ s)"
    by (simp only: enc_message_def append_assoc)
  then have 1: "mk_seq x = mk_seq y" and "enc_opt enc_text (mk_id x) @ enc_opt le_bytes (mk_is_read x)
      @ enc_opt le_bytes (mk_is_starred x) @ enc_opt enc_text (mk_tags x) @ enc_opt le_bytes (mk_raw_len x) @ r =
    enc_opt enc_text (mk_id y) @ enc_opt le_bytes (mk_is_read y)
      @ enc_opt le_bytes (mk_is_starred y) @ enc_opt enc_text (mk_tags y) @ enc_opt le_bytes (mk_raw_len y) @ s"
    using int8.delimits fields by blast+
  then have 2: "mk_id x = mk_id y" and "enc_opt le_bytes (mk_is_read x)
      @ enc_opt le_bytes (mk_is_starred x) @ enc_opt enc_text (mk_tags x) @ enc_opt le_bytes (mk_raw_len x) @ r =
    enc_opt le_bytes (mk_is_read y)
      @ enc_opt le_bytes (mk_is_starred y) @ enc_opt enc_text (mk_tags y) @ enc_opt le_bytes (mk_raw_len y) @ s"
    using opt_text8.delimits fields by blast+
  then have 3: "mk_is_read x = mk_is_read y" and "enc_opt le_bytes (mk_is_starred x)
      @ enc_opt enc_text (mk_tags x) @ enc_opt le_bytes (mk_raw_len x) @ r =
    enc_opt le_bytes (mk_is_starred y) @ enc_opt enc_text (mk_tags y) @ enc_opt le_bytes (mk_raw_len y) @ s"
    using opt_int8.delimits fields by blast+
  then have 4: "mk_is_starred x = mk_is_starred y" and
    "enc_opt enc_text (mk_tags x) @ enc_opt le_bytes (mk_raw_len x) @ r =
     enc_opt enc_text (mk_tags y) @ enc_opt le_bytes (mk_raw_len y) @ s"
    using opt_int8.delimits fields by blast+
  then have 5: "mk_tags x = mk_tags y" and
    "enc_opt le_bytes (mk_raw_len x) @ r = enc_opt le_bytes (mk_raw_len y) @ s"
    using opt_text8.delimits fields by blast+
  then have 6: "mk_raw_len x = mk_raw_len y \<and> r = s" using opt_int8.delimits fields by blast
  from 1 2 3 4 5 6 show "x = y \<and> r = s" by simp
qed

interpretation attachment8: self_delimiting enc_attachment attachment_key_ok
proof
  fix x y r s
  assume ok: "attachment_key_ok x" "attachment_key_ok y" and e: "enc_attachment x @ r = enc_attachment y @ s"
  note fields = ok [unfolded attachment_key_ok_def]
  from e have "le_bytes (ak_rowid x) @ (enc_opt enc_text (ak_id x) @ enc_opt enc_text (ak_parent x)
      @ enc_opt le_bytes (ak_content_len x) @ r) =
    le_bytes (ak_rowid y) @ (enc_opt enc_text (ak_id y) @ enc_opt enc_text (ak_parent y)
      @ enc_opt le_bytes (ak_content_len y) @ s)"
    by (simp only: enc_attachment_def append_assoc)
  then have 1: "ak_rowid x = ak_rowid y" and
    "enc_opt enc_text (ak_id x) @ enc_opt enc_text (ak_parent x) @ enc_opt le_bytes (ak_content_len x) @ r =
     enc_opt enc_text (ak_id y) @ enc_opt enc_text (ak_parent y) @ enc_opt le_bytes (ak_content_len y) @ s"
    using int8.delimits fields by blast+
  then have 2: "ak_id x = ak_id y" and
    "enc_opt enc_text (ak_parent x) @ enc_opt le_bytes (ak_content_len x) @ r =
     enc_opt enc_text (ak_parent y) @ enc_opt le_bytes (ak_content_len y) @ s"
    using opt_text8.delimits fields by blast+
  then have 3: "ak_parent x = ak_parent y" and
    "enc_opt le_bytes (ak_content_len x) @ r = enc_opt le_bytes (ak_content_len y) @ s"
    using opt_text8.delimits fields by blast+
  then have 4: "ak_content_len x = ak_content_len y \<and> r = s" using opt_int8.delimits fields by blast
  from 1 2 3 4 show "x = y \<and> r = s" by simp
qed

lemma print_stream_inj:
  assumes "source_ok a" "source_ok b" "print_stream a = print_stream b"
  shows "sk_messages a = sk_messages b \<and> attachment_keys a = attachment_keys b"
proof -
  let ?ms = "\<lambda>s. concat (map enc_message (sk_messages s))"
  let ?as = "\<lambda>s. concat (map enc_attachment (attachment_keys s))"
  have e: "?ms a @ ?as a = ?ms b @ ?as b"
    "le_bytes (len_i64 (length (sk_messages a))) = le_bytes (len_i64 (length (sk_messages b)))"
    "le_bytes (len_i64 (length (attachment_keys a))) = le_bytes (len_i64 (length (attachment_keys b)))"
    using assms(3) by (simp_all add: print_stream_def flip: append_assoc)
  have l: "i64 (len_i64 n)" for n by (auto simp: i64_def len_i64_def i64_min_def i64_max_def)
  have n: "length (sk_messages a) = length (sk_messages b)" "length (attachment_keys a) = length (attachment_keys b)"
    using le_bytes_inj [OF e(2) l l] le_bytes_inj [OF e(3) l l] assms(1,2)
    by (simp_all add: source_ok_def len_i64_def)
  have v: "list_all message_key_ok (sk_messages a)" "list_all message_key_ok (sk_messages b)"
    "list_all attachment_key_ok (attachment_keys a)" "list_all attachment_key_ok (attachment_keys b)"
    using assms(1,2) by (simp_all add: source_ok_def)
  have "sk_messages a = sk_messages b" "?as a = ?as b" using message8.many [OF n(1) v(1,2) e(1)] by simp_all
  moreover from attachment8.many [OF n(2) v(3,4), of "[]" "[]"] this(2)
  have "attachment_keys a = attachment_keys b" by simp
  ultimately show ?thesis by simp
qed

section \<open>One changed byte always changes the hash\<close>

definition FNV_INVERSE :: "64 word" where "FNV_INVERSE = 0xce965057aff6957b"

lemma times_prime_inj: "x * FNV_PRIME = y * FNV_PRIME \<longleftrightarrow> x = y"
proof
  have one: "FNV_PRIME * FNV_INVERSE = 1" by (simp add: FNV_PRIME_def FNV_INVERSE_def)
  assume "x * FNV_PRIME = y * FNV_PRIME"
  then have "x * (FNV_PRIME * FNV_INVERSE) = y * (FNV_PRIME * FNV_INVERSE)" by (metis mult.assoc)
  then show "x = y" by (simp add: one)
qed simp

lemma byte_word_inj: "(of_nat (of_char a) :: 64 word) = of_nat (of_char b) \<longleftrightarrow> a = (b :: char)"
proof
  assume e: "(of_nat (of_char a) :: 64 word) = of_nat (of_char b)"
  have small: "(of_char c :: nat) < 2 ^ LENGTH(64)" for c :: char
    by (rule less_le_trans [OF nat_of_char_less_256]) simp
  have "(of_char a :: nat) = of_char b" using arg_cong [OF e, of unat] small by (simp add: unat_of_nat)
  then show "a = b" by simp
qed simp

lemma xor_left_inj: "(h :: 64 word) XOR x = h XOR y \<longleftrightarrow> x = y"
proof
  assume "h XOR x = h XOR y"
  then have "(h XOR h) XOR x = (h XOR h) XOR y" by (simp only: xor.assoc)
  then show "x = y" by simp
qed simp

lemma xor_right_inj: "(x :: 64 word) XOR h = y XOR h \<longleftrightarrow> x = y"
  using xor_left_inj [of h x y] by (simp only: xor.commute)

lemma hash_byte_inj:
  "hash_byte h c = hash_byte g c \<longleftrightarrow> h = g" "hash_byte h c = hash_byte h d \<longleftrightarrow> c = d"
  by (simp_all add: hash_byte_def times_prime_inj xor_right_inj xor_left_inj byte_word_inj)

lemma hash_bytes_inj: "hash_bytes bs h = hash_bytes bs g \<longleftrightarrow> h = g"
  unfolding hash_bytes_def by (induction bs arbitrary: h g) (simp_all add: hash_byte_inj)

lemma one_byte_changes_hash: "hash_bytes (xs @ c # ys) h = hash_bytes (xs @ d # ys) h \<longleftrightarrow> c = d"
proof -
  have "hash_bytes (xs @ c # ys) h = hash_bytes ys (hash_byte (hash_bytes xs h) c)" for c
    by (simp add: hash_bytes_def)
  then show ?thesis by (simp add: hash_bytes_inj hash_byte_inj)
qed

section \<open>Reading a fingerprint\<close>

lemma hex_digit_inj: "d < 16 \<Longrightarrow> e < 16 \<Longrightarrow> hex_digit d = hex_digit e \<Longrightarrow> d = e"
  by (auto simp: hex_digit_def of_char_of dest!: arg_cong [where f = "of_char :: char \<Rightarrow> nat"] split: if_splits)

lemma mod_next_digit: "(i :: nat) mod 16 ^ Suc k = i mod 16 ^ k + 16 ^ k * (i div 16 ^ k mod 16)"
proof -
  have "i mod (16 ^ k * 16) = 16 ^ k * (i div 16 ^ k mod 16) + i mod 16 ^ k" by (rule mod_mult2_eq)
  then show ?thesis by (simp add: mult.commute)
qed

lemma show_hex16_inj: "show_hex16 g = show_hex16 h \<longleftrightarrow> g = h"
proof
  assume e: "show_hex16 g = show_hex16 h"
  have d: "unat g div 16 ^ k mod 16 = unat h div 16 ^ k mod 16" if "k < 16" for k
  proof -
    have "show_hex16 g ! (15 - k) = show_hex16 h ! (15 - k)" using e by simp
    moreover have "[0..<16] ! (15 - k) = 15 - k" using that by (subst nth_upt) auto
    ultimately have "hex_digit (unat g div 16 ^ k mod 16) = hex_digit (unat h div 16 ^ k mod 16)"
      using that by (simp add: show_hex16_def)
    then show ?thesis by (rule hex_digit_inj [rotated 2]) simp_all
  qed
  have "k \<le> 16 \<Longrightarrow> unat g mod 16 ^ k = unat h mod 16 ^ k" for k
  proof (induction k)
    case (Suc k)
    then show ?case using d [of k] mod_next_digit [of "unat g" k] mod_next_digit [of "unat h" k]
      by (metis Suc_le_eq Suc_leD)
  qed simp
  from this [of 16] have "unat g mod 2 ^ 64 = unat h mod 2 ^ 64" by simp
  moreover have "unat x mod 2 ^ 64 = unat x" for x :: fnv
  proof -
    have "unat x < 2 ^ LENGTH(64)" by (rule unsigned_less)
    then show ?thesis by simp
  qed
  ultimately show "g = h" by (simp add: word_unat_eq_iff)
qed simp

lemma length_show_hex16 [simp]: "length (show_hex16 h) = 16"
  by (simp add: show_hex16_def)

text \<open>Equal fingerprints are equal hashes of the streams.\<close>

lemma fingerprint_eq_iff:
  assumes "source_ok a" "source_ok b"
  shows "sp_fingerprint (fingerprint a) = sp_fingerprint (fingerprint b) \<longleftrightarrow>
    hash_bytes (print_stream a) FNV_OFFSET_BASIS = hash_bytes (print_stream b) FNV_OFFSET_BASIS"
  by (simp add: fingerprint_stream assms show_hex16_inj)

lemma qualified_is_longer: "show_hex16 g \<noteq> qualified_fingerprint (show_hex16 h) v"
proof
  assume "show_hex16 g = qualified_fingerprint (show_hex16 h) v"
  from arg_cong [OF this, of length] show False by (simp add: qualified_fingerprint_def)
qed

interpretation schema_version: code_table version from_version
proof
  fix s
  show "from_version (version s) = Some s"
    by (cases s) (simp_all add: from_version_def PREVIOUS_SCHEMA_VERSION_def)
qed

section \<open>A flag edit is seen\<close>

lemma le_bytes_split: "\<exists>rest. le_bytes 0 = CHR 0x00 # rest \<and> le_bytes 1 = CHR 0x01 # rest"
  by (simp add: le_bytes_def upt_rec [of 0] char_of_def bit_0)

text \<open>Exchanging one flag of one row exchanges one byte of the stream.\<close>

lemma flag_byte:
  assumes "mk_is_read m = Some 0"
  shows "\<exists>p q. enc_message m = p @ CHR 0x00 # q \<and> enc_message (m\<lparr>mk_is_read := Some 1\<rparr>) = p @ CHR 0x01 # q"
proof -
  obtain rest where r: "le_bytes 0 = CHR 0x00 # rest" "le_bytes 1 = CHR 0x01 # rest" using le_bytes_split by blast
  let ?q = "rest @ enc_opt le_bytes (mk_is_starred m) @ enc_opt enc_text (mk_tags m) @ enc_opt le_bytes (mk_raw_len m)"
  let ?p = "le_bytes (mk_seq m) @ enc_opt enc_text (mk_id m) @ [VALUE_MARKER]"
  have "enc_message m = ?p @ CHR 0x00 # ?q" "enc_message (m\<lparr>mk_is_read := Some 1\<rparr>) = ?p @ CHR 0x01 # ?q"
    by (simp_all add: enc_message_def assms enc_opt_def [of le_bytes "Some _"] r)
  then show ?thesis by blast
qed

lemma star_byte:
  assumes "mk_is_starred m = Some 0"
  shows "\<exists>p q. enc_message m = p @ CHR 0x00 # q \<and> enc_message (m\<lparr>mk_is_starred := Some 1\<rparr>) = p @ CHR 0x01 # q"
proof -
  obtain rest where r: "le_bytes 0 = CHR 0x00 # rest" "le_bytes 1 = CHR 0x01 # rest" using le_bytes_split by blast
  let ?q = "rest @ enc_opt enc_text (mk_tags m) @ enc_opt le_bytes (mk_raw_len m)"
  let ?p = "le_bytes (mk_seq m) @ enc_opt enc_text (mk_id m) @ enc_opt le_bytes (mk_is_read m) @ [VALUE_MARKER]"
  have "enc_message m = ?p @ CHR 0x00 # ?q" "enc_message (m\<lparr>mk_is_starred := Some 1\<rparr>) = ?p @ CHR 0x01 # ?q"
    by (simp_all add: enc_message_def assms enc_opt_def [of le_bytes "Some _"] r)
  then show ?thesis by blast
qed

lemma message_byte_changes_fingerprint:
  assumes ok: "source_ok a" "source_ok b"
    and rows: "sk_messages a = xs @ m # ys" "sk_messages b = xs @ n # ys" "sk_attachments b = sk_attachments a"
    and byte: "enc_message m = p @ c # q" "enc_message n = p @ d # q" "c \<noteq> d"
  shows "sp_fingerprint (fingerprint a) \<noteq> sp_fingerprint (fingerprint b)"
proof -
  let ?pre = "concat (map enc_message xs) @ p"
  let ?post = "q @ concat (map enc_message ys) @ concat (map enc_attachment (attachment_keys a))
    @ le_bytes (len_i64 (length (sk_messages a))) @ le_bytes (len_i64 (length (attachment_keys a)))"
  have k: "attachment_keys b = attachment_keys a" by (simp add: attachment_keys_def rows)
  have streams: "print_stream a = ?pre @ c # ?post" "print_stream b = ?pre @ d # ?post"
    by (simp_all add: print_stream_def rows byte k)
  show ?thesis using byte(3) by (simp add: fingerprint_eq_iff [OF ok] streams one_byte_changes_hash del: append_assoc)
qed

lemma source_ok_row_edit:
  assumes "source_ok src" "sk_messages src = xs @ m # ys" "message_key_ok n" "mk_seq n = mk_seq m"
  shows "source_ok (src\<lparr>sk_messages := xs @ n # ys\<rparr>)"
  using assms by (simp add: source_ok_def attachment_keys_def sorted_wrt_append)

section \<open>Properties\<close>


definition print_example :: source_keys where
  "print_example =
     keys_of (LegacyDb
       \<lparr>ld_columns = [''id'', ''raw'', ''is_read'', ''tags''],
        ld_messages =
          [\<lparr>lm_rowid = 3, lm_id = ''a'', lm_sender = ''x@y'', lm_recipients = ''[]'', lm_subject = None,
            lm_text_body = None, lm_raw = ''hello'', lm_has_attachments = False, lm_is_read = False,
            lm_is_starred = True, lm_tags = ''[]'', lm_created_at = ''2026''\<rparr>],
        ld_attachments = None\<rparr>)"

lemma print_example_ok: "source_ok print_example"
  by (simp add: print_example_def keys_of_def legacy_columns_probe_def legacy_message_key_def flag_int_def
      starred_of_def tags_of_def source_ok_def message_key_ok_def opt_ok_def text_ok_def i64_def i64_min_def
      i64_max_def attachment_keys_def Let_def)

lemma print_example_row:
  "sk_messages print_example = [] @ hd (sk_messages print_example) # []
   \<and> mk_is_read (hd (sk_messages print_example)) = Some 0"
  by (simp add: print_example_def keys_of_def legacy_message_key_def flag_int_def)


text \<open>
  C40. The pages of ten thousand rows do not matter: the fingerprint is one FNV-1a hash of the
  whole stream of rows, its counts are those of the rows, and the stream can be read back in
  one way only, so two databases hash the same stream exactly when the fields the fingerprint
  looks at are the same, row for row.
\<close>

theorem fingerprint_reads_every_row:
  assumes "source_ok a" "source_ok b"
  shows "fingerprint a =
      \<lparr>sp_fingerprint = show_hex16 (hash_bytes (print_stream a) FNV_OFFSET_BASIS),
       sp_messages = length (sk_messages a), sp_attachments = length (attachment_keys a),
       sp_raw_bytes = sum_list (map raw_len_u64 (sk_messages a))\<rparr>
    \<and> (print_stream a = print_stream b \<longleftrightarrow>
         sk_messages a = sk_messages b \<and> attachment_keys a = attachment_keys b)"
proof -
  have "print_stream a = print_stream b" if "sk_messages a = sk_messages b" "attachment_keys a = attachment_keys b"
    by (simp add: print_stream_def that)
  then show ?thesis using fingerprint_stream [OF assms(1)] print_stream_inj [OF assms] by blast
qed

theorem fingerprint_reads_every_row_witness:
  "print_stream print_example = print_stream print_example \<and> sp_messages (fingerprint print_example) = 1"
proof -
  have "length (sk_messages print_example) = 1" by (simp add: print_example_def keys_of_def)
  then show ?thesis using fingerprint_reads_every_row [OF print_example_ok print_example_ok] by simp
qed

text \<open>
  A copy made by this version records its origin in a form no older version matches:
  against the bare fingerprint of the file it was made from it is still recognised, against
  any other it is not, and a plain comparison, as older versions make it, always fails.
\<close>

theorem only_this_version_matches:
  "(made_from \<lparr>or_fingerprint = qualified_fingerprint (show_hex16 h) v, or_last_source_seq = l,
      or_source_schema = f, or_target_schema = v\<rparr> (show_hex16 g) \<longleftrightarrow> g = h)
   \<and> qualified_fingerprint (show_hex16 h) v \<noteq> show_hex16 g"
  using qualified_is_longer [of g h v]
  by (auto simp: made_from_def qualified_fingerprint_def show_hex16_inj)

end
