(* ===== verification/Migrate_Copy.thy ===== *)
theory Migrate_Copy
  imports Migrate_Print Storage_Invariant "HOL-Library.Multiset"
begin

text \<open>
  Building the schema-2 copy of an older database (\<open>migrate/build.rs\<close>): the batches, the
  transaction that copies one, the planning of legacy attachments, the loop that pauses and
  resumes, the verification and the last write. A copy is its tables and its origin row; a
  failing statement, a failing worker and a request to stop are inputs of a run.
\<close>

section \<open>The copy\<close>

record copy_db =
  cp_tables :: tables
  cp_origin :: origin
  cp_mismatches :: int
  cp_completed_at :: "bytes option"
  cp_user_version :: int

text \<open>\<open>MigrationOptions\<close> and its defaults.\<close>

definition BATCH_MAX_MESSAGES :: nat where "BATCH_MAX_MESSAGES = 1000"
definition BATCH_MAX_RAW_BYTES :: int where "BATCH_MAX_RAW_BYTES = 32 * 1024 * 1024"

record migration_options =
  batch_messages :: nat
  batch_raw_bytes :: int

definition default_options :: migration_options where
  "default_options = \<lparr>batch_messages = BATCH_MAX_MESSAGES, batch_raw_bytes = BATCH_MAX_RAW_BYTES\<rparr>"

text \<open>
  What a run of the copy meets: the libraries, the number of cores, which worker of a pool
  dies, the names of the two files, and which batch's transaction fails and how.
\<close>

record copy_env =
  ce_zstd :: zstd
  ce_mime :: mime_lib
  ce_sql :: sql_lib
  ce_cores :: nat
  ce_worker_dies :: "nat \<Rightarrow> bool"
  ce_source :: bytes
  ce_target :: bytes
  ce_fault :: "nat \<Rightarrow> storage_error option"

definition target_create :: "source_schema \<Rightarrow> bytes \<Rightarrow> copy_db" where
  "target_create source fp =
     \<lparr>cp_tables = no_tables,
      cp_origin = \<lparr>or_fingerprint = qualified_fingerprint fp SCHEMA_VERSION, or_last_source_seq = 0,
                   or_source_schema = version source, or_target_schema = SCHEMA_VERSION\<rparr>,
      cp_mismatches = 0, cp_completed_at = None, cp_user_version = 0\<rparr>"

definition qualify_origin :: "bytes \<Rightarrow> copy_db \<Rightarrow> copy_db" where
  "qualify_origin fp c =
     (if or_fingerprint (cp_origin c) = fp
      then c\<lparr>cp_origin := (cp_origin c)\<lparr>or_fingerprint := qualified_fingerprint fp SCHEMA_VERSION\<rparr>\<rparr> else c)"

text \<open>
  \<open>read_origin\<close>: the table as a file may hold it, with or without the schema columns.
\<close>

definition ORIGIN_DEFAULT_SOURCE_SCHEMA :: int where "ORIGIN_DEFAULT_SOURCE_SCHEMA = 0"
definition ORIGIN_DEFAULT_TARGET_SCHEMA :: int where "ORIGIN_DEFAULT_TARGET_SCHEMA = 1"

record origin_table =
  ot_has_schemas :: bool
  ot_row :: "origin option"

definition read_origin :: "origin_table option \<Rightarrow> origin option" where
  "read_origin table =
     (case table of
        None \<Rightarrow> None
      | Some t \<Rightarrow>
          map_option (\<lambda>row.
            if ot_has_schemas t then row
            else row\<lparr>or_source_schema := ORIGIN_DEFAULT_SOURCE_SCHEMA,
                     or_target_schema := ORIGIN_DEFAULT_TARGET_SCHEMA\<rparr>) (ot_row t))"

section \<open>Batches\<close>

record batch =
  b_last_seq :: int
  b_messages :: nat
  b_raw_bytes :: int

definition saturating_add :: "int \<Rightarrow> int \<Rightarrow> int" where
  "saturating_add a b = max i64_min (min i64_max (a + b))"

text \<open>The rows of the size query, all of them.\<close>

fun sizes :: "source_db \<Rightarrow> (int \<times> int) list" where
  "sizes (LegacyDb d) = map (\<lambda>m. (lm_rowid m, int (length (lm_raw m)))) (ld_messages d)"
| "sizes (PreviousDb d) = map (\<lambda>m. (mr_seq m, mr_size m)) (pd_messages d)"

fun fill_batch :: "int \<Rightarrow> batch option \<Rightarrow> (int \<times> int) list \<Rightarrow> batch option" where
  "fill_batch limit b [] = b"
| "fill_batch limit None ((rowid, raw_len) # rows) =
     fill_batch limit (Some \<lparr>b_last_seq = rowid, b_messages = 1, b_raw_bytes = raw_len\<rparr>) rows"
| "fill_batch limit (Some b) ((rowid, raw_len) # rows) =
     (if saturating_add (b_raw_bytes b) raw_len \<le> limit
      then fill_batch limit
             (Some \<lparr>b_last_seq = rowid, b_messages = b_messages b + 1, b_raw_bytes = b_raw_bytes b + raw_len\<rparr>) rows
      else Some b)"

definition next_batch :: "migration_options \<Rightarrow> source_db \<Rightarrow> int \<Rightarrow> batch option" where
  "next_batch opts src after =
     fill_batch (batch_raw_bytes opts) None
       (take (batch_messages opts) (filter (\<lambda>(seq, _). seq > after) (sizes src)))"

definition in_range :: "int \<Rightarrow> int \<Rightarrow> int \<Rightarrow> bool" where
  "in_range after until seq \<longleftrightarrow> after < seq \<and> seq \<le> until"

section \<open>Workers\<close>

text \<open>
  \<open>in_parallel\<close>: the items are dealt out to the workers in turn, every worker handles its
  share, and the results are put back in the order of their index.
\<close>

definition deal :: "nat \<Rightarrow> (nat \<times> 'a) list list \<Rightarrow> nat \<times> 'a \<Rightarrow> (nat \<times> 'a) list list" where
  "deal workers shares item =
     shares[fst item mod workers := shares ! (fst item mod workers) @ [item]]"

definition in_parallel :: "nat \<Rightarrow> (nat \<Rightarrow> bool) \<Rightarrow> ('a \<Rightarrow> 'b) \<Rightarrow> 'a list \<Rightarrow> (storage_error, 'b list) result" where
  "in_parallel cores dies work items =
     (if items = [] then Inr []
      else let workers = min (max 1 cores) (length items);
               shares = foldl (deal workers) (replicate workers []) (zip [0..<length items] items);
               results = concat (map (map (\<lambda>(index, item). (index, work item))) shares)
           in if list_ex dies [0..<workers] then Inl MigrationTaskAborted
              else Inr (map snd (sort_key fst results)))"

section \<open>Sources of a batch\<close>

fun source_raws :: "source_db \<Rightarrow> (int \<times> bytes) list" where
  "source_raws (LegacyDb d) = map (\<lambda>m. (lm_rowid m, lm_raw m)) (ld_messages d)"
| "source_raws (PreviousDb d) = map (\<lambda>c. (pc_seq c, pc_raw c)) (pd_content d)"

definition compress_checked :: "zstd \<Rightarrow> int \<times> bytes \<Rightarrow> (storage_error, int \<times> bytes \<times> bool) result" where
  "compress_checked Z row =
     (case row of (seq, raw) \<Rightarrow>
        and_then (compress Z raw) (\<lambda>frame.
          and_then (decompress Z frame (int (length raw)) (show_int seq)) (\<lambda>round_trip.
            Inr (seq, frame, round_trip = raw))))"

definition compressed_content :: "copy_env \<Rightarrow> source_db \<Rightarrow> int \<Rightarrow> int \<Rightarrow> (storage_error, (int \<times> bytes) list) result" where
  "compressed_content E src after until =
     and_then (in_parallel (ce_cores E) (ce_worker_dies E) (compress_checked (ce_zstd E))
                 (filter (\<lambda>(seq, _). in_range after until seq) (source_raws src)))
       (\<lambda>results. and_then (collect_results results) (\<lambda>compressed.
          case find (\<lambda>(_, _, intact). \<not> intact) compressed of
            Some (seq, _) \<Rightarrow>
              Inl (MigrationVerifyFailed (ce_source E) (ce_target E) ''compressed source''
                     (''message '' @ show_int seq @ '' decompresses to its source'') ''different bytes'')
          | None \<Rightarrow> Inr (map (\<lambda>(seq, frame, _). (seq, frame)) compressed)))"

section \<open>Planning legacy attachments\<close>

record attachment_meta =
  am_id :: bytes
  am_filename :: "bytes option"
  am_content_type :: "bytes option"
  am_content_id :: "bytes option"
  am_size :: "int option"

record legacy_attachment =
  lg_meta :: attachment_meta
  lg_content :: bytes

record legacy_message =
  lg_seq :: int
  lg_raw :: bytes
  lg_attachments :: "legacy_attachment list"

record planned_attachment =
  pl_seq :: int
  pl_meta :: attachment_meta
  pl_storage :: attachment_storage
  pl_mismatch :: bool

definition split_row :: "int \<times> legacy_attachment_row \<Rightarrow> int \<times> legacy_attachment" where
  "split_row row =
     (case row of (seq, a) \<Rightarrow>
        (seq, \<lparr>lg_meta = \<lparr>am_id = la_id a, am_filename = la_filename a, am_content_type = la_content_type a,
                          am_content_id = la_content_id a, am_size = la_size a\<rparr>,
               lg_content = la_content a\<rparr>))"

definition reproduces :: "mime_lib \<Rightarrow> bytes \<Rightarrow> locator \<Rightarrow> legacy_attachment \<Rightarrow> bool" where
  "reproduces M raw l a =
     (case Option.bind (Storage_Content.slice raw (loc_offset l) (loc_offset l + loc_len l)) (decode M (loc_encoding l)) of
        Some decoded \<Rightarrow> decoded = lg_content a \<and> am_size (lg_meta a) = Some (int (length decoded))
      | None \<Rightarrow> False)"

definition plan_attachment ::
  "mime_lib \<Rightarrow> int \<Rightarrow> bytes \<Rightarrow> locator option list \<Rightarrow> bool \<Rightarrow> nat \<times> legacy_attachment \<Rightarrow> planned_attachment" where
  "plan_attachment M seq raw located parts_match ia =
     (case ia of (index, a) \<Rightarrow>
        let candidate = (if parts_match \<and> index < length located then located ! index else None);
            verified = (case candidate of
                          Some l \<Rightarrow> if reproduces M raw l a then Some l else None
                        | None \<Rightarrow> None)
        in \<lparr>pl_seq = seq, pl_meta = lg_meta a,
            pl_storage = (case verified of Some l \<Rightarrow> Located l | None \<Rightarrow> Inline (lg_content a)),
            pl_mismatch = (\<not> parts_match \<or> (candidate \<noteq> None) \<noteq> (verified \<noteq> None))\<rparr>)"

definition plan_message :: "mime_lib \<Rightarrow> legacy_message \<Rightarrow> planned_attachment list" where
  "plan_message M msg =
     (let raw = lg_raw msg;
          located = (case mp_parse M raw of
                       Some parsed \<Rightarrow> map (locate M raw) (stored_part_refs parsed)
                     | None \<Rightarrow> []);
          parts_match = (length located = length (lg_attachments msg))
      in map (plan_attachment M (lg_seq msg) raw located parts_match)
           (zip [0..<length (lg_attachments msg)] (lg_attachments msg)))"

text \<open>Consecutive rows of one message become one message.\<close>

definition push_row :: "legacy_message list \<Rightarrow> int \<times> legacy_attachment \<Rightarrow> legacy_message list" where
  "push_row msgs row =
     (case row of (seq, a) \<Rightarrow>
        if msgs \<noteq> [] \<and> lg_seq (last msgs) = seq
        then butlast msgs @ [(last msgs)\<lparr>lg_attachments := lg_attachments (last msgs) @ [a]\<rparr>]
        else msgs @ [\<lparr>lg_seq = seq, lg_raw = [], lg_attachments = [a]\<rparr>])"

text \<open>The join of the batch's messages with their attachments, by rowids.\<close>

definition joined_with :: "legacy_db \<Rightarrow> legacy_message_row list \<Rightarrow> (int \<times> legacy_attachment_row) list" where
  "joined_with d ms =
     concat (map (\<lambda>m. map (\<lambda>a. (lm_rowid m, a))
                        (filter (\<lambda>a. la_message_id a = lm_id m)
                          (case ld_attachments d of Some rows \<Rightarrow> rows | None \<Rightarrow> []))) ms)"

definition joined_rows :: "legacy_db \<Rightarrow> int \<Rightarrow> int \<Rightarrow> (int \<times> legacy_attachment_row) list" where
  "joined_rows d after until = joined_with d (filter (\<lambda>m. in_range after until (lm_rowid m)) (ld_messages d))"

definition raw_of :: "legacy_db \<Rightarrow> int \<Rightarrow> bytes" where
  "raw_of d seq = (case find (\<lambda>m. lm_rowid m = seq) (ld_messages d) of Some m \<Rightarrow> lm_raw m | None \<Rightarrow> [])"

definition plan_attachments :: "copy_env \<Rightarrow> legacy_db \<Rightarrow> int \<Rightarrow> int \<Rightarrow> (storage_error, planned_attachment list) result" where
  "plan_attachments E d after until =
     (if \<not> has_attachments_table (legacy_columns_probe d) then Inr []
      else let msgs = foldl push_row [] (map split_row (joined_rows d after until));
               msgs = map (\<lambda>m. m\<lparr>lg_raw := raw_of d (lg_seq m)\<rparr>) msgs
           in and_then (in_parallel (ce_cores E) (ce_worker_dies E) (plan_message (ce_mime E)) msgs)
                (\<lambda>planned. Inr (sort_key pl_seq (concat planned))))"

definition planned_row :: "planned_attachment \<Rightarrow> stored_attachment" where
  "planned_row p =
     (let (l, content) = (case pl_storage p of Located l \<Rightarrow> (Some l, None) | Inline c \<Rightarrow> (None, Some c))
      in \<lparr>sa_id = am_id (pl_meta p), sa_message_seq = pl_seq p, sa_filename = am_filename (pl_meta p),
          sa_content_type = am_content_type (pl_meta p), sa_content_id = am_content_id (pl_meta p),
          sa_size = am_size (pl_meta p),
          sa_raw_offset = map_option (\<lambda>l. int (loc_offset l)) l,
          sa_raw_len = map_option (\<lambda>l. int (loc_len l)) l,
          sa_transfer_encoding = map_option (\<lambda>l. code (loc_encoding l)) l,
          sa_content = content\<rparr>)"

section \<open>One batch\<close>

definition foreign_key_violation :: storage_error where
  "foreign_key_violation = Database (DatabaseCode (Some ''787''))"

text \<open>An insert of several rows: the first that fails is the statement's failure.\<close>

fun insert_each :: "('r \<Rightarrow> 't \<Rightarrow> ('e, 't) result) \<Rightarrow> 'r list \<Rightarrow> 't \<Rightarrow> ('e, 't) result" where
  "insert_each ins [] t = Inr t"
| "insert_each ins (r # rs) t = and_then (ins r t) (insert_each ins rs)"

definition insert_message_at :: "sql_lib \<Rightarrow> message_row \<Rightarrow> tables \<Rightarrow> (storage_error, tables) result" where
  "insert_message_at S row t =
     (if List.member (map mr_seq (messages t)) (mr_seq row) then Inl primary_key_violation
      else if List.member (map mr_id (messages t)) (mr_id row) then Inl unique_violation
      else Inr (t\<lparr>messages := messages t @ [row],
             message_tags :=
               (if mr_tags row \<noteq> ''[]'' then insert_tags (json_each S (mr_tags row)) (mr_seq row) (message_tags t)
                else message_tags t)\<rparr>))"

definition has_message :: "int \<Rightarrow> tables \<Rightarrow> bool" where
  "has_message seq t = List.member (map mr_seq (messages t)) seq"

definition insert_content_at :: "content_row \<Rightarrow> tables \<Rightarrow> (storage_error, tables) result" where
  "insert_content_at row t =
     and_then (insert_content row t) (\<lambda>(_, t).
       if has_message (cr_seq row) t then Inr t else Inl foreign_key_violation)"

definition insert_attachment_at :: "stored_attachment \<Rightarrow> tables \<Rightarrow> (storage_error, tables) result" where
  "insert_attachment_at row t =
     and_then (insert_attachment row t) (\<lambda>(_, t).
       if has_message (sa_message_seq row) t then Inr t else Inl foreign_key_violation)"

definition legacy_row :: "legacy_columns \<Rightarrow> legacy_message_row \<Rightarrow> message_row" where
  "legacy_row cols m =
     \<lparr>mr_seq = lm_rowid m, mr_id = lm_id m, mr_sender = lm_sender m, mr_recipients = lm_recipients m,
      mr_subject = lm_subject m, mr_size = int (length (lm_raw m)), mr_has_attachments = lm_has_attachments m,
      mr_is_read = lm_is_read m, mr_is_starred = starred_of cols m, mr_tags = tags_of cols m,
      mr_created_at = lm_created_at m\<rparr>"

definition joined_content :: "previous_db \<Rightarrow> (message_row \<times> previous_content_row) list" where
  "joined_content d =
     concat (map (\<lambda>m. map (Pair m) (filter (\<lambda>c. pc_seq c = mr_seq m) (pd_content d))) (pd_messages d))"

text \<open>The rows \<open>messages_sql\<close> and \<open>fts_sql\<close> select.\<close>

fun message_rows :: "source_db \<Rightarrow> message_row list" where
  "message_rows (LegacyDb d) = map (legacy_row (legacy_columns_probe d)) (ld_messages d)"
| "message_rows (PreviousDb d) = map (\<lambda>(m, c). m\<lparr>mr_size := int (length (pc_raw c))\<rparr>) (joined_content d)"

fun fts_rows :: "source_db \<Rightarrow> fts_row list" where
  "fts_rows (LegacyDb d) =
     map (\<lambda>m. \<lparr>fr_rowid = lm_rowid m, fr_subject = lm_subject m, fr_text_body = lm_text_body m,
               fr_sender = lm_sender m, fr_recipients = lm_recipients m\<rparr>) (ld_messages d)"
| "fts_rows (PreviousDb d) =
     map (\<lambda>(m, c). \<lparr>fr_rowid = mr_seq m, fr_subject = mr_subject m, fr_text_body = pc_text_body c,
                    fr_sender = mr_sender m, fr_recipients = mr_recipients m\<rparr>) (joined_content d)"

fun batch_attachments :: "copy_env \<Rightarrow> source_db \<Rightarrow> int \<Rightarrow> int \<Rightarrow> (storage_error, planned_attachment list) result" where
  "batch_attachments E (LegacyDb d) after until = plan_attachments E d after until"
| "batch_attachments E (PreviousDb d) after until = Inr []"

fun copied_attachments :: "source_db \<Rightarrow> int \<Rightarrow> int \<Rightarrow> stored_attachment list" where
  "copied_attachments (LegacyDb d) after until = []"
| "copied_attachments (PreviousDb d) after until =
     filter (\<lambda>a. in_range after until (sa_message_seq a)) (map snd (pd_attachments d))"

definition copy_batch :: "copy_env \<Rightarrow> source_db \<Rightarrow> int \<Rightarrow> batch \<Rightarrow> copy_db \<Rightarrow> (storage_error, copy_db) result" where
  "copy_batch E src after b c =
     (let until = b_last_seq b in
      and_then (batch_attachments E src after until) (\<lambda>planned.
      and_then (compressed_content E src after until) (\<lambda>content.
      and_then (insert_each (insert_message_at (ce_sql E))
                  (filter (\<lambda>r. in_range after until (mr_seq r)) (message_rows src)) (cp_tables c)) (\<lambda>t.
      and_then (insert_each insert_content_at (map (\<lambda>(seq, frame). \<lparr>cr_seq = seq, cr_raw = frame\<rparr>) content) t) (\<lambda>t.
      and_then (insert_fts (filter (\<lambda>r. in_range after until (fr_rowid r)) (fts_rows src)) t) (\<lambda>(_, t).
      and_then (insert_each insert_attachment_at (copied_attachments src after until) t) (\<lambda>t.
      and_then (insert_each insert_attachment_at (map planned_row planned) t) (\<lambda>t.
        Inr (c\<lparr>cp_tables := t, cp_origin := (cp_origin c)\<lparr>or_last_source_seq := until\<rparr>,
               cp_mismatches := cp_mismatches c + int (length (filter pl_mismatch planned))\<rparr>)))))))))"

section \<open>The loop\<close>

datatype copy_outcome = Finished | Paused nat nat

text \<open>A batch ends past its start, so the loop ends.\<close>

lemma fill_batch_last:
  "fill_batch limit b rows = Some b' \<Longrightarrow>
     (\<exists>b0. b = Some b0 \<and> b_last_seq b' = b_last_seq b0) \<or> b_last_seq b' \<in> fst ` set rows"
  by (induction limit b rows rule: fill_batch.induct) (fastforce split: if_splits)+

lemma next_batch_last:
  assumes "next_batch opts src after = Some b"
  shows "b_last_seq b \<in> fst ` set (sizes src) \<and> after < b_last_seq b"
  using fill_batch_last [OF assms [unfolded next_batch_def]] by (auto dest!: in_set_takeD)

function copy_loop ::
  "copy_env \<Rightarrow> migration_options \<Rightarrow> source_db \<Rightarrow> nat \<Rightarrow> (nat \<Rightarrow> bool) \<Rightarrow> nat \<Rightarrow> int \<Rightarrow> nat \<Rightarrow> copy_db
    \<Rightarrow> (storage_error, copy_outcome) result \<times> copy_db" where
  "copy_loop E opts src tot stop k last_seq migrated c =
     (if stop k then (Inr (Paused migrated tot), c)
      else case next_batch opts src last_seq of
             None \<Rightarrow> (Inr Finished, c)
           | Some b \<Rightarrow>
               (case (case ce_fault E k of Some e \<Rightarrow> Inl e | None \<Rightarrow> copy_batch E src last_seq b c) of
                  Inl e \<Rightarrow> (Inl e, c)
                | Inr c' \<Rightarrow> copy_loop E opts src tot stop (Suc k) (b_last_seq b) (migrated + b_messages b) c'))"
  by pat_completeness auto

termination
proof (relation "measure (\<lambda>(E, opts, src, tot, stop, k, last_seq, migrated, c).
    length (filter (\<lambda>(seq, _). seq > last_seq) (sizes src)))")
  fix E opts src tot stop k last_seq migrated and c :: copy_db and b c'
  assume "next_batch opts src last_seq = Some b"
  from next_batch_last [OF this] obtain r where r: "r \<in> set (sizes src)" "fst r = b_last_seq b" "last_seq < b_last_seq b"
    by auto
  let ?left = "filter (\<lambda>(seq, _). seq > last_seq) (sizes src)"
  have "filter (\<lambda>(seq, _). seq > b_last_seq b) (sizes src) = filter (\<lambda>(seq, _). seq > b_last_seq b) ?left"
    using r(3) by (auto intro!: filter_cong)
  moreover have "length (filter (\<lambda>(seq, _). seq > b_last_seq b) ?left) < length ?left"
    by (rule length_filter_less [of r]) (use r in \<open>auto simp: case_prod_beta\<close>)
  ultimately show "((E, opts, src, tot, stop, Suc k, b_last_seq b, migrated + b_messages b, c'),
      E, opts, src, tot, stop, k, last_seq, migrated, c)
    \<in> measure (\<lambda>(E, opts, src, tot, stop, k, last_seq, migrated, c).
        length (filter (\<lambda>(seq, _). seq > last_seq) (sizes src)))"
    by simp
qed simp

declare copy_loop.simps [simp del]

definition target_copy ::
  "copy_env \<Rightarrow> migration_options \<Rightarrow> source_db \<Rightarrow> nat \<Rightarrow> (nat \<Rightarrow> bool) \<Rightarrow> copy_db
    \<Rightarrow> (storage_error, copy_outcome) result \<times> copy_db" where
  "target_copy E opts src tot stop c =
     copy_loop E opts src tot stop 0 (or_last_source_seq (cp_origin c)) (length (messages (cp_tables c))) c"

section \<open>Verification and the last write\<close>

text \<open>What SQLite answers to its own integrity checks is an input.\<close>

record sqlite_checks =
  sc_fts_integrity :: "bytes option"
  sc_quick_check :: bytes

record attachment_counts =
  ac_located :: nat
  ac_inline :: nat
  ac_mismatches :: nat

fun source_messages_count :: "source_db \<Rightarrow> nat" where
  "source_messages_count (LegacyDb d) = length (ld_messages d)"
| "source_messages_count (PreviousDb d) = length (pd_messages d)"

fun source_raw_bytes :: "source_db \<Rightarrow> nat" where
  "source_raw_bytes (LegacyDb d) = sum_list (map (\<lambda>m. length (lm_raw m)) (ld_messages d))"
| "source_raw_bytes (PreviousDb d) = sum_list (map (\<lambda>c. length (pc_raw c)) (pd_content d))"

fun source_attachments_count :: "source_db \<Rightarrow> nat" where
  "source_attachments_count (LegacyDb d) =
     (if has_attachments_table (legacy_columns_probe d) then length (joined_with d (ld_messages d)) else 0)"
| "source_attachments_count (PreviousDb d) = length (pd_attachments d)"

fun source_tags_count :: "sql_lib \<Rightarrow> source_db \<Rightarrow> nat" where
  "source_tags_count S (LegacyDb d) =
     length (remdups (concat (map (\<lambda>m. map (Pair (lm_rowid m))
       (json_each S (tags_of (legacy_columns_probe d) m))) (ld_messages d))))"
| "source_tags_count S (PreviousDb d) = length (pd_message_tags d)"

definition unindexed :: "tables \<Rightarrow> nat" where
  "unindexed t = length (filter (\<lambda>m. \<not> List.member (map fr_rowid (messages_fts t)) (mr_seq m)) (messages t))"

definition foreign_key_check :: "tables \<Rightarrow> nat" where
  "foreign_key_check t =
     length (filter (\<lambda>c. \<not> has_message (cr_seq c) t) (message_content t))
     + length (filter (\<lambda>a. \<not> has_message (sa_message_seq a) t) (attachments t))
     + length (filter (\<lambda>(_, seq). \<not> has_message seq t) (message_tags t))"

definition count_checks :: "sql_lib \<Rightarrow> source_db \<Rightarrow> tables \<Rightarrow> (bytes \<times> int \<times> int) list" where
  "count_checks S src t =
     [(''message count'', int (source_messages_count src), int (length (messages t))),
      (''content count'', int (source_messages_count src), int (length (message_content t))),
      (''raw bytes'', int (source_raw_bytes src), sum_list (map mr_size (messages t))),
      (''attachment count'', int (source_attachments_count src), int (length (attachments t))),
      (''tag index'', int (source_tags_count S src), int (length (message_tags t))),
      (''full-text document count'', int (length (messages t)), int (length (messages_fts t))),
      (''full-text document ids'', 0, int (unindexed t))]"

definition located_count :: "tables \<Rightarrow> nat" where
  "located_count t = length (filter (\<lambda>a. sa_raw_offset a \<noteq> None) (attachments t))"

definition inline_count :: "tables \<Rightarrow> nat" where
  "inline_count t = length (filter (\<lambda>a. sa_raw_offset a = None) (attachments t))"

definition copy_counts :: "copy_db \<Rightarrow> attachment_counts" where
  "copy_counts c =
     \<lparr>ac_located = located_count (cp_tables c), ac_inline = inline_count (cp_tables c),
      ac_mismatches = nat (cp_mismatches c)\<rparr>"

definition verify :: "copy_env \<Rightarrow> sqlite_checks \<Rightarrow> source_db \<Rightarrow> copy_db \<Rightarrow> (storage_error, attachment_counts) result" where
  "verify E V src c =
     (let t = cp_tables c; failed = MigrationVerifyFailed (ce_source E) (ce_target E) in
      case find (\<lambda>(_, expected, found). expected \<noteq> found) (count_checks (ce_sql E) src t) of
        Some (check, expected, found) \<Rightarrow> Inl (failed check (show_int expected) (show_int found))
      | None \<Rightarrow>
          (case sc_fts_integrity V of
             Some error \<Rightarrow> Inl (failed ''full-text integrity'' ''ok'' error)
           | None \<Rightarrow>
               if foreign_key_check t \<noteq> 0
               then Inl (failed ''foreign key'' ''0 violations'' (show_nat (foreign_key_check t) @ '' violations''))
               else if sc_quick_check V \<noteq> ''ok'' then Inl (failed ''quick_check'' ''ok'' (sc_quick_check V))
               else Inr (copy_counts c)))"

definition finalize :: "bytes \<Rightarrow> copy_db \<Rightarrow> copy_db" where
  "finalize time c = c\<lparr>cp_completed_at := Some time, cp_user_version := SCHEMA_VERSION\<rparr>"

section \<open>Workers keep the order\<close>

lemma mset_deal:
  assumes "i < length shares"
  shows "mset (concat (shares[i := shares ! i @ [x]])) = mset (concat shares) + {#x#}"
proof -
  have "mset (concat (xs @ (s @ [x]) # ys)) = mset (concat (xs @ s # ys)) + {#x#}" for xs s ys by simp
  then show ?thesis using assms id_take_nth_drop [OF assms] by (metis upd_conv_take_nth_drop)
qed

lemma mset_deals:
  assumes "0 < w" "length shares = w"
  shows "mset (concat (foldl (deal w) shares items)) = mset (concat shares) + mset items"
  using assms
proof (induction items arbitrary: shares)
  case (Cons x items)
  then have "fst x mod w < length shares" by simp
  then have "mset (concat (deal w shares x)) = mset (concat shares) + {#x#}"
    unfolding deal_def by (rule mset_deal)
  moreover have "length (deal w shares x) = w" using Cons.prems(2) by (simp add: deal_def)
  ultimately show ?case using Cons by simp
qed simp

lemma in_parallel_map:
  assumes "in_parallel cores dies work items = Inr results"
  shows "results = map work items"
proof (cases "items = []")
  case False
  let ?w = "min (max 1 cores) (length items)" and ?items = "zip [0..<length items] items"
  let ?run = "\<lambda>(index, item). (index, work item)"
  let ?shares = "foldl (deal ?w) (replicate ?w []) ?items"
  have w: "0 < ?w" using False by simp
  have "mset (concat (map (map ?run) ?shares)) = mset (map ?run ?items)"
    using mset_deals [OF w, of "replicate ?w []" ?items] by (simp flip: map_concat)
  then have m: "mset (concat (map (map ?run) ?shares)) = mset (map ?run ?items)" .
  have keys: "map fst (map ?run ?items) = [0..<length items]"
    by (simp add: comp_def case_prod_beta)
  have "inj_on fst (set (map ?run ?items))" using keys by (metis distinct_map distinct_upt)
  then have inj: "inj_on fst (set (concat (map (map ?run) ?shares)))" by (metis m mset_eq_setD)
  have "sort_key fst (concat (map (map ?run) ?shares)) = map ?run ?items"
    by (rule sort_key_inj_key_eq [OF m inj]) (simp only: keys, simp)
  moreover have "map snd (map ?run ?items) = map work items"
    by (simp add: comp_def case_prod_beta flip: map_map [of work snd, unfolded comp_def])
  ultimately show ?thesis using assms False by (auto simp: in_parallel_def Let_def split: if_splits)
qed (use assms in \<open>simp add: in_parallel_def\<close>)

lemma in_parallel_runs:
  "(\<And>k. \<not> dies k) \<Longrightarrow> in_parallel cores dies work items = Inr (map work items)"
  using in_parallel_map [of cores dies work items] by (auto simp: in_parallel_def Let_def list_ex_iff)

end
