(* ===== verification/Migrate_Views.thy ===== *)
theory Migrate_Views
  imports Migrate_Copy
begin

text \<open>
  What a copy of an older database holds: the source seen message by message, the lemma that
  a committed batch adds exactly the messages of its stretch, the invariant of every run of
  the copy whatever pauses, failures and dead workers it meets, and that nothing but those
  can stop a run.
\<close>

section \<open>What a copy should hold\<close>

text \<open>One message of the source as the copy keeps it.\<close>

record view =
  vw_row :: message_row
  vw_raw :: bytes
  vw_fts :: fts_row
  vw_attachments :: "stored_attachment list"
  vw_mismatches :: nat

abbreviation vw_seq :: "view \<Rightarrow> int" where
  "vw_seq v \<equiv> mr_seq (vw_row v)"

definition legacy_of :: "legacy_db \<Rightarrow> legacy_message_row \<Rightarrow> legacy_message" where
  "legacy_of d m =
     \<lparr>lg_seq = lm_rowid m, lg_raw = lm_raw m, lg_attachments = map (snd \<circ> split_row) (joined_with d [m])\<rparr>"

definition legacy_view :: "mime_lib \<Rightarrow> legacy_db \<Rightarrow> legacy_message_row \<Rightarrow> view" where
  "legacy_view M d m =
     (let planned = plan_message M (legacy_of d m) in
      \<lparr>vw_row = legacy_row (legacy_columns_probe d) m, vw_raw = lm_raw m,
       vw_fts = \<lparr>fr_rowid = lm_rowid m, fr_subject = lm_subject m, fr_text_body = lm_text_body m,
                 fr_sender = lm_sender m, fr_recipients = lm_recipients m\<rparr>,
       vw_attachments = map planned_row planned, vw_mismatches = length (filter pl_mismatch planned)\<rparr>)"

definition previous_view :: "previous_db \<Rightarrow> message_row \<times> previous_content_row \<Rightarrow> view" where
  "previous_view d mc =
     (case mc of (m, c) \<Rightarrow>
       \<lparr>vw_row = m\<lparr>mr_size := int (length (pc_raw c))\<rparr>, vw_raw = pc_raw c,
        vw_fts = \<lparr>fr_rowid = mr_seq m, fr_subject = mr_subject m, fr_text_body = pc_text_body c,
                  fr_sender = mr_sender m, fr_recipients = mr_recipients m\<rparr>,
        vw_attachments = filter (\<lambda>a. sa_message_seq a = mr_seq m) (map snd (pd_attachments d)),
        vw_mismatches = 0\<rparr>)"

fun views :: "mime_lib \<Rightarrow> source_db \<Rightarrow> view list" where
  "views M (LegacyDb d) = map (legacy_view M d) (ld_messages d)"
| "views M (PreviousDb d) = map (previous_view d) (joined_content d)"

definition frame_of :: "zstd \<Rightarrow> bytes \<Rightarrow> bytes" where
  "frame_of Z raw = (case compress Z raw of Inr frame \<Rightarrow> frame | Inl _ \<Rightarrow> [])"

definition content_of_view :: "zstd \<Rightarrow> view \<Rightarrow> content_row" where
  "content_of_view Z v = \<lparr>cr_seq = vw_seq v, cr_raw = frame_of Z (vw_raw v)\<rparr>"

definition tag_trigger :: "sql_lib \<Rightarrow> (bytes \<times> int) list \<Rightarrow> message_row \<Rightarrow> (bytes \<times> int) list" where
  "tag_trigger S rows m =
     (if mr_tags m \<noteq> ''[]'' then insert_tags (json_each S (mr_tags m)) (mr_seq m) rows else rows)"

definition add_views :: "zstd \<Rightarrow> sql_lib \<Rightarrow> view list \<Rightarrow> tables \<Rightarrow> tables" where
  "add_views Z S vs t =
     t\<lparr>messages := messages t @ map vw_row vs,
       message_content := message_content t @ map (content_of_view Z) vs,
       messages_fts := messages_fts t @ map vw_fts vs,
       attachments := attachments t @ concat (map vw_attachments vs),
       message_tags := foldl (tag_trigger S) (message_tags t) (map vw_row vs)\<rparr>"

lemma add_views_append: "add_views Z S (vs @ ws) t = add_views Z S ws (add_views Z S vs t)"
  by (simp add: add_views_def)

lemma add_views_Nil: "add_views Z S [] t = t"
  by (simp add: add_views_def)

text \<open>Files as older versions keep them.\<close>

definition legacy_db_wf :: "legacy_db \<Rightarrow> bool" where
  "legacy_db_wf d \<longleftrightarrow>
     sorted_wrt (<) (map lm_rowid (ld_messages d)) \<and> list_all (\<lambda>m. 0 < lm_rowid m) (ld_messages d)
     \<and> distinct (map lm_id (ld_messages d))
     \<and> distinct (map la_id (case ld_attachments d of Some rows \<Rightarrow> rows | None \<Rightarrow> []))"

definition previous_db_wf :: "previous_db \<Rightarrow> bool" where
  "previous_db_wf d \<longleftrightarrow>
     sorted_wrt (<) (map mr_seq (pd_messages d)) \<and> list_all (\<lambda>m. 0 < mr_seq m) (pd_messages d)
     \<and> distinct (map mr_id (pd_messages d)) \<and> map pc_seq (pd_content d) = map mr_seq (pd_messages d)
     \<and> sorted (map (sa_message_seq \<circ> snd) (pd_attachments d))
     \<and> list_all (\<lambda>(_, a). List.member (map mr_seq (pd_messages d)) (sa_message_seq a) \<and> attachment_check a)
         (pd_attachments d)
     \<and> distinct (map (sa_id \<circ> snd) (pd_attachments d))"

fun source_wf :: "source_db \<Rightarrow> bool" where
  "source_wf (LegacyDb d) = legacy_db_wf d"
| "source_wf (PreviousDb d) = previous_db_wf d"

section \<open>A batch is a stretch of the source\<close>

lemma filter_key_unique:
  assumes "distinct (map f xs)" "x \<in> set xs"
  shows "filter (\<lambda>y. f y = f x) xs = [x]"
  using assms by (induction xs) (auto simp: filter_empty_conv image_iff)

lemma join_by_key:
  assumes "map g ys = map f xs" "distinct (map f xs)"
  shows "concat (map (\<lambda>x. map (Pair x) (filter (\<lambda>y. g y = f x) ys)) xs) = zip xs ys"
proof -
  have l: "length xs = length ys" using assms(1) by (metis length_map)
  have "map (\<lambda>x. map (Pair x) (filter (\<lambda>y. g y = f x) ys)) xs = map (\<lambda>p. [p]) (zip xs ys)"
  proof (rule nth_equalityI)
    fix i assume "i < length (map (\<lambda>x. map (Pair x) (filter (\<lambda>y. g y = f x) ys)) xs)"
    then have i: "i < length xs" by simp
    have "g (ys ! i) = f (xs ! i)" using assms(1) i l by (metis nth_map)
    moreover have "filter (\<lambda>y. g y = g (ys ! i)) ys = [ys ! i]"
      by (rule filter_key_unique) (use assms i l in \<open>simp_all\<close>)
    ultimately show "map (\<lambda>x. map (Pair x) (filter (\<lambda>y. g y = f x) ys)) xs ! i = map (\<lambda>p. [p]) (zip xs ys) ! i"
      using i l by simp
  qed (simp add: l)
  then show ?thesis by simp
qed

lemma joined_content_zip:
  assumes "previous_db_wf d"
  shows "joined_content d = zip (pd_messages d) (pd_content d)"
  unfolding joined_content_def
  by (rule join_by_key) (use assms in \<open>auto simp: previous_db_wf_def strict_sorted_iff\<close>)

lemma legacy_view_seqs: "map vw_seq (views M (LegacyDb d)) = map lm_rowid (ld_messages d)"
  by (simp add: legacy_view_def legacy_row_def Let_def comp_def)

lemma previous_view_seqs:
  assumes "previous_db_wf d"
  shows "map vw_seq (views M (PreviousDb d)) = map mr_seq (pd_messages d)"
proof -
  have "length (pd_messages d) = length (pd_content d)"
    using assms unfolding previous_db_wf_def by (metis length_map)
  then have "map (mr_seq \<circ> fst) (joined_content d) = map mr_seq (pd_messages d)"
    unfolding joined_content_zip [OF assms] by (simp flip: map_map)
  then show ?thesis by (simp add: previous_view_def comp_def case_prod_beta)
qed

lemma views_sorted:
  assumes "source_wf src"
  shows "sorted_wrt (<) (map vw_seq (views M src)) \<and> list_all (\<lambda>v. 0 < vw_seq v) (views M src)"
proof (cases src)
  case (LegacyDb d)
  then show ?thesis using assms by (auto simp: legacy_db_wf_def legacy_view_def legacy_row_def Let_def comp_def list_all_iff)
next
  case (PreviousDb d)
  with assms have w: "previous_db_wf d" by simp
  have "list_all ((<) 0) (map vw_seq (views M src))" "sorted_wrt (<) (map vw_seq (views M src))"
    using w unfolding PreviousDb previous_view_seqs [OF w] by (auto simp: previous_db_wf_def list_all_iff)
  then show ?thesis by (simp add: list_all_iff)
qed

definition batch_views :: "mime_lib \<Rightarrow> source_db \<Rightarrow> int \<Rightarrow> int \<Rightarrow> view list" where
  "batch_views M src after until = filter (\<lambda>v. in_range after until (vw_seq v)) (views M src)"

lemma batch_rows:
  "filter (\<lambda>r. in_range after until (mr_seq r)) (message_rows src) = map vw_row (batch_views M src after until)"
  by (cases src)
    (simp_all add: batch_views_def filter_map comp_def legacy_view_def previous_view_def Let_def case_prod_beta)

lemma batch_fts:
  "filter (\<lambda>r. in_range after until (fr_rowid r)) (fts_rows src) = map vw_fts (batch_views M src after until)"
  by (cases src)
    (simp_all add: batch_views_def filter_map comp_def legacy_view_def legacy_row_def previous_view_def Let_def
      case_prod_beta)

lemma batch_raws:
  assumes "source_wf src"
  shows "filter (\<lambda>(seq, _). in_range after until seq) (source_raws src)
    = map (\<lambda>v. (vw_seq v, vw_raw v)) (batch_views M src after until)"
proof (cases src)
  case (LegacyDb d)
  then show ?thesis
    by (simp add: batch_views_def filter_map comp_def legacy_view_def legacy_row_def Let_def)
next
  case (PreviousDb d)
  with assms have w: "previous_db_wf d" by simp
  then have k: "map pc_seq (pd_content d) = map mr_seq (pd_messages d)" by (simp add: previous_db_wf_def)
  then have l: "length (pd_messages d) = length (pd_content d)" by (metis length_map)
  have "map (\<lambda>c. (pc_seq c, pc_raw c)) (pd_content d) = map (\<lambda>(m, c). (mr_seq m, pc_raw c)) (joined_content d)"
    unfolding joined_content_zip [OF w]
  proof (rule nth_equalityI)
    fix i assume "i < length (map (\<lambda>c. (pc_seq c, pc_raw c)) (pd_content d))"
    then have i: "i < length (pd_content d)" by simp
    with k l have "pc_seq (pd_content d ! i) = mr_seq (pd_messages d ! i)" by (metis nth_map)
    with i l show "map (\<lambda>c. (pc_seq c, pc_raw c)) (pd_content d) ! i =
      map (\<lambda>(m, c). (mr_seq m, pc_raw c)) (zip (pd_messages d) (pd_content d)) ! i" by simp
  qed (simp add: l)
  then show ?thesis
    by (simp add: PreviousDb batch_views_def filter_map comp_def previous_view_def case_prod_beta)
qed

text \<open>Rows sorted by a key, cut out key by key.\<close>

lemma cut_by_key:
  fixes key :: "'a \<Rightarrow> int"
  assumes "sorted (map key xs)" "sorted_wrt (<) ks" "key ` set xs \<subseteq> set ks"
  shows "concat (map (\<lambda>k. filter (\<lambda>x. key x = k) xs) ks) = xs"
  using assms
proof (induction ks arbitrary: xs)
  case (Cons k ks)
  have less: "\<forall>j \<in> set ks. k < j" using Cons.prems(2) by simp
  have split: "filter (\<lambda>x. key x = k) xs @ filter (\<lambda>x. key x \<noteq> k) xs = xs"
    using Cons.prems(1,3)
  proof (induction xs)
    case (Cons x xs)
    show ?case
    proof (cases "key x = k")
      case False
      with Cons.prems have "k < key x" using less by auto
      with Cons.prems have "\<forall>y \<in> set xs. key y \<noteq> k" by fastforce
      with False show ?thesis by (simp add: filter_empty_conv filter_id_conv)
    qed (use Cons in simp)
  qed simp
  have "concat (map (\<lambda>j. filter (\<lambda>x. key x = j) (filter (\<lambda>x. key x \<noteq> k) xs)) ks) = filter (\<lambda>x. key x \<noteq> k) xs"
    by (rule Cons.IH) (use Cons.prems in \<open>auto intro: sorted_filter\<close>)
  moreover have "filter (\<lambda>x. key x = j) (filter (\<lambda>x. key x \<noteq> k) xs) = filter (\<lambda>x. key x = j) xs" if "j \<in> set ks" for j
    using less that by (auto intro!: filter_cong)
  ultimately show ?case using split by (simp cong: map_cong)
qed simp

lemma batch_copied:
  assumes "previous_db_wf d"
  shows "copied_attachments (PreviousDb d) after until
    = concat (map vw_attachments (batch_views M (PreviousDb d) after until))"
proof -
  let ?as = "map snd (pd_attachments d)" and ?vs = "batch_views M (PreviousDb d) after until"
  let ?in = "filter (\<lambda>a. in_range after until (sa_message_seq a)) ?as"
  have ks: "map vw_seq ?vs = filter (in_range after until) (map mr_seq (pd_messages d))"
    unfolding batch_views_def previous_view_seqs [OF assms, of M, symmetric] by (simp add: filter_map comp_def)
  have "vw_attachments v = filter (\<lambda>a. sa_message_seq a = vw_seq v) ?as" if "v \<in> set ?vs" for v
    using that by (auto simp: batch_views_def previous_view_def)
  moreover have "filter (\<lambda>a. sa_message_seq a = vw_seq v) ?as = filter (\<lambda>a. sa_message_seq a = vw_seq v) ?in"
    if "v \<in> set ?vs" for v
    using that by (auto simp: batch_views_def intro!: filter_cong)
  ultimately have "concat (map vw_attachments ?vs) = concat (map (\<lambda>k. filter (\<lambda>a. sa_message_seq a = k) ?in) (map vw_seq ?vs))"
    by (simp add: comp_def cong: map_cong)
  also have "\<dots> = ?in" unfolding ks
  proof (rule cut_by_key)
    show "sorted (map sa_message_seq ?in)" using assms by (simp add: previous_db_wf_def sorted_filter comp_def)
    show "sorted_wrt (<) (filter (in_range after until) (map mr_seq (pd_messages d)))"
      using assms by (auto simp: previous_db_wf_def intro: sorted_wrt_filter)
    show "sa_message_seq ` set ?in \<subseteq> set (filter (in_range after until) (map mr_seq (pd_messages d)))"
      using assms by (auto simp: previous_db_wf_def list_all_iff)
  qed
  finally show ?thesis by simp
qed

section \<open>Planning is per message\<close>

lemma push_row_same:
  "lg_seq g = seq \<Longrightarrow>
     foldl push_row (gs @ [g]) (map (Pair seq) as) = gs @ [g\<lparr>lg_attachments := lg_attachments g @ as\<rparr>]"
  by (induction as arbitrary: g) (simp_all add: push_row_def)

lemma push_row_new:
  assumes "seq \<notin> lg_seq ` set gs" "as \<noteq> []"
  shows "foldl push_row gs (map (Pair seq) as) = gs @ [\<lparr>lg_seq = seq, lg_raw = [], lg_attachments = as\<rparr>]"
proof -
  obtain a as' where as: "as = a # as'" using assms(2) by (cases as) auto
  have "push_row gs (seq, a) = gs @ [\<lparr>lg_seq = seq, lg_raw = [], lg_attachments = [a]\<rparr>]"
    using assms(1) by (auto simp: push_row_def)
  then show ?thesis by (simp add: as push_row_same)
qed

lemma push_rows_group:
  assumes "distinct (map k ms)" "\<forall>g \<in> set gs. lg_seq g \<notin> k ` set ms"
  shows "foldl push_row gs (concat (map (\<lambda>m. map (Pair (k m)) (as m)) ms)) =
    gs @ map (\<lambda>m. \<lparr>lg_seq = k m, lg_raw = [], lg_attachments = as m\<rparr>) (filter (\<lambda>m. as m \<noteq> []) ms)"
  using assms
proof (induction ms arbitrary: gs)
  case (Cons m ms)
  show ?case
  proof (cases "as m = []")
    case False
    from Cons.prems have "foldl push_row gs (map (Pair (k m)) (as m)) =
      gs @ [\<lparr>lg_seq = k m, lg_raw = [], lg_attachments = as m\<rparr>]"
      by (intro push_row_new False) auto
    moreover have "\<forall>g \<in> set (gs @ [\<lparr>lg_seq = k m, lg_raw = [], lg_attachments = as m\<rparr>]). lg_seq g \<notin> k ` set ms"
      using Cons.prems by auto
    ultimately show ?thesis using Cons.IH Cons.prems(1) False by simp
  qed (use Cons in simp)
qed simp

lemma split_joined:
  "map split_row (joined_with d ms) = concat (map (\<lambda>m. map (Pair (lm_rowid m)) (lg_attachments (legacy_of d m))) ms)"
  by (induction ms) (simp_all add: joined_with_def legacy_of_def split_row_def comp_def)

lemma plan_no_attachments: "lg_attachments msg = [] \<Longrightarrow> plan_message M msg = []"
  by (simp add: plan_message_def Let_def)

lemma plan_message_seq: "p \<in> set (plan_message M msg) \<Longrightarrow> pl_seq p = lg_seq msg"
  by (auto simp: plan_message_def plan_attachment_def Let_def split: prod.splits)

lemma concat_filter_Nil: "(\<And>x. x \<in> set xs \<Longrightarrow> \<not> P x \<Longrightarrow> f x = []) \<Longrightarrow> concat (map f (filter P xs)) = concat (map f xs)"
  by (induction xs) auto

lemma sorted_concat_keys:
  assumes "sorted (map k ms)" "\<And>m p. m \<in> set ms \<Longrightarrow> p \<in> set (f m) \<Longrightarrow> key p = k m"
  shows "sorted (map key (concat (map f ms)))"
  using assms
proof (induction ms)
  case (Cons m ms)
  have c: "map key (f m) = replicate (length (f m)) (k m)"
    using Cons.prems(2) [of m] by (simp flip: map_replicate_const)
  have "k m \<le> key p" if "p \<in> set (concat (map f ms))" for p
    using that Cons.prems by fastforce
  moreover have "sorted (map key (concat (map f ms)))" by (rule Cons.IH) (use Cons.prems in auto)
  ultimately show ?case by (auto simp: sorted_append c)
qed simp

lemma sort_key_sorted: "sorted (map f xs) \<Longrightarrow> sort_key f xs = xs"
  by (rule properties_for_sort_key) simp_all

lemma plan_attachments_result:
  assumes w: "legacy_db_wf d" and p: "plan_attachments E d after until = Inr planned"
  shows "planned = concat (map (\<lambda>m. plan_message (ce_mime E) (legacy_of d m))
    (filter (\<lambda>m. in_range after until (lm_rowid m)) (ld_messages d)))"
proof (cases "ld_attachments d")
  case None
  then have "lg_attachments (legacy_of d m) = []" for m by (simp add: legacy_of_def joined_with_def)
  then show ?thesis using p None
    by (simp add: plan_attachments_def legacy_columns_probe_def Let_def plan_no_attachments)
next
  case (Some rows)
  let ?ms = "filter (\<lambda>m. in_range after until (lm_rowid m)) (ld_messages d)"
  let ?ne = "filter (\<lambda>m. lg_attachments (legacy_of d m) \<noteq> []) ?ms"
  let ?plan = "\<lambda>m. plan_message (ce_mime E) (legacy_of d m)"
  have srt: "sorted_wrt (<) (map lm_rowid (ld_messages d))" using w by (simp add: legacy_db_wf_def)
  then have srt': "sorted (map lm_rowid ?ms)" "distinct (map lm_rowid (ld_messages d))"
    by (simp_all add: strict_sorted_iff sorted_filter)
  then have dist: "distinct (map lm_rowid ?ms)" by (simp add: distinct_map inj_on_def)
  have raw: "raw_of d (lm_rowid m) = lm_raw m" if "m \<in> set ?ms" for m
    using that srt'(2) by (simp add: raw_of_def find_distinct)
  have grouped: "foldl push_row [] (map split_row (joined_rows d after until)) =
    map (\<lambda>m. \<lparr>lg_seq = lm_rowid m, lg_raw = [], lg_attachments = lg_attachments (legacy_of d m)\<rparr>) ?ne"
    unfolding joined_rows_def split_joined using push_rows_group [OF dist, of "[]"] by simp
  have "map (\<lambda>m. m\<lparr>lg_raw := raw_of d (lg_seq m)\<rparr>) (foldl push_row [] (map split_row (joined_rows d after until)))
    = map (legacy_of d) ?ne"
    unfolding grouped by (auto simp: legacy_of_def raw)
  then have "planned = sort_key pl_seq (concat (map ?plan ?ne))"
    using p Some
    by (auto simp: plan_attachments_def legacy_columns_probe_def Let_def comp_def and_then_eq_Inr
        dest!: in_parallel_map)
  moreover have "concat (map ?plan ?ne) = concat (map ?plan ?ms)"
    by (rule concat_filter_Nil) (simp add: plan_no_attachments)
  moreover have "sorted (map pl_seq (concat (map ?plan ?ms)))"
    by (rule sorted_concat_keys [OF srt'(1)]) (auto dest: plan_message_seq simp: legacy_of_def)
  ultimately show ?thesis by (simp add: sort_key_sorted)
qed

section \<open>The rows a committed batch adds\<close>

definition intact :: "zstd \<Rightarrow> view \<Rightarrow> bool" where
  "intact Z v \<longleftrightarrow> compress Z (vw_raw v) = Inr (frame_of Z (vw_raw v))
     \<and> decompress Z (frame_of Z (vw_raw v)) (int (length (vw_raw v))) [] = Inr (vw_raw v)"

lemma decompress_any_id: "decompress Z frame sz i = Inr raw \<Longrightarrow> decompress Z frame sz j = Inr raw"
  by (auto simp: decompress_def Let_def split: if_splits sum.splits option.splits)

lemma compress_checked_Inr:
  "compress_checked Z (seq, raw) = Inr (seq', frame, fine) \<longleftrightarrow>
     seq' = seq \<and> compress Z raw = Inr frame \<and>
     (\<exists>r. decompress Z frame (int (length raw)) (show_int seq) = Inr r \<and> fine = (r = raw))"
  by (auto simp: compress_checked_def and_then_eq_Inr)

lemma compressed_content_result:
  assumes w: "source_wf src" and r: "compressed_content E src after until = Inr content"
  shows "content = map (\<lambda>v. (vw_seq v, frame_of (ce_zstd E) (vw_raw v))) (batch_views M src after until)
    \<and> list_all (intact (ce_zstd E)) (batch_views M src after until)"
proof -
  let ?Z = "ce_zstd E" and ?vs = "batch_views M src after until"
  obtain rs cs where rs: "rs = map (compress_checked ?Z) (map (\<lambda>v. (vw_seq v, vw_raw v)) ?vs)"
    and cs: "collect_results rs = Inr cs"
    and "(case find (\<lambda>(_, _, intact). \<not> intact) cs of
            Some (seq, _) \<Rightarrow>
              Inl (MigrationVerifyFailed (ce_source E) (ce_target E) ''compressed source''
                     (''message '' @ show_int seq @ '' decompresses to its source'') ''different bytes'')
          | None \<Rightarrow> Inr (map (\<lambda>(seq, frame, _). (seq, frame)) cs)) = Inr content"
    using r batch_raws [OF w, of after until M]
    by (auto simp: compressed_content_def and_then_eq_Inr simp del: map_map dest!: in_parallel_map)
  then have ok: "find (\<lambda>(_, _, intact). \<not> intact) cs = None"
    and content: "content = map (\<lambda>(seq, frame, _). (seq, frame)) cs"
    by (auto split: option.splits prod.splits)
  have "map (\<lambda>v. compress_checked ?Z (vw_seq v, vw_raw v)) ?vs = map Inr cs"
    using rs cs by (simp add: collect_results_Inr comp_def)
  then have all: "list_all2 (\<lambda>v c. compress_checked ?Z (vw_seq v, vw_raw v) = Inr c) ?vs cs"
    unfolding list_all2_eq by (simp add: list_all2_map1 list_all2_map2)
  have good: "\<forall>c \<in> set cs. snd (snd c)" using ok by (metis (mono_tags, lifting) find_None_iff prod.case_eq_if)
  from all good have "map (\<lambda>(seq, frame, _). (seq, frame)) cs = map (\<lambda>v. (vw_seq v, frame_of ?Z (vw_raw v))) ?vs
      \<and> list_all (intact ?Z) ?vs"
    by (induction rule: list_all2_induct)
      (auto simp: compress_checked_Inr frame_of_def intact_def dest: decompress_any_id)
  then show ?thesis by (simp add: content)
qed

text \<open>A row insert that, when it succeeds, adds its row, and what several of them add.\<close>

locale row_insert =
  fixes ins :: "'r \<Rightarrow> 't \<Rightarrow> ('e, 't) result"
    and add :: "'r list \<Rightarrow> 't \<Rightarrow> 't"
  assumes adds_one: "ins r t = Inr t' \<Longrightarrow> t' = add [r] t"
    and adds_more: "add rs (add [r] t) = add (r # rs) t"
    and adds_none: "add [] t = t"
begin

lemma adds_each: "insert_each ins rs t = Inr t' \<Longrightarrow> t' = add rs t"
proof (induction rs arbitrary: t)
  case (Cons r rs)
  then obtain t1 where "ins r t = Inr t1" "insert_each ins rs t1 = Inr t'" by (auto simp: and_then_eq_Inr)
  with Cons.IH [of t1] adds_one [of r t t1] show ?case by (simp add: adds_more)
qed (simp add: adds_none)

end

interpretation ins_messages: row_insert "insert_message_at S"
  "\<lambda>rows t. t\<lparr>messages := messages t @ rows, message_tags := foldl (tag_trigger S) (message_tags t) rows\<rparr>" for S
  by unfold_locales (auto simp: insert_message_at_def tag_trigger_def split: if_splits)

interpretation ins_contents: row_insert insert_content_at
  "\<lambda>rows t. t\<lparr>message_content := message_content t @ rows\<rparr>"
  by unfold_locales (auto simp: insert_content_at_def insert_content_def and_then_eq_Inr split: if_splits)

interpretation ins_attachments: row_insert insert_attachment_at
  "\<lambda>rows t. t\<lparr>attachments := attachments t @ rows\<rparr>"
  by unfold_locales (auto simp: insert_attachment_at_def insert_attachment_def and_then_eq_Inr split: if_splits)

lemma batch_attachments_result:
  assumes "source_wf src" "batch_attachments E src after until = Inr planned"
  shows "copied_attachments src after until @ map planned_row planned
      = concat (map vw_attachments (batch_views (ce_mime E) src after until))
    \<and> length (filter pl_mismatch planned) = sum_list (map vw_mismatches (batch_views (ce_mime E) src after until))"
proof (cases src)
  case (LegacyDb d)
  with assms have "planned = concat (map (\<lambda>m. plan_message (ce_mime E) (legacy_of d m))
    (filter (\<lambda>m. in_range after until (lm_rowid m)) (ld_messages d)))"
    using plan_attachments_result by simp
  then show ?thesis
    by (simp add: LegacyDb batch_views_def filter_map comp_def legacy_view_def legacy_row_def Let_def
        map_concat filter_concat length_concat)
next
  case (PreviousDb d)
  with assms have "planned = []" "previous_db_wf d" by simp_all
  moreover have "sum_list (map vw_mismatches (batch_views (ce_mime E) (PreviousDb d) after until)) = 0"
    by (auto simp: batch_views_def previous_view_def)
  ultimately show ?thesis using batch_copied by (simp add: PreviousDb del: copied_attachments.simps)
qed

lemma copy_batch_result:
  assumes w: "source_wf src" and r: "copy_batch E src after b c = Inr c'"
  defines "vs \<equiv> batch_views (ce_mime E) src after (b_last_seq b)"
  shows "c' = c\<lparr>cp_tables := add_views (ce_zstd E) (ce_sql E) vs (cp_tables c),
      cp_origin := (cp_origin c)\<lparr>or_last_source_seq := b_last_seq b\<rparr>,
      cp_mismatches := cp_mismatches c + int (sum_list (map vw_mismatches vs))\<rparr>
    \<and> list_all (intact (ce_zstd E)) vs"
proof -
  let ?u = "b_last_seq b"
  obtain planned content t1 t2 t4 t5 where
    p: "batch_attachments E src after ?u = Inr planned" and
    k: "compressed_content E src after ?u = Inr content" and
    t1: "insert_each (insert_message_at (ce_sql E)) (map vw_row vs) (cp_tables c) = Inr t1" and
    t2: "insert_each insert_content_at (map (\<lambda>(seq, frame). \<lparr>cr_seq = seq, cr_raw = frame\<rparr>) content) t1 = Inr t2" and
    t4: "insert_each insert_attachment_at (copied_attachments src after ?u) (t2\<lparr>messages_fts := messages_fts t2 @ map vw_fts vs\<rparr>) = Inr t4" and
    t5: "insert_each insert_attachment_at (map planned_row planned) t4 = Inr t5" and
    c': "c' = c\<lparr>cp_tables := t5, cp_origin := (cp_origin c)\<lparr>or_last_source_seq := ?u\<rparr>,
               cp_mismatches := cp_mismatches c + int (length (filter pl_mismatch planned))\<rparr>"
    using r by (auto simp: copy_batch_def Let_def and_then_eq_Inr insert_fts_def vs_def
        batch_rows [where M = "ce_mime E"] batch_fts [where M = "ce_mime E"])
  note kr = compressed_content_result [OF w k, of "ce_mime E", folded vs_def]
  note pr = batch_attachments_result [OF w p, folded vs_def]
  have rows: "map (\<lambda>(seq, frame). \<lparr>cr_seq = seq, cr_raw = frame\<rparr>) content = map (content_of_view (ce_zstd E)) vs"
    using kr by (simp add: content_of_view_def comp_def)
  have "t5 = add_views (ce_zstd E) (ce_sql E) vs (cp_tables c)"
    using ins_messages.adds_each [OF t1] ins_contents.adds_each [OF t2] ins_attachments.adds_each [OF t4]
      ins_attachments.adds_each [OF t5] pr
    by (simp add: add_views_def rows)
  then show ?thesis using c' pr kr by simp
qed

section \<open>Whatever happens to the runs\<close>

text \<open>
  A copy holds exactly the source's messages up to its \<open>last_source_seq\<close>, each of them proven
  to decompress to its source.
\<close>

definition views_upto :: "mime_lib \<Rightarrow> source_db \<Rightarrow> int \<Rightarrow> view list" where
  "views_upto M src n = filter (\<lambda>v. vw_seq v \<le> n) (views M src)"

definition copied :: "copy_env \<Rightarrow> source_db \<Rightarrow> copy_db \<Rightarrow> bool" where
  "copied E src c \<longleftrightarrow>
     (let vs = views_upto (ce_mime E) src (or_last_source_seq (cp_origin c)) in
      cp_tables c = add_views (ce_zstd E) (ce_sql E) vs no_tables
      \<and> cp_mismatches c = int (sum_list (map vw_mismatches vs)) \<and> list_all (intact (ce_zstd E)) vs)"

lemma views_upto_step:
  assumes "source_wf src" "after \<le> until"
  shows "views_upto M src until = views_upto M src after @ batch_views M src after until"
proof -
  have "sorted (map vw_seq vs) \<Longrightarrow> filter (\<lambda>v. vw_seq v \<le> until) vs =
      filter (\<lambda>v. vw_seq v \<le> after) vs @ filter (\<lambda>v. in_range after until (vw_seq v)) vs" for vs :: "view list"
  proof (induction vs)
    case (Cons v vs)
    show ?case
    proof (cases "vw_seq v \<le> after")
      case True
      with Cons assms(2) show ?thesis by (simp add: in_range_def)
    next
      case False
      with Cons.prems have "\<forall>w \<in> set vs. \<not> vw_seq w \<le> after" by fastforce
      then have "filter (\<lambda>v. vw_seq v \<le> after) vs = []" by (simp add: filter_empty_conv)
      with Cons False show ?thesis by (simp add: in_range_def)
    qed
  qed simp
  then show ?thesis using views_sorted [OF assms(1), of M]
    by (simp add: views_upto_def batch_views_def strict_sorted_iff)
qed

lemma copied_create:
  assumes "source_wf src"
  shows "copied E src (target_create s fp)"
proof -
  have "views_upto (ce_mime E) src 0 = []"
    using views_sorted [OF assms, of "ce_mime E"] by (auto simp: views_upto_def filter_empty_conv list_all_iff)
  then show ?thesis by (simp add: copied_def target_create_def add_views_Nil)
qed

lemma copied_batch:
  assumes "source_wf src" "copied E src c" "copy_batch E src (or_last_source_seq (cp_origin c)) b c = Inr c'"
    and "or_last_source_seq (cp_origin c) \<le> b_last_seq b"
  shows "copied E src c' \<and> or_last_source_seq (cp_origin c') = b_last_seq b"
  using copy_batch_result [OF assms(1,3)] assms(2) views_upto_step [OF assms(1,4), of "ce_mime E"]
  by (simp add: copied_def Let_def add_views_append)

lemma copy_loop_keeps:
  assumes "source_wf src" "copied E src c" "last_seq = or_last_source_seq (cp_origin c)"
  shows "copied E src (snd (copy_loop E opts src tot stop k last_seq migrated c))"
  using assms
proof (induction E opts src tot stop k last_seq migrated c rule: copy_loop.induct)
  case (1 E opts src tot stop k last_seq migrated c)
  show ?case
  proof (cases "stop k \<or> next_batch opts src last_seq = None \<or> ce_fault E k \<noteq> None")
    case True
    with 1 show ?thesis
      by (auto simp: copy_loop.simps [of E opts src tot stop k] split: option.split)
  next
    case False
    then obtain b where b: "next_batch opts src last_seq = Some b" by auto
    show ?thesis
    proof (cases "copy_batch E src last_seq b c")
      case (Inl e)
      with 1 b False show ?thesis by (simp add: copy_loop.simps [of E opts src tot stop k])
    next
      case (Inr c')
      have "copied E src c' \<and> or_last_source_seq (cp_origin c') = b_last_seq b"
        using copied_batch [OF 1(2,3), of b c'] 1(4) next_batch_last [OF b] Inr by simp
      then have "copied E src (snd (copy_loop E opts src tot stop (Suc k) (b_last_seq b) (migrated + b_messages b) c'))"
        using 1(1) [OF _ b, of c'] False Inr 1(2) by simp
      with b False Inr show ?thesis by (simp add: copy_loop.simps [of E opts src tot stop k])
    qed
  qed
qed

text \<open>A run of \<open>copy\<close> with everything that can differ from one start to the next.\<close>

record copy_run =
  run_options :: migration_options
  run_total :: nat
  run_stop :: "nat \<Rightarrow> bool"
  run_cores :: nat
  run_worker_dies :: "nat \<Rightarrow> bool"
  run_fault :: "nat \<Rightarrow> storage_error option"

definition run_env :: "copy_env \<Rightarrow> copy_run \<Rightarrow> copy_env" where
  "run_env E r = E\<lparr>ce_cores := run_cores r, ce_worker_dies := run_worker_dies r, ce_fault := run_fault r\<rparr>"

definition run_copy :: "copy_env \<Rightarrow> source_db \<Rightarrow> copy_db \<Rightarrow> copy_run \<Rightarrow> copy_db" where
  "run_copy E src c r = snd (target_copy (run_env E r) (run_options r) src (run_total r) (run_stop r) c)"

lemma copied_run_env: "copied (run_env E r) src c = copied E src c"
  by (simp add: copied_def run_env_def)

interpretation copying: kept_invariant "run_copy E src" "\<lambda>c. source_wf src \<and> copied E src c" for E src
proof
  fix c r
  assume c: "source_wf src \<and> copied E src c"
  then have "copied (run_env E r) src c" by (simp add: copied_run_env)
  with c have "copied (run_env E r) src (run_copy E src c r)"
    unfolding run_copy_def target_copy_def by (simp add: copy_loop_keeps)
  then show "source_wf src \<and> copied E src (run_copy E src c r)" using c by (simp add: copied_run_env)
qed

lemma sizes_views:
  assumes "source_wf src"
  shows "map fst (sizes src) = map vw_seq (views M src)"
proof (cases src)
  case (LegacyDb d)
  then show ?thesis by (simp add: legacy_view_def legacy_row_def Let_def comp_def)
next
  case (PreviousDb d)
  with assms previous_view_seqs [of d M] show ?thesis by (simp add: comp_def del: views.simps)
qed

lemma fill_batch_Some: "fill_batch limit (Some b) rows \<noteq> None"
  by (induction rows arbitrary: b) auto

lemma next_batch_None:
  assumes "next_batch opts src n = None" "0 < batch_messages opts" "source_wf src"
  shows "views_upto M src n = views M src"
proof -
  have "filter (\<lambda>(seq, _). n < seq) (sizes src) = []"
  proof (rule ccontr)
    assume "filter (\<lambda>(seq, _). n < seq) (sizes src) \<noteq> []"
    then obtain seq len rest where "take (batch_messages opts) (filter (\<lambda>(seq, _). n < seq) (sizes src)) = (seq, len) # rest"
      using assms(2) by (cases "take (batch_messages opts) (filter (\<lambda>(seq, _). n < seq) (sizes src))") auto
    then show False using assms(1) by (simp add: next_batch_def fill_batch_Some)
  qed
  then have "\<forall>seq \<in> set (map fst (sizes src)). seq \<le> n" by (auto simp: filter_empty_conv)
  then show ?thesis unfolding sizes_views [OF assms(3), of M] by (auto simp: views_upto_def filter_id_conv)
qed

lemma copy_loop_finished:
  assumes "source_wf src" "copied E src c" "last_seq = or_last_source_seq (cp_origin c)" "0 < batch_messages opts"
    and "fst (copy_loop E opts src tot stop k last_seq migrated c) = Inr Finished"
  shows "views_upto M src (or_last_source_seq (cp_origin (snd (copy_loop E opts src tot stop k last_seq migrated c))))
    = views M src"
  using assms
proof (induction E opts src tot stop k last_seq migrated c rule: copy_loop.induct)
  case (1 E opts src tot stop k last_seq migrated c)
  have go: "\<not> stop k" using 1(6) by (auto simp: copy_loop.simps [of E opts src tot stop k])
  show ?case
  proof (cases "next_batch opts src last_seq")
    case None
    with 1 go next_batch_None show ?thesis by (simp add: copy_loop.simps [of E opts src tot stop k])
  next
    case (Some b)
    have f: "ce_fault E k = None" using 1(6) go Some
      by (auto simp: copy_loop.simps [of E opts src tot stop k] split: option.splits)
    obtain c' where c': "copy_batch E src last_seq b c = Inr c'" using 1(6) go Some f
      by (cases "copy_batch E src last_seq b c") (auto simp: copy_loop.simps [of E opts src tot stop k])
    have "copied E src c' \<and> or_last_source_seq (cp_origin c') = b_last_seq b"
      using copied_batch [OF 1(2,3), of b c'] 1(4) next_batch_last [OF Some] c' by simp
    moreover have "fst (copy_loop E opts src tot stop (Suc k) (b_last_seq b) (migrated + b_messages b) c') = Inr Finished"
      using 1(6) go Some f c' by (simp add: copy_loop.simps [of E opts src tot stop k])
    ultimately have "views_upto M src (or_last_source_seq (cp_origin
        (snd (copy_loop E opts src tot stop (Suc k) (b_last_seq b) (migrated + b_messages b) c')))) = views M src"
      using 1(1) [OF go Some, of c'] f c' 1(2,5) by simp
    with go Some f c' show ?thesis by (simp add: copy_loop.simps [of E opts src tot stop k])
  qed
qed

section \<open>The copy is a database of the current schema\<close>

definition view_ok :: "view \<Rightarrow> bool" where
  "view_ok v \<longleftrightarrow>
     indexes (vw_fts v) (vw_row v) \<and> mr_size (vw_row v) = int (length (vw_raw v))
     \<and> list_all (\<lambda>a. sa_message_seq a = vw_seq v \<and> attachment_check a) (vw_attachments v)"

definition views_ok :: "view list \<Rightarrow> bool" where
  "views_ok vs \<longleftrightarrow>
     sorted_wrt (<) (map vw_seq vs) \<and> distinct (map (mr_id \<circ> vw_row) vs) \<and> list_all view_ok vs
     \<and> distinct (map sa_id (concat (map vw_attachments vs)))"

lemma tag_trigger_foldl:
  assumes "json_each S ''[]'' = []"
  shows "set (foldl (tag_trigger S) rows ms) = set rows \<union> tag_pairs S ms"
    and "distinct rows \<Longrightarrow> distinct (foldl (tag_trigger S) rows ms)"
  using assms
  by (induction ms arbitrary: rows)
    (auto simp: tag_trigger_def tag_pairs_def insert_tags_set insert_tags_distinct split: if_splits)

lemma add_views_wf:
  assumes "views_ok vs" "json_each S ''[]'' = []"
  shows "db_wf S (add_views Z S vs no_tables)"
  using assms
  by (auto simp: wf_defs add_views_def no_tables_def views_ok_def view_ok_def content_of_view_def comp_def
      tag_trigger_foldl list_all_iff list_all2_map1 list_all2_map2 list_all2_same)

lemma planned_metas: "map pl_meta (plan_message M msg) = map lg_meta (lg_attachments msg)"
  by (rule nth_equalityI) (simp_all add: plan_message_def plan_attachment_def Let_def)

lemma planned_ids: "map sa_id (map planned_row (plan_message M msg)) = map (am_id \<circ> lg_meta) (lg_attachments msg)"
proof -
  have "sa_id \<circ> planned_row = am_id \<circ> pl_meta"
    by (auto simp: planned_row_def Let_def split: attachment_storage.split prod.split)
  then show ?thesis using planned_metas [of M msg] by (metis (no_types, lifting) map_map)
qed

lemma planned_row_check: "attachment_check (planned_row p)"
  by (cases "pl_storage p"; cases "loc_encoding (case pl_storage p of Located l \<Rightarrow> l)")
    (auto simp: attachment_check_def planned_row_def split: attachment_storage.splits)

lemma planned_row_seq: "sa_message_seq (planned_row p) = pl_seq p"
  by (simp add: planned_row_def Let_def split: prod.split)

lemma distinct_join:
  assumes "distinct (map f rows)" "distinct (map g ms)"
  shows "distinct (concat (map (\<lambda>m. map f (filter (\<lambda>a. k a = g m) rows)) ms))"
  using assms(2)
proof (induction ms)
  case (Cons m ms)
  have inj: "inj_on f (set rows)" and d: "distinct rows" using assms(1) by (simp_all add: distinct_map)
  then have "distinct (map f (filter (\<lambda>a. k a = g m) rows))" by (auto simp: distinct_map inj_on_def)
  moreover have "f a \<notin> set (map f (filter (\<lambda>a. k a = g n) rows))"
    if "n \<in> set ms" "a \<in> set rows" "k a = g m" for n a
    using that Cons.prems inj by (auto simp: inj_on_def) (metis imageI)
  ultimately show ?case using Cons by auto
qed simp

lemma legacy_attachment_ids:
  "map (am_id \<circ> lg_meta) (lg_attachments (legacy_of d m)) =
     map la_id (filter (\<lambda>a. la_message_id a = lm_id m) (case ld_attachments d of Some rows \<Rightarrow> rows | None \<Rightarrow> []))"
  by (simp add: legacy_of_def joined_with_def split_row_def comp_def)

lemma legacy_views_ok:
  assumes "legacy_db_wf d"
  shows "views_ok (views M (LegacyDb d))"
proof -
  have "map sa_id (concat (map vw_attachments (views M (LegacyDb d)))) =
    concat (map (\<lambda>m. map la_id (filter (\<lambda>a. la_message_id a = lm_id m)
      (case ld_attachments d of Some rows \<Rightarrow> rows | None \<Rightarrow> []))) (ld_messages d))"
    by (simp add: map_concat comp_def legacy_view_def Let_def planned_ids [unfolded map_map comp_def]
        legacy_attachment_ids [unfolded comp_def])
  moreover have "distinct (concat (map (\<lambda>m. map la_id (filter (\<lambda>a. la_message_id a = lm_id m)
      (case ld_attachments d of Some rows \<Rightarrow> rows | None \<Rightarrow> []))) (ld_messages d)))"
    by (rule distinct_join) (use assms in \<open>simp_all add: legacy_db_wf_def\<close>)
  moreover have "view_ok (legacy_view M d m)" for m
    by (auto simp: view_ok_def legacy_view_def legacy_row_def indexes_def Let_def list_all_iff planned_row_check
        planned_row_seq legacy_of_def dest!: plan_message_seq)
  moreover have "map (mr_id \<circ> vw_row) (views M (LegacyDb d)) = map lm_id (ld_messages d)"
    by (simp add: legacy_view_def legacy_row_def Let_def comp_def)
  ultimately show ?thesis
    using assms legacy_view_seqs [of M d] by (simp add: views_ok_def legacy_db_wf_def list_all_iff del: map_map)
qed

lemma previous_views_ok:
  assumes "previous_db_wf d"
  shows "views_ok (views M (PreviousDb d))"
proof -
  let ?vs = "views M (PreviousDb d)" and ?as = "map snd (pd_attachments d)"
  have l: "length (pd_messages d) = length (pd_content d)"
    using assms unfolding previous_db_wf_def by (metis length_map)
  have "concat (map (\<lambda>k. filter (\<lambda>a. sa_message_seq a = k) ?as) (map vw_seq ?vs)) = ?as"
    unfolding previous_view_seqs [OF assms]
    by (rule cut_by_key) (use assms in \<open>auto simp: previous_db_wf_def list_all_iff comp_def\<close>)
  then have atts: "concat (map vw_attachments ?vs) = ?as"
    by (simp add: comp_def previous_view_def case_prod_beta)
  have "map (mr_id \<circ> vw_row) ?vs = map mr_id (map fst (joined_content d))"
    by (simp add: previous_view_def comp_def case_prod_beta)
  also have "\<dots> = map mr_id (pd_messages d)" using l by (simp add: joined_content_zip [OF assms])
  finally have ids: "map (mr_id \<circ> vw_row) ?vs = map mr_id (pd_messages d)" .
  have "view_ok (previous_view d mc)" for mc
    using assms by (auto simp: view_ok_def previous_view_def indexes_def previous_db_wf_def list_all_iff split: prod.split)
  then have "list_all view_ok ?vs" by (simp add: list_all_iff)
  then show ?thesis using assms atts ids previous_view_seqs [OF assms, of M]
    by (simp add: views_ok_def previous_db_wf_def del: views.simps map_map) (simp add: comp_def)
qed

lemma source_views_ok: "source_wf src \<Longrightarrow> views_ok (views M src)"
  by (cases src) (simp_all add: legacy_views_ok previous_views_ok del: views.simps)

section \<open>Nothing stops a healthy run\<close>

locale checked_insert = row_insert +
  fixes fits :: "'a list \<Rightarrow> 'b \<Rightarrow> bool"
  assumes fits_first: "fits (r # rs) t \<Longrightarrow> ins r t = Inr (add [r] t)"
    and fits_rest: "fits (r # rs) t \<Longrightarrow> fits rs (add [r] t)"
begin

lemma inserts_each: "fits rs t \<Longrightarrow> insert_each ins rs t = Inr (add rs t)"
  by (induction rs arbitrary: t) (simp_all add: adds_none adds_more fits_first fits_rest)

end

definition messages_fit :: "message_row list \<Rightarrow> tables \<Rightarrow> bool" where
  "messages_fit rows t \<longleftrightarrow>
     distinct (map mr_seq (messages t @ rows)) \<and> distinct (map mr_id (messages t @ rows))"

definition contents_fit :: "content_row list \<Rightarrow> tables \<Rightarrow> bool" where
  "contents_fit rows t \<longleftrightarrow>
     distinct (map cr_seq (message_content t @ rows)) \<and> list_all (\<lambda>r. has_message (cr_seq r) t) rows"

definition attachments_fit :: "stored_attachment list \<Rightarrow> tables \<Rightarrow> bool" where
  "attachments_fit rows t \<longleftrightarrow>
     distinct (map sa_id (attachments t @ rows))
     \<and> list_all (\<lambda>r. attachment_check r \<and> has_message (sa_message_seq r) t) rows"

interpretation fit_messages: checked_insert "insert_message_at S"
  "\<lambda>rows t. t\<lparr>messages := messages t @ rows, message_tags := foldl (tag_trigger S) (message_tags t) rows\<rparr>"
  messages_fit for S
  by unfold_locales (auto simp: messages_fit_def insert_message_at_def tag_trigger_def)

interpretation fit_contents: checked_insert insert_content_at
  "\<lambda>rows t. t\<lparr>message_content := message_content t @ rows\<rparr>" contents_fit
  by unfold_locales (auto simp: contents_fit_def insert_content_at_def insert_content_def has_message_def list_all_iff)

interpretation fit_attachments: checked_insert insert_attachment_at
  "\<lambda>rows t. t\<lparr>attachments := attachments t @ rows\<rparr>" attachments_fit
  by unfold_locales (auto simp: attachments_fit_def insert_attachment_at_def insert_attachment_def has_message_def
      list_all_iff)

lemma views_ok_prefix: "views_ok (xs @ ys) \<Longrightarrow> views_ok xs"
  by (simp add: views_ok_def sorted_wrt_append)

lemma views_upto_ok:
  assumes "source_wf src"
  shows "views_ok (views_upto M src n)"
proof -
  have "sorted (map vw_seq vs) \<Longrightarrow> vs = filter (\<lambda>v. vw_seq v \<le> n) vs @ filter (\<lambda>v. \<not> vw_seq v \<le> n) vs"
    for vs :: "view list"
  proof (induction vs)
    case (Cons v vs)
    show ?case
    proof (cases "vw_seq v \<le> n")
      case False
      with Cons.prems have "\<forall>w \<in> set vs. \<not> vw_seq w \<le> n" by fastforce
      with False show ?thesis by (simp add: filter_empty_conv filter_id_conv)
    qed (use Cons in simp)
  qed simp
  then have "views M src = views_upto M src n @ filter (\<lambda>v. \<not> vw_seq v \<le> n) (views M src)"
    using views_sorted [OF assms, of M] by (simp add: views_upto_def strict_sorted_iff)
  with source_views_ok [OF assms, of M] show ?thesis by (metis views_ok_prefix)
qed

lemma new_views_fit:
  assumes "views_ok (vs @ ws)" "t = add_views Z S vs no_tables"
  shows "messages_fit (map vw_row ws) t"
    and "contents_fit (map (content_of_view Z) ws) (t\<lparr>messages := messages t @ map vw_row ws, message_tags := x\<rparr>)"
    and "attachments_fit (concat (map vw_attachments ws))
      (t\<lparr>messages := messages t @ map vw_row ws, message_tags := x, message_content := y, messages_fts := z\<rparr>)"
proof -
  have seq: "sa_message_seq a \<in> vw_seq ` set ws \<and> attachment_check a" if "v \<in> set ws" "a \<in> set (vw_attachments v)" for v a
  proof -
    have "view_ok v" using assms(1) that(1) by (simp add: views_ok_def list_all_iff)
    with that show ?thesis by (simp add: view_ok_def list_all_iff)
  qed
  show "messages_fit (map vw_row ws) t"
    "contents_fit (map (content_of_view Z) ws) (t\<lparr>messages := messages t @ map vw_row ws, message_tags := x\<rparr>)"
    using assms
    by (auto simp: messages_fit_def contents_fit_def views_ok_def add_views_def no_tables_def content_of_view_def
        has_message_def comp_def strict_sorted_iff list_all_iff)
  show "attachments_fit (concat (map vw_attachments ws))
      (t\<lparr>messages := messages t @ map vw_row ws, message_tags := x, message_content := y, messages_fts := z\<rparr>)"
    using assms seq
    by (auto simp: attachments_fit_def views_ok_def add_views_def no_tables_def has_message_def list_all_iff image_Un
        image_image)
qed

text \<open>The compressor accepts every source.\<close>

definition zstd_total :: "zstd \<Rightarrow> bool" where
  "zstd_total Z \<longleftrightarrow> (\<forall>raw. \<exists>frame. z_compress Z raw = Inr frame)"

lemma compressed_content_runs:
  assumes w: "source_wf src" and Z: "zstd_laws (ce_zstd E)" "zstd_total (ce_zstd E)" and "\<And>k. \<not> ce_worker_dies E k"
  shows "\<exists>content. compressed_content E src after until = Inr content"
proof -
  let ?Z = "ce_zstd E" and ?vs = "batch_views (ce_mime E) src after until"
  have c: "compress ?Z raw = Inr (frame_of ?Z raw)" for raw
  proof -
    obtain frame where "z_compress ?Z raw = Inr frame" using Z(2) by (auto simp: zstd_total_def)
    then show ?thesis by (simp add: compress_def frame_of_def)
  qed
  have "compress_checked ?Z (seq, raw) = Inr (seq, frame_of ?Z raw, True)" for seq raw
    using c [of raw] decompress_compress [OF Z(1) c] by (simp add: compress_checked_def)
  then have "map (compress_checked ?Z) (map (\<lambda>v. (vw_seq v, vw_raw v)) ?vs) =
      map Inr (map (\<lambda>v. (vw_seq v, frame_of ?Z (vw_raw v), True)) ?vs)" by simp
  then have "collect_results (map (compress_checked ?Z) (map (\<lambda>v. (vw_seq v, vw_raw v)) ?vs)) =
      Inr (map (\<lambda>v. (vw_seq v, frame_of ?Z (vw_raw v), True)) ?vs)" by (simp only: collect_results_Inr)
  moreover have "find (\<lambda>(_, _, intact). \<not> intact) (map (\<lambda>v. (vw_seq v, frame_of ?Z (vw_raw v), True)) ?vs) = None"
    by (auto simp: find_None_iff)
  ultimately show ?thesis
    using batch_raws [OF w, of after until "ce_mime E"]
    by (simp add: compressed_content_def in_parallel_runs assms(4) del: map_map)
qed

lemma batch_attachments_runs:
  "(\<And>k. \<not> ce_worker_dies E k) \<Longrightarrow> \<exists>planned. batch_attachments E src after until = Inr planned"
  by (cases src) (simp_all add: plan_attachments_def in_parallel_runs Let_def)

lemma insert_each_append: "insert_each ins (xs @ ys) t = and_then (insert_each ins xs t) (insert_each ins ys)"
proof (induction xs arbitrary: t)
  case (Cons x xs)
  then show ?case by (cases "ins x t") simp_all
qed simp

lemma copy_batch_runs:
  assumes w: "source_wf src" and Z: "zstd_laws (ce_zstd E)" "zstd_total (ce_zstd E)"
    and dies: "\<And>k. \<not> ce_worker_dies E k" and c: "copied E src c"
    and b: "or_last_source_seq (cp_origin c) \<le> b_last_seq b"
  shows "\<exists>c'. copy_batch E src (or_last_source_seq (cp_origin c)) b c = Inr c'"
proof -
  let ?after = "or_last_source_seq (cp_origin c)" and ?u = "b_last_seq b" and ?M = "ce_mime E"
  let ?ws = "batch_views ?M src ?after ?u"
  obtain planned where p: "batch_attachments E src ?after ?u = Inr planned"
    using batch_attachments_runs [of E] dies by blast
  obtain content where k: "compressed_content E src ?after ?u = Inr content"
    using compressed_content_runs [OF w Z dies] by blast
  have rows: "map (\<lambda>(seq, frame). \<lparr>cr_seq = seq, cr_raw = frame\<rparr>) content = map (content_of_view (ce_zstd E)) ?ws"
    using compressed_content_result [OF w k, of ?M] by (simp add: content_of_view_def comp_def)
  have ok: "views_ok (views_upto ?M src ?after @ ?ws)"
    using views_upto_ok [OF w, of ?M ?u] by (simp add: views_upto_step [OF w b])
  have t: "cp_tables c = add_views (ce_zstd E) (ce_sql E) (views_upto ?M src ?after) no_tables"
    using c by (simp add: copied_def Let_def)
  note fit = new_views_fit [OF ok t]
  have atts: "copied_attachments src ?after ?u @ map planned_row planned = concat (map vw_attachments ?ws)"
    using batch_attachments_result [OF w p] by simp
  have both: "and_then (insert_each insert_attachment_at xs t) (\<lambda>t. and_then (insert_each insert_attachment_at ys t) F)
      = F (t\<lparr>attachments := attachments t @ xs @ ys\<rparr>)" if "attachments_fit (xs @ ys) t"
    for xs ys t and F :: "tables \<Rightarrow> (storage_error, copy_db) result"
    using fit_attachments.inserts_each [OF that] unfolding insert_each_append
    by (cases "insert_each insert_attachment_at xs t") simp_all
  show ?thesis
    by (simp add: copy_batch_def Let_def p k batch_rows [where M = ?M] batch_fts [where M = ?M] rows insert_fts_def
        fit_messages.inserts_each [OF fit(1)] fit_contents.inserts_each [OF fit(2)]
        both [OF fit(3) [folded atts]])
qed

lemma copy_loop_runs:
  assumes "source_wf src" "zstd_laws (ce_zstd E)" "zstd_total (ce_zstd E)" "\<And>k. \<not> ce_worker_dies E k"
    and "copied E src c" "last_seq = or_last_source_seq (cp_origin c)" "\<And>k. \<not> stop k" "\<And>k. ce_fault E k = None"
  shows "fst (copy_loop E opts src tot stop k last_seq migrated c) = Inr Finished"
  using assms
proof (induction E opts src tot stop k last_seq migrated c rule: copy_loop.induct)
  case (1 E opts src tot stop k last_seq migrated c)
  show ?case
  proof (cases "next_batch opts src last_seq")
    case None
    with 1(8) [of k] show ?thesis by (simp add: copy_loop.simps [of E opts src tot stop k])
  next
    case (Some b)
    then have b: "or_last_source_seq (cp_origin c) \<le> b_last_seq b" using next_batch_last [OF Some] 1(7) by simp
    obtain c' where c': "copy_batch E src last_seq b c = Inr c'"
      using copy_batch_runs [OF 1(2,3,4,5,6) b] 1(7) by blast
    then have "copied E src c' \<and> or_last_source_seq (cp_origin c') = b_last_seq b"
      using copied_batch [OF 1(2,6), of b c'] b 1(7) by simp
    then have "fst (copy_loop E opts src tot stop (Suc k) (b_last_seq b) (migrated + b_messages b) c') = Inr Finished"
      using 1(1) [OF 1(8) Some _ 1(2,3,4,5) _ _ 1(8,9), of c'] c' 1(9) [of k] by simp
    with Some c' 1(8) [of k] 1(9) [of k] show ?thesis by (simp add: copy_loop.simps [of E opts src tot stop k])
  qed
qed

end
