(* ===== verification/Migrate_Kept.thy ===== *)
theory Migrate_Kept
  imports Migrate_Views Storage_Query
begin

text \<open>
  What the migration keeps: batches within their bounds, a copy that is the same however it
  was interrupted, sources and attachments served byte for byte as before, a copy that is a
  well-formed database and that its own verification accepts.
\<close>

section \<open>A message of the copy\<close>

lemma filter_concat_key:
  assumes "distinct (map k vs)" "v \<in> set vs" "\<And>w a. w \<in> set vs \<Longrightarrow> a \<in> set (f w) \<Longrightarrow> key a = k w"
  shows "filter (\<lambda>a. key a = k v) (concat (map f vs)) = f v"
  using assms
proof (induction vs)
  case (Cons w vs)
  show ?case
  proof (cases "v = w")
    case True
    have "filter (\<lambda>a. key a = k v) (f w) = f w" using Cons.prems(3) True by (auto simp: filter_id_conv)
    moreover have "filter (\<lambda>a. key a = k v) (concat (map f vs)) = []"
    proof -
      have "key a \<noteq> k v" if "x \<in> set vs" "a \<in> set (f x)" for x a
      proof -
        have "k x \<in> k ` set vs" "k v \<notin> k ` set vs" using that(1) Cons.prems(1) True by simp_all
        then show ?thesis using Cons.prems(3) [of x a] that by (metis list.set_intros(2))
      qed
      then show ?thesis by (auto simp: filter_empty_conv)
    qed
    ultimately show ?thesis by (simp add: True)
  next
    case False
    then have v: "v \<in> set vs" "k w \<noteq> k v" using Cons.prems by auto
    then have "filter (\<lambda>a. key a = k v) (f w) = []" using Cons.prems(3) [of w] by (auto simp: filter_empty_conv)
    then show ?thesis using Cons v by simp
  qed
qed simp

lemma view_rows_found:
  assumes ok: "views_ok vs" and v: "v \<in> set vs" and t: "t = add_views Z S vs no_tables"
  shows "content_join (mr_id (vw_row v)) t = Some (vw_row v, frame_of Z (vw_raw v))"
    and "attachments_by_seq (vw_seq v) t = vw_attachments v"
proof -
  have d: "distinct (map (mr_id \<circ> vw_row) vs)" "distinct (map vw_seq vs)"
    using ok by (simp_all add: views_ok_def strict_sorted_iff)
  have "find (\<lambda>m. mr_id m = mr_id (vw_row v)) (map vw_row vs) = Some (vw_row v)"
    by (rule find_distinct) (use d v in simp_all)
  moreover have "find (\<lambda>c. cr_seq c = cr_seq (content_of_view Z v)) (map (content_of_view Z) vs) = Some (content_of_view Z v)"
    by (rule find_distinct) (use d v in \<open>simp_all add: content_of_view_def comp_def\<close>)
  ultimately show "content_join (mr_id (vw_row v)) t = Some (vw_row v, frame_of Z (vw_raw v))"
    by (simp add: content_join_def content_row_of_def find_message_def t add_views_def no_tables_def
        content_of_view_def)
  show "attachments_by_seq (vw_seq v) t = vw_attachments v"
  proof -
    have "sa_message_seq a = vw_seq w" if "w \<in> set vs" "a \<in> set (vw_attachments w)" for w a
      using ok that by (simp add: views_ok_def view_ok_def list_all_iff)
    note cut = filter_concat_key [OF d(2) v this]
    have "attachments t = concat (map vw_attachments vs)" by (simp add: t add_views_def no_tables_def)
    then show ?thesis unfolding attachments_by_seq_def using cut by simp
  qed
qed

lemma decompress_view:
  "intact Z v \<Longrightarrow> view_ok v \<Longrightarrow> decompress Z (frame_of Z (vw_raw v)) (mr_size (vw_row v)) i = Inr (vw_raw v)"
  using decompress_any_id [of Z "frame_of Z (vw_raw v)" "int (length (vw_raw v))" "[]" "vw_raw v" i]
  by (simp add: intact_def view_ok_def)

section \<open>A planned attachment serves the legacy contents\<close>

definition keeps_contents :: "mime_lib \<Rightarrow> bytes \<Rightarrow> legacy_attachment \<Rightarrow> planned_attachment \<Rightarrow> bool" where
  "keeps_contents M raw a p \<longleftrightarrow>
     pl_meta p = lg_meta a \<and>
     (case pl_storage p of Inline c \<Rightarrow> c = lg_content a | Located l \<Rightarrow> reproduces M raw l a)"

lemma plan_keeps_contents: "list_all2 (keeps_contents M (lg_raw msg)) (lg_attachments msg) (plan_message M msg)"
  unfolding plan_message_def Let_def list_all2_conv_all_nth
  by (auto simp: keeps_contents_def plan_attachment_def Let_def split: option.split)

lemma serve_planned:
  assumes k: "keeps_contents M raw a p" and r: "decompress Z frame (mr_size m) (mr_id m) = Inr raw"
  shows "into_attachment Z M (attachment_row_of m frame (planned_row p)) =
    Inr \<lparr>att_id = am_id (lg_meta a), att_message_id = mr_id m, att_filename = am_filename (lg_meta a),
      att_content_type = am_content_type (lg_meta a), att_content_id = am_content_id (lg_meta a),
      att_size = am_size (lg_meta a), att_content = lg_content a\<rparr>"
proof (cases "pl_storage p")
  case (Inline c)
  with k show ?thesis
    by (simp add: keeps_contents_def into_attachment_def attachment_row_of_def planned_row_def)
next
  case (Located l)
  with k obtain body where b: "Storage_Content.slice raw (loc_offset l) (loc_offset l + loc_len l) = Some body"
    "decode M (loc_encoding l) body = Some (lg_content a)" "am_size (lg_meta a) = Some (int (length (lg_content a)))"
    by (auto simp: keeps_contents_def reproduces_def split: option.splits Option.bind_splits)
  let ?row = "attachment_row_of m frame (planned_row p)"
  have "decode_located M ?row raw = Some (lg_content a)"
    by (rule decode_located_locator [OF b(1,2)])
      (simp_all add: attachment_row_of_def planned_row_def Located)
  then show ?thesis using k b(3) r Located
    by (simp add: into_attachment_def keeps_contents_def attachment_row_of_def planned_row_def)
qed

section \<open>What a finished run leaves\<close>

lemma finished_tables:
  assumes "source_wf src" "copied E src c" "0 < batch_messages (run_options r)"
    and "fst (target_copy (run_env E r) (run_options r) src (run_total r) (run_stop r) c) = Inr Finished"
  shows "cp_tables (run_copy E src c r) = add_views (ce_zstd E) (ce_sql E) (views (ce_mime E) src) no_tables
    \<and> cp_mismatches (run_copy E src c r) = int (sum_list (map vw_mismatches (views (ce_mime E) src)))
    \<and> list_all (intact (ce_zstd E)) (views (ce_mime E) src)"
proof -
  have c: "copied (run_env E r) src c" using assms(2) by (simp add: copied_run_env)
  have "copied E src (run_copy E src c r)" using copying.step_keeps assms(1,2) by blast
  moreover have "views_upto (ce_mime E) src (or_last_source_seq (cp_origin (run_copy E src c r))) = views (ce_mime E) src"
    using copy_loop_finished [OF assms(1) c _ assms(3), OF refl] assms(4) by (simp add: run_copy_def target_copy_def)
  ultimately show ?thesis by (simp add: copied_def Let_def)
qed

lemma legacy_attachment_served:
  assumes w: "legacy_db_wf d" and t: "tables st = add_views Z S (views M (LegacyDb d)) no_tables"
    and i: "list_all (intact Z) (views M (LegacyDb d))" and f: "faults st = []"
    and m: "m \<in> set (ld_messages d)" and rows: "ld_attachments d = Some rows"
    and a: "a \<in> set rows" "la_message_id a = lm_id m"
  shows "fst (get_attachment Z M (lm_id m) (la_id a) st) =
    Inr \<lparr>att_id = la_id a, att_message_id = lm_id m, att_filename = la_filename a,
      att_content_type = la_content_type a, att_content_id = la_content_id a,
      att_size = la_size a, att_content = la_content a\<rparr>"
proof -
  let ?v = "legacy_view M d m" and ?vs = "views M (LegacyDb d)"
  let ?lg = "snd (split_row (lm_rowid m, a))"
  have v: "?v \<in> set ?vs" using m by simp
  have ok: "views_ok ?vs" by (rule legacy_views_ok [OF w])
  have fields: "mr_id (vw_row ?v) = lm_id m" "vw_raw ?v = lm_raw m"
    "vw_attachments ?v = map planned_row (plan_message M (legacy_of d m))" "vw_seq ?v = lm_rowid m"
    by (simp_all add: legacy_view_def legacy_row_def Let_def)
  have join: "content_join (lm_id m) (tables st) = Some (vw_row ?v, frame_of Z (lm_raw m))"
    "attachments_by_seq (vw_seq ?v) (tables st) = map planned_row (plan_message M (legacy_of d m))"
    using view_rows_found [OF ok v t] by (simp_all add: fields)
  have "?lg \<in> set (lg_attachments (legacy_of d m))"
    using a rows by (auto simp: legacy_of_def joined_with_def)
  then obtain p where p: "p \<in> set (plan_message M (legacy_of d m))" "keeps_contents M (lm_raw m) ?lg p"
    using plan_keeps_contents [of M "legacy_of d m"]
    by (metis (no_types, lifting) in_set_conv_nth legacy_message.select_convs(2) legacy_of_def list_all2_conv_all_nth)
  have pid: "sa_id (planned_row p) = la_id a"
    using p(2) by (simp add: keeps_contents_def planned_row_def split_row_def Let_def split: prod.split)
  have "distinct (map sa_id (concat (map vw_attachments ?vs)))" using ok by (simp add: views_ok_def)
  then have "distinct (map sa_id (vw_attachments ?v))" using v by (auto simp: map_concat distinct_concat_iff)
  then have "find (\<lambda>b. sa_id b = sa_id (planned_row p)) (vw_attachments ?v) = Some (planned_row p)"
    by (rule find_distinct) (simp add: fields p(1))
  then have found: "find_attachment (\<lambda>b. sa_id b = la_id a) (lm_id m) (tables st) =
      Some (attachment_row_of (vw_row ?v) (frame_of Z (lm_raw m)) (planned_row p))"
    using join fields by (simp add: find_attachment_def pid)
  have "decompress Z (frame_of Z (lm_raw m)) (mr_size (vw_row ?v)) (mr_id (vw_row ?v)) = Inr (lm_raw m)"
  proof -
    have "intact Z ?v" using i v unfolding list_all_iff by blast
    moreover have "view_ok ?v" using ok v unfolding views_ok_def list_all_iff by blast
    ultimately show ?thesis using decompress_view [of Z ?v] by (simp add: fields)
  qed
  from serve_planned [OF p(2) this] found f show ?thesis
    by (simp add: get_attachment_def resolve_attachment_def select_def stmt_def sess_defs of_result_def split_row_def fields)
qed

lemma source_served:
  assumes ok: "views_ok vs" and t: "tables st = add_views Z S vs no_tables" and i: "list_all (intact Z) vs"
    and f: "faults st = []" and v: "v \<in> set vs"
  shows "fst (get_raw Z (mr_id (vw_row v)) st) = Inr (vw_raw v)"
proof -
  have "fst (get_raw Z (mr_id (vw_row v)) st) =
      decompress Z (frame_of Z (vw_raw v)) (mr_size (vw_row v)) (mr_id (vw_row v))"
    using fetch_then [OF f view_rows_found(1) [OF ok v t],
        where g = "\<lambda>(m, frame). decompress Z frame (mr_size m) (mr_id (vw_row v))"]
    by (simp add: get_raw_def case_prod_unfold)
  then show ?thesis using decompress_view [of Z v] i ok v by (simp add: views_ok_def list_all_iff)
qed

section \<open>Verification accepts a finished copy\<close>

fun source_tags_ok :: "sql_lib \<Rightarrow> source_db \<Rightarrow> bool" where
  "source_tags_ok S (LegacyDb d) = True"
| "source_tags_ok S (PreviousDb d) \<longleftrightarrow>
     set (pd_message_tags d) = tag_pairs S (pd_messages d) \<and> distinct (pd_message_tags d)"

lemma previous_parts:
  assumes "previous_db_wf d"
  shows "map fst (joined_content d) = pd_messages d" "map snd (joined_content d) = pd_content d"
proof -
  have "length (pd_messages d) = length (pd_content d)"
    using assms unfolding previous_db_wf_def by (metis length_map)
  then show "map fst (joined_content d) = pd_messages d" "map snd (joined_content d) = pd_content d"
    by (simp_all add: joined_content_zip [OF assms])
qed

lemma previous_attachments_all:
  assumes "previous_db_wf d"
  shows "concat (map vw_attachments (views M (PreviousDb d))) = map snd (pd_attachments d)"
proof -
  have "concat (map (\<lambda>k. filter (\<lambda>a. sa_message_seq a = k) (map snd (pd_attachments d)))
      (map vw_seq (views M (PreviousDb d)))) = map snd (pd_attachments d)"
    unfolding previous_view_seqs [OF assms]
    by (rule cut_by_key) (use assms in \<open>auto simp: previous_db_wf_def list_all_iff comp_def\<close>)
  then show ?thesis by (simp add: comp_def previous_view_def case_prod_beta)
qed

lemma count_messages:
  assumes "source_wf src"
  shows "source_messages_count src = length (views M src)"
proof (cases src)
  case (PreviousDb d)
  then show ?thesis using assms previous_parts(1) [of d] by (metis length_map source_messages_count.simps(2) source_wf.simps(2) views.simps(2))
qed simp

lemma count_raw_bytes:
  assumes "source_wf src"
  shows "source_raw_bytes src = sum_list (map (\<lambda>v. length (vw_raw v)) (views M src))"
proof (cases src)
  case (LegacyDb d)
  then show ?thesis by (simp add: legacy_view_def Let_def comp_def)
next
  case (PreviousDb d)
  then have "map (\<lambda>c. length (pc_raw c)) (pd_content d) = map (\<lambda>mc. length (pc_raw (snd mc))) (joined_content d)"
    using assms previous_parts(2) [of d] by (metis (no_types, lifting) comp_apply map_eq_conv map_map source_wf.simps(2))
  then show ?thesis by (simp add: PreviousDb previous_view_def comp_def case_prod_beta)
qed

lemma count_attachments:
  assumes "source_wf src"
  shows "source_attachments_count src = length (concat (map vw_attachments (views M src)))"
proof (cases src)
  case (LegacyDb d)
  have one: "length (plan_message M (legacy_of d m)) = length (joined_with d [m])" for m
    using arg_cong [OF planned_metas [of M "legacy_of d m"], of length] by (simp add: legacy_of_def)
  have all: "length (joined_with d ms) = sum_list (map (\<lambda>m. length (joined_with d [m])) ms)" for ms
    by (induction ms) (simp_all add: joined_with_def)
  have "length (joined_with d (ld_messages d)) = length (concat (map vw_attachments (views M src)))"
    unfolding all [of "ld_messages d"] by (simp add: LegacyDb legacy_view_def Let_def comp_def length_concat one)
  moreover have "length (joined_with d (ld_messages d)) = 0" if "ld_attachments d = None"
    using that by (simp add: joined_with_def)
  ultimately show ?thesis
    by (cases "ld_attachments d") (simp_all add: LegacyDb legacy_columns_probe_def Let_def del: views.simps)
next
  case (PreviousDb d)
  then show ?thesis using assms previous_attachments_all [of d M] by (simp del: views.simps)
qed

lemma row_tags:
  assumes "source_wf src"
  shows "tag_pairs S (map vw_row (views M src)) =
    (case src of
       LegacyDb d \<Rightarrow> prod.swap ` set (concat (map (\<lambda>m. map (Pair (lm_rowid m))
         (json_each S (tags_of (legacy_columns_probe d) m))) (ld_messages d)))
     | PreviousDb d \<Rightarrow> tag_pairs S (pd_messages d))"
proof (cases src)
  case (LegacyDb d)
  then show ?thesis
    by (auto simp: tag_pairs_def legacy_view_def legacy_row_def Let_def image_iff)
next
  case (PreviousDb d)
  then have "map fst (joined_content d) = pd_messages d" using assms previous_parts(1) by simp
  then have "tag_pairs S (pd_messages d) = tag_pairs S (map fst (joined_content d))" by simp
  also have "\<dots> = tag_pairs S (map vw_row (views M src))"
    by (simp add: PreviousDb tag_pairs_def previous_view_def case_prod_beta)
  finally show ?thesis by (simp add: PreviousDb)
qed

lemma count_tags:
  assumes "source_wf src" "source_tags_ok S src" "json_each S ''[]'' = []"
  shows "source_tags_count S src = length (message_tags (add_views Z S (views M src) no_tables))"
proof -
  let ?t = "message_tags (add_views Z S (views M src) no_tables)"
  have t: "?t = foldl (tag_trigger S) [] (map vw_row (views M src))" by (simp add: add_views_def no_tables_def)
  have set: "set ?t = tag_pairs S (map vw_row (views M src))" and d: "distinct ?t"
    unfolding t using tag_trigger_foldl [OF assms(3), of "[]"] by simp_all
  have "length ?t = card (tag_pairs S (map vw_row (views M src)))" using set d by (metis distinct_card)
  also have "\<dots> = source_tags_count S src"
  proof (cases src)
    case (LegacyDb d)
    then show ?thesis using row_tags [OF assms(1), of S M] by (simp add: length_remdups_card_conv card_image)
  next
    case (PreviousDb d)
    then show ?thesis using row_tags [OF assms(1), of S M] assms(2) by (simp add: distinct_card flip: distinct_card)
  qed
  finally show ?thesis by simp
qed

lemma wf_no_foreign_key_violation: "db_wf S t \<Longrightarrow> foreign_key_check t = 0"
proof -
  assume w: "db_wf S t"
  have "cr_seq c \<in> set (map mr_seq (messages t))" if "c \<in> set (message_content t)" for c
  proof -
    have "cr_seq c \<in> set (map cr_seq (message_content t))" using that by simp
    then show ?thesis using w unfolding db_wf_def by metis
  qed
  moreover have "s \<in> set (map mr_seq (messages t))" if "(tag, s) \<in> set (message_tags t)" for tag s
    using w that by (auto simp: db_wf_def tags_wf_def tag_pairs_def)
  ultimately show ?thesis using w
    by (auto simp: foreign_key_check_def has_message_def db_wf_def attachments_wf_def filter_empty_conv)
qed

lemma int_sum_list: "int (sum_list (map f xs)) = sum_list (map (\<lambda>x. int (f x)) xs)"
  by (induction xs) simp_all

lemma finished_copy_checks:
  assumes "source_wf src" "source_tags_ok S src" "json_each S ''[]'' = []"
  shows "find (\<lambda>(_, expected, found). expected \<noteq> found)
    (count_checks S src (add_views Z S (views M src) no_tables)) = None"
proof -
  let ?vs = "views M src" and ?t = "add_views Z S (views M src) no_tables"
  have ok: "views_ok ?vs" by (rule source_views_ok [OF assms(1)])
  have "sum_list (map mr_size (messages ?t)) = sum_list (map (\<lambda>v. int (length (vw_raw v))) ?vs)"
    using ok by (simp add: add_views_def no_tables_def comp_def views_ok_def view_ok_def list_all_iff cong: map_cong)
  also have "\<dots> = int (source_raw_bytes src)"
    by (simp only: count_raw_bytes [OF assms(1), of M] int_sum_list)
  finally have bytes: "sum_list (map mr_size (messages ?t)) = int (source_raw_bytes src)" .
  have rowids: "map fr_rowid (messages_fts ?t) = map mr_seq (messages ?t)"
    using ok by (simp add: add_views_def no_tables_def views_ok_def view_ok_def list_all_iff indexes_def)
  have "unindexed ?t = 0" by (simp only: unindexed_def rowids) (simp add: filter_empty_conv)
  moreover have "length (messages ?t) = length ?vs" "length (message_content ?t) = length ?vs"
    "length (messages_fts ?t) = length ?vs" "length (attachments ?t) = length (concat (map vw_attachments ?vs))"
    by (simp_all add: add_views_def no_tables_def)
  ultimately show ?thesis
    using bytes count_tags [OF assms, of Z M] count_messages [OF assms(1), of M] count_attachments [OF assms(1), of M]
    by (simp add: count_checks_def)
qed

section \<open>The stretch a batch takes\<close>

lemma saturating_le: "limit < i64_max \<Longrightarrow> saturating_add a b \<le> limit \<Longrightarrow> a + b \<le> limit"
  by (auto simp: saturating_add_def)

lemma fill_batch_more:
  assumes "fill_batch limit (Some b) rows = Some b'" "limit < i64_max"
  shows "\<exists>j \<le> length rows. b_messages b' = b_messages b + j
    \<and> b_raw_bytes b' = b_raw_bytes b + sum_list (map snd (take j rows))
    \<and> (if j = 0 then b' = b else b_last_seq b' = fst (rows ! (j - 1)) \<and> b_raw_bytes b' \<le> limit)
    \<and> (j < length rows \<longrightarrow> limit < saturating_add (b_raw_bytes b') (snd (rows ! j)))"
  using assms(1)
proof (induction rows arbitrary: b)
  case (Cons r rows)
  obtain rowid len where r: "r = (rowid, len)" by (cases r)
  let ?b = "\<lparr>b_last_seq = rowid, b_messages = b_messages b + 1, b_raw_bytes = b_raw_bytes b + len\<rparr>"
  show ?case
  proof (cases "saturating_add (b_raw_bytes b) len \<le> limit")
    case False
    with Cons.prems r show ?thesis by (intro exI [of _ 0]) simp
  next
    case True
    then have "fill_batch limit (Some ?b) rows = Some b'" using Cons.prems r by simp
    from Cons.IH [OF this] obtain j where "j \<le> length rows" "b_messages b' = b_messages b + 1 + j"
      "b_raw_bytes b' = b_raw_bytes b + len + sum_list (map snd (take j rows))"
      "if j = 0 then b' = ?b else b_last_seq b' = fst (rows ! (j - 1)) \<and> b_raw_bytes b' \<le> limit"
      "j < length rows \<longrightarrow> limit < saturating_add (b_raw_bytes b') (snd (rows ! j))"
      by auto
    then show ?thesis using r saturating_le [OF assms(2) True]
      by (intro exI [of _ "Suc j"]) (auto simp: nth_Cons' split: if_splits)
  qed
qed simp

section \<open>Runs\<close>

lemma copied_after_runs:
  assumes "source_wf src"
  shows "copied E src (foldl (run_copy E src) (target_create s fp) earlier)"
  using copying.run_keeps [of src E "target_create s fp" earlier] copied_create [OF assms] assms by simp

lemma run_finishes:
  assumes "source_wf src" "zstd_laws (ce_zstd E)" "zstd_total (ce_zstd E)"
    and "\<And>k. \<not> run_worker_dies r k" "\<And>k. \<not> run_stop r k" "\<And>k. run_fault r k = None" "copied E src c"
  shows "fst (target_copy (run_env E r) (run_options r) src (run_total r) (run_stop r) c) = Inr Finished"
  unfolding target_copy_def
proof (rule copy_loop_runs [OF assms(1)])
  show "zstd_laws (ce_zstd (run_env E r))" "zstd_total (ce_zstd (run_env E r))"
    using assms(2,3) by (simp_all add: run_env_def)
  show "\<not> ce_worker_dies (run_env E r) k" "ce_fault (run_env E r) k = None" for k
    using assms(4,6) by (simp_all add: run_env_def)
  show "copied (run_env E r) src c" using assms(7) by (simp add: copied_run_env)
qed (rule refl assms(5))+

section \<open>Properties\<close>

text \<open>
  Every batch is a stretch of the source that starts right after the last one: its first
  \<open>k\<close> messages, at most \<open>batch_messages\<close> of them and at most \<open>batch_raw_bytes\<close> together, except
  that a larger message is a batch alone; and it stops short only where the next message
  would not fit any more.
\<close>

theorem batch_is_a_bounded_stretch:
  assumes b: "next_batch opts src after = Some b" and limit: "batch_raw_bytes opts < i64_max"
  defines "rows \<equiv> filter (\<lambda>(seq, _). seq > after) (sizes src)"
  shows "\<exists>k. 0 < k \<and> k \<le> batch_messages opts \<and> k \<le> length rows
    \<and> b_messages b = k \<and> b_last_seq b = fst (rows ! (k - 1)) \<and> b_raw_bytes b = sum_list (map snd (take k rows))
    \<and> (k = 1 \<or> b_raw_bytes b \<le> batch_raw_bytes opts)
    \<and> (k < batch_messages opts \<and> k < length rows \<longrightarrow>
         batch_raw_bytes opts < saturating_add (b_raw_bytes b) (snd (rows ! k)))"
proof -
  let ?page = "take (batch_messages opts) rows"
  have f: "fill_batch (batch_raw_bytes opts) None ?page = Some b" using b by (simp add: next_batch_def rows_def)
  obtain rowid len rest where p: "?page = (rowid, len) # rest"
    using f by (cases ?page) auto
  have "fill_batch (batch_raw_bytes opts) (Some \<lparr>b_last_seq = rowid, b_messages = 1, b_raw_bytes = len\<rparr>) rest = Some b"
    using f p by simp
  from fill_batch_more [OF this limit] obtain j where j: "j \<le> length rest" "b_messages b = 1 + j" "b_raw_bytes b = len + sum_list (map snd (take j rest))"
    "if j = 0 then b = \<lparr>b_last_seq = rowid, b_messages = 1, b_raw_bytes = len\<rparr>
     else b_last_seq b = fst (rest ! (j - 1)) \<and> b_raw_bytes b \<le> batch_raw_bytes opts"
    "j < length rest \<longrightarrow> batch_raw_bytes opts < saturating_add (b_raw_bytes b) (snd (rest ! j))"
    by auto
  have len: "Suc (length rest) = min (length rows) (batch_messages opts)" using arg_cong [OF p, of length] by simp
  have nth: "rows ! i = ((rowid, len) # rest) ! i" if "i < Suc (length rest)" for i
    using that len by (metis min_less_iff_conj nth_take p)
  have take: "take (Suc j) rows = (rowid, len) # take j rest"
    using arg_cong [OF p, of "take (Suc j)"] j(1) len by (simp add: min_def split: if_splits)
  have at: "fst (rows ! j) = b_last_seq b" using nth [of j] j(1,4) by (cases j) auto
  have more: "rows ! Suc j = rest ! j" if "j < length rest" using nth [of "Suc j"] that by simp
  have "k < batch_messages opts \<and> k < length rows \<longrightarrow> batch_raw_bytes opts < saturating_add (b_raw_bytes b) (snd (rows ! k))"
    if "k = Suc j" for k
    using that j(5) more len by auto
  moreover have "b_raw_bytes b = sum_list (map snd (take (Suc j) rows))" unfolding take using j(3) by simp
  moreover have "Suc j \<le> batch_messages opts" "Suc j \<le> length rows" using j(1) len by simp_all
  ultimately show ?thesis using j(2,4) at by (intro exI [of _ "Suc j"]) (cases "j = 0"; simp)
qed

definition example_legacy :: legacy_db where
  "example_legacy =
     \<lparr>ld_columns = [''id'', ''raw'', ''is_read''],
      ld_messages =
        [\<lparr>lm_rowid = 2, lm_id = ''a'', lm_sender = ''x@y'', lm_recipients = ''[]'', lm_subject = None,
          lm_text_body = None, lm_raw = ''hello'', lm_has_attachments = True, lm_is_read = False,
          lm_is_starred = False, lm_tags = ''[]'', lm_created_at = ''2026''\<rparr>,
         \<lparr>lm_rowid = 5, lm_id = ''b'', lm_sender = ''x@y'', lm_recipients = ''[]'', lm_subject = None,
          lm_text_body = None, lm_raw = ''mail'', lm_has_attachments = False, lm_is_read = True,
          lm_is_starred = False, lm_tags = ''[]'', lm_created_at = ''2026''\<rparr>],
      ld_attachments =
        Some [\<lparr>la_rowid = 1, la_id = ''att'', la_message_id = ''a'', la_filename = Some ''f'', la_content_type = None,
               la_content_id = None, la_size = Some 3, la_content = ''xyz''\<rparr>]\<rparr>"

definition example_env :: copy_env where
  "example_env =
     \<lparr>ce_zstd = plain_zstd, ce_mime = plain_mime, ce_sql = plain_sql, ce_cores = 4, ce_worker_dies = (\<lambda>_. False),
      ce_source = ''db'', ce_target = ''db.migrating'', ce_fault = (\<lambda>_. None)\<rparr>"

text \<open>A run that stops after its first batch of one message, and one that is left alone.\<close>

definition short_run :: copy_run where
  "short_run = \<lparr>run_options = \<lparr>batch_messages = 1, batch_raw_bytes = 100\<rparr>, run_total = 2, run_stop = (\<lambda>k. k = 1),
     run_cores = 2, run_worker_dies = (\<lambda>_. False), run_fault = (\<lambda>_. None)\<rparr>"

definition full_run :: copy_run where
  "full_run = \<lparr>run_options = default_options, run_total = 2, run_stop = (\<lambda>_. False),
     run_cores = 4, run_worker_dies = (\<lambda>_. False), run_fault = (\<lambda>_. None)\<rparr>"

lemma example_wf: "source_wf (LegacyDb example_legacy)"
  by (simp add: example_legacy_def legacy_db_wf_def)

lemma example_zstd: "zstd_laws (ce_zstd example_env)" "zstd_total (ce_zstd example_env)"
  by (simp_all add: example_env_def plain_zstd_laws) (simp add: zstd_total_def plain_zstd_def)

lemma example_finishes:
  "fst (target_copy (run_env example_env full_run) (run_options full_run) (LegacyDb example_legacy) (run_total full_run)
     (run_stop full_run) (foldl (run_copy example_env (LegacyDb example_legacy)) (target_create Legacy ''f'') earlier))
   = Inr Finished"
  by (rule run_finishes [OF example_wf example_zstd]) (simp_all add: full_run_def copied_after_runs [OF example_wf])

lemma example_setting:
  "json_each (ce_sql example_env) ''[]'' = []" "0 < batch_messages (run_options full_run)"
  "ce_zstd example_env = plain_zstd" "ce_mime example_env = plain_mime"
  by (simp_all add: example_env_def plain_sql_def full_run_def default_options_def BATCH_MAX_MESSAGES_def)

theorem batch_is_a_bounded_stretch_witness:
  "\<exists>k. 0 < k \<and> k \<le> (2 :: nat) \<and>
     map_option b_messages (next_batch \<lparr>batch_messages = 2, batch_raw_bytes = 6\<rparr> (LegacyDb example_legacy) 0) = Some k"
proof -
  have n: "next_batch \<lparr>batch_messages = 2, batch_raw_bytes = 6\<rparr> (LegacyDb example_legacy) 0 =
    Some \<lparr>b_last_seq = 2, b_messages = 1, b_raw_bytes = 5\<rparr>"
    by (simp add: next_batch_def example_legacy_def saturating_add_def i64_min_def i64_max_def)
  from batch_is_a_bounded_stretch [OF n] show ?thesis by (auto simp: i64_max_def n)
qed



text \<open>
  A migration nothing goes wrong with finishes: with a compressor that accepts every
  source and gives it back, no dying worker, no failing statement and no request to stop, the
  copy of any well-formed older database, from wherever an earlier start left it, ends with
  every message copied; no constraint of the schema gets in its way.
\<close>

theorem healthy_copy_finishes:
  assumes "source_wf src" and "zstd_laws (ce_zstd E)" and "zstd_total (ce_zstd E)"
    and "\<And>k. \<not> run_worker_dies r k" and "\<And>k. \<not> run_stop r k" and "\<And>k. run_fault r k = None"
    and "c = foldl (run_copy E src) (target_create s fp) earlier"
  shows "fst (target_copy (run_env E r) (run_options r) src (run_total r) (run_stop r) c) = Inr Finished"
  unfolding assms(7) by (rule run_finishes [OF assms(1-6) copied_after_runs [OF assms(1)]])

theorem healthy_copy_finishes_witness:
  "fst (target_copy (run_env example_env full_run) (run_options full_run) (LegacyDb example_legacy) 2
     (run_stop full_run) (run_copy example_env (LegacyDb example_legacy) (target_create Legacy ''f'') short_run))
   = Inr Finished"
  using healthy_copy_finishes [OF example_wf example_zstd, of full_run _ Legacy "''f''" "[short_run]"]
  by (simp add: full_run_def)



text \<open>
  Verification never turns a finished copy of a well-formed file away: all seven counts
  agree and no foreign key is violated, so that, SQLite's own integrity checks passing, the
  answer is the copy's attachment counts.
\<close>

theorem finished_copy_is_accepted:
  assumes "source_wf src" and "source_tags_ok (ce_sql E) src" and "json_each (ce_sql E) ''[]'' = []"
    and "0 < batch_messages (run_options r)"
    and "c = foldl (run_copy E src) (target_create s fp) earlier"
    and "fst (target_copy (run_env E r) (run_options r) src (run_total r) (run_stop r) c) = Inr Finished"
    and "sc_fts_integrity V = None" and "sc_quick_check V = ''ok''"
  shows "verify E V src (run_copy E src c r) = Inr (copy_counts (run_copy E src c r))"
proof -
  have "copied E src c" unfolding assms(5) by (rule copied_after_runs [OF assms(1)])
  then have t: "cp_tables (run_copy E src c r) = add_views (ce_zstd E) (ce_sql E) (views (ce_mime E) src) no_tables"
    using finished_tables [OF assms(1) _ assms(4,6)] by simp
  have "foreign_key_check (cp_tables (run_copy E src c r)) = 0"
    unfolding t by (rule wf_no_foreign_key_violation [OF add_views_wf [OF source_views_ok [OF assms(1)] assms(3)]])
  moreover have "find (\<lambda>(_, expected, found). expected \<noteq> found)
      (count_checks (ce_sql E) src (cp_tables (run_copy E src c r))) = None"
    unfolding t by (rule finished_copy_checks [OF assms(1,2,3)])
  ultimately show ?thesis using assms(7,8) by (simp add: verify_def Let_def)
qed

theorem finished_copy_is_accepted_witness:
  "\<exists>counts. verify example_env \<lparr>sc_fts_integrity = None, sc_quick_check = ''ok''\<rparr> (LegacyDb example_legacy)
     (run_copy example_env (LegacyDb example_legacy) (target_create Legacy ''f'') full_run) = Inr counts"
  using finished_copy_is_accepted [OF example_wf _ example_setting(1,2) refl example_finishes [of "[]"],
      of "\<lparr>sc_fts_integrity = None, sc_quick_check = ''ok''\<rparr>"]
  by simp

text \<open>
  The worker pool is invisible: however the items are dealt out to however many workers,
  if none dies the results come back as if the work had been done one item after the other.
\<close>

theorem workers_keep_the_order:
  "in_parallel cores (\<lambda>_. False) work items = Inr (map work items)"
  by (rule in_parallel_runs) simp

end
