(* ===== verification/Schema_File.thy ===== *)
theory Schema_File
  imports Migrate_Copy
begin

text \<open>
  Opening and inspecting a database file (\<open>schema.rs\<close>): what a file's version and catalogue
  say about it, and \<open>initialize_database\<close>, which creates the schema in an empty file and
  refuses every file it cannot use. A file is what its catalogue and tables hold.
\<close>

datatype file_data = NoRows | OldRows source_db | NewRows copy_db

text \<open>
  \<open>df_tables\<close> are the names of the tables and views in order, \<open>df_columns\<close> answers
  \<open>pragma_table_info\<close>, \<open>df_quick_check\<close> what \<open>PRAGMA quick_check\<close> says.
\<close>

record db_file =
  df_version :: int
  df_tables :: "bytes list"
  df_columns :: "bytes \<Rightarrow> bytes list"
  df_origin :: "origin_table option"
  df_data :: file_data
  df_quick_check :: bytes
  df_wal :: bool

definition empty_file :: db_file where
  "empty_file = \<lparr>df_version = 0, df_tables = [], df_columns = (\<lambda>_. []), df_origin = None, df_data = NoRows,
     df_quick_check = ''ok'', df_wal = False\<rparr>"

definition IN_MEMORY_DATABASE_NAME :: bytes where
  "IN_MEMORY_DATABASE_NAME = ''in-memory database''"

definition database_name :: "bytes \<Rightarrow> bytes" where
  "database_name file = (if file = [] then IN_MEMORY_DATABASE_NAME else file)"

datatype file_schema = FsEmpty | FsLegacy | FsPrevious | FsCurrent

definition probe :: "bytes \<Rightarrow> db_file \<Rightarrow> (storage_error, file_schema) result" where
  "probe name f =
     (let found = df_version f in
      if found = SCHEMA_VERSION then Inr FsCurrent
      else if found > SCHEMA_VERSION then Inl (NewerSchema (database_name name) found SCHEMA_VERSION)
      else if found = LEGACY_SCHEMA_VERSION \<and> df_tables f = [] then Inr FsEmpty
      else if found = LEGACY_SCHEMA_VERSION \<and> List.member (df_columns f ''messages'') ''raw'' then Inr FsLegacy
      else if found = PREVIOUS_SCHEMA_VERSION \<and> List.member (df_columns f ''message_content'') ''text_body''
        then Inr FsPrevious
      else Inl (UnrecognizedSchema (database_name name) found (df_tables f)))"

datatype layout = LayoutEmpty | LayoutCurrent

definition inspect_layout :: "bytes \<Rightarrow> db_file \<Rightarrow> (storage_error, layout) result" where
  "inspect_layout name f =
     and_then (probe name f) (\<lambda>schema.
       case schema of
         FsEmpty \<Rightarrow> Inr LayoutEmpty
       | FsCurrent \<Rightarrow> Inr LayoutCurrent
       | _ \<Rightarrow> Inl (LegacySchema (database_name name) (df_version f) SCHEMA_VERSION))"

text \<open>The tables \<open>SCHEMA_DDL\<close> creates, those of the full-text index included, with the columns the inspections ask for.\<close>

definition schema_tables :: "bytes list" where
  "schema_tables =
     [''attachments'', ''message_content'', ''message_tags'', ''messages'', ''messages_fts'', ''messages_fts_config'',
      ''messages_fts_data'', ''messages_fts_docsize'', ''messages_fts_idx'']"

definition schema_columns :: "bytes \<Rightarrow> bytes list" where
  "schema_columns table =
     (if table = ''messages'' then
        [''seq'', ''id'', ''sender'', ''recipients'', ''subject'', ''size'', ''has_attachments'', ''is_read'',
         ''is_starred'', ''tags'', ''created_at'']
      else if table = ''message_content'' then [''seq'', ''raw'']
      else if table = ''attachments'' then
        [''id'', ''message_seq'', ''filename'', ''content_type'', ''content_id'', ''size'', ''raw_offset'',
         ''raw_len'', ''transfer_encoding'', ''content'']
      else if table = ''message_tags'' then [''tag'', ''message_seq'']
      else if table = ''messages_fts'' then [''subject'', ''text_body'', ''sender'', ''recipients'']
      else [])"

text \<open>
  The transaction that creates the schema, on the file as it finds it once it has the write
  lock: another process may have created it in the meantime.
\<close>

definition create_schema :: "bytes \<Rightarrow> db_file \<Rightarrow> (storage_error, db_file) result" where
  "create_schema name f =
     and_then (inspect_layout name f) (\<lambda>layout.
       case layout of
         LayoutCurrent \<Rightarrow> Inr f
       | LayoutEmpty \<Rightarrow>
           Inr (f\<lparr>df_tables := schema_tables, df_columns := schema_columns, df_version := SCHEMA_VERSION\<rparr>))"

definition initialize_database :: "bytes \<Rightarrow> db_file \<Rightarrow> db_file \<Rightarrow> (storage_error, db_file) result" where
  "initialize_database name f locked =
     and_then (inspect_layout name f) (\<lambda>layout.
       and_then (case layout of LayoutEmpty \<Rightarrow> create_schema name locked | LayoutCurrent \<Rightarrow> Inr f)
         (\<lambda>f. Inr (f\<lparr>df_wal := True\<rparr>)))"

section \<open>Files a migration writes\<close>

definition copy_file :: "copy_db \<Rightarrow> db_file" where
  "copy_file c =
     \<lparr>df_version = cp_user_version c, df_tables = schema_tables @ [''migration_origin''],
      df_columns = schema_columns,
      df_origin = Some \<lparr>ot_has_schemas = True, ot_row = Some (cp_origin c)\<rparr>, df_data = NewRows c,
      df_quick_check = ''ok'', df_wal = True\<rparr>"

section \<open>Properties\<close>

lemma inspect_layout_version:
  "inspect_layout name f = Inr LayoutCurrent \<longleftrightarrow> df_version f = SCHEMA_VERSION"
  "inspect_layout name f = Inr LayoutEmpty \<longleftrightarrow> df_version f = LEGACY_SCHEMA_VERSION \<and> df_tables f = []"
  by (auto simp: inspect_layout_def probe_def Let_def SCHEMA_VERSION_def LEGACY_SCHEMA_VERSION_def
      PREVIOUS_SCHEMA_VERSION_def and_then_eq_Inr split: file_schema.splits)



end
