(* ===== verification/Migrate_Files.thy ===== *)
theory Migrate_Files
  imports Schema_File
begin

text \<open>
  Preparing a database file at startup (\<open>migrate.rs\<close>): the files of a migration and the
  states they can be in, the lock, the build of the copy beside the older file, the two
  renames of the swap and their completion after an interruption. The directory is explicit
  state; which operations fail, which files other processes have open and how the source
  changes behind the migration's back are inputs. A crash is a failure nobody handles.
\<close>

section \<open>The directory\<close>

record inode =
  i_mode :: nat
  i_len :: nat
  i_file :: db_file

record world =
  w_dir :: "(bytes \<times> inode) list"
  w_held :: "bytes list"
  w_lock_held :: bool
  w_faults :: "storage_error option list"
  w_later :: "source_db list"

type_synonym 'a fs = "(world, storage_error, 'a) call"

text \<open>One operation on the outside world: the next entry of \<open>w_faults\<close> says whether it fails.\<close>

definition fsop :: "(world \<Rightarrow> (storage_error, 'a \<times> world) result) \<Rightarrow> 'a fs" where
  "fsop f w =
     (let w' = w\<lparr>w_faults := tl (w_faults w)\<rparr> in
      case (case w_faults w of Some e # _ \<Rightarrow> Inl e | _ \<Rightarrow> f w') of
        Inl e \<Rightarrow> (Inl e, w')
      | Inr (a, w'') \<Rightarrow> (Inr a, w''))"

definition entry :: "bytes \<Rightarrow> world \<Rightarrow> inode option" where
  "entry p w = map_of (w_dir w) p"

definition put :: "bytes \<Rightarrow> inode \<Rightarrow> world \<Rightarrow> world" where
  "put p n w = w\<lparr>w_dir := (p, n) # filter (\<lambda>(q, _). q \<noteq> p) (w_dir w)\<rparr>"

definition drop_path :: "bytes \<Rightarrow> world \<Rightarrow> world" where
  "drop_path p w = w\<lparr>w_dir := filter (\<lambda>(q, _). q \<noteq> p) (w_dir w)\<rparr>"

definition no_such_file :: bytes where
  "no_such_file = ''No such file or directory''"

definition file_exists :: bytes where
  "file_exists = ''File exists''"

definition sidecar :: "bytes \<Rightarrow> bytes \<Rightarrow> bytes" where
  "sidecar path ext = path @ ext"

definition LOCK_SUFFIX :: bytes where "LOCK_SUFFIX = ''.migration-lock''"
definition MIGRATING_SUFFIX :: bytes where "MIGRATING_SUFFIX = ''.migrating''"
definition LEGACY_BACKUP_SUFFIX :: bytes where "LEGACY_BACKUP_SUFFIX = ''.schema0.bak''"
definition PREVIOUS_BACKUP_SUFFIX :: bytes where "PREVIOUS_BACKUP_SUFFIX = ''.schema1.bak''"
definition WAL_SUFFIX :: bytes where "WAL_SUFFIX = ''-wal''"
definition SHM_SUFFIX :: bytes where "SHM_SUFFIX = ''-shm''"
definition JOURNAL_SUFFIX :: bytes where "JOURNAL_SUFFIX = ''-journal''"

lemmas suffix_defs = LOCK_SUFFIX_def MIGRATING_SUFFIX_def LEGACY_BACKUP_SUFFIX_def PREVIOUS_BACKUP_SUFFIX_def
  WAL_SUFFIX_def SHM_SUFFIX_def JOURNAL_SUFFIX_def

text \<open>\<open>Paths\<close>: all of them follow from the database's.\<close>

definition lock_path :: "bytes \<Rightarrow> bytes" where "lock_path db = sidecar db LOCK_SUFFIX"
definition migrating_path :: "bytes \<Rightarrow> bytes" where "migrating_path db = sidecar db MIGRATING_SUFFIX"

fun backup :: "bytes \<Rightarrow> source_schema \<Rightarrow> bytes" where
  "backup db Legacy = sidecar db LEGACY_BACKUP_SUFFIX"
| "backup db Previous = sidecar db PREVIOUS_BACKUP_SUFFIX"

definition backups :: "bytes \<Rightarrow> bytes list" where
  "backups db = [backup db Legacy, backup db Previous]"

section \<open>File operations\<close>

definition exists_path :: "bytes \<Rightarrow> bool fs" where
  "exists_path p = fsop (\<lambda>w. Inr (entry p w \<noteq> None, w))"

definition file_len :: "bytes \<Rightarrow> nat fs" where
  "file_len p = fsop (\<lambda>w. Inr (case entry p w of Some n \<Rightarrow> i_len n | None \<Rightarrow> 0, w))"

definition mode_of :: "bytes \<Rightarrow> nat option fs" where
  "mode_of p = fsop (\<lambda>w. Inr (map_option i_mode (entry p w), w))"

text \<open>The mode a new file has before one is set for it.\<close>

definition default_mode :: nat where "default_mode = 420"

definition create_with_mode :: "bytes \<Rightarrow> nat option \<Rightarrow> unit fs" where
  "create_with_mode p mode =
     sthen (fsop (\<lambda>w. case entry p w of
              Some _ \<Rightarrow> Inl (MigrationIo ''create'' p file_exists)
            | None \<Rightarrow> Inr ((), put p \<lparr>i_mode = default_mode, i_len = 0, i_file = empty_file\<rparr> w)))
       (case mode of
          None \<Rightarrow> sret ()
        | Some m \<Rightarrow> fsop (\<lambda>w. case entry p w of
              None \<Rightarrow> Inl (MigrationIo ''set the permissions of'' p no_such_file)
            | Some n \<Rightarrow> Inr ((), put p (n\<lparr>i_mode := m\<rparr>) w)))"

text \<open>\<open>open_or_create\<close>: an existing lock file is opened as it is.\<close>

definition open_or_create :: "bytes \<Rightarrow> nat option \<Rightarrow> unit fs" where
  "open_or_create p mode w =
     (case create_with_mode p mode w of
        (Inl (MigrationIo action q source), w') \<Rightarrow>
          if source = file_exists
          then fsop (\<lambda>w. case entry p w of
                  None \<Rightarrow> Inl (MigrationIo ''open'' p no_such_file) | Some _ \<Rightarrow> Inr ((), w)) w'
          else (Inl (MigrationIo action q source), w')
      | r \<Rightarrow> r)"

definition rename :: "bytes \<Rightarrow> bytes \<Rightarrow> unit fs" where
  "rename from to =
     fsop (\<lambda>w. case entry from w of
              None \<Rightarrow> Inl (MigrationIo ''rename'' from no_such_file)
            | Some n \<Rightarrow> Inr ((), put to n (drop_path from w)))"

definition sync_parent :: "bytes \<Rightarrow> unit fs" where
  "sync_parent p = fsop (\<lambda>w. Inr ((), w))"

definition remove_file :: "bytes \<Rightarrow> unit fs" where
  "remove_file p = fsop (\<lambda>w. Inr ((), drop_path p w))"

text \<open>A connection to an existing file, and its end: SQLite removes the write-ahead log and its
  index unless another process has the database open.\<close>

definition cannot_open :: storage_error where
  "cannot_open = Database (DatabaseCode (Some ''14''))"

definition connect :: "bytes \<Rightarrow> db_file fs" where
  "connect p = fsop (\<lambda>w. case entry p w of None \<Rightarrow> Inl cannot_open | Some n \<Rightarrow> Inr (i_file n, w))"

definition close :: "bytes \<Rightarrow> unit fs" where
  "close p = fsop (\<lambda>w. Inr ((),
     if List.member (w_held w) p then w
     else drop_path (sidecar p WAL_SUFFIX) (drop_path (sidecar p SHM_SUFFIX) w)))"

text \<open>\<open>let _ = close().await\<close>: its failure is not looked at.\<close>

definition close_quietly :: "bytes \<Rightarrow> unit fs" where
  "close_quietly p w = (Inr (), snd (close p w))"

definition write_file :: "bytes \<Rightarrow> db_file \<Rightarrow> unit fs" where
  "write_file p f = fsop (\<lambda>w. case entry p w of
     None \<Rightarrow> Inl cannot_open | Some n \<Rightarrow> Inr ((), put p (n\<lparr>i_file := f\<rparr>) w))"

section \<open>States\<close>

datatype db_state = Absent | Empty | Older source_schema | Current

fun describe_db :: "db_state \<Rightarrow> bytes" where
  "describe_db Absent = ''absent''"
| "describe_db Empty = ''empty''"
| "describe_db (Older Legacy) = ''schema 0''"
| "describe_db (Older Previous) = ''schema 1''"
| "describe_db Current = ''schema 2''"

datatype copy_state = CopyAbsent | Incomplete "origin option" | Complete int "origin option"

fun describe_copy :: "copy_state \<Rightarrow> bytes" where
  "describe_copy CopyAbsent = ''absent''"
| "describe_copy (Incomplete _) = ''incomplete''"
| "describe_copy (Complete _ _) = ''complete''"

definition resumable_origin :: "copy_state \<Rightarrow> source_schema \<Rightarrow> origin option" where
  "resumable_origin copy source =
     (case (case copy of CopyAbsent \<Rightarrow> None | Incomplete org \<Rightarrow> org | Complete _ org \<Rightarrow> org) of
        Some org \<Rightarrow>
          if or_source_schema org = version source \<and> or_target_schema org = SCHEMA_VERSION then Some org else None
      | None \<Rightarrow> None)"

fun db_state_of :: "file_schema \<Rightarrow> db_state" where
  "db_state_of FsEmpty = Empty"
| "db_state_of FsLegacy = Older Legacy"
| "db_state_of FsPrevious = Older Previous"
| "db_state_of FsCurrent = Current"

definition inspect_db :: "bytes \<Rightarrow> db_state fs" where
  "inspect_db p =
     sbind (exists_path p) (\<lambda>there.
       if \<not> there then sret Absent
       else sbind (connect p) (\<lambda>f. sthen (close p)
         (case probe p f of Inl e \<Rightarrow> sfail e | Inr schema \<Rightarrow> sret (db_state_of schema))))"

text \<open>The same on a file opened as immutable: nothing beside it is touched.\<close>

definition inspect_db_immutable :: "bytes \<Rightarrow> db_state fs" where
  "inspect_db_immutable p =
     sbind (exists_path p) (\<lambda>there.
       if \<not> there then sret Absent
       else sbind (connect p) (\<lambda>f.
         case probe p f of Inl e \<Rightarrow> sfail e | Inr schema \<Rightarrow> sret (db_state_of schema)))"

definition copy_state_of :: "db_file \<Rightarrow> copy_state" where
  "copy_state_of f =
     (let org = read_origin (df_origin f) in
      if df_version f = SCHEMA_VERSION \<or> df_version f = PREVIOUS_SCHEMA_VERSION then Complete (df_version f) org
      else Incomplete org)"

definition inspect_copy :: "bytes \<Rightarrow> copy_state fs" where
  "inspect_copy p =
     sbind (exists_path p) (\<lambda>there.
       if \<not> there then sret CopyAbsent
       else sbind (connect p) (\<lambda>f. sthen (close p) (sret (copy_state_of f))))"

fun present :: "bytes list \<Rightarrow> bytes list fs" where
  "present [] = sret []"
| "present (p # ps) = sbind (exists_path p) (\<lambda>there. sbind (present ps) (\<lambda>rest.
     sret (if there then p # rest else rest)))"

definition present_backups :: "bytes \<Rightarrow> bytes list fs" where
  "present_backups db = present (backups db)"

definition any_backup :: "bytes \<Rightarrow> bool fs" where
  "any_backup db = sbind (present_backups db) (\<lambda>ps. sret (ps \<noteq> []))"

definition log_backup :: "bytes \<Rightarrow> unit fs" where
  "log_backup p = sbind (file_len p) (\<lambda>_. sret ())"

fun log_backups :: "bytes list \<Rightarrow> unit fs" where
  "log_backups [] = sret ()"
| "log_backups (p # ps) =
     sbind (exists_path p) (\<lambda>there. sthen (if there then log_backup p else sret ()) (log_backups ps))"

definition acquire_lock :: "bytes \<Rightarrow> unit fs" where
  "acquire_lock db =
     sbind (mode_of db) (\<lambda>mode. sthen (open_or_create (lock_path db) mode)
       (fsop (\<lambda>w. if w_lock_held w then Inl (MigrationLocked (lock_path db)) else Inr ((), w))))"

text \<open>Whether any \<open>-wal\<close> or \<open>-shm\<close> sits beside one of the files.\<close>

fun refuse_each :: "(bytes \<Rightarrow> storage_error) \<Rightarrow> bytes list \<Rightarrow> unit fs" where
  "refuse_each err [] = sret ()"
| "refuse_each err (side # sides) =
     sbind (exists_path side) (\<lambda>there. if there then sfail (err side) else refuse_each err sides)"

definition refuse_open_files :: "bytes \<Rightarrow> bytes list \<Rightarrow> unit fs" where
  "refuse_open_files db files =
     refuse_each (\<lambda>side. MigrationRefused (MigrationFileInUse db side))
       (concat (map (\<lambda>f. [sidecar f WAL_SUFFIX, sidecar f SHM_SUFFIX]) files))"

fun remove_each :: "bytes list \<Rightarrow> unit fs" where
  "remove_each [] = sret ()"
| "remove_each (p # ps) = sthen (remove_file p) (remove_each ps)"

definition remove_copy :: "bytes \<Rightarrow> unit fs" where
  "remove_copy db =
     remove_each (map (sidecar (migrating_path db)) [WAL_SUFFIX, SHM_SUFFIX, JOURNAL_SUFFIX] @ [migrating_path db])"

section \<open>Fingerprints of files\<close>

text \<open>A query for rows the file does not have fails as SQLite's ``no such table'' does.\<close>

definition no_such_table :: storage_error where
  "no_such_table = Database (DatabaseCode (Some ''1''))"

definition rows_in :: "source_schema \<Rightarrow> db_file \<Rightarrow> source_db option" where
  "rows_in source f =
     (case (source, df_data f) of
        (Legacy, OldRows (LegacyDb d)) \<Rightarrow> Some (LegacyDb d)
      | (Previous, OldRows (PreviousDb d)) \<Rightarrow> Some (PreviousDb d)
      | _ \<Rightarrow> None)"

definition print_of :: "source_db \<Rightarrow> bytes" where
  "print_of src = sp_fingerprint (fingerprint (keys_of src))"

definition fingerprint_of :: "bytes \<Rightarrow> source_schema \<Rightarrow> bytes fs" where
  "fingerprint_of p source =
     sbind (connect p) (\<lambda>f. sthen (close p)
       (case rows_in source f of None \<Rightarrow> sfail no_such_table | Some src \<Rightarrow> sret (print_of src)))"

definition finish_interrupted_swap :: "bytes \<Rightarrow> origin \<Rightarrow> unit fs" where
  "finish_interrupted_swap db org =
     (case from_version (or_source_schema org) of
        None \<Rightarrow> sfail (MigrationRefused (BackupChanged db (backup db Legacy) (migrating_path db)))
      | Some source \<Rightarrow>
          let changed = MigrationRefused (BackupChanged db (backup db source) (migrating_path db)) in
          sbind (exists_path (backup db source)) (\<lambda>there.
            if \<not> there then sfail changed
            else sbind (fingerprint_of (backup db source) source) (\<lambda>print.
              if \<not> made_from org print then sfail changed
              else sthen (refuse_open_files db [backup db source, migrating_path db])
                (sthen (rename (migrating_path db) db) (sync_parent db)))))"

section \<open>One migration\<close>

text \<open>
  What a run is given: the libraries and failures of the copy, its options, when it is asked
  to stop, what SQLite's integrity checks answer, the time of day.
\<close>

record prep_env =
  pe_copy :: copy_env
  pe_options :: migration_options
  pe_stop :: "nat \<Rightarrow> bool"
  pe_checks :: sqlite_checks
  pe_time :: bytes

definition MAX_BUILD_ATTEMPTS :: nat where "MAX_BUILD_ATTEMPTS = 2"
definition TARGET_WAL_ALLOWANCE_BYTES :: nat where "TARGET_WAL_ALLOWANCE_BYTES = 64 * 1024 * 1024"

record migration_report =
  mr_messages :: nat
  mr_counts :: attachment_counts
  mr_backup_path :: bytes

datatype preparation = Ready "migration_report option" | PausedAt nat nat

datatype start = Fresh | Resume | Completed
datatype built = Swappable attachment_counts nat | BuiltPaused nat nat

text \<open>
  The rows of the locked source. Each time the run asks for them again they are what
  \<open>w_later\<close> says they have become, if anything did change them.
\<close>

definition read_source :: "bytes \<Rightarrow> source_schema \<Rightarrow> source_db fs" where
  "read_source db source =
     sbind (connect db) (\<lambda>f. case rows_in source f of None \<Rightarrow> sfail no_such_table | Some src \<Rightarrow> sret src)"

definition disturb :: "bytes \<Rightarrow> unit fs" where
  "disturb db w =
     (case (w_later w, entry db w) of
        (src # rest, Some n) \<Rightarrow>
          (Inr (), (put db (n\<lparr>i_file := (i_file n)\<lparr>df_data := OldRows src\<rparr>\<rparr>) w)\<lparr>w_later := rest\<rparr>)
      | _ \<Rightarrow> (Inr (), w))"

definition read_copy :: "bytes \<Rightarrow> copy_db fs" where
  "read_copy p = sbind (connect p) (\<lambda>f. case df_data f of NewRows c \<Rightarrow> sret c | _ \<Rightarrow> sfail no_such_table)"

definition qualify_file :: "bytes \<Rightarrow> bytes \<Rightarrow> unit fs" where
  "qualify_file p fp = sbind (read_copy p) (\<lambda>c. sthen (write_file p (copy_file (qualify_origin fp c))) (close p))"

definition disk_full :: "bytes \<Rightarrow> storage_error fs" where
  "disk_full db =
     sbind (file_len db) (\<lambda>source.
     sbind (file_len (migrating_path db)) (\<lambda>copy.
     sbind (file_len (sidecar (migrating_path db) WAL_SUFFIX)) (\<lambda>wal.
       sret (MigrationDiskFull db (source + TARGET_WAL_ALLOWANCE_BYTES - (copy + wal))))))"

text \<open>\<open>build\<close>: a fresh copy or the existing one, copied on, verified and finalized.\<close>

definition open_target :: "bytes \<Rightarrow> source_schema \<Rightarrow> bool \<Rightarrow> source_print \<Rightarrow> unit fs" where
  "open_target db source fresh print =
     (if fresh
      then sbind (mode_of db) (\<lambda>mode. sthen (create_with_mode (migrating_path db) mode)
             (write_file (migrating_path db) (copy_file (target_create source (sp_fingerprint print)))))
      else sret ())"

definition conclude ::
  "prep_env \<Rightarrow> bytes \<Rightarrow> source_db \<Rightarrow> (storage_error, copy_outcome) result \<Rightarrow> copy_db \<Rightarrow> attachment_counts option fs" where
  "conclude P db src outcome c =
     (case outcome of
        Inl e \<Rightarrow> sthen (close_quietly (migrating_path db)) (sfail e)
      | Inr (Paused _ _) \<Rightarrow> sthen (close (migrating_path db)) (sret None)
      | Inr Finished \<Rightarrow>
          (case verify (pe_copy P) (pe_checks P) src c of
             Inl e \<Rightarrow> sthen (close_quietly (migrating_path db)) (sfail e)
           | Inr counts \<Rightarrow>
               sthen (write_file (migrating_path db) (copy_file (finalize (pe_time P) c)))
                 (sthen (close (migrating_path db)) (sret (Some counts)))))"

definition build :: "prep_env \<Rightarrow> bytes \<Rightarrow> source_schema \<Rightarrow> bool \<Rightarrow> source_print \<Rightarrow> attachment_counts option fs" where
  "build P db source fresh print =
     sthen (open_target db source fresh print)
     (sbind (read_copy (migrating_path db)) (\<lambda>c.
      sbind (read_source db source) (\<lambda>src.
        let (outcome, c') = target_copy (pe_copy P) (pe_options P) src (sp_messages print) (pe_stop P) c in
        sthen (write_file (migrating_path db) (copy_file c')) (conclude P db src outcome c'))))"

definition copied_messages :: "bytes \<Rightarrow> nat fs" where
  "copied_messages db =
     sbind (read_copy (migrating_path db)) (\<lambda>c. sthen (close (migrating_path db)) (sret (length (messages (cp_tables c)))))"

definition completed_counts :: "bytes \<Rightarrow> attachment_counts fs" where
  "completed_counts db =
     sbind (read_copy (migrating_path db)) (\<lambda>c. sthen (close (migrating_path db)) (sret (copy_counts c)))"

text \<open>\<open>build\<close>'s failure, with the full disk told apart.\<close>

definition build_or_full :: "prep_env \<Rightarrow> bytes \<Rightarrow> source_schema \<Rightarrow> bool \<Rightarrow> source_print \<Rightarrow> attachment_counts option fs" where
  "build_or_full P db source fresh print w =
     (case build P db source fresh print w of
        (Inl e, w') \<Rightarrow>
          if sqlite_primary_code e = Some SQLITE_FULL then sbind (disk_full db) sfail w' else (Inl e, w')
      | r \<Rightarrow> r)"

fun attempts :: "prep_env \<Rightarrow> bytes \<Rightarrow> source_schema \<Rightarrow> nat \<Rightarrow> start \<Rightarrow> source_print \<Rightarrow> built fs" where
  "attempts P db source 0 start print = sfail (MigrationRefused (SourceUnstable db))"
| "attempts P db source (Suc n) start print =
     sthen (if start = Fresh then remove_copy db else sret ())
     (sbind (if start = Completed then sret (Some None)
             else sbind (build_or_full P db source (start = Fresh) print) (\<lambda>counts.
                    sret (map_option Some counts)))
       (\<lambda>counts. case counts of
          None \<Rightarrow> sbind (copied_messages db) (\<lambda>migrated. sret (BuiltPaused migrated (sp_messages print)))
        | Some counts \<Rightarrow>
            sthen (disturb db) (sbind (read_source db source) (\<lambda>src.
              let now = fingerprint (keys_of src) in
              if sp_fingerprint now = sp_fingerprint print
              then sbind (case counts of Some c \<Rightarrow> sret c | None \<Rightarrow> completed_counts db)
                     (\<lambda>counts. sret (Swappable counts (sp_messages print)))
              else attempts P db source n Fresh now))))"

definition start_of :: "copy_state \<Rightarrow> bool \<Rightarrow> start" where
  "start_of copy matching =
     (case (copy, matching) of
        (CopyAbsent, _) \<Rightarrow> Fresh
      | (_, False) \<Rightarrow> Fresh
      | (Incomplete _, True) \<Rightarrow> Resume
      | (Complete _ _, True) \<Rightarrow> Completed)"

definition build_locked :: "prep_env \<Rightarrow> bytes \<Rightarrow> source_schema \<Rightarrow> copy_state \<Rightarrow> built fs" where
  "build_locked P db source copy =
     sbind (read_source db source) (\<lambda>src.
       let print = fingerprint (keys_of src) in
       sbind (file_len db) (\<lambda>_.
         let resumable = (case resumable_origin copy source of
                            Some org \<Rightarrow> if made_from org (sp_fingerprint print) then Some org else None
                          | None \<Rightarrow> None);
             bare = (case resumable of Some org \<Rightarrow> or_fingerprint org = sp_fingerprint print | None \<Rightarrow> False)
         in sthen (if bare then qualify_file (migrating_path db) (sp_fingerprint print) else sret ())
              (attempts P db source MAX_BUILD_ATTEMPTS (start_of copy (resumable \<noteq> None)) print)))"

definition swap :: "bytes \<Rightarrow> source_schema \<Rightarrow> unit fs" where
  "swap db source =
     sthen (refuse_open_files db [db, migrating_path db])
     (sbind (exists_path (backup db source)) (\<lambda>there.
        if there
        then sfail (MigrationRefused (AmbiguousBackup db (version source) (backup db source) (Some (migrating_path db))))
        else sthen (rename db (backup db source))
               (sthen (rename (migrating_path db) db) (sync_parent db))))"

text \<open>\<open>Source::lock\<close> and \<open>Source::release\<close>: a transaction that keeps writers out.\<close>

definition lock_source :: "bytes \<Rightarrow> unit fs" where
  "lock_source db =
     sthen (connect db)
       (\<lambda>w. case fsop (\<lambda>w. Inr ((), w)) w of
              (Inl e, w') \<Rightarrow> sthen (close db) (sfail e) w'
            | r \<Rightarrow> r)"

definition release :: "bytes \<Rightarrow> unit fs" where
  "release db = sthen (fsop (\<lambda>w. Inr ((), w))) (close db)"

text \<open>
  \<open>run_steps\<close>: the source's lock is taken first and released whatever the build did; the
  build's error comes before the release's.
\<close>

definition run_migration :: "prep_env \<Rightarrow> bytes \<Rightarrow> source_schema \<Rightarrow> copy_state \<Rightarrow> preparation fs" where
  "run_migration P db source copy =
     sthen (lock_source db)
     (\<lambda>w. let (built, w1) = build_locked P db source copy w;
              (released, w2) = release db w1
          in case built of
               Inl e \<Rightarrow> (Inl e, w2)
             | Inr b \<Rightarrow>
                 (case released of
                    Inl e \<Rightarrow> (Inl e, w2)
                  | Inr _ \<Rightarrow>
                      (case b of
                         BuiltPaused migrated tot \<Rightarrow> (Inr (PausedAt migrated tot), w2)
                       | Swappable counts n \<Rightarrow>
                           sthen (swap db source)
                             (sret (Ready (Some \<lparr>mr_messages = n, mr_counts = counts,
                                                 mr_backup_path = backup db source\<rparr>))) w2)))"

text \<open>
  One round of \<open>prepare_with\<close>; \<open>None\<close> sends it round again. The guard on the backups is asked
  only in the state it is written for, and its false answer falls through to the last row.
\<close>

definition unknown_state :: "bytes \<Rightarrow> db_state \<Rightarrow> copy_state \<Rightarrow> 'a fs" where
  "unknown_state db d copy =
     sbind (present_backups db) (\<lambda>ps.
       sfail (MigrationRefused (UnknownState db (describe_db d) ps (migrating_path db) (describe_copy copy))))"

definition prepare_round :: "prep_env \<Rightarrow> bytes \<Rightarrow> preparation option fs" where
  "prepare_round P db =
     sbind (inspect_db db) (\<lambda>d.
     sbind (inspect_copy (migrating_path db)) (\<lambda>copy.
       case d of
         Current \<Rightarrow>
           (case copy of
              CopyAbsent \<Rightarrow> sthen (log_backups (backups db)) (sret (Some (Ready None)))
            | _ \<Rightarrow> sfail (MigrationRefused (StrayMigrationCopy db (migrating_path db))))
       | Older schema \<Rightarrow>
           sbind (exists_path (backup db schema)) (\<lambda>there.
             if there
             then sfail (MigrationRefused (AmbiguousBackup db (version schema) (backup db schema)
                    (if copy \<noteq> CopyAbsent then Some (migrating_path db) else None)))
             else sbind (run_migration P db schema copy) (\<lambda>p. sret (Some p)))
       | _ \<Rightarrow>
           if copy = CopyAbsent
           then sbind (any_backup db) (\<lambda>some.
                  if \<not> some then sret (Some (Ready None)) else unknown_state db d copy)
           else (case (d, copy) of
                   (Absent, Complete _ (Some org)) \<Rightarrow>
                     if from_version (or_source_schema org) \<noteq> None
                     then sthen (finish_interrupted_swap db org) (sret None)
                     else unknown_state db d copy
                 | _ \<Rightarrow> unknown_state db d copy)))"

fun prepare_loop :: "nat \<Rightarrow> prep_env \<Rightarrow> bytes \<Rightarrow> preparation option fs" where
  "prepare_loop 0 P db = sret None"
| "prepare_loop (Suc n) P db =
     sbind (prepare_round P db) (\<lambda>r. case r of Some p \<Rightarrow> sret (Some p) | None \<Rightarrow> prepare_loop n P db)"

text \<open>Two rounds are always enough (\<open>prepare_always_decides\<close>).\<close>

definition prepare_with :: "prep_env \<Rightarrow> bytes \<Rightarrow> preparation option fs" where
  "prepare_with P db = sthen (acquire_lock db) (prepare_loop 2 P db)"

text \<open>What a start of a file database calls: production runs use the default options.\<close>

definition prepare_database_file :: "prep_env \<Rightarrow> bytes \<Rightarrow> preparation option fs" where
  "prepare_database_file P db = prepare_with (P\<lparr>pe_options := default_options\<rparr>) db"

end
