(* ===== verification/Migrate_Calls.thy ===== *)
theory Migrate_Calls
  imports Migrate_Files
begin

text \<open>
  A small logic of calls: what holds after a call that answers and what holds after one that
  fails, with one rule for each operation on the directory. An operation may fail at any
  moment, so what is to survive a failure has to hold before every one of them.
\<close>

section \<open>A logic of calls\<close>

definition valid :: "('s \<Rightarrow> bool) \<Rightarrow> ('s, 'e, 'a) call \<Rightarrow> ('a \<Rightarrow> 's \<Rightarrow> bool) \<Rightarrow> ('s \<Rightarrow> bool) \<Rightarrow> bool" where
  "valid P m Q X \<longleftrightarrow> (\<forall>s. P s \<longrightarrow> (case m s of (Inr a, s') \<Rightarrow> Q a s' | (Inl e, s') \<Rightarrow> X s'))"

named_theorems call_rules

lemma valid_sret [call_rules]: "(\<And>s. P s \<Longrightarrow> Q a s) \<Longrightarrow> valid P (sret a) Q X"
  by (simp add: valid_def sret_def)

lemma valid_sfail [call_rules]: "(\<And>s. P s \<Longrightarrow> X s) \<Longrightarrow> valid P (sfail e) Q X"
  by (simp add: valid_def sfail_def)

lemma valid_sbind: "valid P m R X \<Longrightarrow> (\<And>a. valid (R a) (f a) Q X) \<Longrightarrow> valid P (sbind m f) Q X"
  unfolding valid_def sbind_def by (force split: sum.splits prod.splits)

lemma valid_sthen: "valid P m (\<lambda>_. R) X \<Longrightarrow> valid R k Q X \<Longrightarrow> valid P (sthen m k) Q X"
  unfolding sthen_def by (rule valid_sbind)

lemma valid_pre: "valid P' m Q X \<Longrightarrow> (\<And>s. P s \<Longrightarrow> P' s) \<Longrightarrow> valid P m Q X"
  by (simp add: valid_def)

lemma valid_post: "valid P m Q' X \<Longrightarrow> (\<And>a s. Q' a s \<Longrightarrow> Q a s) \<Longrightarrow> valid P m Q X"
  unfolding valid_def by (force split: sum.splits prod.splits)

lemma valid_if: "(b \<Longrightarrow> valid P m Q X) \<Longrightarrow> (\<not> b \<Longrightarrow> valid P k Q X) \<Longrightarrow> valid P (if b then m else k) Q X"
  by simp

lemma valid_assume: "(\<And>s. P s \<Longrightarrow> b) \<Longrightarrow> (b \<Longrightarrow> valid P m Q X) \<Longrightarrow> valid P m Q X"
  by (auto simp: valid_def)

lemma valid_cases: "valid P m Q X \<Longrightarrow> valid P' m Q X \<Longrightarrow> valid (\<lambda>s. P s \<or> P' s) m Q X"
  by (auto simp: valid_def)

lemma valid_False: "valid (\<lambda>_. False) m Q X"
  by (simp add: valid_def)

lemma validD: "valid P m Q Y \<Longrightarrow> P s \<Longrightarrow> case m s of (Inr a, s') \<Rightarrow> Q a s' | (Inl e, s') \<Rightarrow> Y s'"
  by (simp add: valid_def)

text \<open>An operation that may fail by itself or by its own choice.\<close>

lemma valid_fsop:
  assumes "\<And>w. P w \<Longrightarrow> w_faults w \<noteq> [] \<Longrightarrow> X (w\<lparr>w_faults := tl (w_faults w)\<rparr>)"
    and "\<And>w. P w \<Longrightarrow> (case f (w\<lparr>w_faults := tl (w_faults w)\<rparr>) of
        Inl e \<Rightarrow> X (w\<lparr>w_faults := tl (w_faults w)\<rparr>) | Inr (a, w') \<Rightarrow> Q a w')"
  shows "valid P (fsop f) Q X"
  unfolding valid_def fsop_def Let_def
proof (intro allI impI)
  fix w assume w: "P w"
  show "case (case case w_faults w of [] \<Rightarrow> f (w\<lparr>w_faults := tl (w_faults w)\<rparr>)
        | None # x \<Rightarrow> f (w\<lparr>w_faults := tl (w_faults w)\<rparr>) | Some e # x \<Rightarrow> Inl e of
      Inl e \<Rightarrow> (Inl e, w\<lparr>w_faults := tl (w_faults w)\<rparr>) | Inr (a, w'') \<Rightarrow> (Inr a, w'')) of
    (Inl e, s') \<Rightarrow> X s' | (Inr a, s') \<Rightarrow> Q a s'"
    using assms(1) [OF w] assms(2) [OF w]
    by (cases "w_faults w") (auto split: option.splits sum.splits)
qed

section \<open>The directory\<close>

lemma entry_put [simp]: "entry p (put q n w) = (if p = q then Some n else entry p w)"
proof -
  have "map_of (filter (\<lambda>(r, _). r \<noteq> q) d) p = (if p = q then None else map_of d p)" for d :: "(bytes \<times> inode) list"
    by (induction d) auto
  then show ?thesis by (simp add: entry_def put_def)
qed

lemma entry_drop_path [simp]: "entry p (drop_path q w) = (if p = q then None else entry p w)"
proof -
  have "map_of (filter (\<lambda>(r, _). r \<noteq> q) d) p = (if p = q then None else map_of d p)" for d :: "(bytes \<times> inode) list"
    by (induction d) auto
  then show ?thesis by (simp add: entry_def drop_path_def)
qed

lemma entry_more [simp]:
  "entry p (w\<lparr>w_faults := x\<rparr>) = entry p w" "entry p (w\<lparr>w_later := y\<rparr>) = entry p w"
  "entry p (w\<lparr>w_held := h\<rparr>) = entry p w" "entry p (w\<lparr>w_lock_held := b\<rparr>) = entry p w"
  by (simp_all add: entry_def)

lemma put_more [simp]:
  "w_faults (put p n w) = w_faults w" "w_later (put p n w) = w_later w" "w_held (put p n w) = w_held w"
  "w_lock_held (put p n w) = w_lock_held w" "w_faults (drop_path p w) = w_faults w"
  "w_later (drop_path p w) = w_later w" "w_held (drop_path p w) = w_held w"
  "w_lock_held (drop_path p w) = w_lock_held w"
  by (simp_all add: put_def drop_path_def)

text \<open>No two of the files are the same.\<close>

lemma paths_distinct [simp]:
  "migrating_path db \<noteq> db" "db \<noteq> migrating_path db" "backup db s \<noteq> db" "db \<noteq> backup db s"
  "backup db s \<noteq> migrating_path db" "migrating_path db \<noteq> backup db s"
  "lock_path db \<noteq> db" "db \<noteq> lock_path db" "lock_path db \<noteq> migrating_path db" "migrating_path db \<noteq> lock_path db"
  "lock_path db \<noteq> backup db s" "backup db s \<noteq> lock_path db"
  "backup db s = backup db s' \<longleftrightarrow> s = s'"
  by (cases s; cases s'; simp add: migrating_path_def lock_path_def sidecar_def suffix_defs)+

definition side_exts :: "bytes list" where
  "side_exts = [WAL_SUFFIX, SHM_SUFFIX, JOURNAL_SUFFIX]"

lemma sides_distinct [simp]:
  assumes "x \<in> set side_exts"
  shows "sidecar db x \<noteq> db" "db \<noteq> sidecar db x"
    "sidecar p x = sidecar q x \<longleftrightarrow> p = q"
  using assms by (auto simp: side_exts_def sidecar_def suffix_defs)

lemma side_paths [simp]:
  assumes "x \<in> set side_exts" "p = db \<or> p = migrating_path db \<or> p = backup db s'"
  shows "sidecar p x \<noteq> db" "sidecar p x \<noteq> migrating_path db" "sidecar p x \<noteq> backup db s"
    "db \<noteq> sidecar p x" "migrating_path db \<noteq> sidecar p x" "backup db s \<noteq> sidecar p x"
  using assms
  by (cases s; cases s'; auto simp: side_exts_def migrating_path_def sidecar_def suffix_defs)+

section \<open>Operations\<close>

text \<open>
  Assertions speak of the files, as a function from paths, and of the weather: when the start
  is a healthy one nothing fails, nobody else has a file open and the lock is free.
\<close>

type_synonym files = "bytes \<Rightarrow> inode option"

definition calm :: "bool \<Rightarrow> world \<Rightarrow> bool" where
  "calm H w \<longleftrightarrow> w_later w = [] \<and> (H \<longrightarrow> w_faults w = [] \<and> w_held w = [] \<and> \<not> w_lock_held w)"

definition ents :: "world \<Rightarrow> files" where
  "ents w p = entry p w"

definition reached :: "bool \<Rightarrow> (files \<Rightarrow> bool) \<Rightarrow> world \<Rightarrow> bool" where
  "reached H B w \<longleftrightarrow> calm H w \<and> B (ents w)"

definition left :: "bool \<Rightarrow> (files \<Rightarrow> bool) \<Rightarrow> world \<Rightarrow> bool" where
  "left H R w \<longleftrightarrow> w_later w = [] \<and> R (ents w) \<and> \<not> H"

definition closed :: "bytes \<Rightarrow> files \<Rightarrow> files" where
  "closed p e = e(sidecar p WAL_SUFFIX := None, sidecar p SHM_SUFFIX := None)"

lemma ents_step [simp]:
  "ents (put q n w) = (ents w)(q := Some n)" "ents (drop_path q w) = (ents w)(q := None)"
  "ents (w\<lparr>w_faults := x\<rparr>) = ents w"
  by (auto simp: fun_eq_iff ents_def)

lemma entry_ents: "entry p w = ents w p"
  by (simp add: ents_def)

lemma calm_step: "calm H w \<Longrightarrow> calm H (w\<lparr>w_faults := tl (w_faults w)\<rparr>)"
  by (simp add: calm_def)

lemma valid_op:
  assumes "\<And>e. B e \<Longrightarrow> R e"
    and "\<And>w. calm H w \<Longrightarrow> B (ents w) \<Longrightarrow>
      (case f w of Inl e \<Rightarrow> \<not> H | Inr (a, w') \<Rightarrow> calm H w' \<and> Q a (ents w'))"
  shows "valid (reached H B) (fsop f) (\<lambda>a. reached H (Q a)) (left H R)"
proof (rule valid_fsop)
  fix w assume w: "reached H B w"
  then show "w_faults w \<noteq> [] \<Longrightarrow> left H R (w\<lparr>w_faults := tl (w_faults w)\<rparr>)"
    using assms(1) by (auto simp: reached_def left_def calm_def)
  let ?w = "w\<lparr>w_faults := tl (w_faults w)\<rparr>"
  have c: "calm H ?w" "B (ents ?w)" using w by (simp_all add: reached_def calm_step)
  then have "left H R ?w" if "\<not> H" using that assms(1) by (auto simp: left_def calm_def)
  with assms(2) [OF c] show "case f ?w of Inl e \<Rightarrow> left H R ?w | Inr (a, w') \<Rightarrow> reached H (Q a) w'"
    by (auto simp: reached_def split: sum.splits prod.splits)
qed

lemma v_exists:
  assumes "\<And>e. B e \<Longrightarrow> R e" "\<And>e. B e \<Longrightarrow> Q (e p \<noteq> None) e"
  shows "valid (reached H B) (exists_path p) (\<lambda>r. reached H (Q r)) (left H R)"
  unfolding exists_path_def
proof (rule valid_op)
  fix w assume w: "calm H w" "B (ents w)"
  then show "case Inr (entry p w \<noteq> None, w) of Inl e \<Rightarrow> \<not> H | Inr (a, w') \<Rightarrow> calm H w' \<and> Q a (ents w')"
    using assms(2) [OF w(2)] by (auto simp: entry_ents calm_def split: option.split)
qed (rule assms(1))

lemma v_len:
  assumes "\<And>e. B e \<Longrightarrow> R e" "\<And>e. B e \<Longrightarrow> Q e"
  shows "valid (reached H B) (file_len p) (\<lambda>_. reached H Q) (left H R)"
  unfolding file_len_def
proof (rule valid_op)
  fix w assume w: "calm H w" "B (ents w)"
  then show "case Inr (case entry p w of Some n \<Rightarrow> i_len n | None \<Rightarrow> 0, w) of Inl e \<Rightarrow> \<not> H | Inr (a, w') \<Rightarrow> calm H w' \<and> Q (ents w')"
    using assms(2) [OF w(2)] by (auto simp: entry_ents calm_def split: option.split)
qed (rule assms(1))

lemma v_mode:
  assumes "\<And>e. B e \<Longrightarrow> R e" "\<And>e. B e \<Longrightarrow> Q e"
  shows "valid (reached H B) (mode_of p) (\<lambda>_. reached H Q) (left H R)"
  unfolding mode_of_def
proof (rule valid_op)
  fix w assume w: "calm H w" "B (ents w)"
  then show "case Inr (map_option i_mode (entry p w), w) of Inl e \<Rightarrow> \<not> H | Inr (a, w') \<Rightarrow> calm H w' \<and> Q (ents w')"
    using assms(2) [OF w(2)] by (auto simp: entry_ents calm_def split: option.split)
qed (rule assms(1))

lemma v_sync:
  assumes "\<And>e. B e \<Longrightarrow> R e" "\<And>e. B e \<Longrightarrow> Q e"
  shows "valid (reached H B) (sync_parent p) (\<lambda>_. reached H Q) (left H R)"
  unfolding sync_parent_def
proof (rule valid_op)
  fix w assume w: "calm H w" "B (ents w)"
  then show "case Inr ((), w) of Inl e \<Rightarrow> \<not> H | Inr (a, w') \<Rightarrow> calm H w' \<and> Q (ents w')"
    using assms(2) [OF w(2)] by (auto simp: entry_ents calm_def split: option.split)
qed (rule assms(1))

lemma v_connect:
  assumes "\<And>e. B e \<Longrightarrow> R e" "\<And>e. B e \<Longrightarrow> H \<Longrightarrow> e p \<noteq> None" "\<And>e n. B e \<Longrightarrow> e p = Some n \<Longrightarrow> Q (i_file n) e"
  shows "valid (reached H B) (connect p) (\<lambda>f. reached H (Q f)) (left H R)"
  unfolding connect_def
proof (rule valid_op)
  fix w assume w: "calm H w" "B (ents w)"
  then show "case (case entry p w of None \<Rightarrow> Inl cannot_open | Some n \<Rightarrow> Inr (i_file n, w)) of Inl e \<Rightarrow> \<not> H | Inr (a, w') \<Rightarrow> calm H w' \<and> Q a (ents w')"
    using assms(2,3) [OF w(2)] by (auto simp: entry_ents calm_def split: option.split)
qed (rule assms(1))

lemma v_close:
  assumes "\<And>e. B e \<Longrightarrow> R e" "\<And>e. B e \<Longrightarrow> \<not> H \<Longrightarrow> Q e" "\<And>e. B e \<Longrightarrow> Q (closed p e)"
  shows "valid (reached H B) (close p) (\<lambda>_. reached H Q) (left H R)"
  unfolding close_def
proof (rule valid_op)
  fix w assume w: "calm H w" "B (ents w)"
  have "(ents w)(sidecar p SHM_SUFFIX := None, sidecar p WAL_SUFFIX := None) = closed p (ents w)"
    by (auto simp: closed_def)
  with assms(2,3) [OF w(2)] w(1)
  show "case Inr ((), if List.member (w_held w) p then w
        else drop_path (sidecar p WAL_SUFFIX) (drop_path (sidecar p SHM_SUFFIX) w)) of
      Inl e \<Rightarrow> \<not> H | Inr (a, w') \<Rightarrow> calm H w' \<and> Q (ents w')"
    by (auto simp: calm_def)
qed (rule assms(1))

lemma v_write:
  assumes "\<And>e. B e \<Longrightarrow> R e" "\<And>e. B e \<Longrightarrow> H \<Longrightarrow> e p \<noteq> None"
    and "\<And>e n. B e \<Longrightarrow> e p = Some n \<Longrightarrow> Q (e(p := Some (n\<lparr>i_file := f\<rparr>)))"
  shows "valid (reached H B) (write_file p f) (\<lambda>_. reached H Q) (left H R)"
  unfolding write_file_def
proof (rule valid_op)
  fix w assume w: "calm H w" "B (ents w)"
  then show "case (case entry p w of None \<Rightarrow> Inl cannot_open | Some n \<Rightarrow> Inr ((), put p (n\<lparr>i_file := f\<rparr>) w)) of Inl e \<Rightarrow> \<not> H | Inr (a, w') \<Rightarrow> calm H w' \<and> Q (ents w')"
    using assms(2,3) [OF w(2)] by (auto simp: entry_ents calm_def split: option.split)
qed (rule assms(1))

lemma v_rename:
  assumes "\<And>e. B e \<Longrightarrow> R e" "\<And>e. B e \<Longrightarrow> H \<Longrightarrow> e from \<noteq> None"
    and "\<And>e n. B e \<Longrightarrow> e from = Some n \<Longrightarrow> Q (e(from := None, to := Some n))"
  shows "valid (reached H B) (rename from to) (\<lambda>_. reached H Q) (left H R)"
  unfolding rename_def
proof (rule valid_op)
  fix w assume w: "calm H w" "B (ents w)"
  then show "case (case entry from w of None \<Rightarrow> Inl (MigrationIo ''rename'' from no_such_file) | Some n \<Rightarrow> Inr ((), put to n (drop_path from w))) of Inl e \<Rightarrow> \<not> H | Inr (a, w') \<Rightarrow> calm H w' \<and> Q (ents w')"
    using assms(2,3) [OF w(2)] by (auto simp: entry_ents calm_def split: option.split)
qed (rule assms(1))

lemma v_remove:
  assumes "\<And>e. B e \<Longrightarrow> R e" "\<And>e. B e \<Longrightarrow> Q (e(p := None))"
  shows "valid (reached H B) (remove_file p) (\<lambda>_. reached H Q) (left H R)"
  unfolding remove_file_def
proof (rule valid_op)
  fix w assume w: "calm H w" "B (ents w)"
  then show "case Inr ((), drop_path p w) of Inl e \<Rightarrow> \<not> H | Inr (a, w') \<Rightarrow> calm H w' \<and> Q (ents w')"
    using assms(2) [OF w(2)] by (auto simp: entry_ents calm_def split: option.split)
qed (rule assms(1))

lemma v_noop:
  assumes "\<And>e. B e \<Longrightarrow> R e" "\<And>e. B e \<Longrightarrow> Q e"
  shows "valid (reached H B) (fsop (\<lambda>w. Inr ((), w))) (\<lambda>_. reached H Q) (left H R)"
  by (rule valid_op) (use assms in auto)

lemma v_ret: "(\<And>e. B e \<Longrightarrow> Q a e) \<Longrightarrow> valid (reached H B) (sret a) (\<lambda>r. reached H (Q r)) (left H R)"
  by (rule valid_sret) (simp add: reached_def)

lemma v_fail: "(\<And>e. B e \<Longrightarrow> R e \<and> \<not> H) \<Longrightarrow> valid (reached H B) (sfail err) Q (left H R)"
  by (rule valid_sfail) (auto simp: reached_def left_def calm_def)

lemma v_pre: "valid (reached H B') m Q (left H R) \<Longrightarrow> (\<And>e. B e \<Longrightarrow> B' e) \<Longrightarrow> valid (reached H B) m Q (left H R)"
  by (erule valid_pre) (auto simp: reached_def)

lemma v_post: "valid P m (\<lambda>a. reached H (Q' a)) (left H R) \<Longrightarrow> (\<And>a e. Q' a e \<Longrightarrow> Q a e) \<Longrightarrow> valid P m (\<lambda>a. reached H (Q a)) (left H R)"
  by (erule valid_post) (auto simp: reached_def)

text \<open>A fact about the values, known from the state before the call.\<close>

lemma v_assume: "(\<And>e. B e \<Longrightarrow> b) \<Longrightarrow> (b \<Longrightarrow> valid (reached H B) m Q Y) \<Longrightarrow> valid (reached H B) m Q Y"
  by (rule valid_assume) (auto simp: reached_def)

lemma v_close_quietly:
  assumes "\<And>e. B e \<Longrightarrow> R e" "\<not> H"
    and "\<And>e. B e \<Longrightarrow> Q e" "\<And>e. B e \<Longrightarrow> Q (closed p e)"
  shows "valid (reached H B) (close_quietly p) (\<lambda>_. reached H Q) (left H R)"
proof -
  have v: "valid (reached H B) (close p) (\<lambda>_. reached H Q) (left H Q)" by (rule v_close) (use assms in auto)
  show ?thesis unfolding valid_def
  proof (intro allI impI)
    fix w assume "reached H B w"
    with v have "case close p w of (Inr a, w') \<Rightarrow> reached H Q w' | (Inl e, w') \<Rightarrow> left H Q w'" by (simp add: valid_def)
    then show "case close_quietly p w of (Inr a, w') \<Rightarrow> reached H Q w' | (Inl e, w') \<Rightarrow> left H R w'"
      using assms(2) by (cases "close p w"; cases "fst (close p w)") (auto simp: close_quietly_def reached_def left_def calm_def)
  qed
qed

lemma v_refuse_each:
  assumes "\<And>e. B e \<Longrightarrow> R e" "\<And>e p. B e \<Longrightarrow> H \<Longrightarrow> p \<in> set sides \<Longrightarrow> e p = None"
  shows "valid (reached H B) (refuse_each err sides) (\<lambda>_. reached H B) (left H R)"
  using assms
proof (induction sides)
  case (Cons p sides)
  show ?case unfolding refuse_each.simps
  proof (rule valid_sbind)
    show "valid (reached H B) (exists_path p) (\<lambda>r. reached H (\<lambda>e. B e \<and> (H \<longrightarrow> \<not> r))) (left H R)"
      by (rule v_exists) (use Cons.prems in auto)
    have "valid (reached H B) (refuse_each err sides) (\<lambda>_. reached H B) (left H R)" by (rule Cons.IH) (use Cons.prems in auto)
    then show "valid (reached H (\<lambda>e. B e \<and> (H \<longrightarrow> \<not> there))) (if there then sfail (err p) else refuse_each err sides)
        (\<lambda>_. reached H B) (left H R)" for there
      by (intro valid_if) (auto intro!: v_fail Cons.prems(1) elim: v_pre)
  qed
qed (auto intro: v_ret)

end
