(* ===== verification/Migrate_Build.thy ===== *)
theory Migrate_Build
  imports Migrate_Calls Migrate_Kept
begin

text \<open>
  The states the files of a migration can be in, and that building the copy, resumed or from
  the start, failing or not, stays within them. When the start is a healthy one the build ends
  with a copy that holds the whole source.
\<close>

section \<open>The three states\<close>

text \<open>What is being migrated: the run's inputs, the path, and the older file that was found there.\<close>

record job =
  j_env :: prep_env
  j_db :: bytes
  j_schema :: source_schema
  j_inode :: inode
  j_src :: source_db

definition job_ok :: "job \<Rightarrow> bool" where
  "job_ok J \<longleftrightarrow>
     rows_in (j_schema J) (i_file (j_inode J)) = Some (j_src J) \<and> source_wf (j_src J)
     \<and> (\<exists>fs. probe (j_db J) (i_file (j_inode J)) = Inr fs \<and> db_state_of fs = Older (j_schema J))
     \<and> 0 < batch_messages (pe_options (j_env J))"

definition made_here :: "job \<Rightarrow> copy_db \<Rightarrow> bool" where
  "made_here J c \<longleftrightarrow>
     copied (pe_copy (j_env J)) (j_src J) c
     \<and> or_source_schema (cp_origin c) = version (j_schema J) \<and> or_target_schema (cp_origin c) = SCHEMA_VERSION
     \<and> (or_fingerprint (cp_origin c) = print_of (j_src J)
        \<or> or_fingerprint (cp_origin c) = qualified_fingerprint (print_of (j_src J)) SCHEMA_VERSION)"

definition whole :: "job \<Rightarrow> copy_db \<Rightarrow> bool" where
  "whole J c \<longleftrightarrow>
     cp_tables c = add_views (ce_zstd (pe_copy (j_env J))) (ce_sql (pe_copy (j_env J)))
       (views (ce_mime (pe_copy (j_env J))) (j_src J)) no_tables"

definition growing :: "job \<Rightarrow> inode option \<Rightarrow> bool" where
  "growing J m \<longleftrightarrow> (\<exists>i c. m = Some i \<and> i_file i = copy_file c \<and> made_here J c \<and> cp_user_version c = 0)"

definition readied :: "job \<Rightarrow> inode option \<Rightarrow> bool" where
  "readied J m \<longleftrightarrow>
     (\<exists>i c. m = Some i \<and> i_file i = copy_file c \<and> made_here J c \<and> cp_user_version c = SCHEMA_VERSION \<and> whole J c)"

definition foreign :: "job \<Rightarrow> inode option \<Rightarrow> bool" where
  "foreign J m \<longleftrightarrow>
     (case m of
        None \<Rightarrow> True
      | Some i \<Rightarrow>
          (case resumable_origin (copy_state_of (i_file i)) (j_schema J) of
             None \<Rightarrow> True | Some org \<Rightarrow> \<not> made_from org (print_of (j_src J))))"

definition unswapped :: "job \<Rightarrow> (inode option \<Rightarrow> bool) \<Rightarrow> files \<Rightarrow> bool" where
  "unswapped J K e \<longleftrightarrow>
     e (j_db J) = Some (j_inode J) \<and> e (backup (j_db J) (j_schema J)) = None \<and> K (e (migrating_path (j_db J)))"

definition between :: "job \<Rightarrow> files \<Rightarrow> bool" where
  "between J e \<longleftrightarrow>
     e (j_db J) = None \<and> e (backup (j_db J) (j_schema J)) = Some (j_inode J) \<and> readied J (e (migrating_path (j_db J)))"

definition swapped :: "job \<Rightarrow> files \<Rightarrow> bool" where
  "swapped J e \<longleftrightarrow>
     readied J (e (j_db J)) \<and> e (backup (j_db J) (j_schema J)) = Some (j_inode J) \<and> e (migrating_path (j_db J)) = None"

definition recoverable :: "job \<Rightarrow> files \<Rightarrow> bool" where
  "recoverable J e \<longleftrightarrow>
     unswapped J (\<lambda>m. growing J m \<or> readied J m \<or> foreign J m) e \<or> between J e \<or> swapped J e"

definition clean :: "bool \<Rightarrow> bytes \<Rightarrow> files \<Rightarrow> bool" where
  "clean H p e \<longleftrightarrow> (H \<longrightarrow> e (sidecar p WAL_SUFFIX) = None \<and> e (sidecar p SHM_SUFFIX) = None)"

lemma side_mem [simp]:
  "WAL_SUFFIX \<in> set side_exts" "SHM_SUFFIX \<in> set side_exts" "JOURNAL_SUFFIX \<in> set side_exts"
  by (simp_all add: side_exts_def)

lemma closed_main [simp]:
  assumes "p = db \<or> p = migrating_path db \<or> p = backup db s'"
  shows "closed p e db = e db" "closed p e (migrating_path db) = e (migrating_path db)"
    "closed p e (backup db s) = e (backup db s)"
  using assms by (simp_all add: closed_def)

lemma clean_closed [simp]: "clean H p (closed p e)" "clean H q e \<Longrightarrow> clean H q (closed p e)"
  by (simp_all add: clean_def closed_def)

lemma unswapped_closed [simp]:
  "unswapped J K (closed (j_db J) e) = unswapped J K e"
  "unswapped J K (closed (migrating_path (j_db J)) e) = unswapped J K e"
  by (simp_all add: unswapped_def)

lemma between_closed [simp]:
  "between J (closed (migrating_path (j_db J)) e) = between J e"
  "between J (closed (backup (j_db J) s) e) = between J e"
  by (simp_all add: between_def)

lemma swapped_closed [simp]: "swapped J (closed (j_db J) e) = swapped J e"
  by (simp add: swapped_def)

text \<open>What the copies look like from outside.\<close>

lemma made_here_made_from: "made_here J c \<Longrightarrow> made_from (cp_origin c) (print_of (j_src J))"
  by (auto simp: made_here_def made_from_def)

lemma copy_file_origin: "read_origin (df_origin (copy_file c)) = Some (cp_origin c)"
  by (simp add: copy_file_def read_origin_def)

lemma growing_state:
  assumes "growing J (Some i)"
  shows "\<exists>c. i_file i = copy_file c \<and> made_here J c \<and> cp_user_version c = 0
    \<and> copy_state_of (i_file i) = Incomplete (Some (cp_origin c))
    \<and> resumable_origin (copy_state_of (i_file i)) (j_schema J) = Some (cp_origin c)"
proof -
  from assms obtain c where c: "i_file i = copy_file c" "made_here J c" "cp_user_version c = 0"
    by (auto simp: growing_def)
  then have "copy_state_of (i_file i) = Incomplete (Some (cp_origin c))"
    by (simp add: copy_state_of_def copy_file_origin copy_file_def [of c] read_origin_def SCHEMA_VERSION_def
        PREVIOUS_SCHEMA_VERSION_def Let_def)
  then show ?thesis using c by (auto simp: resumable_origin_def made_here_def)
qed

lemma readied_state:
  assumes "readied J (Some i)"
  shows "\<exists>c. i_file i = copy_file c \<and> made_here J c \<and> cp_user_version c = SCHEMA_VERSION \<and> whole J c
    \<and> copy_state_of (i_file i) = Complete SCHEMA_VERSION (Some (cp_origin c))
    \<and> resumable_origin (copy_state_of (i_file i)) (j_schema J) = Some (cp_origin c)
    \<and> probe name (i_file i) = Inr FsCurrent"
proof -
  from assms obtain c where c: "i_file i = copy_file c" "made_here J c" "cp_user_version c = SCHEMA_VERSION" "whole J c"
    by (auto simp: readied_def)
  then have "copy_state_of (i_file i) = Complete SCHEMA_VERSION (Some (cp_origin c))"
    by (simp add: copy_state_of_def copy_file_def [of c] read_origin_def Let_def)
  then show ?thesis using c by (auto simp: resumable_origin_def made_here_def probe_def copy_file_def)
qed

lemma empty_foreign: "i_file i = empty_file \<Longrightarrow> foreign J (Some i)"
  by (simp add: foreign_def resumable_origin_def copy_state_of_def empty_file_def read_origin_def Let_def
      SCHEMA_VERSION_def PREVIOUS_SCHEMA_VERSION_def)

lemma unswapped_recoverable:
  "unswapped J K e \<Longrightarrow> (\<And>m. K m \<Longrightarrow> growing J m \<or> readied J m \<or> foreign J m) \<Longrightarrow> recoverable J e"
  by (auto simp: recoverable_def unswapped_def)

section \<open>Building\<close>

lemma copy_batch_header:
  "copy_batch E src after b c = Inr c' \<Longrightarrow>
     cp_user_version c' = cp_user_version c \<and> or_fingerprint (cp_origin c') = or_fingerprint (cp_origin c)
     \<and> or_source_schema (cp_origin c') = or_source_schema (cp_origin c)
     \<and> or_target_schema (cp_origin c') = or_target_schema (cp_origin c)"
  by (auto simp: copy_batch_def Let_def and_then_eq_Inr)

lemma copy_loop_header:
  "cp_user_version (snd (copy_loop E opts src tot stop k n migrated c)) = cp_user_version c
   \<and> or_fingerprint (cp_origin (snd (copy_loop E opts src tot stop k n migrated c))) = or_fingerprint (cp_origin c)
   \<and> or_source_schema (cp_origin (snd (copy_loop E opts src tot stop k n migrated c))) = or_source_schema (cp_origin c)
   \<and> or_target_schema (cp_origin (snd (copy_loop E opts src tot stop k n migrated c))) = or_target_schema (cp_origin c)"
proof (induction E opts src tot stop k n migrated c rule: copy_loop.induct)
  case (1 E opts src tot stop k n migrated c)
  show ?case
  proof (cases "stop k \<or> next_batch opts src n = None \<or> ce_fault E k \<noteq> None")
    case True
    then show ?thesis by (auto simp: copy_loop.simps [of E opts src tot stop k] split: option.split)
  next
    case False
    then obtain b where b: "next_batch opts src n = Some b" by auto
    show ?thesis
    proof (cases "copy_batch E src n b c")
      case (Inl e)
      with b False show ?thesis by (simp add: copy_loop.simps [of E opts src tot stop k])
    next
      case (Inr c')
      from 1 [OF _ b, of c'] False Inr copy_batch_header [OF Inr] b
      show ?thesis by (simp add: copy_loop.simps [of E opts src tot stop k])
    qed
  qed
qed

lemma target_copy_made_here:
  assumes "job_ok J" "made_here J c" "target_copy (pe_copy (j_env J)) (pe_options (j_env J)) (j_src J) tot stop c = (r, c')"
  shows "made_here J c' \<and> cp_user_version c' = cp_user_version c \<and> (r = Inr Finished \<longrightarrow> whole J c')"
proof -
  let ?E = "pe_copy (j_env J)" and ?o = "pe_options (j_env J)"
  have w: "source_wf (j_src J)" "0 < batch_messages ?o" using assms(1) by (simp_all add: job_ok_def)
  have c: "copied ?E (j_src J) c" using assms(2) by (simp add: made_here_def)
  have r: "r = fst (target_copy ?E ?o (j_src J) tot stop c)" "c' = snd (target_copy ?E ?o (j_src J) tot stop c)"
    using assms(3) by simp_all
  have "copied ?E (j_src J) c'" unfolding r(2) target_copy_def by (rule copy_loop_keeps [OF w(1) c refl])
  moreover have "whole J c'" if "r = Inr Finished"
  proof -
    have "views_upto (ce_mime ?E) (j_src J) (or_last_source_seq (cp_origin c')) = views (ce_mime ?E) (j_src J)"
      unfolding r(2) target_copy_def
      by (rule copy_loop_finished [OF w(1) c refl w(2)]) (use that r(1) in \<open>simp add: target_copy_def\<close>)
    with calculation show ?thesis by (simp add: copied_def whole_def Let_def)
  qed
  moreover note copy_loop_header [of ?E ?o "j_src J" tot stop 0 "or_last_source_seq (cp_origin c)"
      "length (messages (cp_tables c))" c, folded target_copy_def, folded r(2)]
  ultimately show ?thesis using assms(2) by (simp add: made_here_def)
qed

text \<open>A run that is to complete: no failure of the copy and nothing the verification objects to.\<close>

definition healthy :: "job \<Rightarrow> bool" where
  "healthy J \<longleftrightarrow>
     (let E = pe_copy (j_env J) in
      zstd_laws (ce_zstd E) \<and> zstd_total (ce_zstd E) \<and> (\<forall>k. \<not> ce_worker_dies E k) \<and> (\<forall>k. ce_fault E k = None)
      \<and> (\<forall>k. \<not> pe_stop (j_env J) k) \<and> source_tags_ok (ce_sql E) (j_src J) \<and> json_each (ce_sql E) ''[]'' = []
      \<and> sc_fts_integrity (pe_checks (j_env J)) = None \<and> sc_quick_check (pe_checks (j_env J)) = ''ok'')"

lemma healthy_copy:
  assumes "job_ok J" "healthy J" "made_here J c"
  shows "fst (target_copy (pe_copy (j_env J)) (pe_options (j_env J)) (j_src J) tot (pe_stop (j_env J)) c) = Inr Finished"
  unfolding target_copy_def
  by (rule copy_loop_runs) (use assms in \<open>simp_all add: healthy_def job_ok_def made_here_def Let_def\<close>)

lemma healthy_verify:
  assumes "job_ok J" "healthy J" "whole J c"
  shows "verify (pe_copy (j_env J)) (pe_checks (j_env J)) (j_src J) c = Inr (copy_counts c)"
proof -
  let ?E = "pe_copy (j_env J)"
  have h: "source_wf (j_src J)" "source_tags_ok (ce_sql ?E) (j_src J)" "json_each (ce_sql ?E) ''[]'' = []"
    using assms(1,2) by (simp_all add: job_ok_def healthy_def Let_def)
  have "foreign_key_check (cp_tables c) = 0"
    using wf_no_foreign_key_violation [OF add_views_wf [OF source_views_ok [OF h(1)] h(3)]] assms(3)
    by (simp add: whole_def)
  moreover have "find (\<lambda>(_, expected, found). expected \<noteq> found) (count_checks (ce_sql ?E) (j_src J) (cp_tables c)) = None"
    using finished_copy_checks [OF h] assms(3) by (simp add: whole_def)
  ultimately show ?thesis using assms(2) by (simp add: verify_def healthy_def Let_def)
qed

lemma create_made_here:
  "job_ok J \<Longrightarrow> made_here J (target_create (j_schema J) (print_of (j_src J)))
     \<and> cp_user_version (target_create (j_schema J) (print_of (j_src J))) = 0"
  by (simp add: made_here_def copied_create job_ok_def) (simp add: target_create_def)

lemma growingI: "made_here J c \<Longrightarrow> cp_user_version c = 0 \<Longrightarrow> growing J (Some (i\<lparr>i_file := copy_file c\<rparr>))"
  by (auto simp: growing_def)

lemma readiedI:
  "made_here J c \<Longrightarrow> whole J c \<Longrightarrow> readied J (Some (i\<lparr>i_file := copy_file (finalize t c)\<rparr>))"
  by (auto simp: readied_def made_here_def whole_def finalize_def copied_def intro!: exI [of _ "finalize t c"])

lemma v_read_source:
  assumes "job_ok J" "\<And>e. B e \<Longrightarrow> R e" "\<And>e. B e \<Longrightarrow> e (j_db J) = Some (j_inode J)"
  shows "valid (reached H B) (read_source (j_db J) (j_schema J)) (\<lambda>r. reached H (\<lambda>e. B e \<and> r = j_src J)) (left H R)"
  unfolding read_source_def
proof (rule valid_sbind)
  show "valid (reached H B) (connect (j_db J)) (\<lambda>f. reached H (\<lambda>e. B e \<and> f = i_file (j_inode J))) (left H R)"
    by (rule v_connect) (use assms in fastforce)+
  fix f
  show "valid (reached H (\<lambda>e. B e \<and> f = i_file (j_inode J)))
      (case rows_in (j_schema J) f of None \<Rightarrow> sfail no_such_table | Some src \<Rightarrow> sret src)
      (\<lambda>r. reached H (\<lambda>e. B e \<and> r = j_src J)) (left H R)"
    by (rule v_assume [where b = "f = i_file (j_inode J)"]) (use assms(1) in \<open>auto simp: job_ok_def intro!: v_ret\<close>)
qed

lemma v_read_copy:
  assumes "\<And>e. B e \<Longrightarrow> R e" "\<And>e. B e \<Longrightarrow> \<exists>i c. e p = Some i \<and> i_file i = copy_file c"
  shows "valid (reached H B) (read_copy p) (\<lambda>c. reached H (\<lambda>e. B e \<and> (\<exists>i. e p = Some i \<and> i_file i = copy_file c))) (left H R)"
  unfolding read_copy_def
proof (rule valid_sbind)
  show "valid (reached H B) (connect p)
      (\<lambda>f. reached H (\<lambda>e. B e \<and> (\<exists>i c. e p = Some i \<and> i_file i = copy_file c \<and> f = copy_file c))) (left H R)"
    by (rule v_connect) (use assms in fastforce)+
  fix f
  show "valid (reached H (\<lambda>e. B e \<and> (\<exists>i c. e p = Some i \<and> i_file i = copy_file c \<and> f = copy_file c)))
      (case df_data f of NewRows c \<Rightarrow> sret c | _ \<Rightarrow> sfail no_such_table)
      (\<lambda>c. reached H (\<lambda>e. B e \<and> (\<exists>i. e p = Some i \<and> i_file i = copy_file c))) (left H R)"
  proof (rule v_assume [where b = "\<exists>c. f = copy_file c"])
    assume "\<exists>c. f = copy_file c"
    then obtain c where f: "f = copy_file c" by blast
    have d: "df_data (copy_file c) = NewRows c" for c by (simp add: copy_file_def)
    then have inj: "copy_file c = copy_file c' \<longleftrightarrow> c = c'" for c c' by (metis file_data.inject(2))
    show ?thesis by (simp add: f d) (auto intro!: v_ret simp: inj)
  qed auto
qed

lemma v_create:
  assumes "\<And>e. B e \<Longrightarrow> R e" "\<And>e. B e \<Longrightarrow> e p = None"
    and "\<And>e i. B e \<Longrightarrow> i_file i = empty_file \<Longrightarrow> R (e(p := Some i)) \<and> Q (e(p := Some i))"
  shows "valid (reached H B) (create_with_mode p mode) (\<lambda>_. reached H Q) (left H R)"
proof -
  let ?made = "\<lambda>e. \<exists>e0 i. B e0 \<and> i_file i = empty_file \<and> e = e0(p := Some i)"
  have first: "valid (reached H B) (fsop (\<lambda>w. case entry p w of
        Some _ \<Rightarrow> Inl (MigrationIo ''create'' p file_exists)
      | None \<Rightarrow> Inr ((), put p \<lparr>i_mode = default_mode, i_len = 0, i_file = empty_file\<rparr> w))) (\<lambda>_. reached H ?made) (left H R)"
  proof (rule valid_op)
    fix w assume w: "calm H w" "B (ents w)"
    then have "entry p w = None" using assms(2) [OF w(2)] by (simp add: entry_ents)
    with w show "case (case entry p w of
        Some _ \<Rightarrow> Inl (MigrationIo ''create'' p file_exists)
      | None \<Rightarrow> Inr ((), put p \<lparr>i_mode = default_mode, i_len = 0, i_file = empty_file\<rparr> w)) of
      Inl e \<Rightarrow> \<not> H | Inr (a, w') \<Rightarrow> calm H w' \<and> ?made (ents w')"
      by (auto simp: calm_def intro!: exI [of _ "ents w"]
          exI [of _ "\<lparr>i_mode = default_mode, i_len = 0, i_file = empty_file\<rparr>"])
  qed (rule assms(1))
  have second: "valid (reached H ?made) (fsop (\<lambda>w. case entry p w of
        None \<Rightarrow> Inl (MigrationIo ''set the permissions of'' p no_such_file)
      | Some n \<Rightarrow> Inr ((), put p (n\<lparr>i_mode := m\<rparr>) w))) (\<lambda>_. reached H Q) (left H R)" for m
  proof (rule valid_op)
    fix w assume w: "calm H w" "?made (ents w)"
    then obtain e0 i where i: "B e0" "i_file i = empty_file" "ents w = e0(p := Some i)" by blast
    have "Q (e0(p := Some (i\<lparr>i_mode := m\<rparr>)))" using assms(3) [OF i(1)] i(2) by simp
    with w(1) i(3) show "case (case entry p w of
        None \<Rightarrow> Inl (MigrationIo ''set the permissions of'' p no_such_file)
      | Some n \<Rightarrow> Inr ((), put p (n\<lparr>i_mode := m\<rparr>) w)) of
      Inl e \<Rightarrow> \<not> H | Inr (a, w') \<Rightarrow> calm H w' \<and> Q (ents w')"
      by (auto simp: entry_ents calm_def)
  qed (use assms(3) in blast)
  have "valid (reached H ?made) (sret ()) (\<lambda>_. reached H Q) (left H R)" by (rule v_ret) (use assms(3) in blast)
  with second show ?thesis unfolding create_with_mode_def
    by (intro valid_sthen [OF first]) (auto split: option.split)
qed

lemma copy_file_inj: "copy_file c = copy_file c' \<longleftrightarrow> c = c'"
  by (metis (no_types, lifting) copy_file_def db_file.select_convs(5) file_data.inject(2))

lemma growing_recoverable: "unswapped J (growing J) e \<Longrightarrow> recoverable J e"
  by (erule unswapped_recoverable) simp

lemma grow:
  assumes "unswapped J K e" "made_here J c" "cp_user_version c = 0"
  shows "unswapped J (growing J) (e(migrating_path (j_db J) := Some (i\<lparr>i_file := copy_file c\<rparr>)))"
  using assms(1) growingI [OF assms(2,3), of i] by (simp add: unswapped_def)

lemma clean_mig_upd [simp]: "clean H (j_db J) (e(migrating_path (j_db J) := x)) = clean H (j_db J) e"
  by (simp add: clean_def)

lemma v_open_target:
  assumes J: "job_ok J" and fp: "sp_fingerprint print = print_of (j_src J)"
    and K: "K = (if fresh then (\<lambda>m. m = None) else growing J)"
  shows "valid (reached H (\<lambda>e. unswapped J K e \<and> clean H (j_db J) e)) (open_target (j_db J) (j_schema J) fresh print)
    (\<lambda>_. reached H (\<lambda>e. unswapped J (growing J) e \<and> clean H (j_db J) e)) (left H (recoverable J))"
  unfolding open_target_def
proof (rule valid_if)
  let ?db = "j_db J" and ?mig = "migrating_path (j_db J)"
  let ?B = "\<lambda>e. unswapped J K e \<and> clean H ?db e"
  let ?C = "\<lambda>e. unswapped J (\<lambda>m. \<exists>i. m = Some i \<and> i_file i = empty_file) e \<and> clean H ?db e"
  let ?w = "write_file ?mig (copy_file (target_create (j_schema J) (sp_fingerprint print)))"
  assume fresh
  then have K': "K = (\<lambda>m. m = None)" by (simp add: K)
  have recB: "recoverable J e" if "?B e" for e
    using that [THEN conjunct1] by (rule unswapped_recoverable) (simp add: K' foreign_def)
  have recC: "recoverable J e" if "?C e" for e
    using that [THEN conjunct1] by (rule unswapped_recoverable) (auto simp: empty_foreign)
  have C: "?C (e(?mig := Some i))" if "?B e" "i_file i = empty_file" for e i
    using that by (auto simp: unswapped_def)
  have create: "valid (reached H ?B) (create_with_mode ?mig mode) (\<lambda>_. reached H ?C) (left H (recoverable J))" for mode
  proof (rule v_create)
    fix e and i :: inode assume "?B e" "i_file i = empty_file"
    then show "recoverable J (e(?mig := Some i)) \<and> ?C (e(?mig := Some i))" using C recC by blast
  qed (use recB K' in \<open>auto simp: unswapped_def\<close>)
  have wr: "valid (reached H ?C) ?w (\<lambda>_. reached H (\<lambda>e. unswapped J (growing J) e \<and> clean H ?db e)) (left H (recoverable J))"
    by (rule v_write)
      (use recC grow create_made_here [OF J] fp in \<open>auto simp: unswapped_def\<close>)
  have "valid (reached H ?B) (mode_of ?db) (\<lambda>_. reached H ?B) (left H (recoverable J))" by (rule v_mode) (use recB in auto)
  then show "valid (reached H ?B) (sbind (mode_of ?db) (\<lambda>mode. sthen (create_with_mode ?mig mode) ?w))
      (\<lambda>_. reached H (\<lambda>e. unswapped J (growing J) e \<and> clean H ?db e)) (left H (recoverable J))"
    by (rule valid_sbind) (rule valid_sthen [OF create wr])
qed (rule v_ret, simp add: K)

text \<open>What a build leaves: a copy that can be carried on, or a complete one, closed.\<close>

definition built_state :: "job \<Rightarrow> bool \<Rightarrow> bool \<Rightarrow> files \<Rightarrow> bool" where
  "built_state J H finished e \<longleftrightarrow>
     clean H (j_db J) e \<and> (H \<longrightarrow> finished)
     \<and> (if finished then unswapped J (readied J) e \<and> clean H (migrating_path (j_db J)) e
        else unswapped J (growing J) e)"

lemma built_recoverable: "built_state J H finished e \<Longrightarrow> recoverable J e"
  by (auto simp: built_state_def split: if_splits elim: unswapped_recoverable)

lemma v_conclude:
  assumes J: "job_ok J" and H: "H \<Longrightarrow> healthy J \<and> outcome = Inr Finished"
    and c: "made_here J c" "cp_user_version c = 0" "outcome = Inr Finished \<Longrightarrow> whole J c"
  shows "valid (reached H (\<lambda>e. unswapped J (growing J) e \<and> clean H (j_db J) e))
    (conclude (j_env J) (j_db J) (j_src J) outcome c)
    (\<lambda>r. reached H (built_state J H (r \<noteq> None))) (left H (recoverable J))"
proof -
  let ?db = "j_db J" and ?mig = "migrating_path (j_db J)"
  let ?B = "\<lambda>e. unswapped J (growing J) e \<and> clean H ?db e"
  let ?D = "\<lambda>e. unswapped J (readied J) e \<and> clean H ?db e"
  have recB: "recoverable J e" if "?B e" for e using that by (blast intro: growing_recoverable)
  have recD: "recoverable J e" if "?D e" for e using that [THEN conjunct1] by (rule unswapped_recoverable) simp
  have fails: "valid (reached H ?B) (sthen (close_quietly ?mig) (sfail err)) (\<lambda>r. reached H (built_state J H (r \<noteq> None)))
      (left H (recoverable J))" if "\<not> H" for err
    by (rule valid_sthen [of _ _ "reached H ?B"], rule v_close_quietly, insert that recB, auto intro!: v_fail)
  have paused: "valid (reached H ?B) (sthen (close ?mig) (sret None)) (\<lambda>r. reached H (built_state J H (r \<noteq> None)))
      (left H (recoverable J))" if "\<not> H"
    by (rule valid_sthen [of _ _ "reached H ?B"], rule v_close, insert that recB, auto intro!: v_ret simp: built_state_def)
  have finish: "valid (reached H ?B) (sthen (write_file ?mig (copy_file (finalize t c))) (sthen (close ?mig) (sret (Some counts))))
      (\<lambda>r. reached H (built_state J H (r \<noteq> None))) (left H (recoverable J))" if "whole J c" for t counts
  proof (rule valid_sthen)
    have "?D (e(?mig := Some (i\<lparr>i_file := copy_file (finalize t c)\<rparr>)))" if "?B e" for e i
      using that readiedI [OF c(1) \<open>whole J c\<close>] by (simp add: unswapped_def)
    then show "valid (reached H ?B) (write_file ?mig (copy_file (finalize t c))) (\<lambda>_. reached H ?D) (left H (recoverable J))"
      by (intro v_write) (use recB in \<open>auto simp: unswapped_def growing_def\<close>)
    show "valid (reached H ?D) (sthen (close ?mig) (sret (Some counts)))
        (\<lambda>r. reached H (built_state J H (r \<noteq> None))) (left H (recoverable J))"
    proof (rule valid_sthen)
      show "valid (reached H ?D) (close ?mig) (\<lambda>_. reached H (built_state J H True)) (left H (recoverable J))"
        by (rule v_close) (use recD in \<open>auto simp: built_state_def clean_def [of False]\<close>)
    qed (rule v_ret, simp)
  qed
  show ?thesis
  proof (cases outcome)
    case (Inl e)
    then have "\<not> H" using H by auto
    from fails [OF this] show ?thesis by (simp add: conclude_def Inl)
  next
    case (Inr r)
    show ?thesis
    proof (cases r)
      case Finished
      then have w: "whole J c" using Inr c(3) by simp
      show ?thesis
      proof (cases "verify (pe_copy (j_env J)) (pe_checks (j_env J)) (j_src J) c")
        case (Inl e)
        then have "\<not> H" using H healthy_verify [OF J _ w] by auto
        from fails [OF this] show ?thesis by (simp add: conclude_def Inr Finished Inl)
      next
        case (Inr counts)
        with finish [OF w] show ?thesis by (simp add: conclude_def \<open>outcome = Inr r\<close> Finished)
      qed
    next
      case (Paused a b)
      then have "\<not> H" using H Inr by auto
      from paused [OF this] show ?thesis by (simp add: conclude_def Inr Paused)
    qed
  qed
qed

lemma v_build:
  assumes J: "job_ok J" and H: "H \<Longrightarrow> healthy J" and fp: "sp_fingerprint print = print_of (j_src J)"
    and K: "K = (if fresh then (\<lambda>m. m = None) else growing J)"
  shows "valid (reached H (\<lambda>e. unswapped J K e \<and> clean H (j_db J) e))
    (build (j_env J) (j_db J) (j_schema J) fresh print)
    (\<lambda>r. reached H (built_state J H (r \<noteq> None))) (left H (recoverable J))"
  unfolding build_def
proof (rule valid_sthen [OF v_open_target [OF J fp K]], rule valid_sbind)
  let ?mig = "migrating_path (j_db J)"
  let ?G = "\<lambda>e. unswapped J (growing J) e \<and> clean H (j_db J) e"
  let ?Gc = "\<lambda>c e. ?G e \<and> made_here J c \<and> cp_user_version c = 0"
  have rec: "recoverable J e" if "?G e" for e using that by (blast intro: growing_recoverable)
  have "valid (reached H ?G) (read_copy ?mig)
      (\<lambda>c. reached H (\<lambda>e. ?G e \<and> (\<exists>i. e ?mig = Some i \<and> i_file i = copy_file c))) (left H (recoverable J))"
    by (rule v_read_copy) (use rec in \<open>auto simp: unswapped_def growing_def\<close>)
  then show "valid (reached H ?G) (read_copy ?mig) (\<lambda>c. reached H (?Gc c)) (left H (recoverable J))"
    by (rule v_post) (auto simp: unswapped_def growing_def copy_file_inj)
  fix c
  show "valid (reached H (?Gc c)) (sbind (read_source (j_db J) (j_schema J)) (\<lambda>src.
      let (outcome, c') = target_copy (pe_copy (j_env J)) (pe_options (j_env J)) src (sp_messages print) (pe_stop (j_env J)) c in
      sthen (write_file ?mig (copy_file c')) (conclude (j_env J) (j_db J) src outcome c')))
      (\<lambda>r. reached H (built_state J H (r \<noteq> None))) (left H (recoverable J))"
  proof (rule valid_sbind)
    show "valid (reached H (?Gc c)) (read_source (j_db J) (j_schema J)) (\<lambda>src. reached H (\<lambda>e. ?Gc c e \<and> src = j_src J)) (left H (recoverable J))"
      by (rule v_read_source [OF J]) (use rec in \<open>auto simp: unswapped_def\<close>)
    fix src
    obtain outcome c' where t:
      "target_copy (pe_copy (j_env J)) (pe_options (j_env J)) (j_src J) (sp_messages print) (pe_stop (j_env J)) c = (outcome, c')"
      by fastforce
    show "valid (reached H (\<lambda>e. ?Gc c e \<and> src = j_src J))
        (let (outcome, c') = target_copy (pe_copy (j_env J)) (pe_options (j_env J)) src (sp_messages print) (pe_stop (j_env J)) c in
         sthen (write_file ?mig (copy_file c')) (conclude (j_env J) (j_db J) src outcome c'))
        (\<lambda>r. reached H (built_state J H (r \<noteq> None))) (left H (recoverable J))"
    proof (rule v_assume [where b = "src = j_src J \<and> made_here J c \<and> cp_user_version c = 0"])
      assume s: "src = j_src J \<and> made_here J c \<and> cp_user_version c = 0"
      then have c': "made_here J c'" "cp_user_version c' = 0" "outcome = Inr Finished \<longrightarrow> whole J c'"
        using target_copy_made_here [OF J _ t] by simp_all
      have fin: "H \<Longrightarrow> outcome = Inr Finished" using healthy_copy [OF J H, of c "sp_messages print"] s t by simp
      have wr: "valid (reached H ?G) (write_file ?mig (copy_file c')) (\<lambda>_. reached H ?G) (left H (recoverable J))"
        by (rule v_write) (use rec grow [OF _ c'(1,2)] in \<open>auto simp: unswapped_def growing_def\<close>)
      have "valid (reached H ?G) (sthen (write_file ?mig (copy_file c')) (conclude (j_env J) (j_db J) (j_src J) outcome c'))
          (\<lambda>r. reached H (built_state J H (r \<noteq> None))) (left H (recoverable J))"
        by (rule valid_sthen [OF wr v_conclude [OF J]]) (use H fin c' in auto)
      then show ?thesis using s t by (auto elim: v_pre)
    qed auto
  qed
qed

section \<open>A whole run\<close>

lemma left_calm: "left H R w \<longleftrightarrow> reached False R w \<and> \<not> H"
  by (auto simp: left_def reached_def calm_def)

lemma v_disk_full: "valid (reached False R) (sbind (disk_full db) sfail) Q (left False R)"
  unfolding disk_full_def
  by (rule valid_sbind [where R = "\<lambda>_. reached False R"])
    (auto intro!: valid_sbind [where R = "\<lambda>_. reached False R"] v_len v_ret v_fail)

lemma v_build_or_full:
  assumes "valid P (build E db s fresh print) Q (left H R)"
  shows "valid P (build_or_full E db s fresh print) Q (left H R)"
  unfolding valid_def
proof (intro allI impI)
  fix w assume "P w"
  with assms have b: "case build E db s fresh print w of (Inr a, w') \<Rightarrow> Q a w' | (Inl e, w') \<Rightarrow> left H R w'"
    by (simp add: valid_def)
  show "case build_or_full E db s fresh print w of (Inr a, w') \<Rightarrow> Q a w' | (Inl e, w') \<Rightarrow> left H R w'"
  proof (cases "build E db s fresh print w")
    case (Pair r w')
    show ?thesis
    proof (cases r)
      case (Inl e)
      then have x: "reached False R w'" "\<not> H" using b Pair by (simp_all add: left_calm)
      have v: "valid (reached False R) (sbind (disk_full db) sfail) (\<lambda>(_ :: attachment_counts option) _. False) (left False R)"
        by (rule v_disk_full)
      obtain r2 w2 where d: "(sbind (disk_full db) sfail :: attachment_counts option fs) w' = (r2, w2)" by fastforce
      from v x(1) have "case (sbind (disk_full db) sfail :: attachment_counts option fs) w' of
          (Inr a, w'') \<Rightarrow> False | (Inl e, w'') \<Rightarrow> left False R w''"
        by (simp add: valid_def)
      then obtain e2 where "r2 = Inl e2" "left H R w2" using d x(2) by (cases r2) (auto simp: left_def)
      then show ?thesis using Inl Pair b d by (simp add: build_or_full_def)
    qed (use b Pair in \<open>simp add: build_or_full_def\<close>)
  qed
qed

lemma v_remove_each:
  assumes "\<And>e. B e \<Longrightarrow> R e" "\<And>e q. B e \<Longrightarrow> q \<in> set ps \<Longrightarrow> B (e(q := None))" "\<And>e. B e \<Longrightarrow> Q (e(p := None))"
  shows "valid (reached H B) (remove_each (ps @ [p])) (\<lambda>_. reached H Q) (left H R)"
  using assms
proof (induction ps)
  case Nil
  have "valid (reached H B) (remove_file p) (\<lambda>_. reached H Q) (left H R)" by (rule v_remove) (use Nil in blast)+
  then show ?case by (auto intro!: valid_sthen v_ret)
next
  case (Cons q ps)
  have "valid (reached H B) (remove_file q) (\<lambda>_. reached H B) (left H R)" by (rule v_remove) (use Cons.prems in \<open>simp_all only: list.set_intros\<close>)
  moreover have "valid (reached H B) (remove_each (ps @ [p])) (\<lambda>_. reached H Q) (left H R)" by (rule Cons.IH) (use Cons.prems in \<open>simp_all only: list.set_intros\<close>)
  ultimately show ?case by (auto intro: valid_sthen)
qed

definition any_copy :: "job \<Rightarrow> inode option \<Rightarrow> bool" where
  "any_copy J m \<longleftrightarrow> growing J m \<or> readied J m \<or> foreign J m"

lemma any_recoverable: "unswapped J (any_copy J) e \<Longrightarrow> recoverable J e"
  by (erule unswapped_recoverable) (simp add: any_copy_def)

lemma v_remove_copy:
  "valid (reached H (\<lambda>e. unswapped J (any_copy J) e \<and> clean H (j_db J) e)) (remove_copy (j_db J))
     (\<lambda>_. reached H (\<lambda>e. unswapped J (\<lambda>m. m = None) e \<and> clean H (j_db J) e)) (left H (recoverable J))"
  unfolding remove_copy_def
proof (rule v_remove_each)
  fix e q
  assume "unswapped J (any_copy J) e \<and> clean H (j_db J) e"
    and "q \<in> set (map (sidecar (migrating_path (j_db J))) [WAL_SUFFIX, SHM_SUFFIX, JOURNAL_SUFFIX])"
  then show "unswapped J (any_copy J) (e(q := None)) \<and> clean H (j_db J) (e(q := None))"
    by (auto simp: unswapped_def clean_def)
qed (auto simp: unswapped_def intro: any_recoverable)

fun start_copy :: "job \<Rightarrow> start \<Rightarrow> inode option \<Rightarrow> bool" where
  "start_copy J Fresh = any_copy J"
| "start_copy J Resume = growing J"
| "start_copy J Completed = readied J"

lemma start_recoverable: "unswapped J (start_copy J start) e \<Longrightarrow> recoverable J e"
  by (cases start) (auto intro: any_recoverable elim: unswapped_recoverable)

fun locked_state :: "job \<Rightarrow> bool \<Rightarrow> built \<Rightarrow> files \<Rightarrow> bool" where
  "locked_state J H (Swappable _ _) e \<longleftrightarrow>
     unswapped J (readied J) e \<and> clean H (j_db J) e \<and> clean H (migrating_path (j_db J)) e"
| "locked_state J H (BuiltPaused _ _) e \<longleftrightarrow> unswapped J (growing J) e \<and> \<not> H"

lemma locked_recoverable: "locked_state J H b e \<Longrightarrow> recoverable J e"
  by (cases b) (auto elim: unswapped_recoverable)

lemma v_counts:
  assumes "\<And>e. B e \<Longrightarrow> recoverable J e" "\<And>e. B e \<Longrightarrow> growing J (e (migrating_path (j_db J))) \<or> readied J (e (migrating_path (j_db J)))"
    and "\<And>e. B e \<Longrightarrow> \<not> H \<Longrightarrow> Q e" "\<And>e. B e \<Longrightarrow> Q (closed (migrating_path (j_db J)) e)"
  shows "valid (reached H B) (completed_counts (j_db J)) (\<lambda>_. reached H Q) (left H (recoverable J))"
    and "valid (reached H B) (copied_messages (j_db J)) (\<lambda>_. reached H Q) (left H (recoverable J))"
proof -
  let ?mig = "migrating_path (j_db J)"
  have "valid (reached H B) (read_copy ?mig) (\<lambda>c. reached H (\<lambda>e. B e \<and> (\<exists>i. e ?mig = Some i \<and> i_file i = copy_file c)))
      (left H (recoverable J))"
    by (rule v_read_copy) (use assms(1,2) in \<open>auto simp: growing_def readied_def, blast+\<close>)
  then have rd: "valid (reached H B) (read_copy ?mig) (\<lambda>_. reached H B) (left H (recoverable J))" by (rule v_post) auto
  have cl: "valid (reached H B) (close ?mig) (\<lambda>_. reached H Q) (left H (recoverable J))" by (rule v_close) (use assms in auto)
  show "valid (reached H B) (completed_counts (j_db J)) (\<lambda>_. reached H Q) (left H (recoverable J))"
    "valid (reached H B) (copied_messages (j_db J)) (\<lambda>_. reached H Q) (left H (recoverable J))"
    unfolding completed_counts_def copied_messages_def
    by (auto intro!: valid_sbind [OF rd] valid_sthen [OF cl] v_ret)
qed

lemma v_disturb: "valid (reached H B) (disturb db) (\<lambda>_. reached H B) (left H R)"
  by (auto simp: valid_def disturb_def reached_def calm_def)

lemma v_attempts:
  assumes J: "job_ok J" and H: "H \<Longrightarrow> healthy J" and fp: "sp_fingerprint print = print_of (j_src J)"
  shows "valid (reached H (\<lambda>e. unswapped J (start_copy J start) e \<and> clean H (j_db J) e))
    (attempts (j_env J) (j_db J) (j_schema J) (Suc n) start print) (\<lambda>b. reached H (locked_state J H b)) (left H (recoverable J))"
proof -
  let ?db = "j_db J" and ?mig = "migrating_path (j_db J)"
  let ?K = "\<lambda>m. if start = Fresh then m = None else start_copy J start m"
  let ?B = "\<lambda>e. unswapped J ?K e \<and> clean H ?db e"
  let ?S = "\<lambda>counts e. case counts of None \<Rightarrow> built_state J H False e
    | Some None \<Rightarrow> unswapped J (readied J) e \<and> clean H ?db e
    | Some (Some _) \<Rightarrow> built_state J H True e"
  have rem: "valid (reached H (\<lambda>e. unswapped J (start_copy J start) e \<and> clean H ?db e))
      (if start = Fresh then remove_copy ?db else sret ()) (\<lambda>_. reached H ?B) (left H (recoverable J))"
    using v_remove_copy by (cases start) (auto intro!: v_ret)
  have bld: "valid (reached H ?B)
      (if start = Completed then sret (Some None)
       else sbind (build_or_full (j_env J) ?db (j_schema J) (start = Fresh) print) (\<lambda>counts. sret (map_option Some counts)))
      (\<lambda>counts. reached H (?S counts)) (left H (recoverable J))"
  proof (rule valid_if)
    assume "start \<noteq> Completed"
    then have "?K = (if start = Fresh then (\<lambda>m. m = None) else growing J)" by (cases start) (auto simp: fun_eq_iff)
    from v_build_or_full [OF v_build [OF J H fp this]]
    show "valid (reached H ?B) (sbind (build_or_full (j_env J) ?db (j_schema J) (start = Fresh) print)
        (\<lambda>counts. sret (map_option Some counts))) (\<lambda>counts. reached H (?S counts)) (left H (recoverable J))"
      by (rule valid_sbind) (auto intro!: v_ret split: option.splits)
  qed (auto intro!: v_ret)
  have again: "valid (reached H C) (read_source ?db (j_schema J)) (\<lambda>src. reached H (\<lambda>e. C e \<and> src = j_src J)) (left H (recoverable J))"
    if "\<And>e. C e \<Longrightarrow> recoverable J e" "\<And>e. C e \<Longrightarrow> e ?db = Some (j_inode J)" for C
    by (rule v_read_source [OF J]) (use that in auto)
  have tail: "valid (reached H C) (sthen (disturb ?db) (sbind (read_source ?db (j_schema J)) (\<lambda>src.
      let now = fingerprint (keys_of src) in
      if sp_fingerprint now = sp_fingerprint print then sbind m (\<lambda>counts. sret (Swappable counts (sp_messages print)))
      else attempts (j_env J) ?db (j_schema J) n Fresh now))) (\<lambda>b. reached H (locked_state J H b)) (left H (recoverable J))"
    if m: "valid (reached H C) m (\<lambda>_. reached H (locked_state J H (Swappable x y))) (left H (recoverable J))"
      and C: "\<And>e. C e \<Longrightarrow> recoverable J e" "\<And>e. C e \<Longrightarrow> e ?db = Some (j_inode J)" for C m x y
  proof (rule valid_sthen [OF v_disturb], rule valid_sbind)
    show "valid (reached H C) (read_source ?db (j_schema J)) (\<lambda>src. reached H (\<lambda>e. C e \<and> src = j_src J)) (left H (recoverable J))"
      by (rule again) (use C in auto)
    fix src
    have ok: "valid (reached H (\<lambda>e. C e \<and> src = j_src J)) (sbind m (\<lambda>counts. sret (Swappable counts (sp_messages print))))
        (\<lambda>b. reached H (locked_state J H b)) (left H (recoverable J))"
    proof (rule valid_sbind)
      show "valid (reached H (\<lambda>e. C e \<and> src = j_src J)) m (\<lambda>_. reached H (locked_state J H (Swappable x y))) (left H (recoverable J))"
        by (rule v_pre [OF m]) simp
    qed (auto intro!: v_ret)
    show "valid (reached H (\<lambda>e. C e \<and> src = j_src J)) (let now = fingerprint (keys_of src) in
      if sp_fingerprint now = sp_fingerprint print then sbind m (\<lambda>counts. sret (Swappable counts (sp_messages print)))
      else attempts (j_env J) ?db (j_schema J) n Fresh now) (\<lambda>b. reached H (locked_state J H b)) (left H (recoverable J))"
    proof (rule v_assume [where b = "src = j_src J"])
      assume "src = j_src J"
      then have "sp_fingerprint (fingerprint (keys_of src)) = sp_fingerprint print" by (simp add: fp print_of_def)
      then show ?thesis unfolding Let_def using ok by (simp only: if_True simp_thms)
    qed simp
  qed
  show ?thesis unfolding attempts.simps
  proof (rule valid_sthen [OF rem], rule valid_sbind [OF bld])
    fix counts :: "attachment_counts option option"
    show "valid (reached H (?S counts)) (case counts of
        None \<Rightarrow> sbind (copied_messages ?db) (\<lambda>migrated. sret (BuiltPaused migrated (sp_messages print)))
      | Some counts \<Rightarrow> sthen (disturb ?db) (sbind (read_source ?db (j_schema J)) (\<lambda>src.
          let now = fingerprint (keys_of src) in
          if sp_fingerprint now = sp_fingerprint print
          then sbind (case counts of Some c \<Rightarrow> sret c | None \<Rightarrow> completed_counts ?db)
                 (\<lambda>counts. sret (Swappable counts (sp_messages print)))
          else attempts (j_env J) ?db (j_schema J) n Fresh now)))
      (\<lambda>b. reached H (locked_state J H b)) (left H (recoverable J))"
    proof (cases counts)
      case None
      have "valid (reached H (built_state J H False)) (copied_messages ?db) (\<lambda>_. reached H (locked_state J H (BuiltPaused 0 0)))
          (left H (recoverable J))"
        by (rule v_counts(2)) (auto simp: built_state_def unswapped_def intro: growing_recoverable [unfolded unswapped_def])
      then show ?thesis by (simp add: None) (auto intro!: valid_sbind v_ret)
    next
      case (Some counts)
      note outer = Some
      show ?thesis
      proof (cases counts)
        case None
        have rec: "recoverable J e" if "unswapped J (readied J) e \<and> clean H ?db e" for e
          using that [THEN conjunct1] by (rule unswapped_recoverable) simp
        have "valid (reached H (\<lambda>e. unswapped J (readied J) e \<and> clean H ?db e)) (completed_counts ?db)
            (\<lambda>_. reached H (locked_state J H (Swappable undefined 0))) (left H (recoverable J))"
          by (rule v_counts(1)) (use rec in \<open>auto simp: unswapped_def clean_def [of False]\<close>)
        then show ?thesis unfolding Some None option.case
          by (rule tail) (use rec in \<open>auto simp: unswapped_def\<close>)
      next
        case (Some c)
        have "valid (reached H (built_state J H True)) (sret c) (\<lambda>_. reached H (locked_state J H (Swappable undefined 0)))
            (left H (recoverable J))"
          by (rule v_ret) (auto simp: built_state_def)
        then show ?thesis unfolding outer Some option.case
          by (rule tail) (erule built_recoverable, simp add: built_state_def unswapped_def)
      qed
    qed
  qed
qed

end
