(* ===== verification/Migrate_Safe.thy ===== *)
theory Migrate_Safe
  imports Migrate_Build
begin

text \<open>
  Every operation of a start keeps the files in one of the states of \<open>Migrate_Build\<close>, whatever
  fails: the swap, the lock of the source, the run, the inspection of the files, the completion
  of an interrupted swap. A start nothing goes wrong with ends with the copy swapped in.
\<close>

lemma v_disj:
  "valid (reached H B1) m Q Y \<Longrightarrow> valid (reached H B2) m Q Y \<Longrightarrow> valid (reached H (\<lambda>e. B1 e \<or> B2 e)) m Q Y"
  by (auto simp: valid_def reached_def)

lemma qualify_kept:
  assumes "made_here J c"
  shows "made_here J (qualify_origin (print_of (j_src J)) c)"
    and "cp_user_version (qualify_origin fp c) = cp_user_version c" and "whole J (qualify_origin fp c) = whole J c"
  using assms by (auto simp: made_here_def qualify_origin_def copied_def whole_def)

definition keeps_kind :: "job \<Rightarrow> (inode option \<Rightarrow> bool) \<Rightarrow> bool" where
  "keeps_kind J K \<longleftrightarrow>
     (\<forall>m. K m \<longrightarrow> (\<exists>i c. m = Some i \<and> i_file i = copy_file c
        \<and> (\<forall>i'. K (Some (i'\<lparr>i_file := copy_file (qualify_origin (print_of (j_src J)) c)\<rparr>)))))"

lemma kinds_kept: "keeps_kind J (growing J)" "keeps_kind J (readied J)"
proof -
  show "keeps_kind J (growing J)" unfolding keeps_kind_def
  proof (intro allI impI)
    fix m assume "growing J m"
    then obtain i c where c: "m = Some i" "i_file i = copy_file c" "made_here J c" "cp_user_version c = 0"
      by (auto simp: growing_def)
    then have "growing J (Some (i'\<lparr>i_file := copy_file (qualify_origin (print_of (j_src J)) c)\<rparr>))" for i' :: inode
      using qualify_kept [OF c(3)] by (auto simp: growing_def)
    with c show "\<exists>i c. m = Some i \<and> i_file i = copy_file c
        \<and> (\<forall>i'. growing J (Some (i'\<lparr>i_file := copy_file (qualify_origin (print_of (j_src J)) c)\<rparr>)))" by blast
  qed
  show "keeps_kind J (readied J)" unfolding keeps_kind_def
  proof (intro allI impI)
    fix m assume "readied J m"
    then obtain i c where c: "m = Some i" "i_file i = copy_file c" "made_here J c" "cp_user_version c = SCHEMA_VERSION" "whole J c"
      by (auto simp: readied_def)
    then have "readied J (Some (i'\<lparr>i_file := copy_file (qualify_origin (print_of (j_src J)) c)\<rparr>))" for i' :: inode
      using qualify_kept [OF c(3)] by (auto simp: readied_def)
    with c show "\<exists>i c. m = Some i \<and> i_file i = copy_file c
        \<and> (\<forall>i'. readied J (Some (i'\<lparr>i_file := copy_file (qualify_origin (print_of (j_src J)) c)\<rparr>)))" by blast
  qed
qed

lemma v_qualify:
  assumes K: "keeps_kind J K" "\<And>e. unswapped J K e \<Longrightarrow> recoverable J e"
  shows "valid (reached H (\<lambda>e. unswapped J K e \<and> clean H (j_db J) e)) (qualify_file (migrating_path (j_db J)) (print_of (j_src J)))
    (\<lambda>_. reached H (\<lambda>e. unswapped J K e \<and> clean H (j_db J) e)) (left H (recoverable J))"
  unfolding qualify_file_def
proof (rule valid_sbind)
  let ?mig = "migrating_path (j_db J)"
  let ?B = "\<lambda>e. unswapped J K e \<and> clean H (j_db J) e"
  show "valid (reached H ?B) (read_copy ?mig) (\<lambda>c. reached H (\<lambda>e. ?B e \<and> (\<exists>i. e ?mig = Some i \<and> i_file i = copy_file c))) (left H (recoverable J))"
  proof (rule v_read_copy)
    fix e assume "?B e"
    then have "K (e ?mig)" by (simp add: unswapped_def)
    then show "\<exists>i c. e ?mig = Some i \<and> i_file i = copy_file c" using K(1) unfolding keeps_kind_def by blast
  qed (use K(2) in blast)
  fix c
  let ?C = "\<lambda>e. ?B e \<and> (\<exists>i. e ?mig = Some i \<and> i_file i = copy_file c)"
  show "valid (reached H ?C) (sthen (write_file ?mig (copy_file (qualify_origin (print_of (j_src J)) c))) (close ?mig))
      (\<lambda>_. reached H ?B) (left H (recoverable J))"
  proof (rule valid_sthen)
    show "valid (reached H ?C) (write_file ?mig (copy_file (qualify_origin (print_of (j_src J)) c))) (\<lambda>_. reached H ?B) (left H (recoverable J))"
    proof (rule v_write)
      fix e n assume "?C e" "e ?mig = Some n"
      then have "K (Some n)" "i_file n = copy_file c" by (auto simp: unswapped_def)
      then have "K (Some (n\<lparr>i_file := copy_file (qualify_origin (print_of (j_src J)) c)\<rparr>))"
        using K(1) unfolding keeps_kind_def by (metis copy_file_inj option.inject)
      with \<open>?C e\<close> show "?B (e(?mig := Some (n\<lparr>i_file := copy_file (qualify_origin (print_of (j_src J)) c)\<rparr>)))"
        by (simp add: unswapped_def)
    qed (use K(2) in auto)
    show "valid (reached H ?B) (close ?mig) (\<lambda>_. reached H ?B) (left H (recoverable J))"
      by (rule v_close) (use K(2) in auto)
  qed
qed

text \<open>What \<open>inspect_copy\<close> answers of the entry.\<close>

definition seen_copy :: "inode option \<Rightarrow> copy_state" where
  "seen_copy m = (case m of None \<Rightarrow> CopyAbsent | Some i \<Rightarrow> copy_state_of (i_file i))"

definition resumable :: "job \<Rightarrow> copy_state \<Rightarrow> origin option" where
  "resumable J copy =
     (case resumable_origin copy (j_schema J) of
        Some org \<Rightarrow> if made_from org (print_of (j_src J)) then Some org else None
      | None \<Rightarrow> None)"

lemma seen_kinds:
  "growing J m \<Longrightarrow> start_of (seen_copy m) (resumable J (seen_copy m) \<noteq> None) = Resume"
  "readied J m \<Longrightarrow> start_of (seen_copy m) (resumable J (seen_copy m) \<noteq> None) = Completed"
  "foreign J m \<Longrightarrow> resumable J (seen_copy m) = None \<and> start_of (seen_copy m) False = Fresh"
proof -
  show "start_of (seen_copy m) (resumable J (seen_copy m) \<noteq> None) = Resume" if g: "growing J m"
  proof -
    obtain i where i: "m = Some i" using g by (auto simp: growing_def)
    with g growing_state [of J i] obtain c where "made_here J c"
      "copy_state_of (i_file i) = Incomplete (Some (cp_origin c))"
      "resumable_origin (copy_state_of (i_file i)) (j_schema J) = Some (cp_origin c)" by blast
    then show ?thesis using made_here_made_from [of J c] i by (simp add: seen_copy_def resumable_def start_of_def)
  qed
  show "start_of (seen_copy m) (resumable J (seen_copy m) \<noteq> None) = Completed" if r: "readied J m"
  proof -
    obtain i where i: "m = Some i" using r by (auto simp: readied_def)
    with r readied_state [of J i] obtain c where "made_here J c"
      "copy_state_of (i_file i) = Complete SCHEMA_VERSION (Some (cp_origin c))"
      "resumable_origin (copy_state_of (i_file i)) (j_schema J) = Some (cp_origin c)" by blast
    then show ?thesis using made_here_made_from [of J c] i by (simp add: seen_copy_def resumable_def start_of_def)
  qed
  show "resumable J (seen_copy m) = None \<and> start_of (seen_copy m) False = Fresh" if "foreign J m"
    using that by (auto simp: foreign_def seen_copy_def resumable_def start_of_def resumable_origin_def
        split: option.splits copy_state.splits)
qed

lemma v_build_locked:
  assumes J: "job_ok J" and H: "H \<Longrightarrow> healthy J"
  shows "valid (reached H (\<lambda>e. unswapped J (any_copy J) e \<and> clean H (j_db J) e
      \<and> copy = seen_copy (e (migrating_path (j_db J)))))
    (build_locked (j_env J) (j_db J) (j_schema J) copy) (\<lambda>b. reached H (locked_state J H b)) (left H (recoverable J))"
proof -
  let ?db = "j_db J" and ?mig = "migrating_path (j_db J)" and ?fp = "print_of (j_src J)"
  let ?see = "\<lambda>e. copy = seen_copy (e ?mig)"
  let ?B = "\<lambda>K e. unswapped J K e \<and> clean H ?db e"
  define print where "print = fingerprint (keys_of (j_src J))"
  have fp: "sp_fingerprint print = ?fp" by (simp add: print_def print_of_def)
  let ?tail = "\<lambda>print. let resumable = (case resumable_origin copy (j_schema J) of
            Some org \<Rightarrow> if made_from org (sp_fingerprint print) then Some org else None | None \<Rightarrow> None);
         bare = (case resumable of Some org \<Rightarrow> or_fingerprint org = sp_fingerprint print | None \<Rightarrow> False)
     in sthen (if bare then qualify_file ?mig (sp_fingerprint print) else sret ())
          (attempts (j_env J) ?db (j_schema J) MAX_BUILD_ATTEMPTS (start_of copy (resumable \<noteq> None)) print)"
  have max: "MAX_BUILD_ATTEMPTS = Suc 1" by (simp add: MAX_BUILD_ATTEMPTS_def)
  have one: "valid (reached H (\<lambda>e. ?B K e \<and> ?see e)) (?tail print) (\<lambda>b. reached H (locked_state J H b)) (left H (recoverable J))"
    if K: "\<And>m m'. K m \<Longrightarrow> K m' \<Longrightarrow> start_copy J (start_of (seen_copy m) (resumable J (seen_copy m) \<noteq> None)) m'"
      "keeps_kind J K \<or> (\<forall>m. K m \<longrightarrow> resumable J (seen_copy m) = None)" "\<And>e. unswapped J K e \<Longrightarrow> recoverable J e" for K
  proof (rule v_assume [where b = "\<exists>m. K m \<and> copy = seen_copy m"])
    assume "\<exists>m. K m \<and> copy = seen_copy m"
    then obtain m where m: "K m" "copy = seen_copy m" by blast
    let ?bare = "case resumable J copy of Some org \<Rightarrow> or_fingerprint org = ?fp | None \<Rightarrow> False"
    have "valid (reached H (?B K)) (if ?bare then qualify_file ?mig ?fp else sret ()) (\<lambda>_. reached H (?B K)) (left H (recoverable J))"
    proof (rule valid_if)
      assume ?bare
      then have "keeps_kind J K" using K(2) m by (auto split: option.splits)
      then show "valid (reached H (?B K)) (qualify_file ?mig ?fp) (\<lambda>_. reached H (?B K)) (left H (recoverable J))"
        by (rule v_qualify) (rule K(3))
    qed (auto intro!: v_ret)
    moreover have "valid (reached H (?B K)) (attempts (j_env J) ?db (j_schema J) MAX_BUILD_ATTEMPTS
        (start_of copy (resumable J copy \<noteq> None)) print) (\<lambda>b. reached H (locked_state J H b)) (left H (recoverable J))"
      unfolding max
    proof (rule v_pre [OF v_attempts [OF J H fp]])
      fix e assume "?B K e"
      then show "?B (start_copy J (start_of copy (resumable J copy \<noteq> None))) e"
        using K(1) [OF m(1)] m(2) by (simp add: unswapped_def)
    qed
    ultimately have "valid (reached H (?B K)) (?tail print) (\<lambda>b. reached H (locked_state J H b)) (left H (recoverable J))"
      unfolding Let_def fp resumable_def [of J copy, symmetric] by (rule valid_sthen)
    then show ?thesis by (rule v_pre) simp
  qed (auto simp: unswapped_def)
  have "valid (reached H (\<lambda>e. (?B (growing J) e \<and> ?see e) \<or> (?B (readied J) e \<and> ?see e) \<or> (?B (foreign J) e \<and> ?see e)))
      (?tail print) (\<lambda>b. reached H (locked_state J H b)) (left H (recoverable J))"
  proof (intro v_disj one)
    show "keeps_kind J (growing J) \<or> (\<forall>m. growing J m \<longrightarrow> resumable J (seen_copy m) = None)"
      "keeps_kind J (readied J) \<or> (\<forall>m. readied J m \<longrightarrow> resumable J (seen_copy m) = None)"
      by (simp_all add: kinds_kept)
  qed (auto simp: seen_kinds any_copy_def simp del: not_None_eq elim: unswapped_recoverable)
  then have tail: "valid (reached H (\<lambda>e. ?B (any_copy J) e \<and> ?see e)) (?tail print) (\<lambda>b. reached H (locked_state J H b)) (left H (recoverable J))"
    by (rule v_pre) (auto simp: unswapped_def any_copy_def)
  have rec: "recoverable J e" if "?B (any_copy J) e \<and> ?see e" for e using that any_recoverable by blast
  show ?thesis unfolding build_locked_def
  proof (rule valid_sbind)
    show "valid (reached H (\<lambda>e. unswapped J (any_copy J) e \<and> clean H ?db e \<and> ?see e)) (read_source ?db (j_schema J))
        (\<lambda>src. reached H (\<lambda>e. (?B (any_copy J) e \<and> ?see e) \<and> src = j_src J)) (left H (recoverable J))"
      unfolding conj_assoc [symmetric] by (rule v_read_source [OF J]) (use rec in \<open>auto simp: unswapped_def\<close>)
    fix src
    have len: "valid (reached H (\<lambda>e. ?B (any_copy J) e \<and> ?see e)) (file_len ?db) (\<lambda>_. reached H (\<lambda>e. ?B (any_copy J) e \<and> ?see e))
        (left H (recoverable J))"
      by (rule v_len) (use rec in auto)
    show "valid (reached H (\<lambda>e. (?B (any_copy J) e \<and> ?see e) \<and> src = j_src J))
        (let print = fingerprint (keys_of src) in sbind (file_len ?db) (\<lambda>_. ?tail print))
        (\<lambda>b. reached H (locked_state J H b)) (left H (recoverable J))"
    proof (rule v_assume [where b = "src = j_src J"])
      assume "src = j_src J"
      then show ?thesis unfolding Let_def [of "fingerprint (keys_of src)"]
        by (simp only: print_def [symmetric]) (rule v_pre [OF valid_sbind [OF len tail]], simp)
    qed simp
  qed
qed
section \<open>The swap\<close>

lemma recoverable_closed [simp]:
  "recoverable J e \<Longrightarrow> recoverable J (closed (j_db J) e)"
  "recoverable J e \<Longrightarrow> recoverable J (closed (migrating_path (j_db J)) e)"
  "recoverable J e \<Longrightarrow> recoverable J (closed (backup (j_db J) (j_schema J)) e)"
  by (auto simp: recoverable_def unswapped_def between_def swapped_def)

lemma v_refuse_open:
  assumes "\<And>e. B e \<Longrightarrow> R e" "\<And>e. B e \<Longrightarrow> clean H p e \<and> clean H q e"
  shows "valid (reached H B) (refuse_open_files db [p, q]) (\<lambda>_. reached H B) (left H R)"
  unfolding refuse_open_files_def
  by (rule v_refuse_each) (use assms in \<open>auto simp: clean_def dest: assms(2)\<close>)

lemma v_swap:
  "valid (reached H (locked_state J H (Swappable counts n))) (swap (j_db J) (j_schema J)) (\<lambda>_. reached H (swapped J)) (left H (recoverable J))"
proof -
  let ?db = "j_db J" and ?mig = "migrating_path (j_db J)" and ?bak = "backup (j_db J) (j_schema J)"
  let ?B = "locked_state J H (Swappable counts n)"
  have open_files: "valid (reached H ?B) (refuse_open_files ?db [?db, ?mig]) (\<lambda>_. reached H ?B) (left H (recoverable J))"
    by (rule v_refuse_open) (auto intro: locked_recoverable [of J H "Swappable counts n"])
  have there: "valid (reached H ?B) (exists_path ?bak) (\<lambda>r. reached H (\<lambda>e. ?B e \<and> \<not> r)) (left H (recoverable J))"
    by (rule v_exists) (use locked_recoverable in \<open>blast, simp add: unswapped_def\<close>)
  have first: "valid (reached H ?B) (rename ?db ?bak) (\<lambda>_. reached H (between J)) (left H (recoverable J))"
    by (rule v_rename) (use locked_recoverable in \<open>blast, auto simp: unswapped_def between_def\<close>)
  have second: "valid (reached H (between J)) (rename ?mig ?db) (\<lambda>_. reached H (swapped J)) (left H (recoverable J))"
    by (rule v_rename) (auto simp: recoverable_def between_def swapped_def readied_def)
  have sync: "valid (reached H (swapped J)) (sync_parent ?db) (\<lambda>_. reached H (swapped J)) (left H (recoverable J))"
    by (rule v_sync) (auto simp: recoverable_def)
  have "valid (reached H (\<lambda>e. ?B e \<and> \<not> r))
      (if r then sfail (MigrationRefused (AmbiguousBackup ?db (version (j_schema J)) ?bak (Some ?mig)))
       else sthen (rename ?db ?bak) (sthen (rename ?mig ?db) (sync_parent ?db))) (\<lambda>_. reached H (swapped J)) (left H (recoverable J))" for r
  proof (rule v_assume [where b = "\<not> r"])
    assume "\<not> r"
    then show ?thesis using v_pre [OF valid_sthen [OF first valid_sthen [OF second sync]]] by (simp only: if_False simp_thms)
  qed simp
  then show ?thesis unfolding swap_def by (intro valid_sthen [OF open_files] valid_sbind [OF there])
qed

section \<open>The source's lock\<close>

lemma v_release:
  assumes "\<And>e. B e \<Longrightarrow> R e" "\<And>e. B e \<Longrightarrow> B (closed db e)"
  shows "valid (reached H B) (release db) (\<lambda>_. reached H B) (left H R)"
  unfolding release_def by (rule valid_sthen [OF v_noop [where Q = B] v_close]) (use assms in auto)

lemma v_lock_source:
  assumes "\<And>e. B e \<Longrightarrow> R e" "\<And>e. B e \<Longrightarrow> e db \<noteq> None" "\<And>e. B e \<Longrightarrow> B (closed db e)"
  shows "valid (reached H B) (lock_source db) (\<lambda>_. reached H B) (left H R)"
  unfolding lock_source_def
proof (rule valid_sthen)
  show "valid (reached H B) (connect db) (\<lambda>_. reached H B) (left H R)" by (rule v_connect) (use assms in auto)
  have start: "valid (reached H B) (fsop (\<lambda>w. Inr ((), w))) (\<lambda>_. reached H B) (left H B)" by (rule v_noop)
  have fail: "valid (reached False B) (sthen (close db) (sfail err)) (\<lambda>_ _. False) (left False R)" for err
    by (rule valid_sthen [OF v_close [where Q = R]]) (use assms in \<open>auto intro!: v_fail\<close>)
  show "valid (reached H B) (\<lambda>w. case fsop (\<lambda>w. Inr ((), w)) w of
      (Inl e, w') \<Rightarrow> sthen (close db) (sfail e) w' | (Inr x, b) \<Rightarrow> (Inr x, b)) (\<lambda>_. reached H B) (left H R)"
    unfolding valid_def
  proof (intro allI impI)
    fix w assume "reached H B w"
    with start have b: "case fsop (\<lambda>w. Inr ((), w)) w of (Inr a, w') \<Rightarrow> reached H B w' | (Inl e, w') \<Rightarrow> left H B w'"
      by (simp add: valid_def)
    obtain r w' where w': "fsop (\<lambda>w. Inr ((), w)) w = (r, w')" by fastforce
    show "case case fsop (\<lambda>w. Inr ((), w)) w of
        (Inl e, w') \<Rightarrow> sthen (close db) (sfail e) w' | (Inr x, b) \<Rightarrow> (Inr x, b) of
        (Inl e, s') \<Rightarrow> left H R s' | (Inr a, x) \<Rightarrow> reached H B x"
    proof (cases r)
      case (Inl e)
      then have "reached False B w'" "\<not> H" using b w' by (simp_all add: left_calm)
      then show ?thesis using fail [of e] Inl w'
        by (auto simp: valid_def left_def split: sum.splits prod.splits)
    qed (use b w' in simp)
  qed
qed
section \<open>A run\<close>

fun finished_state :: "job \<Rightarrow> bool \<Rightarrow> preparation \<Rightarrow> files \<Rightarrow> bool" where
  "finished_state J H (Ready _) e \<longleftrightarrow> swapped J e"
| "finished_state J H (PausedAt _ _) e \<longleftrightarrow> unswapped J (growing J) e \<and> \<not> H"

lemma locked_closed: "locked_state J H b e \<Longrightarrow> locked_state J H b (closed (j_db J) e)"
  by (cases b) auto

lemma v_run_migration:
  assumes J: "job_ok J" and H: "H \<Longrightarrow> healthy J"
  shows "valid (reached H (\<lambda>e. unswapped J (any_copy J) e \<and> clean H (j_db J) e
      \<and> copy = seen_copy (e (migrating_path (j_db J)))))
    (run_migration (j_env J) (j_db J) (j_schema J) copy) (\<lambda>p. reached H (finished_state J H p)) (left H (recoverable J))"
  unfolding run_migration_def
proof (rule valid_sthen)
  let ?db = "j_db J"
  let ?B = "\<lambda>e. unswapped J (any_copy J) e \<and> clean H ?db e \<and> copy = seen_copy (e (migrating_path ?db))"
  show "valid (reached H ?B) (lock_source ?db) (\<lambda>_. reached H ?B) (left H (recoverable J))"
    by (rule v_lock_source) (auto intro: any_recoverable simp: unswapped_def)
  have bld: "valid (reached H ?B) (build_locked (j_env J) ?db (j_schema J) copy) (\<lambda>b. reached H (locked_state J H b)) (left H (recoverable J))"
    by (rule v_build_locked [OF J H])
  have rel: "valid (reached H (locked_state J H b)) (release ?db) (\<lambda>_. reached H (locked_state J H b)) (left H (recoverable J))" for b
    by (rule v_release) (auto intro: locked_recoverable locked_closed)
  have rel': "valid (reached False (recoverable J)) (release ?db) (\<lambda>_. reached False (recoverable J)) (left False (recoverable J))"
    by (rule v_release) auto
  have sw: "valid (reached H (locked_state J H (Swappable counts n))) (sthen (swap ?db (j_schema J)) (sret (Ready r)))
      (\<lambda>p. reached H (finished_state J H p)) (left H (recoverable J))" for counts n r
    by (rule valid_sthen [OF v_swap]) (auto intro: v_ret)
  show "valid (reached H ?B) (\<lambda>w. let (built, w1) = build_locked (j_env J) ?db (j_schema J) copy w; (released, w2) = release ?db w1
      in case built of Inl e \<Rightarrow> (Inl e, w2)
         | Inr b \<Rightarrow> (case released of Inl e \<Rightarrow> (Inl e, w2)
            | Inr _ \<Rightarrow> (case b of
                Swappable counts n \<Rightarrow> sthen (swap ?db (j_schema J))
                  (sret (Ready (Some \<lparr>mr_messages = n, mr_counts = counts, mr_backup_path = backup ?db (j_schema J)\<rparr>))) w2
              | BuiltPaused migrated tot \<Rightarrow> (Inr (PausedAt migrated tot), w2))))
      (\<lambda>p. reached H (finished_state J H p)) (left H (recoverable J))"
    unfolding valid_def
  proof (intro allI impI)
    fix w assume w: "reached H ?B w"
    obtain built w1 where b: "build_locked (j_env J) ?db (j_schema J) copy w = (built, w1)" by fastforce
    obtain released w2 where r: "release ?db w1 = (released, w2)" by fastforce
    have w1: "case built of Inr a \<Rightarrow> reached H (locked_state J H a) w1 | Inl e \<Rightarrow> left H (recoverable J) w1"
      using bld w b unfolding valid_def by (force split: sum.splits)
    have fail: "left H (recoverable J) w2" if "built = Inl e" for e
    proof -
      have x: "reached False (recoverable J) w1" "\<not> H" using w1 that by (simp_all add: left_calm)
      then have "reached False (recoverable J) w2" using rel' r unfolding valid_def
        by (cases released) (force simp: left_calm)+
      with x(2) show ?thesis by (simp add: left_calm)
    qed
    have ok: "case released of Inr _ \<Rightarrow> reached H (locked_state J H a) w2 | Inl e \<Rightarrow> left H (recoverable J) w2" if "built = Inr a" for a
      using rel [of a] w1 that r unfolding valid_def by (force split: sum.splits)
    have last: "case sthen (swap ?db (j_schema J)) (sret (Ready x)) w2 of
        (Inr p, s) \<Rightarrow> reached H (finished_state J H p) s | (Inl e, s) \<Rightarrow> left H (recoverable J) s"
      if "reached H (locked_state J H (Swappable counts n)) w2" for counts n x
      by (rule validD [OF sw that])
    show "case let (built, w1) = build_locked (j_env J) ?db (j_schema J) copy w; (released, w2) = release ?db w1
      in case built of Inl e \<Rightarrow> (Inl e, w2)
         | Inr b \<Rightarrow> (case released of Inl e \<Rightarrow> (Inl e, w2)
            | Inr _ \<Rightarrow> (case b of
                Swappable counts n \<Rightarrow> sthen (swap ?db (j_schema J))
                  (sret (Ready (Some \<lparr>mr_messages = n, mr_counts = counts, mr_backup_path = backup ?db (j_schema J)\<rparr>))) w2
              | BuiltPaused migrated tot \<Rightarrow> (Inr (PausedAt migrated tot), w2))) of
      (Inl e, s') \<Rightarrow> left H (recoverable J) s' | (Inr a, s') \<Rightarrow> reached H (finished_state J H a) s'"
      unfolding b r Let_def prod.case
    proof (cases built)
      case (Inr a)
      note built = this
      show "case case built of Inl e \<Rightarrow> (Inl e, w2) | Inr b \<Rightarrow> (case released of Inl e \<Rightarrow> (Inl e, w2)
            | Inr _ \<Rightarrow> (case b of
                Swappable counts n \<Rightarrow> sthen (swap ?db (j_schema J))
                  (sret (Ready (Some \<lparr>mr_messages = n, mr_counts = counts, mr_backup_path = backup ?db (j_schema J)\<rparr>))) w2
              | BuiltPaused migrated tot \<Rightarrow> (Inr (PausedAt migrated tot), w2))) of
          (Inl e, s') \<Rightarrow> left H (recoverable J) s' | (Inr a, s') \<Rightarrow> reached H (finished_state J H a) s'"
      proof (cases released)
        case (Inr u)
        then have "reached H (locked_state J H a) w2" using ok [OF built] by simp
        moreover have "locked_state J H (BuiltPaused x y) = finished_state J H (PausedAt x y)" for x y
          by (simp add: fun_eq_iff)
        ultimately show ?thesis unfolding built Inr using last
          by (cases a) (simp_all only: sum.case prod.case built.case)
      qed (use ok [OF built] built in simp)
    qed (use fail in simp)
  qed
qed
section \<open>Inspecting the files\<close>

lemma v_inspect_db:
  assumes "\<And>e. B e \<Longrightarrow> R e" "\<And>e. B e \<Longrightarrow> e p = None \<Longrightarrow> Q Absent e"
    and "\<And>e n. B e \<Longrightarrow> e p = Some n \<Longrightarrow>
      \<exists>fs. probe p (i_file n) = Inr fs \<and> Q (db_state_of fs) (closed p e) \<and> (\<not> H \<longrightarrow> Q (db_state_of fs) e)"
  shows "valid (reached H B) (inspect_db p) (\<lambda>d. reached H (Q d)) (left H R)"
  unfolding inspect_db_def
proof (rule valid_sbind)
  show "valid (reached H B) (exists_path p) (\<lambda>there. reached H (\<lambda>e. B e \<and> (there \<longleftrightarrow> e p \<noteq> None))) (left H R)"
    by (rule v_exists) (use assms(1) in auto)
  let ?C = "\<lambda>f e. \<exists>fs. probe p f = Inr fs \<and> Q (db_state_of fs) e"
  let ?open = "sbind (connect p) (\<lambda>f. sthen (close p)
      (case probe p f of Inl e \<Rightarrow> sfail e | Inr schema \<Rightarrow> sret (db_state_of schema)))"
  have con: "valid (reached H (\<lambda>e. B e \<and> e p \<noteq> None)) (connect p) (\<lambda>f. reached H (\<lambda>e. B e \<and> (\<exists>n. e p = Some n \<and> f = i_file n))) (left H R)"
    by (rule v_connect) (use assms(1) in auto)
  have cls: "valid (reached H (\<lambda>e. B e \<and> (\<exists>n. e p = Some n \<and> f = i_file n))) (close p) (\<lambda>_. reached H (?C f)) (left H R)" for f
    by (rule v_close) (use assms(1,3) in \<open>blast+\<close>)
  have ans: "valid (reached H (?C f)) (case probe p f of Inl e \<Rightarrow> sfail e | Inr schema \<Rightarrow> sret (db_state_of schema))
      (\<lambda>d. reached H (Q d)) (left H R)" for f
    by (cases "probe p f") (auto intro!: v_ret v_fail)
  have there: "valid (reached H (\<lambda>e. B e \<and> e p \<noteq> None)) ?open (\<lambda>d. reached H (Q d)) (left H R)"
    by (rule valid_sbind [OF con valid_sthen [OF cls ans]])
  show "valid (reached H (\<lambda>e. B e \<and> (there \<longleftrightarrow> e p \<noteq> None))) (if \<not> there then sret Absent else ?open)
      (\<lambda>d. reached H (Q d)) (left H R)" for there
  proof (rule valid_if)
    assume "\<not> there"
    then show "valid (reached H (\<lambda>e. B e \<and> (there \<longleftrightarrow> e p \<noteq> None))) (sret Absent) (\<lambda>d. reached H (Q d)) (left H R)"
      by (intro v_ret) (use assms(2) in auto)
  next
    assume "\<not> \<not> there"
    then show "valid (reached H (\<lambda>e. B e \<and> (there \<longleftrightarrow> e p \<noteq> None))) ?open (\<lambda>d. reached H (Q d)) (left H R)"
      by (intro v_pre [OF there]) auto
  qed
qed

lemma v_inspect_copy:
  assumes "\<And>e. B e \<Longrightarrow> R e" "\<And>e. B e \<Longrightarrow> (e p = None \<or> \<not> H) \<Longrightarrow> Q (seen_copy (e p)) e"
    and "\<And>e. B e \<Longrightarrow> e p \<noteq> None \<Longrightarrow> Q (seen_copy (e p)) (closed p e)"
  shows "valid (reached H B) (inspect_copy p) (\<lambda>copy. reached H (Q copy)) (left H R)"
  unfolding inspect_copy_def
proof (rule valid_sbind)
  show "valid (reached H B) (exists_path p) (\<lambda>there. reached H (\<lambda>e. B e \<and> (there \<longleftrightarrow> e p \<noteq> None))) (left H R)"
    by (rule v_exists) (use assms(1) in auto)
  let ?open = "sbind (connect p) (\<lambda>f. sthen (close p) (sret (copy_state_of f)))"
  have con: "valid (reached H (\<lambda>e. B e \<and> e p \<noteq> None)) (connect p)
      (\<lambda>f. reached H (\<lambda>e. B e \<and> e p \<noteq> None \<and> seen_copy (e p) = copy_state_of f)) (left H R)"
    by (rule v_connect) (use assms(1) in \<open>auto simp: seen_copy_def\<close>)
  have cls: "valid (reached H (\<lambda>e. B e \<and> e p \<noteq> None \<and> seen_copy (e p) = copy_state_of f)) (close p)
      (\<lambda>_. reached H (Q (copy_state_of f))) (left H R)" for f
    by (rule v_close) (use assms in metis)+
  have there: "valid (reached H (\<lambda>e. B e \<and> e p \<noteq> None)) ?open (\<lambda>copy. reached H (Q copy)) (left H R)"
    by (rule valid_sbind [OF con valid_sthen [OF cls]]) (rule v_ret)
  show "valid (reached H (\<lambda>e. B e \<and> (there \<longleftrightarrow> e p \<noteq> None))) (if \<not> there then sret CopyAbsent else ?open)
      (\<lambda>copy. reached H (Q copy)) (left H R)" for there
  proof (rule valid_if)
    assume "\<not> there"
    then show "valid (reached H (\<lambda>e. B e \<and> (there \<longleftrightarrow> e p \<noteq> None))) (sret CopyAbsent) (\<lambda>copy. reached H (Q copy)) (left H R)"
      by (intro v_ret) (use assms(2) seen_copy_def [of None] in \<open>metis option.case(1)\<close>)
  next
    assume "\<not> \<not> there"
    then show "valid (reached H (\<lambda>e. B e \<and> (there \<longleftrightarrow> e p \<noteq> None))) ?open (\<lambda>copy. reached H (Q copy)) (left H R)"
      by (intro v_pre [OF there]) auto
  qed
qed

lemma v_fingerprint_of:
  assumes "job_ok J" "\<And>e. B e \<Longrightarrow> R e" "\<And>e. B e \<Longrightarrow> e p = Some (j_inode J)"
    and "\<And>e. B e \<Longrightarrow> \<not> H \<Longrightarrow> Q e" "\<And>e. B e \<Longrightarrow> Q (closed p e)"
  shows "valid (reached H B) (fingerprint_of p (j_schema J)) (\<lambda>print. reached H (\<lambda>e. Q e \<and> print = print_of (j_src J))) (left H R)"
proof -
  have con: "valid (reached H B) (connect p) (\<lambda>f. reached H (\<lambda>e. B e \<and> f = i_file (j_inode J))) (left H R)"
    by (rule v_connect) (use assms(2,3) in fastforce)+
  have cls: "valid (reached H (\<lambda>e. B e \<and> f = i_file (j_inode J))) (close p) (\<lambda>_. reached H (\<lambda>e. Q e \<and> f = i_file (j_inode J))) (left H R)" for f
    by (rule v_close) (use assms in auto)
  have "valid (reached H (\<lambda>e. Q e \<and> f = i_file (j_inode J)))
      (case rows_in (j_schema J) f of None \<Rightarrow> sfail no_such_table | Some src \<Rightarrow> sret (print_of src))
      (\<lambda>print. reached H (\<lambda>e. Q e \<and> print = print_of (j_src J))) (left H R)" for f
    by (rule v_assume [where b = "f = i_file (j_inode J)"]) (use assms(1) in \<open>auto simp: job_ok_def intro!: v_ret\<close>)
  then show ?thesis unfolding fingerprint_of_def by (intro valid_sbind [OF con] valid_sthen [OF cls])
qed
section \<open>A start\<close>

lemma v_finish:
  assumes J: "job_ok J" and org: "from_version (or_source_schema org) = Some (j_schema J)" "made_from org (print_of (j_src J))"
  shows "valid (reached H (\<lambda>e. between J e \<and> clean H (migrating_path (j_db J)) e)) (finish_interrupted_swap (j_db J) org)
    (\<lambda>_. reached H (swapped J)) (left H (recoverable J))"
proof -
  let ?db = "j_db J" and ?mig = "migrating_path (j_db J)" and ?bak = "backup (j_db J) (j_schema J)"
  let ?B = "\<lambda>e. between J e \<and> clean H ?mig e" and ?C = "\<lambda>e. between J e \<and> clean H ?mig e \<and> clean H ?bak e"
  have rec: "between J e \<Longrightarrow> recoverable J e" "swapped J e \<Longrightarrow> recoverable J e" for e by (simp_all add: recoverable_def)
  have there: "valid (reached H ?B) (exists_path ?bak) (\<lambda>there. reached H (\<lambda>e. ?B e \<and> there)) (left H (recoverable J))"
    by (rule v_exists) (use rec in \<open>auto simp: between_def\<close>)
  have print: "valid (reached H (\<lambda>e. ?B e \<and> there)) (fingerprint_of ?bak (j_schema J))
      (\<lambda>print. reached H (\<lambda>e. ?C e \<and> print = print_of (j_src J))) (left H (recoverable J))" for there
    by (rule v_fingerprint_of [OF J]) (use rec in \<open>auto simp: between_def clean_def [of False]\<close>)
  have unused: "valid (reached H ?C) (refuse_open_files ?db [?bak, ?mig]) (\<lambda>_. reached H (between J)) (left H (recoverable J))"
    by (rule v_post [OF v_refuse_open]) (use rec in auto)
  have move: "valid (reached H (between J)) (rename ?mig ?db) (\<lambda>_. reached H (swapped J)) (left H (recoverable J))"
    by (rule v_rename) (use rec in \<open>auto simp: between_def swapped_def readied_def\<close>)
  have sync: "valid (reached H (swapped J)) (sync_parent ?db) (\<lambda>_. reached H (swapped J)) (left H (recoverable J))"
    by (rule v_sync) (use rec in auto)
  let ?changed = "MigrationRefused (BackupChanged ?db ?bak ?mig)"
  let ?move = "sthen (refuse_open_files ?db [?bak, ?mig]) (sthen (rename ?mig ?db) (sync_parent ?db))"
  have made: "valid (reached H (\<lambda>e. ?C e \<and> print = print_of (j_src J))) (if \<not> made_from org print then sfail ?changed else ?move)
      (\<lambda>_. reached H (swapped J)) (left H (recoverable J))" for print
  proof (rule v_assume [where b = "print = print_of (j_src J)"])
    assume "print = print_of (j_src J)"
    then show ?thesis using v_pre [OF valid_sthen [OF unused valid_sthen [OF move sync]]] org(2) by simp
  qed simp
  have "valid (reached H (\<lambda>e. ?B e \<and> there)) (if \<not> there then sfail ?changed
      else sbind (fingerprint_of ?bak (j_schema J)) (\<lambda>print. if \<not> made_from org print then sfail ?changed else ?move))
      (\<lambda>_. reached H (swapped J)) (left H (recoverable J))" for there
  proof (rule v_assume [where b = there])
    assume there
    then show ?thesis using valid_sbind [OF print made, of there] by (simp only: simp_thms if_False)
  qed simp
  then show ?thesis unfolding finish_interrupted_swap_def org(1) option.case Let_def by (intro valid_sbind [OF there])
qed

fun round_state :: "job \<Rightarrow> bool \<Rightarrow> preparation option \<Rightarrow> files \<Rightarrow> bool" where
  "round_state J H (Some p) = finished_state J H p"
| "round_state J H None = swapped J"

lemma older_probe:
  "job_ok J \<Longrightarrow> e (j_db J) = Some (j_inode J) \<Longrightarrow>
     \<exists>fs. probe (j_db J) (i_file (j_inode J)) = Inr fs \<and> db_state_of fs = Older (j_schema J)"
  by (simp add: job_ok_def)

lemma v_round_unswapped:
  assumes J: "job_ok J" and H: "H \<Longrightarrow> healthy J"
  shows "valid (reached H (unswapped J (any_copy J))) (prepare_round (j_env J) (j_db J))
    (\<lambda>r. reached H (round_state J H r)) (left H (recoverable J))"
proof -
  let ?db = "j_db J" and ?mig = "migrating_path (j_db J)" and ?bak = "backup (j_db J) (j_schema J)"
  let ?B = "\<lambda>e. unswapped J (any_copy J) e \<and> clean H ?db e"
  let ?C = "\<lambda>copy e. unswapped J (any_copy J) e \<and> clean H ?db e \<and> copy = seen_copy (e ?mig)"
  have db: "valid (reached H (unswapped J (any_copy J))) (inspect_db ?db) (\<lambda>d. reached H (\<lambda>e. ?B e \<and> d = Older (j_schema J))) (left H (recoverable J))"
    by (rule v_inspect_db)
      (use older_probe [OF J] any_recoverable in \<open>auto simp: unswapped_def clean_def [of False], blast?\<close>)
  have copy: "valid (reached H (\<lambda>e. ?B e \<and> d = Older (j_schema J))) (inspect_copy ?mig)
      (\<lambda>copy. reached H (\<lambda>e. ?C copy e \<and> d = Older (j_schema J))) (left H (recoverable J))" for d
    by (rule v_inspect_copy) (use any_recoverable in auto)
  have there: "valid (reached H (?C copy)) (exists_path ?bak) (\<lambda>there. reached H (\<lambda>e. ?C copy e \<and> \<not> there)) (left H (recoverable J))" for copy
    by (rule v_exists) (use any_recoverable in \<open>auto simp: unswapped_def\<close>)
  have run: "valid (reached H (?C copy)) (sbind (run_migration (j_env J) ?db (j_schema J) copy) (\<lambda>p. sret (Some p)))
      (\<lambda>r. reached H (round_state J H r)) (left H (recoverable J))" for copy
    by (rule valid_sbind [OF v_run_migration [OF J H]]) (auto intro!: v_ret)
  have free: "valid (reached H (\<lambda>e. ?C copy e \<and> \<not> there)) (if there then sfail err
      else sbind (run_migration (j_env J) ?db (j_schema J) copy) (\<lambda>p. sret (Some p)))
      (\<lambda>r. reached H (round_state J H r)) (left H (recoverable J))" for copy there err
  proof (rule v_assume [where b = "\<not> there"])
    assume "\<not> there"
    then show ?thesis using v_pre [OF run] by simp
  qed simp
  show ?thesis unfolding prepare_round_def
    by (rule valid_sbind [OF db], rule valid_sbind [OF copy], rule v_assume, erule conjunct2, hypsubst,
        simp only: db_state.case, rule v_pre [OF valid_sbind [OF there free]], blast)
qed

lemma readied_seen:
  assumes "readied J m"
  shows "\<exists>org. seen_copy m = Complete SCHEMA_VERSION (Some org) \<and> from_version (or_source_schema org) = Some (j_schema J)
    \<and> made_from org (print_of (j_src J))"
proof -
  from assms obtain i where i: "m = Some i" by (auto simp: readied_def)
  with assms readied_state [of J i] obtain c where "made_here J c"
    "copy_state_of (i_file i) = Complete SCHEMA_VERSION (Some (cp_origin c))" by blast
  then show ?thesis using i made_here_made_from [of J c] schema_version.decode_encode [of "j_schema J"]
    by (auto simp: seen_copy_def made_here_def)
qed

lemma v_round_between:
  assumes J: "job_ok J"
  shows "valid (reached H (between J)) (prepare_round (j_env J) (j_db J)) (\<lambda>r. reached H (round_state J H r)) (left H (recoverable J))"
proof -
  let ?db = "j_db J" and ?mig = "migrating_path (j_db J)"
  let ?B = "\<lambda>e. between J e \<and> clean H ?mig e"
  let ?org = "\<lambda>copy. \<exists>org. copy = Complete SCHEMA_VERSION (Some org) \<and> from_version (or_source_schema org) = Some (j_schema J)
    \<and> made_from org (print_of (j_src J))"
  have rec: "between J e \<Longrightarrow> recoverable J e" for e by (simp add: recoverable_def)
  have db: "valid (reached H (between J)) (inspect_db ?db) (\<lambda>d. reached H (\<lambda>e. between J e \<and> d = Absent)) (left H (recoverable J))"
    by (rule v_inspect_db) (use rec in \<open>auto simp: between_def\<close>)
  have copy: "valid (reached H (\<lambda>e. between J e \<and> d = Absent)) (inspect_copy ?mig)
      (\<lambda>copy. reached H (\<lambda>e. ?B e \<and> d = Absent \<and> ?org copy)) (left H (recoverable J))" for d
  proof (rule v_inspect_copy)
    fix e assume b: "between J e \<and> d = Absent"
    then have r: "readied J (e ?mig)" "e ?mig \<noteq> None" by (auto simp: between_def readied_def)
    show "?B (closed ?mig e) \<and> d = Absent \<and> ?org (seen_copy (e ?mig))" using b readied_seen [OF r(1)] by simp
    assume "e ?mig = None \<or> \<not> H"
    then show "?B e \<and> d = Absent \<and> ?org (seen_copy (e ?mig))" using b readied_seen [OF r(1)] r(2) by (simp add: clean_def)
  qed (use rec in auto)
  have fin: "valid (reached H ?B) (sthen (finish_interrupted_swap ?db org) (sret None)) (\<lambda>r. reached H (round_state J H r)) (left H (recoverable J))"
    if "from_version (or_source_schema org) = Some (j_schema J)" "made_from org (print_of (j_src J))" for org
    by (rule valid_sthen [OF v_finish [OF J that]]) (auto intro!: v_ret)
  show ?thesis unfolding prepare_round_def
    by (rule valid_sbind [OF db], rule valid_sbind [OF copy], rule v_assume, erule conjunct2)
      (auto intro!: v_pre [OF fin])
qed

lemma v_log_backups:
  assumes "\<And>e. B e \<Longrightarrow> R e"
  shows "valid (reached H B) (log_backups ps) (\<lambda>_. reached H B) (left H R)"
proof (induction ps)
  case (Cons p ps)
  have ex: "valid (reached H B) (exists_path p) (\<lambda>_. reached H B) (left H R)" by (rule v_exists) (use assms in auto)
  have len: "valid (reached H B) (file_len p) (\<lambda>_. reached H B) (left H R)" by (rule v_len) (use assms in auto)
  have "valid (reached H B) (if there then log_backup p else sret ()) (\<lambda>_. reached H B) (left H R)" for there
    unfolding log_backup_def by (rule valid_if) (auto intro!: valid_sbind [OF len] v_ret)
  with Cons ex show ?case by (auto intro!: valid_sbind [OF ex] valid_sthen)
qed (auto intro!: v_ret)

lemma v_round_swapped:
  assumes J: "job_ok J"
  shows "valid (reached H (swapped J)) (prepare_round (j_env J) (j_db J)) (\<lambda>r. reached H (\<lambda>e. swapped J e \<and> r = Some (Ready None))) (left H (recoverable J))"
proof -
  let ?db = "j_db J" and ?mig = "migrating_path (j_db J)"
  have rec: "swapped J e \<Longrightarrow> recoverable J e" for e by (simp add: recoverable_def)
  have db: "valid (reached H (swapped J)) (inspect_db ?db) (\<lambda>d. reached H (\<lambda>e. swapped J e \<and> d = Current)) (left H (recoverable J))"
  proof (rule v_inspect_db)
    fix e n assume e: "swapped J e" "e ?db = Some n"
    then have "readied J (Some n)" by (simp add: swapped_def)
    from readied_state [OF this, of ?db] e(1)
    show "\<exists>fs. probe ?db (i_file n) = Inr fs \<and> (swapped J (closed ?db e) \<and> db_state_of fs = Current)
        \<and> (\<not> H \<longrightarrow> swapped J e \<and> db_state_of fs = Current)" by auto
  qed (use rec in \<open>auto simp: swapped_def readied_def\<close>)
  have copy: "valid (reached H (\<lambda>e. swapped J e \<and> d = Current)) (inspect_copy ?mig)
      (\<lambda>copy. reached H (\<lambda>e. swapped J e \<and> d = Current \<and> copy = CopyAbsent)) (left H (recoverable J))" for d
    by (rule v_inspect_copy) (use rec in \<open>auto simp: swapped_def seen_copy_def\<close>)
  have log: "valid (reached H (swapped J)) (sthen (log_backups (backups ?db)) (sret (Some (Ready None))))
      (\<lambda>r. reached H (\<lambda>e. swapped J e \<and> r = Some (Ready None))) (left H (recoverable J))"
    by (rule valid_sthen [OF v_log_backups]) (use rec in \<open>auto intro!: v_ret\<close>)
  show ?thesis unfolding prepare_round_def
    by (rule valid_sbind [OF db], rule valid_sbind [OF copy], rule v_assume, erule conjunct2)
      (auto intro!: v_pre [OF log])
qed

lemma create_existing:
  assumes "reached H B w" "\<And>e. B e \<Longrightarrow> e p \<noteq> None"
  shows "\<exists>err w'. create_with_mode p mode w = (Inl err, w') \<and> reached H B w' \<and> (H \<longrightarrow> err = MigrationIo ''create'' p file_exists)"
proof -
  have "entry p w \<noteq> None" "calm H w" using assms by (auto simp: reached_def entry_ents)
  then show ?thesis using assms(1) calm_step [of H w]
    by (cases "w_faults w") (auto simp: create_with_mode_def sthen_def sbind_def fsop_def reached_def calm_def Let_def split: option.splits)
qed

lemma v_open_or_create:
  assumes "\<And>e. B e \<Longrightarrow> R e" "\<And>e x. B e \<Longrightarrow> B (e(p := x))"
  shows "valid (reached H B) (open_or_create p mode) (\<lambda>_. reached H B) (left H R)"
proof -
  have new: "valid (reached H (\<lambda>e. B e \<and> e p = None)) (open_or_create p mode) (\<lambda>_. reached H B) (left H R)"
  proof -
    have v: "valid (reached H (\<lambda>e. B e \<and> e p = None)) (create_with_mode p mode) (\<lambda>_. reached H B) (left H B)"
      by (rule v_create) (use assms in auto)
    have o: "valid (reached False B) (fsop (\<lambda>w. case entry p w of
          None \<Rightarrow> Inl (MigrationIo ''open'' p no_such_file) | Some _ \<Rightarrow> Inr ((), w))) (\<lambda>_. reached False B) (left False B)"
      by (rule valid_op) (auto split: option.split)
    show ?thesis unfolding valid_def
    proof (intro allI impI)
      fix w assume "reached H (\<lambda>e. B e \<and> e p = None) w"
      from validD [OF v this] have c: "case create_with_mode p mode w of (Inr a, w') \<Rightarrow> reached H B w' | (Inl e, w') \<Rightarrow> left H B w'" .
      obtain r w' where r: "create_with_mode p mode w = (r, w')" by fastforce
      have weak: "left H B w'' \<Longrightarrow> left H R w''" for w'' using assms(1) by (auto simp: left_def)
      show "case open_or_create p mode w of (Inr a, w') \<Rightarrow> reached H B w' | (Inl e, w') \<Rightarrow> left H R w'"
      proof (cases r)
        case (Inl e)
        then have x: "reached False B w'" "\<not> H" "left H R w'" using c r weak by (simp_all add: left_calm)
        from validD [OF o x(1)] x(2,3) assms(1) show ?thesis
          by (auto simp: open_or_create_def r Inl left_def split: storage_error.split sum.splits prod.splits)
      qed (use c r in \<open>simp add: open_or_create_def\<close>)
    qed
  qed
  have old: "valid (reached H (\<lambda>e. B e \<and> e p \<noteq> None)) (open_or_create p mode) (\<lambda>_. reached H B) (left H R)"
    unfolding valid_def
  proof (intro allI impI)
    fix w assume w: "reached H (\<lambda>e. B e \<and> e p \<noteq> None) w"
    have o: "valid (reached H (\<lambda>e. B e \<and> e p \<noteq> None)) (fsop (\<lambda>w. case entry p w of
          None \<Rightarrow> Inl (MigrationIo ''open'' p no_such_file) | Some _ \<Rightarrow> Inr ((), w))) (\<lambda>_. reached H B) (left H R)"
      by (rule valid_op) (use assms in \<open>auto simp: entry_ents split: option.split\<close>)
    obtain err w' where c: "create_with_mode p mode w = (Inl err, w')" "reached H (\<lambda>e. B e \<and> e p \<noteq> None) w'"
      "H \<longrightarrow> err = MigrationIo ''create'' p file_exists"
      using create_existing [OF w, of p mode] by auto
    then have "\<not> H \<Longrightarrow> left H R w'" using assms(1) by (auto simp: left_def reached_def calm_def)
    with validD [OF o c(2)] c(1,3) show "case open_or_create p mode w of (Inr a, w') \<Rightarrow> reached H B w' | (Inl e, w') \<Rightarrow> left H R w'"
      by (auto simp: open_or_create_def split: storage_error.split)
  qed
  show ?thesis using v_disj [OF new old] by (rule v_pre) blast
qed

lemma v_acquire_lock:
  assumes "\<And>e. B e \<Longrightarrow> R e" "\<And>e x. B e \<Longrightarrow> B (e(lock_path db := x))"
  shows "valid (reached H B) (acquire_lock db) (\<lambda>_. reached H B) (left H R)"
proof -
  have mode: "valid (reached H B) (mode_of db) (\<lambda>_. reached H B) (left H R)" by (rule v_mode) (use assms in auto)
  have "valid (reached H B) (fsop (\<lambda>w. if w_lock_held w then Inl (MigrationLocked (lock_path db)) else Inr ((), w)))
      (\<lambda>_. reached H B) (left H R)"
    by (rule valid_op) (use assms in \<open>auto simp: calm_def\<close>)
  then show ?thesis unfolding acquire_lock_def
    by (intro valid_sbind [OF mode] valid_sthen [OF v_open_or_create]) (use assms in auto)
qed

lemma recoverable_lock: "recoverable J e \<Longrightarrow> recoverable J (e(lock_path (j_db J) := x))"
  by (simp add: recoverable_def unswapped_def between_def swapped_def)

lemma recoverable_cases:
  "recoverable J e \<longleftrightarrow> unswapped J (any_copy J) e \<or> between J e \<or> swapped J e"
  by (simp add: recoverable_def any_copy_def unswapped_def)

lemma v_prepare:
  assumes J: "job_ok J" and H: "H \<Longrightarrow> healthy J"
  shows "valid (reached H (recoverable J)) (prepare_with (j_env J) (j_db J))
    (\<lambda>r. reached H (\<lambda>e. \<exists>p. r = Some p \<and> finished_state J H p e)) (left H (recoverable J))"
proof -
  let ?P = "j_env J" and ?db = "j_db J"
  let ?Q = "\<lambda>r. reached H (\<lambda>e. \<exists>p. r = Some p \<and> finished_state J H p e)"
  have swapped: "valid (reached H (swapped J)) (prepare_round ?P ?db) (\<lambda>r. reached H (round_state J H r)) (left H (recoverable J))"
    by (rule v_post [OF v_round_swapped [OF J]]) auto
  have first: "valid (reached H (recoverable J)) (prepare_round ?P ?db) (\<lambda>r. reached H (round_state J H r)) (left H (recoverable J))"
    unfolding recoverable_cases [abs_def]
    using v_disj [OF v_round_unswapped [OF J H] v_disj [OF v_round_between [OF J] swapped]]
    by (simp add: recoverable_cases [abs_def])
  have second: "valid (reached H (swapped J)) (prepare_loop 1 ?P ?db) ?Q (left H (recoverable J))"
    unfolding One_nat_def prepare_loop.simps(2)
  proof (rule valid_sbind [OF v_round_swapped [OF J]], rule v_assume, erule conjunct2)
    fix r :: "preparation option"
    assume "r = Some (Ready None)"
    then show "valid (reached H (\<lambda>e. swapped J e \<and> r = Some (Ready None)))
        (case r of Some p \<Rightarrow> sret (Some p) | None \<Rightarrow> prepare_loop 0 ?P ?db) ?Q (left H (recoverable J))"
      by (auto intro!: v_ret)
  qed
  have loop: "valid (reached H (recoverable J)) (prepare_loop 2 ?P ?db) ?Q (left H (recoverable J))"
    unfolding numeral_2_eq_2 prepare_loop.simps(2) [of "Suc 0"]
  proof (rule valid_sbind [OF first])
    fix r
    show "valid (reached H (round_state J H r))
        (case r of Some p \<Rightarrow> sret (Some p) | None \<Rightarrow> prepare_loop (Suc 0) ?P ?db) ?Q (left H (recoverable J))"
      using second by (cases r) (auto intro!: v_ret simp: One_nat_def)
  qed
  show ?thesis unfolding prepare_with_def
    by (rule valid_sthen [OF v_acquire_lock loop]) (auto intro: recoverable_lock)
qed

end
