(* ===== verification/Migrate_Starts.thy ===== *)
theory Migrate_Starts
  imports Migrate_Safe
begin

text \<open>
  Start after start: each with its own failures, and a crash wherever one may come. The older
  file survives all of them, one start that nothing goes wrong with completes the migration,
  and every start ends with a decision.
\<close>

section \<open>Start after start\<close>

text \<open>
  What differs from start to start: the failures, the pool, when it is asked to stop, what
  other processes hold. The libraries are those the program was built with.
\<close>

record startup =
  su_prep :: prep_env
  su_held :: "bytes list"
  su_lock_held :: bool
  su_faults :: "storage_error option list"

definition start_env :: "job \<Rightarrow> startup \<Rightarrow> prep_env" where
  "start_env J r =
     (let E = pe_copy (j_env J) in
      (su_prep r)\<lparr>pe_copy := (pe_copy (su_prep r))\<lparr>ce_zstd := ce_zstd E, ce_mime := ce_mime E, ce_sql := ce_sql E\<rparr>\<rparr>)"

definition start_once :: "job \<Rightarrow> startup \<Rightarrow> world \<Rightarrow> (storage_error, preparation option) result \<times> world" where
  "start_once J r w =
     prepare_database_file (start_env J r) (j_db J)
       (w\<lparr>w_held := su_held r, w_lock_held := su_lock_held r, w_faults := su_faults r\<rparr>)"

definition start_job :: "job \<Rightarrow> startup \<Rightarrow> job" where
  "start_job J r = J\<lparr>j_env := (start_env J r)\<lparr>pe_options := default_options\<rparr>\<rparr>"

definition start_again :: "job \<Rightarrow> world \<Rightarrow> startup \<Rightarrow> world" where
  "start_again J w r = snd (start_once J r w)"

lemma start_job_fields [simp]:
  "j_db (start_job J r) = j_db J" "j_schema (start_job J r) = j_schema J"
  "j_inode (start_job J r) = j_inode J" "j_src (start_job J r) = j_src J"
  by (simp_all add: start_job_def)

lemma start_job_ok: "job_ok J \<Longrightarrow> job_ok (start_job J r)"
  by (simp add: job_ok_def) (simp add: start_job_def default_options_def BATCH_MAX_MESSAGES_def)

lemma start_job_states [simp]:
  "whole (start_job J r) = whole J" "made_here (start_job J r) = made_here J"
  "growing (start_job J r) = growing J" "readied (start_job J r) = readied J"
  "foreign (start_job J r) = foreign J"
proof -
  have l: "ce_zstd (pe_copy (j_env (start_job J r))) = ce_zstd (pe_copy (j_env J))"
    "ce_mime (pe_copy (j_env (start_job J r))) = ce_mime (pe_copy (j_env J))"
    "ce_sql (pe_copy (j_env (start_job J r))) = ce_sql (pe_copy (j_env J))"
    by (simp_all add: start_job_def start_env_def Let_def)
  show w: "whole (start_job J r) = whole J" "made_here (start_job J r) = made_here J"
    by (simp_all add: fun_eq_iff whole_def made_here_def copied_def l)
  show "growing (start_job J r) = growing J" "readied (start_job J r) = readied J"
    by (simp_all add: fun_eq_iff growing_def readied_def w)
  show "foreign (start_job J r) = foreign J" by (rule ext) (simp add: foreign_def split: option.split)
qed

lemma start_job_files [simp]:
  "unswapped (start_job J r) K = unswapped J K" "between (start_job J r) = between J" "swapped (start_job J r) = swapped J"
  "any_copy (start_job J r) = any_copy J" "recoverable (start_job J r) = recoverable J"
  by (simp_all add: fun_eq_iff unswapped_def between_def swapped_def any_copy_def recoverable_def)

lemma finished_recoverable: "finished_state J H p e \<Longrightarrow> recoverable J e"
  by (cases p) (auto simp: recoverable_def unswapped_def)

lemma start_once_valid:
  assumes J: "job_ok J" and H: "H \<Longrightarrow> healthy (start_job J r) \<and> su_faults r = [] \<and> su_held r = [] \<and> \<not> su_lock_held r"
    and w: "w_later w = []" "recoverable J (ents w)"
  shows "case start_once J r w of
      (Inr p, w') \<Rightarrow> w_later w' = [] \<and> (\<exists>q. p = Some q \<and> finished_state (start_job J r) H q (ents w'))
    | (Inl err, w') \<Rightarrow> w_later w' = [] \<and> recoverable J (ents w') \<and> \<not> H"
proof -
  let ?w = "w\<lparr>w_held := su_held r, w_lock_held := su_lock_held r, w_faults := su_faults r\<rparr>"
  have e: "ents (w\<lparr>w_held := x, w_lock_held := y\<rparr>) = ents w" for x y by (simp add: fun_eq_iff ents_def entry_def)
  have "reached H (recoverable (start_job J r)) ?w" using H w by (auto simp: reached_def calm_def e)
  from validD [OF v_prepare [OF start_job_ok [OF J] H [THEN conjunct1]] this]
  have "case prepare_with (j_env (start_job J r)) (j_db (start_job J r)) ?w of
      (Inr a, s') \<Rightarrow> reached H (\<lambda>e. \<exists>p. a = Some p \<and> finished_state (start_job J r) H p e) s'
    | (Inl e, s') \<Rightarrow> left H (recoverable (start_job J r)) s'" .
  moreover have "prepare_with (j_env (start_job J r)) (j_db (start_job J r)) ?w = start_once J r w"
    by (simp add: start_once_def prepare_database_file_def start_job_def)
  ultimately show ?thesis by (auto simp: reached_def left_def calm_def split: prod.splits sum.splits)
qed

interpretation starts: kept_invariant "start_again J" "\<lambda>w. job_ok J \<and> w_later w = [] \<and> recoverable J (ents w)" for J
proof
  fix w r assume w: "job_ok J \<and> w_later w = [] \<and> recoverable J (ents w)"
  then show "job_ok J \<and> w_later (start_again J w r) = [] \<and> recoverable J (ents (start_again J w r))"
    using start_once_valid [of J False r w] finished_recoverable [of "start_job J r" False]
    by (auto simp: start_again_def split: prod.splits sum.splits)
qed

section \<open>The loop of a start ends\<close>

lemma valid_any: "valid P m (\<lambda>_ _. True) (\<lambda>_. True)"
  by (auto simp: valid_def split: sum.splits prod.splits)

lemma valid_bind_any: "(\<And>a. valid (\<lambda>_. True) (f a) Q (\<lambda>_. True)) \<Longrightarrow> valid P (sbind m f) Q (\<lambda>_. True)"
  by (rule valid_sbind [OF valid_any])

lemma valid_then_any: "valid (\<lambda>_. True) k Q (\<lambda>_. True) \<Longrightarrow> valid P (sthen m k) Q (\<lambda>_. True)"
  by (rule valid_sthen [OF valid_any])

lemma finish_puts_db: "valid P (finish_interrupted_swap db org) (\<lambda>_ w. entry db w \<noteq> None) (\<lambda>_. True)"
proof -
  have "valid (\<lambda>_. True) (rename (migrating_path db) db) (\<lambda>_ w. entry db w \<noteq> None) (\<lambda>_. True)"
    unfolding rename_def by (rule valid_fsop) (auto split: option.split)
  moreover have "valid (\<lambda>w. entry db w \<noteq> None) (sync_parent db) (\<lambda>_ w. entry db w \<noteq> None) (\<lambda>_. True)"
    unfolding sync_parent_def by (rule valid_fsop) auto
  ultimately have "valid (\<lambda>_. True) (sthen (rename (migrating_path db) db) (sync_parent db)) (\<lambda>_ w. entry db w \<noteq> None) (\<lambda>_. True)"
    by (rule valid_sthen)
  then show ?thesis unfolding finish_interrupted_swap_def Let_def
    by (auto split: option.split intro!: valid_sfail valid_bind_any valid_if valid_then_any)
qed

lemma inspect_present: "valid (\<lambda>w. entry db w \<noteq> None) (inspect_db db) (\<lambda>d _. d \<noteq> Absent) (\<lambda>_. True)"
  unfolding inspect_db_def
proof (rule valid_sbind)
  show "valid (\<lambda>w. entry db w \<noteq> None) (exists_path db) (\<lambda>there _. there) (\<lambda>_. True)"
    unfolding exists_path_def by (rule valid_fsop) auto
  have "db_state_of s \<noteq> Absent" for s by (cases s) auto
  then show "valid (\<lambda>_. there) (if \<not> there then sret Absent else sbind (connect db) (\<lambda>f. sthen (close db)
      (case probe db f of Inl e \<Rightarrow> sfail e | Inr schema \<Rightarrow> sret (db_state_of schema)))) (\<lambda>d _. d \<noteq> Absent) (\<lambda>_. True)" for there
    by (auto split: sum.split intro!: valid_if valid_bind_any valid_then_any valid_sret valid_sfail)
qed

lemma round_goes_on:
  "valid P (prepare_round E db) (\<lambda>r w. r = None \<longrightarrow> entry db w \<noteq> None) (\<lambda>_. True)"
  "valid (\<lambda>w. entry db w \<noteq> None) (prepare_round E db) (\<lambda>r _. r \<noteq> None) (\<lambda>_. True)"
proof -
  let ?decide = "\<lambda>d copy. case d of
         Current \<Rightarrow> (case copy of
              CopyAbsent \<Rightarrow> sthen (log_backups (backups db)) (sret (Some (Ready None)))
            | _ \<Rightarrow> sfail (MigrationRefused (StrayMigrationCopy db (migrating_path db))))
       | Older schema \<Rightarrow>
           sbind (exists_path (backup db schema)) (\<lambda>there.
             if there
             then sfail (MigrationRefused (AmbiguousBackup db (version schema) (backup db schema)
                    (if copy \<noteq> CopyAbsent then Some (migrating_path db) else None)))
             else sbind (run_migration E db schema copy) (\<lambda>p. sret (Some p)))
       | _ \<Rightarrow>
           if copy = CopyAbsent
           then sbind (any_backup db) (\<lambda>some.
                  if \<not> some then sret (Some (Ready None)) else unknown_state db d copy)
           else (case (d, copy) of
                   (Absent, Complete _ (Some org)) \<Rightarrow>
                     if from_version (or_source_schema org) \<noteq> None
                     then sthen (finish_interrupted_swap db org) (sret None)
                     else unknown_state db d copy
                 | _ \<Rightarrow> unknown_state db d copy)"
  have some: "valid (\<lambda>_. True) (?decide d copy) (\<lambda>r _. r \<noteq> None) (\<lambda>_. True)" if "d \<noteq> Absent" for d copy
    using that by (cases d; cases copy)
      (auto simp: unknown_state_def intro!: valid_sfail valid_sret valid_bind_any valid_then_any valid_if)
  have finish: "valid (\<lambda>_. True) (sthen (finish_interrupted_swap db org) (sret None))
      (\<lambda>r w. r = None \<longrightarrow> entry db w \<noteq> None) (\<lambda>_. True)" for org
    by (rule valid_sthen [OF finish_puts_db]) (auto intro: valid_sret)
  have absent: "valid (\<lambda>_. True) (?decide Absent copy) (\<lambda>r w. r = None \<longrightarrow> entry db w \<noteq> None) (\<lambda>_. True)" for copy
    by (cases copy) (auto simp: unknown_state_def simp del: not_None_eq split: option.split
        intro!: finish valid_sfail valid_sret valid_bind_any valid_if)
  have any: "valid (\<lambda>_. True) (?decide d copy) (\<lambda>r w. r = None \<longrightarrow> entry db w \<noteq> None) (\<lambda>_. True)" for d copy
  proof (cases "d = Absent")
    case True
    show ?thesis unfolding True by (rule absent)
  next
    case False
    show ?thesis by (rule valid_post [OF some [OF False]]) auto
  qed
  show "valid P (prepare_round E db) (\<lambda>r w. r = None \<longrightarrow> entry db w \<noteq> None) (\<lambda>_. True)"
    unfolding prepare_round_def by (intro valid_bind_any any)
  show "valid (\<lambda>w. entry db w \<noteq> None) (prepare_round E db) (\<lambda>r _. r \<noteq> None) (\<lambda>_. True)"
    unfolding prepare_round_def
    by (rule valid_sbind [OF inspect_present], rule valid_assume, assumption, rule valid_bind_any, rule some)
qed

text \<open>
  C31. A start always decides: whatever the files are and whatever fails, \<open>prepare_with\<close> goes
  round at most twice, because the only way back to the top puts a file at the database's path,
  and a start that finds one there ends.
\<close>

theorem prepare_always_decides:
  "fst (prepare_with E db w) \<noteq> Inr None"
proof -
  have last: "valid (\<lambda>w. entry db w \<noteq> None) (prepare_loop 1 E db) (\<lambda>r _. r \<noteq> None) (\<lambda>_. True)"
    unfolding One_nat_def prepare_loop.simps(2)
    by (rule valid_sbind [OF round_goes_on(2)]) (auto simp: valid_def sret_def split: option.split)
  have "valid (\<lambda>_. True) (prepare_loop 2 E db) (\<lambda>r _. r \<noteq> None) (\<lambda>_. True)"
    unfolding numeral_2_eq_2 prepare_loop.simps(2) [of "Suc 0"]
  proof (rule valid_sbind [OF round_goes_on(1)])
    fix r show "valid (\<lambda>w. r = None \<longrightarrow> entry db w \<noteq> None)
        (case r of Some p \<Rightarrow> sret (Some p) | None \<Rightarrow> prepare_loop (Suc 0) E db) (\<lambda>r _. r \<noteq> None) (\<lambda>_. True)"
      using last by (cases r) (auto intro!: valid_sret simp: One_nat_def)
  qed
  then have "valid (\<lambda>_. True) (prepare_with E db) (\<lambda>r _. r \<noteq> None) (\<lambda>_. True)"
    unfolding prepare_with_def by (rule valid_then_any)
  from validD [OF this TrueI, of w] show ?thesis by (cases "prepare_with E db w") auto
qed

section \<open>Properties\<close>

text \<open>An older database with two messages, alone in its directory.\<close>

definition example_inode :: inode where
  "example_inode =
     \<lparr>i_mode = 384, i_len = 4096,
      i_file = \<lparr>df_version = 0, df_tables = [''attachments'', ''messages''],
        df_columns = (\<lambda>t. if t = ''messages'' then [''id'', ''raw'', ''is_read''] else []), df_origin = None,
        df_data = OldRows (LegacyDb example_legacy), df_quick_check = ''ok'', df_wal = True\<rparr>\<rparr>"

definition example_prep :: prep_env where
  "example_prep =
     \<lparr>pe_copy = example_env, pe_options = default_options, pe_stop = (\<lambda>_. False),
      pe_checks = \<lparr>sc_fts_integrity = None, sc_quick_check = ''ok''\<rparr>, pe_time = ''2026''\<rparr>"

definition example_job :: job where
  "example_job =
     \<lparr>j_env = example_prep, j_db = ''db'', j_schema = Legacy, j_inode = example_inode, j_src = LegacyDb example_legacy\<rparr>"

definition example_world :: world where
  "example_world = \<lparr>w_dir = [(''db'', example_inode)], w_held = [], w_lock_held = False, w_faults = [], w_later = []\<rparr>"

definition calm_start :: startup where
  "calm_start = \<lparr>su_prep = example_prep, su_held = [], su_lock_held = False, su_faults = []\<rparr>"

definition broken_start :: startup where
  "broken_start = calm_start\<lparr>su_faults := replicate 20 None @ replicate 100 (Some cannot_open)\<rparr>"

lemma example_job_ok: "job_ok example_job"
  using example_wf
  by (simp add: job_ok_def example_job_def rows_in_def example_inode_def probe_def Let_def example_prep_def
      SCHEMA_VERSION_def LEGACY_SCHEMA_VERSION_def default_options_def BATCH_MAX_MESSAGES_def)

lemma example_files:
  "w_later example_world = []" "entry (j_db example_job) example_world = Some (j_inode example_job)"
  "entry (backup (j_db example_job) (j_schema example_job)) example_world = None"
  "entry (migrating_path (j_db example_job)) example_world = None"
  by (simp_all add: example_world_def example_job_def entry_def sidecar_def migrating_path_def suffix_defs)

lemma example_healthy: "healthy (start_job example_job calm_start)"
  using example_zstd
  by (simp add: healthy_def start_job_def start_env_def calm_start_def example_job_def example_prep_def Let_def)
    (simp add: example_env_def plain_sql_def)

lemma after_starts:
  assumes "job_ok J" "w_later w = []" "entry (j_db J) w = Some (j_inode J)"
    "entry (backup (j_db J) (j_schema J)) w = None" "entry (migrating_path (j_db J)) w = None"
  shows "w_later (foldl (start_again J) w rs) = [] \<and> recoverable J (ents (foldl (start_again J) w rs))"
proof -
  have "unswapped J (foreign J) (ents w)" using assms by (simp add: unswapped_def foreign_def ents_def)
  then have "recoverable J (ents w)" by (rule unswapped_recoverable) simp
  then show ?thesis using starts.run_keeps [of J w rs] assms(1,2) by blast
qed

text \<open>
  C6. The older database survives every start. However often the program is started on it,
  whatever fails in each start, wherever it is killed, and whatever it is asked to pause: the
  file of before is still there, byte for byte, under its own name or as the backup; the files
  are in a state the next start resolves; and a start that says it is ready has the whole copy
  in place of the older file and the older file as the backup.
\<close>

theorem older_file_survives_every_start:
  assumes "job_ok J" and "w_later w = []"
    and "entry (j_db J) w = Some (j_inode J)" and "entry (backup (j_db J) (j_schema J)) w = None"
    and "entry (migrating_path (j_db J)) w = None" and "w' = foldl (start_again J) w earlier"
  shows "recoverable J (ents w')
    \<and> (entry (j_db J) w' = Some (j_inode J) \<or> entry (backup (j_db J) (j_schema J)) w' = Some (j_inode J))
    \<and> (fst (start_once J r w') = Inr (Some (Ready report)) \<longrightarrow> swapped J (ents (snd (start_once J r w'))))"
proof -
  have w': "w_later w' = []" "recoverable J (ents w')" using after_starts [OF assms(1-5)] assms(6) by simp_all
  have "entry (j_db J) w' = Some (j_inode J) \<or> entry (backup (j_db J) (j_schema J)) w' = Some (j_inode J)"
    using w'(2) by (auto simp: recoverable_def unswapped_def between_def swapped_def entry_ents)
  moreover have "swapped J (ents (snd (start_once J r w')))" if "fst (start_once J r w') = Inr (Some (Ready report))"
    using start_once_valid [OF assms(1) _ w', of False r] that by (auto split: prod.splits)
  ultimately show ?thesis using w'(2) by blast
qed

theorem older_file_survives_every_start_witness:
  "\<exists>w'. w' = foldl (start_again example_job) example_world [broken_start, broken_start]
     \<and> recoverable example_job (ents w')"
  using older_file_survives_every_start [OF example_job_ok example_files refl, of "[broken_start, broken_start]"] by blast

text \<open>
  C7. After any history of failed, paused and killed starts, one start that nothing goes wrong
  with completes the migration: it reports ready, the database holds every message and
  attachment of the older file and opens at the current schema, the older file is the backup,
  and no copy is left beside them.
\<close>

theorem healthy_start_completes_the_migration:
  assumes "job_ok J" and "w_later w = []"
    and "entry (j_db J) w = Some (j_inode J)" and "entry (backup (j_db J) (j_schema J)) w = None"
    and "entry (migrating_path (j_db J)) w = None" and "w' = foldl (start_again J) w earlier"
    and "healthy (start_job J r)" and "su_faults r = []" and "su_held r = []" and "\<not> su_lock_held r"
  shows "\<exists>report w'' i c. start_once J r w' = (Inr (Some (Ready report)), w'')
    \<and> entry (j_db J) w'' = Some i \<and> i_file i = copy_file c
    \<and> cp_tables c = add_views (ce_zstd (pe_copy (j_env J))) (ce_sql (pe_copy (j_env J)))
        (views (ce_mime (pe_copy (j_env J))) (j_src J)) no_tables
    \<and> initialize_database (j_db J) (i_file i) (i_file i) = Inr (i_file i)
    \<and> entry (backup (j_db J) (j_schema J)) w'' = Some (j_inode J) \<and> entry (migrating_path (j_db J)) w'' = None"
proof -
  have w': "w_later w' = []" "recoverable J (ents w')" using after_starts [OF assms(1-5)] assms(6) by simp_all
  from start_once_valid [OF assms(1) _ w', of True r] assms(7-10)
  obtain q w'' where q: "start_once J r w' = (Inr (Some q), w'')" "finished_state (start_job J r) True q (ents w'')"
    by (cases "start_once J r w'"; cases "fst (start_once J r w')") auto
  then obtain report where r: "q = Ready report" by (cases q) auto
  then have s: "swapped J (ents w'')" using q(2) by simp
  then obtain i c where i: "ents w'' (j_db J) = Some i" "i_file i = copy_file c" "cp_user_version c = SCHEMA_VERSION" "whole J c"
    by (auto simp: swapped_def readied_def)
  then have "initialize_database (j_db J) (i_file i) (i_file i) = Inr (i_file i)"
    by (simp add: initialize_database_def inspect_layout_def probe_def copy_file_def)
  then show ?thesis using q(1) r s i by (auto simp: swapped_def whole_def entry_ents)
qed

theorem healthy_start_completes_the_migration_witness:
  "\<exists>report. fst (start_once example_job calm_start (foldl (start_again example_job) example_world [broken_start]))
     = Inr (Some (Ready report))"
  using healthy_start_completes_the_migration [OF example_job_ok example_files refl example_healthy, of "[broken_start]"]
  by (auto simp: calm_start_def)

end
