(* ===== verification/Migrate_Restore.thy ===== *)
theory Migrate_Restore
  imports Migrate_Files "HOL-Library.List_Lexorder" "HOL-Library.Char_ord"
begin

text \<open>
  Putting the backup of a migration back (\<open>migrate/restore.rs\<close>): the checks before anything is
  renamed, the two renames, and finishing a restore that stopped between them. What an error
  prints as, whether the checkpoint finds the database busy and the time are inputs.
\<close>

definition KEPT_SUFFIX :: bytes where "KEPT_SUFFIX = ''.schema2-''"
definition SIDE_SUFFIXES :: "bytes list" where "SIDE_SUFFIXES = [WAL_SUFFIX, SHM_SUFFIX, JOURNAL_SUFFIX]"
definition QUICK_CHECK_OK :: bytes where "QUICK_CHECK_OK = ''ok''"
definition DATE_DIGITS :: nat where "DATE_DIGITS = 8"
definition TIME_DIGITS :: nat where "TIME_DIGITS = 6"

record restore_report =
  rr_database :: bytes
  rr_restored_from :: bytes
  rr_kept_as :: bytes

record utc_time =
  t_year :: nat
  t_month :: nat
  t_day :: nat
  t_hour :: nat
  t_minute :: nat
  t_second :: nat

record restore_env =
  re_show :: "storage_error \<Rightarrow> bytes"
  re_busy :: bool
  re_now :: utc_time

definition padded :: "nat \<Rightarrow> nat \<Rightarrow> bytes" where
  "padded width n = replicate (width - length (show_nat n)) CHR ''0'' @ show_nat n"

definition timestamp :: "utc_time \<Rightarrow> bytes" where
  "timestamp t =
     padded 4 (t_year t) @ padded 2 (t_month t) @ padded 2 (t_day t) @ ''T''
     @ padded 2 (t_hour t) @ padded 2 (t_minute t) @ padded 2 (t_second t) @ ''Z''"

definition all_digits :: "bytes \<Rightarrow> nat \<Rightarrow> bool" where
  "all_digits part len \<longleftrightarrow> length part = len \<and> list_all is_ascii_digit part"

definition is_timestamp :: "bytes \<Rightarrow> bool" where
  "is_timestamp text =
     (case strip_suffix text ''Z'' of
        None \<Rightarrow> False
      | Some rest \<Rightarrow>
          (case split_once CHR ''T'' rest of
             None \<Rightarrow> False
           | Some (date, time) \<Rightarrow> all_digits date DATE_DIGITS \<and> all_digits time TIME_DIGITS))"

definition kept_prefix :: "bytes \<Rightarrow> bytes" where
  "kept_prefix db = sidecar db KEPT_SUFFIX"

definition is_kept_name :: "bytes \<Rightarrow> bytes \<Rightarrow> bool" where
  "is_kept_name db p = (case strip_prefix p (kept_prefix db) of Some ts \<Rightarrow> is_timestamp ts | None \<Rightarrow> False)"

definition kept_files :: "bytes \<Rightarrow> bytes list fs" where
  "kept_files db = fsop (\<lambda>w. Inr (sort (filter (is_kept_name db) (map fst (w_dir w))), w))"

definition refuse_side_files :: "bytes \<Rightarrow> bytes \<Rightarrow> unit fs" where
  "refuse_side_files db file =
     refuse_each (\<lambda>side. RestoreRefused (RestoreFileInUse db side)) (map (sidecar file) SIDE_SUFFIXES)"

fun any_backup_of :: "bytes list \<Rightarrow> bool fs" where
  "any_backup_of [] = sret False"
| "any_backup_of (p # ps) = sbind (exists_path p) (\<lambda>there. if there then sret True else any_backup_of ps)"

definition migrated_from :: "bytes \<Rightarrow> bool \<Rightarrow> (source_schema \<times> origin) option fs" where
  "migrated_from p immutable =
     sbind (connect p) (\<lambda>f. sthen (if immutable then sret () else close p)
       (sret (case read_origin (df_origin f) of
                None \<Rightarrow> None
              | Some org \<Rightarrow> map_option (\<lambda>source. (source, org)) (from_version (or_source_schema org)))))"

fun expected_schema :: "source_schema \<Rightarrow> file_schema" where
  "expected_schema Legacy = FsLegacy"
| "expected_schema Previous = FsPrevious"

definition backup_verdict :: "restore_env \<Rightarrow> bytes \<Rightarrow> source_schema \<Rightarrow> db_file \<Rightarrow> storage_error option" where
  "backup_verdict R p source f =
     (let invalid = (\<lambda>reason. Some (RestoreRefused (BackupInvalid p (version source) reason))) in
      case probe p f of
        Inl e \<Rightarrow> invalid (re_show R e)
      | Inr schema \<Rightarrow>
          if schema = expected_schema source then
            (if df_quick_check f = QUICK_CHECK_OK then None else invalid (''quick_check: '' @ df_quick_check f))
          else invalid (case schema of
                          FsEmpty \<Rightarrow> ''it has no tables'' | FsLegacy \<Rightarrow> ''it is schema 0''
                        | FsPrevious \<Rightarrow> ''it is schema 1'' | FsCurrent \<Rightarrow> ''it is schema 2''))"

definition check_backup :: "restore_env \<Rightarrow> bytes \<Rightarrow> source_schema \<Rightarrow> unit fs" where
  "check_backup R p source w =
     (case connect p w of
        (Inl e, w') \<Rightarrow> (Inl (RestoreRefused (BackupInvalid p (version source) (re_show R e))), w')
      | (Inr f, w') \<Rightarrow>
          sthen (close p) (case backup_verdict R p source f of None \<Rightarrow> sret () | Some e \<Rightarrow> sfail e) w')"

definition checkpoint :: "restore_env \<Rightarrow> bytes \<Rightarrow> unit fs" where
  "checkpoint R db =
     sthen (connect db) (sthen (close db)
       (if re_busy R then sfail (RestoreRefused (CheckpointBusy db)) else sret ()))"

definition put_backup_in_place :: "bytes \<Rightarrow> bytes \<Rightarrow> bytes \<Rightarrow> restore_report fs" where
  "put_backup_in_place db bak kept =
     sthen (rename bak db) (sthen (sync_parent db)
       (sret \<lparr>rr_database = db, rr_restored_from = bak, rr_kept_as = kept\<rparr>))"

definition refuse_unfinished :: "bytes \<Rightarrow> bytes \<Rightarrow> bytes \<Rightarrow> 'a fs" where
  "refuse_unfinished db bak reason = sfail (RestoreRefused (NotAnInterruptedRestore db bak reason))"

text \<open>
  The kept file must be the newest, unused, of schema 2 and made from the backup beside it.
\<close>

definition made_from_backup :: "origin \<Rightarrow> bytes \<Rightarrow> source_schema \<Rightarrow> bool fs" where
  "made_from_backup org bak source w =
     (case fingerprint_of bak source w of
        (Inr print, w') \<Rightarrow> (Inr (made_from org print), w')
      | (Inl _, w') \<Rightarrow> (Inr False, w'))"

definition inspect_kept :: "restore_env \<Rightarrow> bytes \<Rightarrow> bytes \<Rightarrow> unit fs" where
  "inspect_kept R db kept w =
     (case inspect_db_immutable kept w of
        (Inr Current, w') \<Rightarrow> (Inr (), w')
      | (Inr state, w') \<Rightarrow>
          refuse_unfinished db (backup db Previous) (kept @ '' is '' @ describe_db state @ '', not schema 2'') w'
      | (Inl e, w') \<Rightarrow>
          refuse_unfinished db (backup db Previous)
            (kept @ '' could not be read as a database ('' @ re_show R e @ '')'') w')"

definition interrupted_kept_file :: "restore_env \<Rightarrow> bytes \<Rightarrow> (bytes \<times> bytes \<times> source_schema) fs" where
  "interrupted_kept_file R db =
     sbind (kept_files db) (\<lambda>kept_all.
       if kept_all = []
       then refuse_unfinished db (backup db Previous)
              (''no '' @ kept_prefix db @ ''<UTC timestamp> file sits beside it'')
       else let kept = last kept_all in
         sthen (refuse_side_files db kept) (sthen (inspect_kept R db kept)
           (sbind (migrated_from kept True) (\<lambda>from.
              case from of
                None \<Rightarrow>
                  refuse_unfinished db (backup db Previous) (kept @ '' records no migration it was made by'')
              | Some (source, org) \<Rightarrow>
                  let bak = backup db source in
                  sbind (exists_path bak) (\<lambda>there.
                    if \<not> there
                    then refuse_unfinished db bak (kept @ '' was migrated from '' @ bak @ '', which is missing'')
                    else sthen (refuse_side_files db bak)
                      (sbind (made_from_backup org bak source) (\<lambda>made.
                         if \<not> made
                         then refuse_unfinished db bak (kept @ '' was not migrated from the '' @ bak @ '' beside it'')
                         else sret (kept, bak, source))))))))"

definition finish_interrupted_restore :: "restore_env \<Rightarrow> bytes \<Rightarrow> restore_report fs" where
  "finish_interrupted_restore R db =
     sbind (interrupted_kept_file R db) (\<lambda>(kept, bak, source).
       sthen (refuse_side_files db db) (sthen (refuse_side_files db bak) (sthen (check_backup R bak source)
         (sthen (refuse_side_files db bak) (sthen (refuse_side_files db db)
           (put_backup_in_place db bak kept))))))"

definition restore_migrated :: "restore_env \<Rightarrow> bytes \<Rightarrow> restore_report fs" where
  "restore_migrated R db =
     sbind (migrated_from db False) (\<lambda>from.
       case from of
         None \<Rightarrow> sfail (RestoreRefused (NoBackup db (backup db Previous)))
       | Some (source, _) \<Rightarrow>
           let bak = backup db source in
           sbind (exists_path bak) (\<lambda>there.
             if \<not> there then sfail (RestoreRefused (NoBackup db bak))
             else sthen (refuse_side_files db bak) (sthen (check_backup R bak source)
               (sthen (refuse_side_files db bak) (sthen (checkpoint R db) (sthen (refuse_side_files db db)
                 (let kept = sidecar (kept_prefix db) (timestamp (re_now R)) in
                  sbind (exists_path kept) (\<lambda>taken.
                    if taken then sfail (RestoreRefused (KeptNameTaken kept))
                    else sthen (rename db kept) (put_backup_in_place db bak kept)))))))))"

definition restore_backup :: "restore_env \<Rightarrow> bytes \<Rightarrow> restore_report fs" where
  "restore_backup R db =
     sthen (acquire_lock db)
     (sbind (inspect_db db) (\<lambda>state.
      sbind (if state = Absent then any_backup_of (backups db) else sret False) (\<lambda>interrupted.
        if \<not> interrupted \<and> state \<noteq> Current
        then sfail (RestoreRefused (NotMigrated db (describe_db state)))
        else sbind (exists_path (migrating_path db)) (\<lambda>there.
          if there then sfail (RestoreRefused (MigrationCopyPresent db (migrating_path db)))
          else if interrupted then finish_interrupted_restore R db
          else restore_migrated R db))))"

end
