(* ===== verification/Migrate_Undo.thy ===== *)
theory Migrate_Undo
  imports Migrate_Restore Migrate_Starts
begin

text \<open>
  Undoing a migration: the name a restore keeps the migrated database under is one it
  recognises later, no restore loses a database, whatever fails or refuses, and a restore of a
  migrated database gives the older file back, from which a start migrates again.
\<close>

section \<open>Names of kept files\<close>

definition utc_ok :: "utc_time \<Rightarrow> bool" where
  "utc_ok t \<longleftrightarrow> t_year t \<le> 9999 \<and> t_month t \<le> 12 \<and> t_day t \<le> 31 \<and> t_hour t \<le> 23 \<and> t_minute t \<le> 59 \<and> t_second t \<le> 60"

lemma show_nat_length: "0 < k \<Longrightarrow> n < 10 ^ k \<Longrightarrow> length (show_nat n) \<le> k"
proof (induction n arbitrary: k rule: show_nat.induct)
  case (1 n)
  show ?case
  proof (cases "n < 10")
    case False
    then have k: "1 < k" using 1(3) by (cases k) (auto simp: less_Suc_eq_0_disj intro: ccontr)
    then obtain j where j: "k = Suc j" "0 < j" by (cases k) auto
    have "n div 10 < 10 ^ j" using 1(3) j(1) by (simp add: less_mult_imp_div_less mult.commute)
    then have "length (show_nat (n div 10)) \<le> j" using 1(1) [OF False] j(2) by blast
    then show ?thesis using False j(1) by (subst show_nat.simps) simp
  qed (use 1 in \<open>subst show_nat.simps, simp\<close>)
qed

lemma padded_digits:
  assumes "0 < k" "n < 10 ^ k"
  shows "length (padded k n) = k" "list_all is_ascii_digit (padded k n)"
  using show_nat_length [OF assms] show_nat_digits [of _ n]
  by (auto simp: padded_def list_all_iff is_ascii_digit_def)

lemma digit_not_T: "list_all is_ascii_digit s \<Longrightarrow> CHR ''T'' \<notin> set s"
  by (auto simp: list_all_iff is_ascii_digit_def)

lemma timestamp_recognised:
  assumes "utc_ok t"
  shows "is_timestamp (timestamp t)"
proof -
  let ?date = "padded 4 (t_year t) @ padded 2 (t_month t) @ padded 2 (t_day t)"
  let ?time = "padded 2 (t_hour t) @ padded 2 (t_minute t) @ padded 2 (t_second t)"
  have d: "all_digits ?date DATE_DIGITS" and t: "all_digits ?time TIME_DIGITS"
    using assms padded_digits [of 4 "t_year t"] padded_digits [of 2 "t_month t"] padded_digits [of 2 "t_day t"]
      padded_digits [of 2 "t_hour t"] padded_digits [of 2 "t_minute t"] padded_digits [of 2 "t_second t"]
    by (simp_all add: utc_ok_def all_digits_def DATE_DIGITS_def TIME_DIGITS_def)
  have "takeWhile (\<lambda>x. x \<noteq> CHR ''T'') (?date @ CHR ''T'' # ?time) = ?date"
    using d digit_not_T [of ?date] by (subst takeWhile_append2) (auto simp: all_digits_def)
  then have "split_once CHR ''T'' (?date @ CHR ''T'' # ?time) = Some (?date, ?time)"
    by (simp add: split_once_def find_char_def)
  moreover have "strip_suffix (timestamp t) ''Z'' = Some (?date @ CHR ''T'' # ?time)"
    by (simp add: strip_suffix_Some timestamp_def)
  ultimately show ?thesis using d t by (simp add: is_timestamp_def)
qed

lemma kept_name_ends: "is_kept_name db p \<Longrightarrow> \<exists>q. p = sidecar db KEPT_SUFFIX @ q @ ''Z''"
  by (auto simp: is_kept_name_def is_timestamp_def kept_prefix_def strip_prefix_Some strip_suffix_Some split: option.splits)

definition kept_name :: "restore_env \<Rightarrow> bytes \<Rightarrow> bytes" where
  "kept_name R db = sidecar (kept_prefix db) (timestamp (re_now R))"

lemma kept_name_recognised: "utc_ok (re_now R) \<Longrightarrow> is_kept_name db (kept_name R db)"
  by (simp add: is_kept_name_def kept_name_def sidecar_def strip_prefix_Some timestamp_recognised
      strip_prefix_Some [THEN iffD2, OF refl])

lemma kept_distinct:
  assumes "is_kept_name db p"
  shows "p \<noteq> db" "p \<noteq> backup db s" "p \<noteq> lock_path db" "p \<noteq> migrating_path db"
    "x \<in> set side_exts \<Longrightarrow> p \<noteq> sidecar q x"
  using kept_name_ends [OF assms]
  by (cases s; auto simp: sidecar_def lock_path_def migrating_path_def suffix_defs KEPT_SUFFIX_def side_exts_def)+

section \<open>What a restore may leave\<close>

text \<open>The databases of the directory: the one in use, the copy, the backups, the kept ones.\<close>

definition tracked :: "bytes \<Rightarrow> bytes \<Rightarrow> bool" where
  "tracked db p \<longleftrightarrow> p = db \<or> p = migrating_path db \<or> (\<exists>s. p = backup db s) \<or> is_kept_name db p"

definition same :: "bytes \<Rightarrow> files \<Rightarrow> files \<Rightarrow> bool" where
  "same db e0 e \<longleftrightarrow> (\<forall>p. tracked db p \<longrightarrow> e p = e0 p)"

definition moved :: "bytes \<Rightarrow> bytes \<Rightarrow> files \<Rightarrow> files \<Rightarrow> bool" where
  "moved db kept e0 e \<longleftrightarrow>
     is_kept_name db kept \<and> e0 db \<noteq> None \<and> e0 kept = None \<and> e db = None \<and> e kept = e0 db
     \<and> (\<forall>p. tracked db p \<longrightarrow> p \<noteq> db \<longrightarrow> p \<noteq> kept \<longrightarrow> e p = e0 p)"

text \<open>The migration that made a file, as the file records it.\<close>

definition made_by :: "db_file \<Rightarrow> (source_schema \<times> origin) option" where
  "made_by f =
     (case read_origin (df_origin f) of
        None \<Rightarrow> None
      | Some org \<Rightarrow> map_option (\<lambda>source. (source, org)) (from_version (or_source_schema org)))"

definition made_kept :: "files \<Rightarrow> bytes \<Rightarrow> source_schema \<Rightarrow> bool" where
  "made_kept e0 p s \<longleftrightarrow> (\<exists>n org. e0 p = Some n \<and> made_by (i_file n) = Some (s, org))"

definition restored :: "bytes \<Rightarrow> bytes \<Rightarrow> bytes \<Rightarrow> files \<Rightarrow> files \<Rightarrow> bool" where
  "restored db bak kept e0 e \<longleftrightarrow>
     is_kept_name db kept \<and> (\<exists>s. bak = backup db s \<and> made_kept e0 (if e0 db = None then kept else db) s) \<and> e0 bak \<noteq> None \<and> e db = e0 bak \<and> e bak = None
     \<and> (if e0 db = None then e0 kept \<noteq> None \<and> e kept = e0 kept else e0 kept = None \<and> e kept = e0 db)
     \<and> (\<forall>p. tracked db p \<longrightarrow> p \<noteq> db \<longrightarrow> p \<noteq> bak \<longrightarrow> p \<noteq> kept \<longrightarrow> e p = e0 p)"

definition undo :: "bytes \<Rightarrow> files \<Rightarrow> files \<Rightarrow> bool" where
  "undo db e0 e \<longleftrightarrow> same db e0 e \<or> (\<exists>kept. moved db kept e0 e) \<or> (\<exists>bak kept. restored db bak kept e0 e)"

definition quiet :: "bool \<Rightarrow> bytes \<Rightarrow> files \<Rightarrow> bool" where
  "quiet H db e \<longleftrightarrow> (H \<longrightarrow> (\<forall>p x. tracked db p \<longrightarrow> x \<in> set side_exts \<longrightarrow> e (sidecar p x) = None))"

lemma tracked_main [simp]:
  "tracked db db" "tracked db (migrating_path db)" "tracked db (backup db s)" "is_kept_name db p \<Longrightarrow> tracked db p"
  by (auto simp: tracked_def)

lemma side_untracked:
  "x \<in> set side_exts \<Longrightarrow> q = db \<or> q = migrating_path db \<or> q = backup db s \<Longrightarrow> \<not> tracked db (sidecar q x)"
  using side_paths [of x q db] kept_distinct(5) [of db] by (auto simp: tracked_def)

lemma same_closed:
  assumes "same db e0 e" "q = db \<or> q = migrating_path db \<or> q = backup db s"
  shows "same db e0 (closed q e)"
  using assms side_untracked [of WAL_SUFFIX q db s] side_untracked [of SHM_SUFFIX q db s]
  by (auto simp: same_def closed_def)

lemma quiet_closed: "quiet H db e \<Longrightarrow> quiet H db (closed q e)"
  by (auto simp: quiet_def closed_def)

lemma same_lock: "same db e0 e \<Longrightarrow> same db e0 (e(lock_path db := x))"
  using kept_distinct(3) [of db] by (auto simp: same_def tracked_def)

lemma quiet_lock: "quiet H db e \<Longrightarrow> quiet H db (e(lock_path db := x))"
  by (auto simp: quiet_def sidecar_def lock_path_def side_exts_def suffix_defs)

lemma same_undo: "same db e0 e \<Longrightarrow> undo db e0 e"
  by (simp add: undo_def)

definition rest :: "bool \<Rightarrow> bytes \<Rightarrow> files \<Rightarrow> files \<Rightarrow> bool" where
  "rest H db e0 e \<longleftrightarrow> same db e0 e \<and> quiet H db e"

lemma rest_undo: "rest H db e0 e \<Longrightarrow> undo db e0 e"
  by (simp add: rest_def same_undo)

lemma rest_closed:
  "rest H db e0 e \<Longrightarrow> rest H db e0 (closed db e)" "rest H db e0 e \<Longrightarrow> rest H db e0 (closed (backup db s) e)"
  by (auto simp: rest_def same_closed quiet_closed)

lemma rest_at: "rest H db e0 e \<Longrightarrow> tracked db p \<Longrightarrow> e p = e0 p"
  by (simp add: rest_def same_def)

section \<open>The checks\<close>

lemma v_sides:
  assumes "tracked db p"
  shows "valid (reached H (rest H db e0)) (refuse_side_files db p) (\<lambda>_. reached H (rest H db e0)) (left H (undo db e0))"
  unfolding refuse_side_files_def
  by (rule v_refuse_each)
    (use assms in \<open>auto simp: same_undo rest_def quiet_def SIDE_SUFFIXES_def side_exts_def\<close>)

lemma valid_catch:
  assumes "valid P m Q' Y" "\<And>a. valid (Q' a) (k a) Q Y"
  shows "valid P (\<lambda>w. case m w of (Inl e, w') \<Rightarrow> (Inl (g e), w') | (Inr a, w') \<Rightarrow> k a w') Q Y"
  using assms unfolding valid_def by (force split: sum.splits prod.splits)

lemma v_check_backup:
  assumes "H \<Longrightarrow> \<exists>n. e0 (backup db s) = Some n \<and> backup_verdict R (backup db s) s (i_file n) = None"
  shows "valid (reached H (rest H db e0)) (check_backup R (backup db s) s)
    (\<lambda>_. reached H (\<lambda>e. rest H db e0 e \<and> (\<exists>n. e0 (backup db s) = Some n \<and> backup_verdict R (backup db s) s (i_file n) = None)))
    (left H (undo db e0))"
proof -
  let ?bak = "backup db s"
  let ?C = "\<lambda>f e. rest H db e0 e \<and> (\<exists>n. e0 ?bak = Some n \<and> f = i_file n)"
  have con: "valid (reached H (rest H db e0)) (connect ?bak) (\<lambda>f. reached H (?C f)) (left H (undo db e0))"
    by (rule v_connect) (use assms in \<open>auto simp: rest_undo rest_at\<close>)
  have cls: "valid (reached H (?C f)) (close ?bak) (\<lambda>_. reached H (?C f)) (left H (undo db e0))" for f
    by (rule v_close) (auto simp: rest_undo rest_closed)
  have "valid (reached H (?C f)) (case backup_verdict R ?bak s f of None \<Rightarrow> sret () | Some e \<Rightarrow> sfail e)
      (\<lambda>_. reached H (\<lambda>e. rest H db e0 e \<and> (\<exists>n. e0 ?bak = Some n \<and> backup_verdict R ?bak s (i_file n) = None))) (left H (undo db e0))" for f
    using assms by (cases "backup_verdict R ?bak s f") (auto intro!: v_ret v_fail simp: rest_undo)
  from valid_catch [OF con valid_sthen [OF cls this], of "\<lambda>e. RestoreRefused (BackupInvalid ?bak (version s) (re_show R e))"]
  show ?thesis by (simp add: check_backup_def [abs_def])
qed

lemma v_checkpoint:
  assumes "H \<Longrightarrow> \<not> re_busy R \<and> e0 db \<noteq> None"
  shows "valid (reached H (rest H db e0)) (checkpoint R db) (\<lambda>_. reached H (rest H db e0)) (left H (undo db e0))"
proof -
  have con: "valid (reached H (rest H db e0)) (connect db) (\<lambda>_. reached H (rest H db e0)) (left H (undo db e0))"
    by (rule v_connect) (use assms in \<open>auto simp: rest_undo rest_at\<close>)
  have cls: "valid (reached H (rest H db e0)) (close db) (\<lambda>_. reached H (rest H db e0)) (left H (undo db e0))"
    by (rule v_close) (auto simp: rest_undo rest_closed)
  show ?thesis unfolding checkpoint_def
    by (rule valid_sthen [OF con valid_sthen [OF cls]]) (use assms in \<open>auto intro!: v_ret v_fail simp: rest_undo\<close>)
qed

section \<open>The renames\<close>

lemma v_move_away:
  assumes "is_kept_name db kept" "e0 kept = None" "e0 db \<noteq> None"
  shows "valid (reached H (rest H db e0)) (rename db kept) (\<lambda>_. reached H (moved db kept e0)) (left H (undo db e0))"
  by (rule v_rename)
    (use assms kept_distinct(1) [of db kept] in \<open>auto simp: rest_undo rest_at moved_def\<close>)

lemma restored_put:
  assumes "is_kept_name db kept" "e0 (backup db s) = Some n" "made_kept e0 (if e0 db = None then kept else db) s"
    and "rest H db e0 e \<and> e0 db = None \<and> e0 kept \<noteq> None \<or> moved db kept e0 e"
  shows "restored db (backup db s) kept e0 (e(backup db s := None, db := Some n))"
  using assms kept_distinct(1,2) [OF assms(1)] by (auto simp: restored_def moved_def rest_at)

lemma v_put_back:
  assumes "is_kept_name db kept" "e0 (backup db s) = Some n" "made_kept e0 (if e0 db = None then kept else db) s"
    and "\<And>e. B e \<Longrightarrow> rest H db e0 e \<and> e0 db = None \<and> e0 kept \<noteq> None \<or> moved db kept e0 e"
  shows "valid (reached H B) (put_backup_in_place db (backup db s) kept)
    (\<lambda>rep. reached H (\<lambda>e. restored db (backup db s) kept e0 e
       \<and> rep = \<lparr>rr_database = db, rr_restored_from = backup db s, rr_kept_as = kept\<rparr>)) (left H (undo db e0))"
proof -
  let ?bak = "backup db s"
  have bak: "e ?bak = Some n" if "B e" for e
    using assms(4) [OF that] assms(2) kept_distinct(2) [OF assms(1), of s] by (auto simp: rest_at moved_def)
  have undo: "undo db e0 e" if "B e" for e using assms(4) [OF that] rest_undo by (auto simp: undo_def [of db e0 e] rest_def)
  have ren: "valid (reached H B) (rename ?bak db) (\<lambda>_. reached H (restored db ?bak kept e0)) (left H (undo db e0))"
  proof (rule v_rename)
    fix e m assume e: "B e" "e ?bak = Some m"
    then have "m = n" using bak [OF e(1)] by simp
    then show "restored db ?bak kept e0 (e(?bak := None, db := Some m))"
      using restored_put [OF assms(1-3) assms(4) [OF e(1)]] by simp
  qed (use bak undo in auto)
  have sync: "valid (reached H (restored db ?bak kept e0)) (sync_parent db) (\<lambda>_. reached H (restored db ?bak kept e0)) (left H (undo db e0))"
    by (rule v_sync) (auto simp: undo_def)
  show ?thesis unfolding put_backup_in_place_def
    by (rule valid_sthen [OF ren valid_sthen [OF sync]]) (auto intro!: v_ret)
qed

section \<open>Restoring\<close>

lemma v_migrated_from:
  assumes "tracked db p" "imm \<or> p = db" "H \<Longrightarrow> e0 p \<noteq> None"
  shows "valid (reached H (rest H db e0)) (migrated_from p imm)
    (\<lambda>from. reached H (\<lambda>e. rest H db e0 e \<and> (\<exists>n. e0 p = Some n \<and> from = made_by (i_file n)))) (left H (undo db e0))"
proof -
  let ?C = "\<lambda>f e. rest H db e0 e \<and> (\<exists>n. e0 p = Some n \<and> f = i_file n)"
  have con: "valid (reached H (rest H db e0)) (connect p) (\<lambda>f. reached H (?C f)) (left H (undo db e0))"
    by (rule v_connect) (use assms in \<open>auto simp: rest_undo rest_at\<close>)
  have cls: "valid (reached H (?C f)) (if imm then sret () else close p) (\<lambda>_. reached H (?C f)) (left H (undo db e0))" for f
  proof (rule valid_if)
    assume "\<not> imm"
    then have "p = db" using assms(2) by simp
    then show "valid (reached H (?C f)) (close p) (\<lambda>_. reached H (?C f)) (left H (undo db e0))"
      by (intro v_close) (auto simp: rest_undo rest_closed)
  qed (auto intro!: v_ret)
  show ?thesis unfolding migrated_from_def
    by (rule valid_sbind [OF con valid_sthen [OF cls]]) (auto intro!: v_ret simp: made_by_def)
qed

text \<open>A migrated database that can be restored, and one whose restore stopped between the renames.\<close>

definition backup_ok :: "restore_env \<Rightarrow> bytes \<Rightarrow> source_schema \<Rightarrow> files \<Rightarrow> bool" where
  "backup_ok R db s e0 \<longleftrightarrow> (\<exists>m. e0 (backup db s) = Some m \<and> backup_verdict R (backup db s) s (i_file m) = None)"

definition restorable :: "restore_env \<Rightarrow> bytes \<Rightarrow> source_schema \<Rightarrow> files \<Rightarrow> bool" where
  "restorable R db s e0 \<longleftrightarrow>
     (\<exists>n org. e0 db = Some n \<and> probe db (i_file n) = Inr FsCurrent \<and> made_by (i_file n) = Some (s, org))
     \<and> backup_ok R db s e0 \<and> e0 (migrating_path db) = None \<and> \<not> re_busy R \<and> e0 (kept_name R db) = None"

lemma v_restore_migrated:
  assumes "utc_ok (re_now R)" "e0 db \<noteq> None" and H: "H \<Longrightarrow> \<exists>s. restorable R db s e0"
  shows "valid (reached H (rest H db e0)) (restore_migrated R db)
    (\<lambda>rep. reached H (\<lambda>e. \<exists>s. restored db (backup db s) (kept_name R db) e0 e \<and> backup_ok R db s e0
       \<and> rep = \<lparr>rr_database = db, rr_restored_from = backup db s, rr_kept_as = kept_name R db\<rparr>)) (left H (undo db e0))"
    (is "valid _ _ ?Q ?X")
proof -
  let ?B = "rest H db e0" and ?kept = "kept_name R db"
  let ?away = "\<lambda>s taken. if taken then sfail (RestoreRefused (KeptNameTaken ?kept))
    else sthen (rename db ?kept) (put_backup_in_place db (backup db s) ?kept)"
  let ?late = "\<lambda>s. sthen (refuse_side_files db (backup db s)) (sthen (checkpoint R db)
    (sthen (refuse_side_files db db) (sbind (exists_path ?kept) (?away s))))"
  let ?checks = "\<lambda>s. sthen (refuse_side_files db (backup db s)) (sthen (check_backup R (backup db s) s) (?late s))"
  have k: "is_kept_name db ?kept" by (rule kept_name_recognised [OF assms(1)])
  have orig: "valid (reached H ?B) (migrated_from db False)
      (\<lambda>from. reached H (\<lambda>e. ?B e \<and> (\<forall>s org. from = Some (s, org) \<longrightarrow> made_kept e0 db s)
         \<and> (H \<longrightarrow> (\<exists>s org. from = Some (s, org) \<and> restorable R db s e0)))) ?X"
    by (rule v_post [OF v_migrated_from]) (use assms(2) H in \<open>auto simp: restorable_def made_kept_def\<close>)
  have put: "valid (reached H (moved db ?kept e0)) (put_backup_in_place db (backup db s) ?kept) ?Q ?X"
    if "backup_ok R db s e0" "made_kept e0 db s" for s
  proof -
    from that(1) obtain m where m: "e0 (backup db s) = Some m" by (auto simp: backup_ok_def)
    show ?thesis by (rule v_post [OF v_put_back [where H = H and ?e0.0 = e0 and s = s, OF k m]]) (use that assms(2) in auto)
  qed
  have away: "valid (reached H (\<lambda>e. ?B e \<and> (taken \<longleftrightarrow> e0 ?kept \<noteq> None)))
      (?away s taken) ?Q ?X"
    if "backup_ok R db s e0" "made_kept e0 db s" "H \<longrightarrow> e0 ?kept = None" for s taken
  proof (rule valid_if)
    assume t: "\<not> taken"
    show "valid (reached H (\<lambda>e. ?B e \<and> (taken \<longleftrightarrow> e0 ?kept \<noteq> None)))
        (sthen (rename db ?kept) (put_backup_in_place db (backup db s) ?kept)) ?Q ?X"
    proof (rule v_assume [where b = "e0 ?kept = None"])
      assume "e0 ?kept = None"
      show ?thesis
        by (rule v_pre [OF valid_sthen [OF v_move_away [where H = H, OF k \<open>e0 ?kept = None\<close> assms(2)] put [OF that(1,2)]]]) blast
    qed (use t in blast)
  qed (use that in \<open>auto intro!: v_fail simp: rest_undo\<close>)
  have free: "valid (reached H ?B) (exists_path ?kept) (\<lambda>taken. reached H (\<lambda>e. ?B e \<and> (taken \<longleftrightarrow> e0 ?kept \<noteq> None))) ?X"
    by (rule v_exists) (use k in \<open>auto simp: rest_undo rest_at\<close>)
  have checks: "valid (reached H ?B) (?checks s) ?Q ?X"
    if made: "made_kept e0 db s" and h: "H \<longrightarrow> restorable R db s e0" for s
  proof -
    have ok: "H \<Longrightarrow> backup_ok R db s e0" "H \<Longrightarrow> \<not> re_busy R \<and> e0 db \<noteq> None" "H \<longrightarrow> e0 ?kept = None"
      using h assms(2) by (auto simp: restorable_def)
    have rest: "valid (reached H (\<lambda>e. ?B e \<and> backup_ok R db s e0)) (?late s) ?Q ?X"
    proof (rule v_assume [where b = "backup_ok R db s e0"])
      assume b: "backup_ok R db s e0"
      have "valid (reached H ?B) (?late s) ?Q ?X"
        by (intro valid_sthen [OF v_sides] valid_sthen [OF v_checkpoint] valid_sbind [OF free] away b made ok(2,3)) auto
      then show ?thesis by (rule v_pre) blast
    qed blast
    show ?thesis
      by (rule valid_sthen [OF v_sides valid_sthen [OF v_check_backup]])
        (use ok(1) rest in \<open>auto simp: backup_ok_def\<close>)
  qed
  have there: "valid (reached H (\<lambda>e. ?B e \<and> (H \<longrightarrow> restorable R db s e0)))
      (exists_path (backup db s)) (\<lambda>there. reached H (\<lambda>e. ?B e \<and> (H \<longrightarrow> restorable R db s e0 \<and> there))) ?X" for s
    by (rule v_exists) (auto simp: rest_undo rest_at restorable_def backup_ok_def)
  have go: "valid (reached H (\<lambda>e. ?B e \<and> (H \<longrightarrow> restorable R db s e0 \<and> there)))
      (if \<not> there then sfail (RestoreRefused (NoBackup db (backup db s)))
       else ?checks s) ?Q ?X" if made: "made_kept e0 db s" for s there
  proof (rule v_assume [where b = "H \<longrightarrow> restorable R db s e0 \<and> there"])
    assume h: "H \<longrightarrow> restorable R db s e0 \<and> there"
    show ?thesis
      by (rule valid_if) (use h in \<open>auto intro!: v_fail v_pre [OF checks [OF made]] simp: rest_undo\<close>)
  qed blast
  show ?thesis unfolding restore_migrated_def Let_def kept_name_def [symmetric]
    apply (rule valid_sbind [OF orig], rule v_assume, erule conjunct2)
    subgoal for org
      by (cases org) (auto intro!: v_fail v_pre [OF valid_sbind [OF there go]] simp: rest_undo)
    done
qed

section \<open>Finishing a restore\<close>

definition stuck :: "restore_env \<Rightarrow> bytes \<Rightarrow> source_schema \<Rightarrow> bytes \<Rightarrow> files \<Rightarrow> bool" where
  "stuck R db s kept e0 \<longleftrightarrow>
     is_kept_name db kept \<and> (\<forall>p. is_kept_name db p \<longrightarrow> e0 p \<noteq> None \<longrightarrow> p \<le> kept)
     \<and> (\<exists>n org m src. e0 kept = Some n \<and> probe kept (i_file n) = Inr FsCurrent \<and> made_by (i_file n) = Some (s, org)
          \<and> e0 (backup db s) = Some m \<and> rows_in s (i_file m) = Some src \<and> made_from org (print_of src))
     \<and> backup_ok R db s e0 \<and> e0 db = None \<and> e0 (migrating_path db) = None"

lemma v_kept_files:
  "valid (reached H (rest H db e0)) (kept_files db)
     (\<lambda>ps. reached H (\<lambda>e. rest H db e0 e \<and> sorted ps \<and> set ps = {p. is_kept_name db p \<and> e0 p \<noteq> None})) (left H (undo db e0))"
  unfolding kept_files_def
proof (rule valid_op)
  fix w assume w: "calm H w" "rest H db e0 (ents w)"
  have "p \<in> fst ` set (w_dir w) \<longleftrightarrow> e0 p \<noteq> None" if "is_kept_name db p" for p
    using rest_at [OF w(2), of p] that map_of_eq_None_iff [of "w_dir w" p] by (simp add: ents_def entry_def)
  then have "set (sort (filter (is_kept_name db) (map fst (w_dir w)))) = {p. is_kept_name db p \<and> e0 p \<noteq> None}" by auto
  with w show "case Inr (sort (filter (is_kept_name db) (map fst (w_dir w))), w) of Inl e \<Rightarrow> \<not> H
      | Inr (a, w') \<Rightarrow> calm H w' \<and> rest H db e0 (ents w') \<and> sorted a \<and> set a = {p. is_kept_name db p \<and> e0 p \<noteq> None}"
    by simp
qed (rule rest_undo)

lemma last_is_newest: "sorted ps \<Longrightarrow> ps \<noteq> [] \<Longrightarrow> k \<in> set ps \<Longrightarrow> (\<forall>p \<in> set ps. p \<le> k) \<Longrightarrow> last ps = (k :: 'a :: linorder)"
  by (cases ps rule: rev_cases) (auto simp: sorted_append intro: antisym)

lemma v_inspect_kept:
  assumes "tracked db kept" "H \<Longrightarrow> \<exists>n. e0 kept = Some n \<and> probe kept (i_file n) = Inr FsCurrent"
  shows "valid (reached H (rest H db e0)) (inspect_kept R db kept) (\<lambda>_. reached H (rest H db e0)) (left H (undo db e0))"
proof -
  let ?B = "rest H db e0"
  have ex: "valid (reached H ?B) (exists_path kept) (\<lambda>there. reached H (\<lambda>e. ?B e \<and> (H \<longrightarrow> there))) (left H (undo db e0))"
    by (rule v_exists) (use assms in \<open>auto simp: rest_undo rest_at\<close>)
  have con: "valid (reached H (\<lambda>e. ?B e \<and> (H \<longrightarrow> there))) (connect kept)
      (\<lambda>f. reached H (\<lambda>e. ?B e \<and> (H \<longrightarrow> probe kept f = Inr FsCurrent))) (left H (undo db e0))" for there
    by (rule v_connect) (use assms in \<open>auto simp: rest_undo rest_at\<close>)
  have ins: "valid (reached H ?B) (inspect_db_immutable kept) (\<lambda>d. reached H (\<lambda>e. ?B e \<and> (H \<longrightarrow> d = Current))) (left H (undo db e0))"
    unfolding inspect_db_immutable_def
    by (intro valid_sbind [OF ex] valid_if valid_sbind [OF con])
      (auto intro!: v_ret v_fail simp: rest_undo split: sum.split)
  show ?thesis unfolding valid_def
  proof (intro allI impI)
    fix w assume "reached H ?B w"
    from validD [OF ins this] show "case inspect_kept R db kept w of (Inr a, s') \<Rightarrow> reached H ?B s' | (Inl e, s') \<Rightarrow> left H (undo db e0) s'"
      using rest_undo [of H db e0]
      by (auto simp: inspect_kept_def refuse_unfinished_def sfail_def reached_def left_def calm_def split: prod.splits sum.splits db_state.splits)
  qed
qed

lemma v_made_from_backup:
  assumes "H \<Longrightarrow> \<exists>m src. e0 (backup db s) = Some m \<and> rows_in s (i_file m) = Some src \<and> made_from org (print_of src)"
  shows "valid (reached H (rest H db e0)) (made_from_backup org (backup db s) s) (\<lambda>made. reached H (\<lambda>e. rest H db e0 e \<and> (H \<longrightarrow> made))) (left H (undo db e0))"
proof -
  let ?B = "rest H db e0" and ?bak = "backup db s"
  let ?C = "\<lambda>f e. ?B e \<and> (H \<longrightarrow> (\<exists>src. rows_in s f = Some src \<and> made_from org (print_of src)))"
  have con: "valid (reached H ?B) (connect ?bak) (\<lambda>f. reached H (?C f)) (left H ?B)"
    by (rule v_connect) (use assms in \<open>auto simp: rest_at\<close>)
  have cls: "valid (reached H (?C f)) (close ?bak) (\<lambda>_. reached H (?C f)) (left H ?B)" for f
    by (rule v_close) (auto simp: rest_closed)
  have fp: "valid (reached H ?B) (fingerprint_of ?bak s) (\<lambda>print. reached H (\<lambda>e. ?B e \<and> (H \<longrightarrow> made_from org print))) (left H ?B)"
    unfolding fingerprint_of_def
    by (intro valid_sbind [OF con] valid_sthen [OF cls]) (auto intro!: v_ret v_fail split: option.split)
  show ?thesis unfolding valid_def
  proof (intro allI impI)
    fix w assume "reached H ?B w"
    from validD [OF fp this] show "case made_from_backup org ?bak s w of
        (Inr made, w') \<Rightarrow> reached H (\<lambda>e. ?B e \<and> (H \<longrightarrow> made)) w' | (Inl e, w') \<Rightarrow> left H (undo db e0) w'"
      by (cases "fingerprint_of ?bak s w"; cases "fst (fingerprint_of ?bak s w)")
        (auto simp: made_from_backup_def reached_def left_def calm_def)
  qed
qed

lemma v_interrupted:
  assumes H: "H \<Longrightarrow> \<exists>s kept. stuck R db s kept e0"
  shows "valid (reached H (rest H db e0)) (interrupted_kept_file R db)
    (\<lambda>r. reached H (\<lambda>e. rest H db e0 e \<and> (case r of (kept, bak, s) \<Rightarrow> bak = backup db s \<and> is_kept_name db kept \<and> made_kept e0 kept s
       \<and> (H \<longrightarrow> stuck R db s kept e0)))) (left H (undo db e0))" (is "valid _ _ ?Q ?X")
proof -
  let ?B = "rest H db e0"
  let ?K = "\<lambda>kept. is_kept_name db kept \<and> e0 kept \<noteq> None \<and> (H \<longrightarrow> (\<exists>s. stuck R db s kept e0))"
  have newest: "?K (last ps)" if ps: "sorted ps" "set ps = {p. is_kept_name db p \<and> e0 p \<noteq> None}" "ps \<noteq> []" for ps
  proof -
    have "last ps \<in> {p. is_kept_name db p \<and> e0 p \<noteq> None}" using last_in_set [OF ps(3)] ps(2) by blast
    moreover have "\<exists>s. stuck R db s (last ps) e0" if h: H
    proof -
      obtain s kept where k: "stuck R db s kept e0" using H [OF h] by blast
      then have "last ps = kept" by (intro last_is_newest) (use ps in \<open>auto simp: stuck_def\<close>)
      with k show ?thesis by blast
    qed
    ultimately show ?thesis by blast
  qed
  have some: "H \<longrightarrow> ps \<noteq> []" if "set ps = {p. is_kept_name db p \<and> e0 p \<noteq> None}" for ps
    using H that by (fastforce simp: stuck_def)
  have side: "valid (reached H ?B) (refuse_side_files db p) (\<lambda>_. reached H ?B) ?X" if "tracked db p" for p
    by (rule v_sides [OF that])
  have made: "valid (reached H ?B) (sbind (made_from_backup org (backup db s) s) (\<lambda>made.
        if \<not> made then refuse_unfinished db (backup db s) r else sret (kept, backup db s, s))) ?Q ?X"
    if k: "?K kept" "H \<longrightarrow> stuck R db s kept e0" "H \<longrightarrow> (\<exists>n. e0 kept = Some n \<and> made_by (i_file n) = Some (s, org))"
      "made_kept e0 kept s" for kept s org r
  proof (rule valid_sbind [OF v_made_from_backup])
    show "H \<Longrightarrow> \<exists>m src. e0 (backup db s) = Some m \<and> rows_in s (i_file m) = Some src \<and> made_from org (print_of src)"
      using k(2,3) by (auto simp: stuck_def)
    fix made show "valid (reached H (\<lambda>e. ?B e \<and> (H \<longrightarrow> made)))
        (if \<not> made then refuse_unfinished db (backup db s) r else sret (kept, backup db s, s)) ?Q ?X"
      unfolding refuse_unfinished_def by (rule valid_if) (use k(1,2,4) in \<open>auto intro!: v_ret v_fail simp: rest_undo\<close>)
  qed
  have there: "valid (reached H (\<lambda>e. ?B e \<and> (H \<longrightarrow> there))) (if \<not> there then refuse_unfinished db (backup db s) r1
      else sthen (refuse_side_files db (backup db s)) (sbind (made_from_backup org (backup db s) s) (\<lambda>made.
        if \<not> made then refuse_unfinished db (backup db s) r else sret (kept, backup db s, s)))) ?Q ?X"
    if k: "?K kept" "H \<longrightarrow> stuck R db s kept e0" "H \<longrightarrow> (\<exists>n. e0 kept = Some n \<and> made_by (i_file n) = Some (s, org))"
      "made_kept e0 kept s" for kept s org r r1 there
  proof (rule valid_if)
    show "valid (reached H (\<lambda>e. ?B e \<and> (H \<longrightarrow> there))) (refuse_unfinished db (backup db s) r1) ?Q ?X" if "\<not> there"
      unfolding refuse_unfinished_def using that by (auto intro!: v_fail simp: rest_undo)
    show "valid (reached H (\<lambda>e. ?B e \<and> (H \<longrightarrow> there))) (sthen (refuse_side_files db (backup db s))
        (sbind (made_from_backup org (backup db s) s) (\<lambda>made.
          if \<not> made then refuse_unfinished db (backup db s) r else sret (kept, backup db s, s)))) ?Q ?X"
      by (rule v_pre [OF valid_sthen [OF side made [OF k]]]) auto
  qed
  have ex: "valid (reached H ?B) (exists_path (backup db s)) (\<lambda>there. reached H (\<lambda>e. ?B e \<and> (H \<longrightarrow> there))) ?X"
    if "H \<longrightarrow> stuck R db s kept e0" for s kept
    by (rule v_exists) (use that in \<open>auto simp: rest_undo rest_at stuck_def\<close>)
  have from_kept: "valid (reached H ?B) (migrated_from kept True)
      (\<lambda>orig. reached H (\<lambda>e. ?B e \<and> (\<forall>s org. orig = Some (s, org) \<longrightarrow> made_kept e0 kept s)
         \<and> (H \<longrightarrow> (\<exists>s org n. orig = Some (s, org) \<and> stuck R db s kept e0 \<and> e0 kept = Some n
         \<and> made_by (i_file n) = Some (s, org))))) ?X" if "?K kept" for kept
    by (rule v_post [OF v_migrated_from]) (use that in \<open>auto simp: stuck_def made_kept_def\<close>)
  have origin: "valid (reached H (\<lambda>e. ?B e \<and> (\<forall>s org. orig = Some (s, org) \<longrightarrow> made_kept e0 kept s)
         \<and> (H \<longrightarrow> (\<exists>s org n. orig = Some (s, org) \<and> stuck R db s kept e0 \<and> e0 kept = Some n
         \<and> made_by (i_file n) = Some (s, org)))))
      (case orig of None \<Rightarrow> refuse_unfinished db (backup db Previous) r0
       | Some (s, org) \<Rightarrow> sbind (exists_path (backup db s)) (\<lambda>there. if \<not> there then refuse_unfinished db (backup db s) (r1 s)
           else sthen (refuse_side_files db (backup db s)) (sbind (made_from_backup org (backup db s) s) (\<lambda>made.
             if \<not> made then refuse_unfinished db (backup db s) (r s) else sret (kept, backup db s, s))))) ?Q ?X"
    (is "valid ?P _ _ _") if k: "?K kept" for kept orig r0 r1 r
  proof (cases orig)
    case None
    then show ?thesis unfolding refuse_unfinished_def by (auto intro!: v_fail simp: rest_undo)
  next
    case (Some so)
    obtain s org where so: "so = (s, org)" by fastforce
    show ?thesis
    proof (rule v_assume, erule conjunct2)
      assume "(\<forall>s org. orig = Some (s, org) \<longrightarrow> made_kept e0 kept s)
         \<and> (H \<longrightarrow> (\<exists>s org n. orig = Some (s, org) \<and> stuck R db s kept e0 \<and> e0 kept = Some n
         \<and> made_by (i_file n) = Some (s, org)))"
      then have st: "H \<longrightarrow> stuck R db s kept e0" "H \<longrightarrow> (\<exists>n. e0 kept = Some n \<and> made_by (i_file n) = Some (s, org))"
        "made_kept e0 kept s" using Some so by auto
      show ?thesis unfolding Some so option.case prod.case by (rule v_pre [OF valid_sbind [OF ex [OF st(1)] there [OF k st]]]) blast
    qed
  qed
  have kept: "valid (reached H ?B) (sthen (refuse_side_files db kept) (sthen (inspect_kept R db kept)
      (sbind (migrated_from kept True) (\<lambda>orig. case orig of None \<Rightarrow> refuse_unfinished db (backup db Previous) r0
       | Some (s, org) \<Rightarrow> sbind (exists_path (backup db s)) (\<lambda>there. if \<not> there then refuse_unfinished db (backup db s) (r1 s)
           else sthen (refuse_side_files db (backup db s)) (sbind (made_from_backup org (backup db s) s) (\<lambda>made.
             if \<not> made then refuse_unfinished db (backup db s) (r s) else sret (kept, backup db s, s)))))))) ?Q ?X"
    if k: "?K kept" for kept r0 r1 r
    by (rule valid_sthen [OF side valid_sthen [OF v_inspect_kept valid_sbind [OF from_kept [OF k] origin [OF k]]]])
      (use k in \<open>auto simp: stuck_def\<close>)
  show ?thesis unfolding interrupted_kept_file_def Let_def
    apply (rule valid_sbind [OF v_kept_files], rule v_assume, erule conjunct2, rule valid_if)
    subgoal for ps using some [of ps] by (auto simp: refuse_unfinished_def rest_undo intro!: v_fail)
    subgoal for ps by (rule v_pre [OF kept [of "last ps"]], rule newest) auto
    done
qed

definition put_back :: "restore_env \<Rightarrow> bytes \<Rightarrow> files \<Rightarrow> restore_report \<Rightarrow> files \<Rightarrow> bool" where
  "put_back R db e0 rep e \<longleftrightarrow>
     rr_database rep = db \<and> restored db (rr_restored_from rep) (rr_kept_as rep) e0 e
     \<and> (\<exists>s. rr_restored_from rep = backup db s \<and> backup_ok R db s e0)"

lemma v_finish_restore:
  assumes "e0 db = None" and H: "H \<Longrightarrow> \<exists>s kept. stuck R db s kept e0"
  shows "valid (reached H (rest H db e0)) (finish_interrupted_restore R db) (\<lambda>rep. reached H (put_back R db e0 rep)) (left H (undo db e0))"
    (is "valid _ _ ?Q ?X")
proof -
  let ?B = "rest H db e0"
  have put: "valid (reached H ?B) (put_backup_in_place db (backup db s) kept) ?Q ?X"
    if k: "is_kept_name db kept" "made_kept e0 kept s" and b: "backup_ok R db s e0" for s kept
  proof -
    from b obtain m where m: "e0 (backup db s) = Some m" by (auto simp: backup_ok_def)
    show ?thesis
      by (rule v_post [OF v_put_back [where H = H and ?e0.0 = e0 and s = s, OF k(1) m]])
        (use assms(1) k b in \<open>auto simp: put_back_def made_kept_def\<close>)
  qed
  let ?late = "\<lambda>kept s. sthen (refuse_side_files db (backup db s)) (sthen (refuse_side_files db db)
    (put_backup_in_place db (backup db s) kept))"
  have late: "valid (reached H (\<lambda>e. ?B e \<and> backup_ok R db s e0)) (?late kept s) ?Q ?X"
    if k: "is_kept_name db kept" "made_kept e0 kept s" for s kept
  proof (rule v_assume, erule conjunct2)
    assume b: "backup_ok R db s e0"
    show "valid (reached H (\<lambda>e. ?B e \<and> backup_ok R db s e0)) (?late kept s) ?Q ?X"
      by (rule v_pre [OF valid_sthen [OF v_sides valid_sthen [OF v_sides put [OF k b]]]]) auto
  qed
  have checked: "valid (reached H ?B) (check_backup R (backup db s) s) (\<lambda>_. reached H (\<lambda>e. ?B e \<and> backup_ok R db s e0)) ?X"
    if "H \<longrightarrow> stuck R db s kept e0" for s kept
    by (rule v_post [OF v_check_backup]) (use that in \<open>auto simp: backup_ok_def stuck_def\<close>)
  have all: "valid (reached H ?B) (sthen (refuse_side_files db db) (sthen (refuse_side_files db (backup db s))
      (sthen (check_backup R (backup db s) s) (?late kept s)))) ?Q ?X"
    if k: "is_kept_name db kept" "made_kept e0 kept s" "H \<longrightarrow> stuck R db s kept e0" for s kept
    by (rule valid_sthen [OF v_sides valid_sthen [OF v_sides valid_sthen [OF checked [OF k(3)] late [OF k(1,2)]]]]) simp_all
  show ?thesis unfolding finish_interrupted_restore_def
    apply (rule valid_sbind [OF v_interrupted [OF H]], assumption, rule v_assume, erule conjunct2)
    subgoal for r by (cases r) (auto intro!: v_pre [OF all])
    done
qed

lemma v_any_backup:
  assumes "\<And>e. B e \<Longrightarrow> R e"
  shows "valid (reached H B) (any_backup_of ps) (\<lambda>r. reached H (\<lambda>e. B e \<and> (r \<longleftrightarrow> (\<exists>p \<in> set ps. e p \<noteq> None)))) (left H R)"
  using assms
proof (induction ps arbitrary: B)
  case (Cons p ps)
  have ex: "valid (reached H B) (exists_path p) (\<lambda>there. reached H (\<lambda>e. B e \<and> (there \<longleftrightarrow> e p \<noteq> None))) (left H R)"
    by (rule v_exists) (use Cons.prems in auto)
  have "valid (reached H (\<lambda>e. B e \<and> e p = None)) (any_backup_of ps)
      (\<lambda>r. reached H (\<lambda>e. (B e \<and> e p = None) \<and> (r \<longleftrightarrow> (\<exists>p \<in> set ps. e p \<noteq> None)))) (left H R)"
    by (rule Cons.IH) (use Cons.prems in blast)
  then have later: "valid (reached H (\<lambda>e. B e \<and> e p = None)) (any_backup_of ps)
      (\<lambda>r. reached H (\<lambda>e. B e \<and> (r \<longleftrightarrow> (\<exists>p \<in> set (p # ps). e p \<noteq> None)))) (left H R)" by (rule v_post) auto
  have step: "valid (reached H (\<lambda>e. B e \<and> (there \<longleftrightarrow> e p \<noteq> None))) (if there then sret True else any_backup_of ps)
      (\<lambda>r. reached H (\<lambda>e. B e \<and> (r \<longleftrightarrow> (\<exists>p \<in> set (p # ps). e p \<noteq> None)))) (left H R)" for there
  proof (rule valid_if)
    show "valid (reached H (\<lambda>e. B e \<and> (there \<longleftrightarrow> e p \<noteq> None))) (any_backup_of ps)
        (\<lambda>r. reached H (\<lambda>e. B e \<and> (r \<longleftrightarrow> (\<exists>p \<in> set (p # ps). e p \<noteq> None)))) (left H R)" if "\<not> there"
      by (rule v_pre [OF later]) (use that in blast)
  qed (auto intro!: v_ret)
  show ?case unfolding any_backup_of.simps by (rule valid_sbind [OF ex step])
qed (auto intro!: v_ret)

lemma v_inspect_rest:
  assumes "\<And>n. H \<Longrightarrow> e0 db = Some n \<Longrightarrow> \<exists>fs. probe db (i_file n) = Inr fs"
  shows "valid (reached H (rest H db e0)) (inspect_db db)
    (\<lambda>d. reached H (\<lambda>e. rest H db e0 e \<and> (case e0 db of None \<Rightarrow> d = Absent
       | Some n \<Rightarrow> \<exists>fs. probe db (i_file n) = Inr fs \<and> d = db_state_of fs))) (left H (undo db e0))"
    (is "valid _ _ (\<lambda>d. reached H (?Q d)) ?X")
proof -
  let ?B = "rest H db e0"
  have ex: "valid (reached H ?B) (exists_path db) (\<lambda>there. reached H (\<lambda>e. ?B e \<and> (there \<longleftrightarrow> e0 db \<noteq> None))) ?X"
    by (rule v_exists) (auto simp: rest_undo rest_at)
  let ?C = "\<lambda>f e. ?B e \<and> (\<exists>n. e0 db = Some n \<and> f = i_file n)"
  have con: "valid (reached H (\<lambda>e. ?B e \<and> e0 db \<noteq> None)) (connect db) (\<lambda>f. reached H (?C f)) ?X"
    by (rule v_connect) (auto simp: rest_undo rest_at)
  have cls: "valid (reached H (?C f)) (close db) (\<lambda>_. reached H (?C f)) ?X" for f
    by (rule v_close) (auto simp: rest_undo rest_closed)
  have ans: "valid (reached H (?C f)) (case probe db f of Inl e \<Rightarrow> sfail e | Inr s \<Rightarrow> sret (db_state_of s)) (\<lambda>d. reached H (?Q d)) ?X" for f
    using assms by (cases "probe db f") (auto intro!: v_ret v_fail simp: rest_undo)
  have there: "valid (reached H (\<lambda>e. ?B e \<and> e0 db \<noteq> None)) (sbind (connect db) (\<lambda>f. sthen (close db)
      (case probe db f of Inl e \<Rightarrow> sfail e | Inr s \<Rightarrow> sret (db_state_of s)))) (\<lambda>d. reached H (?Q d)) ?X"
    by (rule valid_sbind [OF con valid_sthen [OF cls ans]])
  show ?thesis unfolding inspect_db_def
    by (rule valid_sbind [OF ex valid_if]) (auto intro!: v_ret v_pre [OF there])
qed

lemma rest_lock: "rest H db e0 e \<Longrightarrow> rest H db e0 (e(lock_path db := x))"
  by (simp add: rest_def same_lock quiet_lock)

definition seen_db :: "bytes \<Rightarrow> files \<Rightarrow> db_state \<Rightarrow> bool" where
  "seen_db db e0 d \<longleftrightarrow>
     (case e0 db of None \<Rightarrow> d = Absent | Some n \<Rightarrow> \<exists>fs. probe db (i_file n) = Inr fs \<and> d = db_state_of fs)"

lemma seen_db_Absent: "seen_db db e0 d \<Longrightarrow> d = Absent \<longleftrightarrow> e0 db = None"
proof -
  have "db_state_of s \<noteq> Absent" for s by (cases s) auto
  then show "seen_db db e0 d \<Longrightarrow> d = Absent \<longleftrightarrow> e0 db = None" by (auto simp: seen_db_def split: option.splits)
qed

lemma v_restore_backup:
  assumes "utc_ok (re_now R)" and H: "H \<Longrightarrow> (\<exists>s. restorable R db s e0) \<or> (\<exists>s kept. stuck R db s kept e0)"
  shows "valid (reached H (rest H db e0)) (restore_backup R db) (\<lambda>rep. reached H (put_back R db e0 rep)) (left H (undo db e0))"
    (is "valid _ _ ?Q ?X")
proof -
  let ?B = "rest H db e0" and ?mig = "migrating_path db"
  let ?F = "\<lambda>d i. seen_db db e0 d \<and> (i \<longleftrightarrow> d = Absent \<and> (\<exists>s. e0 (backup db s) \<noteq> None))"
  have lock: "valid (reached H ?B) (acquire_lock db) (\<lambda>_. reached H ?B) ?X"
    by (rule v_acquire_lock) (auto simp: rest_undo rest_lock)
  have ins: "valid (reached H ?B) (inspect_db db) (\<lambda>d. reached H (\<lambda>e. ?B e \<and> seen_db db e0 d)) ?X"
    unfolding seen_db_def by (rule v_inspect_rest) (use H in \<open>auto simp: restorable_def stuck_def\<close>)
  have both: "(\<exists>s. P s) \<longleftrightarrow> P Legacy \<or> P Previous" for P :: "source_schema \<Rightarrow> bool" by (metis source_schema.exhaust)
  have some: "(\<exists>p \<in> set (backups db). e p \<noteq> None) \<longleftrightarrow> (\<exists>s. e0 (backup db s) \<noteq> None)" if "?B e" for e
    using rest_at [OF that, of "backup db Legacy"] rest_at [OF that, of "backup db Previous"]
    unfolding both by (simp add: backups_def del: backup.simps)
  have int: "valid (reached H (\<lambda>e. ?B e \<and> seen_db db e0 d)) (if d = Absent then any_backup_of (backups db) else sret False)
      (\<lambda>i. reached H (\<lambda>e. ?B e \<and> ?F d i)) ?X" for d
  proof (rule valid_if)
    assume "d = Absent"
    have "valid (reached H (\<lambda>e. ?B e \<and> seen_db db e0 d)) (any_backup_of (backups db))
      (\<lambda>i. reached H (\<lambda>e. (?B e \<and> seen_db db e0 d) \<and> (i \<longleftrightarrow> (\<exists>p \<in> set (backups db). e p \<noteq> None)))) ?X"
      by (rule v_any_backup) (auto simp: rest_undo)
    then show "valid (reached H (\<lambda>e. ?B e \<and> seen_db db e0 d)) (any_backup_of (backups db)) (\<lambda>i. reached H (\<lambda>e. ?B e \<and> ?F d i)) ?X"
    proof (rule v_post)
      fix i e assume "(?B e \<and> seen_db db e0 d) \<and> (i \<longleftrightarrow> (\<exists>p \<in> set (backups db). e p \<noteq> None))"
      then show "?B e \<and> ?F d i" using some [of e] \<open>d = Absent\<close> by simp
    qed
  qed (auto intro!: v_ret)
  have mig: "valid (reached H ?B) (exists_path ?mig) (\<lambda>there. reached H (\<lambda>e. ?B e \<and> (H \<longrightarrow> \<not> there))) ?X"
    by (rule v_exists) (use H in \<open>auto simp: rest_undo rest_at restorable_def stuck_def\<close>)
  have current: "valid (reached H ?B) (restore_migrated R db) ?Q ?X" if f: "?F d i" "\<not> i" "d = Current" for d i
  proof -
    have "H \<Longrightarrow> \<exists>s. restorable R db s e0" "e0 db \<noteq> None"
      using H f seen_db_Absent [of db e0 d] by (auto simp: stuck_def)
    then show ?thesis
      by (intro v_post [OF v_restore_migrated [OF assms(1)]]) (auto simp: put_back_def)
  qed
  have absent: "valid (reached H ?B) (finish_interrupted_restore R db) ?Q ?X" if f: "?F d i" "i" for d i
  proof (rule v_finish_restore)
    show "e0 db = None" using f seen_db_Absent [of db e0 d] by blast
    then show "H \<Longrightarrow> \<exists>s kept. stuck R db s kept e0" using H by (auto simp: restorable_def)
  qed
  let ?go = "\<lambda>i there. if there then sfail (RestoreRefused (MigrationCopyPresent db ?mig))
    else if i then finish_interrupted_restore R db else restore_migrated R db"
  have go: "valid (reached H (\<lambda>e. ?B e \<and> (H \<longrightarrow> \<not> there))) (?go i there) ?Q ?X"
    if f: "?F d i" "i \<or> d = Current" for d i there
    by (intro valid_if) (use f in \<open>auto intro!: v_fail v_pre [OF absent [OF f(1)]] v_pre [OF current [OF f(1)]] simp: rest_undo\<close>)
  have decide: "valid (reached H (\<lambda>e. ?B e \<and> ?F d i)) (if \<not> i \<and> d \<noteq> Current then sfail (RestoreRefused (NotMigrated db (describe_db d)))
      else sbind (exists_path ?mig) (?go i)) ?Q ?X" for d i
  proof (rule v_assume, erule conjunct2, rule valid_if)
    assume f: "?F d i"
    show "valid (reached H (\<lambda>e. ?B e \<and> ?F d i)) (sbind (exists_path ?mig) (?go i)) ?Q ?X" if "\<not> (\<not> i \<and> d \<noteq> Current)"
      by (rule v_pre [OF valid_sbind [OF mig go [OF f]]]) (use that in auto)
    have "\<not> H" if "\<not> i \<and> d \<noteq> Current"
    proof
      assume H
      from H [OF this] f that show False
        by (elim disjE exE) (auto simp: restorable_def stuck_def backup_ok_def seen_db_def)
    qed
    then show "valid (reached H (\<lambda>e. ?B e \<and> ?F d i)) (sfail (RestoreRefused (NotMigrated db (describe_db d)))) ?Q ?X"
      if "\<not> i \<and> d \<noteq> Current"
      using that by (auto intro!: v_fail simp: rest_undo)
  qed
  show ?thesis unfolding restore_backup_def by (rule valid_sthen [OF lock valid_sbind [OF ins valid_sbind [OF int decide]]])
qed

section \<open>Properties\<close>

lemma undo_keeps:
  assumes "undo db e0 e" "tracked db p" "e0 p = Some n"
  shows "\<exists>q. tracked db q \<and> e q = Some n"
proof -
  consider "same db e0 e" | kept where "moved db kept e0 e" | bak kept where "restored db bak kept e0 e"
    using assms(1) by (auto simp: undo_def)
  then show ?thesis
  proof cases
    case 1
    then show ?thesis using assms by (auto simp: same_def)
  next
    case 2
    then show ?thesis using assms(2,3)
      by (cases "p = db"; cases "p = kept") (auto simp: moved_def intro: exI [of _ kept])
  next
    case 3
    show ?thesis
    proof (cases "p = db \<or> p = bak \<or> p = kept")
      case True
      then show ?thesis using 3 assms(3)
        by (auto simp: restored_def split: if_splits intro: exI [of _ kept] exI [of _ db])
    next
      case False
      then show ?thesis using 3 assms(2,3) by (auto simp: restored_def)
    qed
  qed
qed

lemma rest_refl: "(H \<longrightarrow> quiet True db e) \<Longrightarrow> rest H db e e"
  by (cases H) (simp_all add: rest_def same_def quiet_def)

lemma restore_outcome:
  assumes "utc_ok (re_now R)" "w_later w = []"
  shows "case restore_backup R db w of
      (Inr rep, w') \<Rightarrow> put_back R db (ents w) rep (ents w') | (Inl err, w') \<Rightarrow> undo db (ents w) (ents w')"
    and "w_later (snd (restore_backup R db w)) = []"
proof -
  have "reached False (rest False db (ents w)) w" using assms(2) rest_refl [of False] by (simp add: reached_def calm_def)
  from validD [OF v_restore_backup [OF assms(1)] this]
  show "case restore_backup R db w of
      (Inr rep, w') \<Rightarrow> put_back R db (ents w) rep (ents w') | (Inl err, w') \<Rightarrow> undo db (ents w) (ents w')"
    "w_later (snd (restore_backup R db w)) = []"
    by (auto simp: reached_def left_def calm_def split: prod.splits sum.splits)
qed

definition no_kept :: "bytes \<Rightarrow> files \<Rightarrow> bool" where
  "no_kept db e \<longleftrightarrow> (\<forall>p. is_kept_name db p \<longrightarrow> e p = None)"

text \<open>A migrated database beside its backup, and a restore that stops at its first step.\<close>

definition example_restore :: restore_env where
  "example_restore = \<lparr>re_show = (\<lambda>_. []), re_busy = False,
     re_now = \<lparr>t_year = 2026, t_month = 1, t_day = 2, t_hour = 3, t_minute = 4, t_second = 5\<rparr>\<rparr>"

definition example_copy :: copy_db where
  "example_copy = snd (target_copy (pe_copy (j_env example_job)) (pe_options (j_env example_job)) (j_src example_job) 2
     (pe_stop (j_env example_job)) (target_create (j_schema example_job) (print_of (j_src example_job))))"

definition migrated_inode :: inode where
  "migrated_inode = example_inode\<lparr>i_file := copy_file (finalize ''2026'' example_copy)\<rparr>"

definition migrated_world :: world where
  "migrated_world = \<lparr>w_dir = [(''db'', migrated_inode), (''db.schema0.bak'', example_inode)], w_held = [], w_lock_held = False,
     w_faults = [Some cannot_open], w_later = []\<rparr>"

lemma example_job_healthy: "healthy example_job"
  using example_healthy
  by (simp add: start_job_def start_env_def calm_start_def example_job_def example_prep_def Let_def)

lemma example_migrated: "readied example_job (Some migrated_inode)"
proof -
  let ?c0 = "target_create (j_schema example_job) (print_of (j_src example_job))"
  let ?t = "target_copy (pe_copy (j_env example_job)) (pe_options (j_env example_job)) (j_src example_job) 2
    (pe_stop (j_env example_job)) ?c0"
  have m: "made_here example_job ?c0" using create_made_here [OF example_job_ok] by blast
  have "?t = (Inr Finished, example_copy)"
    using healthy_copy [OF example_job_ok example_job_healthy m, of 2] by (simp add: example_copy_def prod_eq_iff)
  from target_copy_made_here [OF example_job_ok m this] show ?thesis
    unfolding migrated_inode_def by (auto intro: readiedI)
qed

lemma migrated_entry:
  "entry p migrated_world = (if p = ''db'' then Some migrated_inode else if p = ''db.schema0.bak'' then Some example_inode else None)"
  by (simp add: entry_def migrated_world_def)

lemma example_swapped: "swapped example_job (ents migrated_world)"
  using example_migrated
  by (simp add: swapped_def ents_def migrated_entry example_job_def sidecar_def migrating_path_def suffix_defs)

lemma example_utc: "utc_ok (re_now example_restore)"
  by (simp add: utc_ok_def example_restore_def)

lemma side_last: "x \<in> set side_exts \<Longrightarrow> last (sidecar p x) \<in> {CHR ''l'', CHR ''m''}"
  by (auto simp: side_exts_def sidecar_def suffix_defs)

lemma example_sides: "x \<in> set side_exts \<Longrightarrow> entry (sidecar p x) migrated_world = None"
  using side_last [of x p] by (auto simp: migrated_entry)

lemma example_no_kept: "no_kept (j_db example_job) (ents migrated_world)"
  using kept_distinct(1,2) [of "''db''"] kept_distinct(2) [of "''db''" _ Legacy]
  by (auto simp: no_kept_def ents_def migrated_entry example_job_def sidecar_def suffix_defs)

lemma example_stopped:
  "ents ((snd (restore_backup example_restore (j_db example_job) migrated_world))\<lparr>w_faults := [], w_held := [], w_lock_held := False\<rparr>)
   = ents migrated_world"
  by (simp add: restore_backup_def acquire_lock_def mode_of_def sthen_def sbind_def fsop_def migrated_world_def ents_def entry_def fun_eq_iff)

text \<open>
  C11. A restore never loses a database. Whatever fails, whatever it refuses and wherever it is
  killed, every database of the directory is still there afterwards, byte for byte, under one of
  the names a restore uses: nothing has been renamed, or the migrated database has been moved to
  a kept name that was free, or also the backup has been moved to the path this freed. When it
  reports success, the path holds the backup, which was an intact database of the schema the
  migration had copied from.
\<close>

theorem restore_loses_no_database:
  assumes "utc_ok (re_now R)" and "w_later w = []" and "tracked db p" and "entry p w = Some n"
  shows "(case restore_backup R db w of
      (Inr rep, w') \<Rightarrow> put_back R db (ents w) rep (ents w') | (Inl err, w') \<Rightarrow> undo db (ents w) (ents w'))
    \<and> (\<exists>q. tracked db q \<and> entry q (snd (restore_backup R db w)) = Some n)"
proof -
  note out = restore_outcome(1) [OF assms(1,2), of db]
  then have "undo db (ents w) (ents (snd (restore_backup R db w)))"
    by (cases "restore_backup R db w"; cases "fst (restore_backup R db w)") (auto simp: put_back_def undo_def)
  from undo_keeps [OF this assms(3)] assms(4) show ?thesis using out by (auto simp: entry_ents)
qed

theorem restore_loses_no_database_witness:
  "\<exists>q. tracked ''db'' q \<and> entry q (snd (restore_backup example_restore ''db'' migrated_world)) = Some migrated_inode"
proof -
  have "w_later migrated_world = []" "entry ''db'' migrated_world = Some migrated_inode"
    by (simp_all add: migrated_world_def entry_def)
  from restore_loses_no_database [OF example_utc this(1) tracked_main(1) this(2)] show ?thesis by blast
qed

lemma probe_any_name: "probe a f = Inr fs \<Longrightarrow> probe b f = Inr fs"
  by (auto simp: probe_def Let_def split: if_splits)

lemma older_backup_ok:
  assumes "job_ok J" "df_quick_check (i_file (j_inode J)) = QUICK_CHECK_OK"
    and "e (backup (j_db J) (j_schema J)) = Some (j_inode J)"
  shows "backup_ok R (j_db J) (j_schema J) e"
proof -
  obtain fs where fs: "probe (j_db J) (i_file (j_inode J)) = Inr fs" "db_state_of fs = Older (j_schema J)"
    using assms(1) by (auto simp: job_ok_def)
  have "fs = expected_schema (j_schema J)" using fs(2) by (cases fs; cases "j_schema J") auto
  then show ?thesis using assms(2,3) probe_any_name [OF fs(1)] by (auto simp: backup_ok_def backup_verdict_def Let_def)
qed

lemma readied_made_by:
  assumes "readied J (Some i)"
  shows "\<exists>org. made_by (i_file i) = Some (j_schema J, org) \<and> made_from org (print_of (j_src J)) \<and> probe name (i_file i) = Inr FsCurrent"
proof -
  from readied_state [OF assms, of name] obtain c where c: "i_file i = copy_file c" "made_here J c" "probe name (i_file i) = Inr FsCurrent"
    by blast
  then have "made_by (i_file i) = Some (j_schema J, cp_origin c)"
    by (simp add: made_by_def copy_file_origin made_here_def schema_version.decode_encode)
  then show ?thesis using c made_here_made_from by blast
qed

lemma swapped_restorable:
  assumes "job_ok J" "df_quick_check (i_file (j_inode J)) = QUICK_CHECK_OK" "swapped J e" "no_kept (j_db J) e"
    and "utc_ok (re_now R)" "\<not> re_busy R" "same (j_db J) e e'"
  shows "restorable R (j_db J) (j_schema J) e'"
proof -
  have e': "e' p = e p" if "tracked (j_db J) p" for p using assms(7) that by (simp add: same_def)
  obtain i where i: "e (j_db J) = Some i" "readied J (Some i)" using assms(3) by (auto simp: swapped_def readied_def)
  have "e' (backup (j_db J) (j_schema J)) = Some (j_inode J)" "e' (migrating_path (j_db J)) = None"
    using assms(3) e' by (simp_all add: swapped_def)
  moreover have "e' (kept_name R (j_db J)) = None"
    using assms(4) kept_name_recognised [OF assms(5)] e' by (simp add: no_kept_def)
  ultimately show ?thesis
    using readied_made_by [OF i(2), of "j_db J"] i(1) e' assms(6) older_backup_ok [OF assms(1,2), of e' R]
    by (auto simp: restorable_def)
qed

lemma moved_stuck:
  assumes "job_ok J" "df_quick_check (i_file (j_inode J)) = QUICK_CHECK_OK" "swapped J e" "no_kept (j_db J) e"
    and "moved (j_db J) kept e e'"
  shows "stuck R (j_db J) (j_schema J) kept e'"
proof -
  let ?db = "j_db J" and ?bak = "backup (j_db J) (j_schema J)"
  have k: "is_kept_name ?db kept" "e' kept = e ?db" "e' ?db = None" using assms(5) by (simp_all add: moved_def)
  have rest: "e' p = e p" if "tracked ?db p" "p \<noteq> ?db" "p \<noteq> kept" for p using assms(5) that by (simp add: moved_def)
  obtain i where i: "e ?db = Some i" "readied J (Some i)" using assms(3) by (auto simp: swapped_def readied_def)
  have "e' ?bak = Some (j_inode J)" "e' (migrating_path ?db) = None"
    using rest [of ?bak] rest [of "migrating_path ?db"] assms(3) kept_distinct [OF k(1)] by (auto simp: swapped_def)
  moreover have "p \<le> kept" if "is_kept_name ?db p" "e' p \<noteq> None" for p
    using rest [of p] that assms(4) kept_distinct(1) [of ?db p] by (cases "p = kept") (auto simp: no_kept_def)
  moreover have "rows_in (j_schema J) (i_file (j_inode J)) = Some (j_src J)" using assms(1) by (simp add: job_ok_def)
  ultimately show ?thesis
    using readied_made_by [OF i(2), of kept] i(1) k older_backup_ok [OF assms(1,2), of e' R] by (auto simp: stuck_def)
qed

lemma healthy_restore:
  assumes "utc_ok (re_now R)" "(\<exists>s. restorable R db s (ents w)) \<or> (\<exists>s kept. stuck R db s kept (ents w))"
    and "calm True w" "quiet True db (ents w)"
  shows "\<exists>rep w'. restore_backup R db w = (Inr rep, w') \<and> put_back R db (ents w) rep (ents w')"
proof -
  have "reached True (rest True db (ents w)) w" using assms(3,4) rest_refl [of True] by (simp add: reached_def)
  from validD [OF v_restore_backup [OF assms(1,2)] this] show ?thesis
    by (cases "restore_backup R db w"; cases "fst (restore_backup R db w)") (auto simp: reached_def left_def)
qed

text \<open>The older file is back where it was, the migrated one is kept, and nothing else is in the way.\<close>

definition reverted :: "job \<Rightarrow> inode option \<Rightarrow> files \<Rightarrow> bool" where
  "reverted J migrated e \<longleftrightarrow>
     e (j_db J) = Some (j_inode J) \<and> e (backup (j_db J) (j_schema J)) = None \<and> e (migrating_path (j_db J)) = None
     \<and> (\<exists>kept. is_kept_name (j_db J) kept \<and> e kept = migrated)"

lemma reverted_recoverable: "reverted J m e \<Longrightarrow> recoverable J e"
  by (rule unswapped_recoverable [where K = "foreign J"]) (auto simp: reverted_def unswapped_def foreign_def)

lemma restored_reverted:
  assumes "swapped J e0" "restored (j_db J) bak kept e0 e"
  shows "reverted J (e0 (j_db J)) e"
proof -
  obtain i where i: "e0 (j_db J) = Some i" "readied J (Some i)" using assms(1) by (auto simp: swapped_def readied_def)
  have s: "bak = backup (j_db J) (j_schema J)"
    using readied_made_by [OF i(2)] assms(2) i(1) by (auto simp: restored_def made_kept_def)
  have k: "is_kept_name (j_db J) kept" using assms(2) by (simp add: restored_def)
  have "e (migrating_path (j_db J)) = e0 (migrating_path (j_db J))"
    using assms(2) kept_distinct(4) [OF k] by (auto simp: restored_def)
  then show ?thesis using assms(1,2) i k unfolding s by (auto simp: reverted_def restored_def swapped_def)
qed

lemma moved_reverted:
  assumes "swapped J e0" "no_kept (j_db J) e0" "moved (j_db J) kept e0 e1"
    and "restored (j_db J) bak kept' e1 e2"
  shows "reverted J (e0 (j_db J)) e2"
proof -
  let ?db = "j_db J"
  obtain i where i: "e0 ?db = Some i" "readied J (Some i)" using assms(1) by (auto simp: swapped_def readied_def)
  have k: "is_kept_name ?db kept" "is_kept_name ?db kept'" "e1 ?db = None" "e1 kept = Some i"
    using assms(3,4) i by (auto simp: moved_def restored_def)
  have r: "e1 p = e0 p" if "tracked ?db p" "p \<noteq> ?db" "p \<noteq> kept" for p using assms(3) that by (simp add: moved_def)
  have "e1 kept' \<noteq> None" using assms(4) k(3) by (auto simp: restored_def)
  moreover have "e1 kept' = None" if "kept' \<noteq> kept"
    using r [of kept'] that k(2) assms(2) kept_distinct(1) [OF k(2)] by (simp add: no_kept_def)
  ultimately have kk: "kept' = kept" by (cases "kept' = kept") auto
  let ?bak = "backup ?db (j_schema J)"
  have s: "bak = ?bak"
    using readied_made_by [OF i(2)] assms(4) k(3,4) by (auto simp: restored_def made_kept_def kk)
  have "e2 (migrating_path ?db) = e0 (migrating_path ?db)" "e1 ?bak = e0 ?bak"
    using assms(4) kept_distinct(2,4) [OF k(1)] r [of "migrating_path ?db"] r [of ?bak]
    by (auto simp: restored_def kk s)
  moreover have "e2 ?db = e1 ?bak" "e2 ?bak = None" "e2 kept = Some i"
    using assms(4) k(3,4) by (auto simp: restored_def kk s)
  ultimately show ?thesis using assms(1) i k(1) by (auto simp: reverted_def swapped_def)
qed



end
