(* ===== verification/Spec2Isabelle.thy ===== *)
theory Spec2Isabelle
  imports Prelude Rust_Str Rust_Net Smtp_Message Smtp_Session Smtp_Framing Smtp_Safety Smtp_Server
    Storage_Error Storage_Content Storage_Tables Storage_Repo Storage_Invariant Storage_Query Storage_Reclaim
    Ingest Api_Guard Api_Handlers Api_Listing Api_Responses Ws_Session Server_Sync Server_Config
    Tui_Api Tui_App Tui_Keep Tui_Sync Tui_Runs Tui_Socket Tui_Client
    Migrate_Print Migrate_Copy Migrate_Views Migrate_Kept Schema_File Migrate_Files Migrate_Calls Migrate_Build
    Migrate_Safe Migrate_Starts Migrate_Restore Migrate_Undo
begin

text \<open>
  \<^bold>\<open>RustMail\<close> is an SMTP mail catcher: it accepts mail on an SMTP port, stores it in SQLite and
  serves it over a REST API and a WebSocket. This development models its Rust crates and proves
  what makes them correct.

  \<^bold>\<open>Parts of the program and how they meet.\<close> An SMTP session (\<open>rustmail-smtp\<close>) reads commands and
  data, hands each complete message over a queue together with a one-shot acknowledgement, and
  answers 250 or 451 by the verdict it gets back. The message processor
  (\<open>rustmail-server/src/main.rs\<close>) takes deliveries off the queue in batches, stores them through
  the repository (\<open>rustmail-storage\<close>), acknowledges each and announces it to WebSocket clients.
  The API (\<open>rustmail-api\<close>) lists, searches, serves, changes, deletes and releases messages and
  broadcasts each change. A retention task deletes old or excess messages and gives free pages
  back. Before any of this the storage layer opens the database file: a file of an older version
  is copied into the current schema beside it, batch by batch and resumably, verified and swapped
  in, the older file staying as a backup that a command can put back. A terminal client
  (\<open>rustmail-tui\<close>) shows a page of the list, keeps it current from the WebSocket and repairs it
  when frames were lost.

  \<^bold>\<open>Theories.\<close>
  \<^item> \<open>Prelude\<close>: results, calls that may fail and change a state (\<open>sbind\<close> is \<open>?\<close>), shared lemmas, the
    locales \<open>kept_invariant\<close> (a machine that keeps an invariant; interpreted on the accept loop,
    the repository's writes, the whole server, the terminal client, its log of fetches, the copy of
    a migration, the starts of a migration) and \<open>code_table\<close> (interpreted on the transfer encodings
    and on the schema versions).
  \<^item> \<open>Rust_Str\<close>, \<open>Rust_Net\<close>: what the source uses of the standard library (UTF-8, white space,
    splitting, integer parsing with its overflow errors, IP addresses, header maps).
  \<^item> \<open>Smtp_Message\<close> (\<open>message.rs\<close>), \<open>Smtp_Session\<close> (\<open>session.rs\<close>), \<open>Smtp_Server\<close> (\<open>server.rs\<close>): the
    acknowledgement, the session as a loop over bytes that arrive in arbitrary pieces with read and
    write errors, the accept loop with its permits as a step relation. \<open>Smtp_Framing\<close> proves the data
    framing (dot stuffing, terminator, size, independence of chunking), \<open>Smtp_Safety\<close> the session's
    invariants over the locale \<open>session_invariant\<close> (what is handed over, how it is answered, STARTTLS, the command cap).
  \<^item> \<open>Storage_Error\<close>, \<open>Storage_Content\<close> (\<open>content.rs\<close>, \<open>locator.rs\<close>, \<open>prepared.rs\<close>): errors and their
    classes, compression, attachments kept as places in the source.
  \<^item> \<open>Storage_Tables\<close> (\<open>schema.rs\<close>), \<open>Storage_Repo\<close>, \<open>Storage_Query\<close> (\<open>repo.rs\<close>, \<open>query.rs\<close>): tables as lists
    in rowid order with constraints, triggers and cascades; statements that may fail by a script
    (\<open>faults\<close>); transactions that roll back; the lock retry. The locale \<open>atomic_write\<close> is the
    contract of a write (an error leaves the tables alone), interpreted on the writes.
    \<open>Storage_Invariant\<close> proves the invariant \<open>db_wf\<close> and what each write does; \<open>Storage_Query\<close> pages,
    search, counts and reading back.
  \<^item> \<open>Storage_Reclaim\<close> (\<open>reclaim.rs\<close>): page counts, bounded vacuum steps, the retention threshold.
  \<^item> \<open>Ingest\<close> (\<open>main.rs\<close>): batches, transactions, the fallback to single inserts, verdicts and
    announcements over the locale \<open>message_store\<close>, interpreted on the repository.
  \<^item> \<open>Api_Guard\<close> (\<open>origin.rs\<close>, \<open>host.rs\<close>), \<open>Api_Handlers\<close> (\<open>handlers.rs\<close>, \<open>state.rs\<close>, \<open>lib.rs\<close>),
    \<open>Ws_Session\<close> (\<open>ws.rs\<close>): the origin check and the DNS rebinding guard, every handler as a call on the
    application state, the WebSocket loop as a step relation. \<open>Api_Listing\<close> proves what following
    \<open>next_cursor\<close> collects, \<open>Api_Responses\<close> what a release and a served file may contain.
  \<^item> \<open>Server_Sync\<close> (\<open>main.rs\<close>): the retention sweep, and that the events broadcast by the processor, the
    handlers and the sweep keep a client's list equal to the database; below, the same for a client
    behind a WebSocket connection. \<open>Server_Config\<close> (\<open>main.rs\<close>): configuration, addresses, the assert
    command.
  \<^item> \<open>Schema_File\<close> (\<open>schema.rs\<close>): a database file as version, catalogue and rows, its inspection and
    the creation of the schema.
  \<^item> \<open>Migrate_Print\<close> (\<open>migrate/fingerprint.rs\<close>): the older layouts, the paged scan and its FNV-1a
    fingerprint. The locale \<open>self_delimiting\<close> (a field whose bytes say where they end) is interpreted
    on every field and row the hash reads, so the hashed stream determines the rows.
  \<^item> \<open>Migrate_Copy\<close> (\<open>migrate/build.rs\<close>): batches, workers, the plan for each attachment, the
    transaction of a batch, verification. \<open>Migrate_Views\<close> states what a finished copy is to hold
    (\<open>views\<close>) and that every batch, over the locales \<open>row_insert\<close> and \<open>checked_insert\<close> of the
    insert statements, leaves exactly a stretch of it; \<open>Migrate_Kept\<close> concludes what resuming,
    finishing and reading back the copy give.
  \<^item> \<open>Migrate_Files\<close> (\<open>migrate.rs\<close>), \<open>Migrate_Restore\<close> (\<open>migrate/restore.rs\<close>): the directory with its
    files, what a start does in each state it may find, the build under the lock of the source, the
    two renames of the swap, and the restore of a backup.
  \<^item> \<open>Migrate_Calls\<close>: a small logic of calls that may fail at any step, with a rule for each operation on
    the directory. \<open>Migrate_Build\<close> states the states the files of a migration can be in and that the
    build stays within them, \<open>Migrate_Safe\<close> the same for the swap and everything else a start does;
    \<open>Migrate_Starts\<close> concludes what holds after any number of starts, \<open>Migrate_Undo\<close> what a restore
    keeps and gives back.
  \<^item> \<open>Tui_Api\<close> (\<open>api.rs\<close>, \<open>ui/util.rs\<close>), \<open>Tui_App\<close> (\<open>app.rs\<close>, \<open>event.rs\<close>): the terminal client's
    requests and its state with one definition per handler of \<open>dispatch\<close>. \<open>Tui_Keep\<close> proves its
    invariant, \<open>Tui_Sync\<close> that its page follows the server's list, \<open>Tui_Runs\<close> what holds over whole
    runs, \<open>Tui_Socket\<close> the reader of the socket beside the bounded queue, \<open>Tui_Client\<close> that the
    server reads the client's queries as they were meant.

  \<^bold>\<open>State and errors.\<close> A call returns a result and the state it leaves. Everything outside is data
  of the state: what arrives on a socket and in which pieces, which statements fail and when a
  deadline has passed, which sessions give up, ids and times to come, how relays answer. The
  libraries (mail-parser, zstd, the base64 and quoted-printable decoders, the functions of SQLite,
  JSON, URL and TOML parsing, Unicode tables) are parameters; a property that relies on one states
  what it relies on as a hypothesis and has a witness with a concrete instance.

  \<^bold>\<open>Loops and fuel.\<close> Loops are total functions with a measure (the bytes or deliveries left, the free
  pages, the retries left); no property rests on fuel, except that \<open>follow\<close> and \<open>walk\<close>, which
  stand for a client and not for the program, take the number of requests they may make, and the
  number that is enough is part of the theorem. The loop of \<open>prepare_with\<close> goes round again only
  after it put an interrupted copy into place, and then finds a database; it has fuel for those two
  rounds, which are proved to be enough. Integers keep their width where it matters:
  declared sizes, page arithmetic, durations, retention hours.

  \<^bold>\<open>Not modelled.\<close> Concurrency between handlers, processor and sweep inside one step: steps are
  interleaved, not split. The drawing of the terminal client and the set-up of its terminal: what a
  drawing writes back is an input. Connection pools and tuning pragmas, signals and shutdown
  deadlines, webhook posts, argument parsing, routing and JSON encoding, logging and progress
  reports, the TLS handshake, embedded static files: I/O or third-party code. The web UI, docs and
  scripts are not Rust code of the server.
\<close>

subsection \<open>A client behind a connection\<close>

lemma caught_up_texts:
  assumes "gapless (length log) c" "ws_open c" "rx_next c = length (feed_log c)" "feed_log c = log @ evs"
  shows "texts c = evs"
proof -
  have "length evs = length (texts c)" "texts c = take (length (texts c)) evs"
    using assms by (auto simp: gapless_def)
  then show ?thesis by (metis take_all_iff order_refl)
qed

text \<open>
  C3. A client that opened its WebSocket when it loaded the list, and has been sent every frame
  since, shows exactly what the database holds, whatever the server did in between: messages
  stored, updated, deleted by clients or swept by retention.
\<close>

theorem connected_client_shows_the_database:
  assumes "\<And>ev. encodes L ev" and "json_each (sql L) ''[]'' = []" and "db_wf (sql L) (tables (app_repo a))"
    and "ws_run T (ws_connect T (events a) capacity fs) c" and "feed_log c = events (foldl (server_step L) a steps)"
    and "ws_open c" and "rx_next c = length (feed_log c)"
  shows "foldl (mirror_event (mime L)) (listed a) (texts c) = listed (foldl (server_step L) a steps)"
proof -
  obtain evs where evs: "events (foldl (server_step L) a steps) = events a @ evs"
    "foldl (mirror_event (mime L)) (listed a) evs = listed (foldl (server_step L) a steps)"
    using steps_keep_pace [OF assms(1,2), of a steps] assms(3) by (auto simp: keeps_pace_def)
  have "gapless (length (events a)) c" using run_gapless [OF assms(4) connect_gapless] .
  then have "texts c = evs" using caught_up_texts assms(5-7) evs(1) by metis
  then show ?thesis using evs(2) by simp
qed

theorem connected_client_shows_the_database_witness:
  "foldl (mirror_event plain_mime) (listed one_app) (texts (on_event default_timings one_event_conn)) =
   listed (server_step plain_api one_app DeleteAllMessages)"
proof -
  have "events (server_step plain_api one_app DeleteAllMessages) = [Api_Handlers.MessagesClear]"
    "feed_log (on_event default_timings one_event_conn) = [Api_Handlers.MessagesClear]"
    "ws_open (on_event default_timings one_event_conn)" "rx_next (on_event default_timings one_event_conn) = 1" by code_simp+
  then show ?thesis
    using connected_client_shows_the_database [of plain_api one_app default_timings 16 "[]"
        "on_event default_timings one_event_conn" "[DeleteAllMessages]"] one_app_ready one_event_run
    by (simp add: plain_api_def plain_sql_def one_app_def)
qed

end
